(* ===== verification/Prelude.thy ===== *)
theory Prelude
  imports Main "HOL-Library.Word" "HOL-Library.Signed_Division"
begin

unbundle bit_operations_syntax

text \<open>
  Shared vocabulary of the development: the engine's machine types
  (src/src/include/fb_types.h: UCHAR, USHORT, ULONG, SINT64), the reading of a byte as
  the C type \<open>signed char\<close>, truncating C division, generic facts on lists, and the
  collections that the component theories extend.
\<close>

section \<open>Machine types\<close>

type_synonym UCHAR = "8 word"
type_synonym USHORT = "16 word"
type_synonym ULONG = "32 word"
type_synonym SSHORT = "16 word"
type_synonym SLONG = "32 word"
type_synonym SINT64 = "64 word"
type_synonym bytes = "UCHAR list"

named_theorems loop_step \<open>one unfolding of a loop of the code\<close>
named_theorems codec \<open>facts that read back what was written\<close>
named_theorems bounds \<open>length and range facts of the model's operations\<close>

section \<open>Signed bytes\<close>

definition schar :: "UCHAR \<Rightarrow> int" where
  "schar b = sint b"

lemma schar_of_int: "-128 \<le> i \<Longrightarrow> i \<le> 127 \<Longrightarrow> schar (word_of_int i) = i"
  by (simp add: schar_def signed_of_int signed_take_bit_int_eq_self)

lemma schar_of_nat [simp]: "n \<le> 127 \<Longrightarrow> schar (of_nat n) = int n"
  using schar_of_int [of "int n"] by simp

lemma schar_uminus_of_nat [simp]: "n \<le> 128 \<Longrightarrow> schar (- of_nat n) = - int n"
  using schar_of_int [of "- int n"] by simp

lemma schar_ge [bounds]: "-128 \<le> schar b"
  using sint_greater_eq [of b] by (simp add: schar_def)

lemma schar_le [bounds]: "schar b \<le> 127"
  using sint_lt [of b] by (simp add: schar_def)

section \<open>Bits and values of words\<close>

lemma not_bit_ge:
  fixes w :: "'a::len word"
  assumes "unat w < 2 ^ k" and "k \<le> n"
  shows "\<not> bit w n"
proof -
  have "unat (take_bit k w) = unat w"
    using assms(1) by (simp add: unsigned_take_bit_eq take_bit_nat_eq_self)
  then have "take_bit k w = w" by (simp only: word_unat_eq_iff)
  then show ?thesis using assms(2) by (metis bit_take_bit_iff not_le)
qed

lemma sint_eq_unat:
  fixes w :: "'a::len word"
  assumes "unat w < 2 ^ (LENGTH('a) - 1)"
  shows "sint w = int (unat w)"
proof -
  have "sint w = signed_take_bit (LENGTH('a) - Suc 0) (int (unat w))"
    by (simp add: sint_uint)
  also have "\<dots> = int (unat w)"
  proof (rule signed_take_bit_int_eq_self)
    show "- (2 ^ (LENGTH('a) - Suc 0)) \<le> int (unat w)"
      by (rule order_trans [of _ 0]) auto
    show "int (unat w) < 2 ^ (LENGTH('a) - Suc 0)"
      using assms by (metis One_nat_def of_nat_less_iff of_nat_numeral of_nat_power)
  qed
  finally show ?thesis .
qed

lemma unat_of_nat_eq: "n < 2 ^ LENGTH('a) \<Longrightarrow> unat (of_nat n :: 'a::len word) = n"
  by (simp add: unsigned_of_nat take_bit_nat_eq_self)

lemma unat_less_16 [bounds]: "unat (w :: USHORT) < 65536"
  using unsigned_less [of w] by simp

lemma unat_less_32 [bounds]: "unat (w :: ULONG) < 4294967296"
  using unsigned_less [of w] by simp

lemma unat_less_8 [bounds]: "unat (w :: UCHAR) < 256"
  using unsigned_less [of w] by simp

section \<open>C division on non-negative operands\<close>

lemma sdiv_of_nat [simp]: "int a sdiv int b = int (a div b)"
  by (cases "b = 0") (simp_all add: signed_divide_int_def zdiv_int sgn_if)

lemma smod_of_nat [simp]: "int a smod int b = int (a mod b)"
  by (simp add: signed_modulo_int_def zmod_int sgn_if)

end
