(* ===== verification/Codec.thy ===== *)
theory Codec
  imports Prelude "HOL-Library.Monad_Syntax"
begin

text \<open>
  Reading and writing byte streams.  A read position is the list of the bytes from it to
  the end of the page; a read beyond the end, undefined in C, is \<open>None\<close>.  The locale
  \<open>byte_codec\<close> states what a writer and its reader owe each other; from the law for one
  item it derives the law for a whole run of items.
\<close>

definition next_byte :: "bytes \<Rightarrow> (UCHAR \<times> bytes) option" where
  "next_byte p = (case p of [] \<Rightarrow> None | b # q \<Rightarrow> Some (b, q))"

lemma next_byte_simps [simp]:
  "next_byte [] = None"
  "next_byte (b # q) = Some (b, q)"
  by (simp_all add: next_byte_def)

definition next_bytes :: "nat \<Rightarrow> bytes \<Rightarrow> (bytes \<times> bytes) option" where
  "next_bytes n p = (if length p < n then None else Some (take n p, drop n p))"

lemma next_bytes_append [simp]: "length ds = n \<Longrightarrow> next_bytes n (ds @ rest) = Some (ds, rest)"
  by (simp add: next_bytes_def)

fun read_seq :: "(bytes \<Rightarrow> ('a \<times> bytes) option) \<Rightarrow> nat \<Rightarrow> bytes \<Rightarrow> ('a list \<times> bytes) option" where
  "read_seq rd 0 p = Some ([], p)"
| "read_seq rd (Suc n) p =
     (case rd p of
        None \<Rightarrow> None
      | Some (x, q) \<Rightarrow>
          (case read_seq rd n q of None \<Rightarrow> None | Some (xs, q') \<Rightarrow> Some (x # xs, q')))"

section \<open>Readers consume their input\<close>

definition consumes :: "('a \<times> bytes) option \<Rightarrow> nat \<Rightarrow> bool" where
  "consumes r n \<longleftrightarrow> (case r of None \<Rightarrow> True | Some (x, q) \<Rightarrow> length q \<le> n)"

named_theorems consuming \<open>introduction rules for the readers' consumption\<close>

lemma consumes_Some [consuming]: "length q \<le> n \<Longrightarrow> consumes (Some (x, q)) n"
  by (simp add: consumes_def)

lemma consumes_bind [consuming]:
  "consumes r n \<Longrightarrow> (\<And>x q. length q \<le> n \<Longrightarrow> consumes (f x q) n) \<Longrightarrow> consumes (r \<bind> (\<lambda>(x, q). f x q)) n"
  by (fastforce simp: consumes_def split: option.splits)

lemma consumes_if [consuming]:
  "(b \<Longrightarrow> consumes r n) \<Longrightarrow> (\<not> b \<Longrightarrow> consumes s n) \<Longrightarrow> consumes (if b then r else s) n"
  by simp

lemma consumes_next_byte [consuming]: "length p \<le> n \<Longrightarrow> consumes (next_byte p) n"
  by (cases p) (simp_all add: consumes_def)

lemma consumes_next_bytes [consuming]: "length p \<le> n \<Longrightarrow> consumes (next_bytes k p) n"
  by (auto simp: next_bytes_def consumes_def)

lemma consumesD: "consumes r n \<Longrightarrow> r = Some (x, q) \<Longrightarrow> length q \<le> n"
  by (simp add: consumes_def)

section \<open>Codecs\<close>

locale byte_codec =
  fixes valid :: "'a \<Rightarrow> bool"
    and enc :: "'a \<Rightarrow> bytes"
    and dec :: "bytes \<Rightarrow> ('a \<times> bytes) option"
  assumes dec_enc: "valid x \<Longrightarrow> dec (enc x @ rest) = Some (x, rest)"
begin

lemma read_seq_enc:
  "list_all valid xs \<Longrightarrow> read_seq dec (length xs) (concat (map enc xs) @ rest) = Some (xs, rest)"
  by (induction xs) (simp_all add: dec_enc)

lemma enc_inj: "valid x \<Longrightarrow> valid y \<Longrightarrow> enc x = enc y \<Longrightarrow> x = y"
  by (metis dec_enc option.inject prod.inject)

lemma enc_prefix_free:
  assumes "valid x" and "valid y" and "enc x @ rest = enc y @ rest'"
  shows "x = y \<and> rest = rest'"
  using assms by (metis dec_enc option.inject prod.inject)

end

section \<open>Overwriting part of a buffer\<close>

definition patch :: "nat \<Rightarrow> bytes \<Rightarrow> bytes \<Rightarrow> bytes" where
  "patch p xs buf = take p buf @ xs @ drop (p + length xs) buf"

lemma patch_Nil [simp]: "patch p [] buf = buf"
  by (simp add: patch_def)

lemma length_patch [simp]: "p + length xs \<le> length buf \<Longrightarrow> length (patch p xs buf) = length buf"
  by (simp add: patch_def)

lemma drop_patch:
  "p + length xs \<le> length buf \<Longrightarrow> drop (p + length xs) (patch p xs buf) = drop (p + length xs) buf"
  by (simp add: patch_def)

lemma drop_patch_start:
  "p \<le> length buf \<Longrightarrow> drop p (patch p xs buf) = xs @ drop (p + length xs) buf"
  by (simp add: patch_def)

lemma patch_patch:
  "p + length xs + length ys \<le> length buf \<Longrightarrow>
     patch (p + length xs) ys (patch p xs buf) = patch p (xs @ ys) buf"
  by (simp add: patch_def ac_simps)

lemma patch_before:
  assumes "p + length xs + length ys \<le> length buf"
  shows "patch p xs (patch (p + length xs) ys buf) = patch p (xs @ ys) buf"
  using assms by (simp add: patch_def ac_simps min_def)

lemma patch_same: "take (length xs) (drop p buf) = xs \<Longrightarrow> patch p xs buf = buf"
  unfolding patch_def by (metis append_take_drop_id drop_drop add.commute)

end
