(* ===== verification/Compressor.thy ===== *)
theory Compressor
  imports Codec
begin

text \<open>
  The record compressor of \<^verbatim>\<open>src/src/jrd/sqz.cpp\<close>: the run-length coder that every record
  version passes through on its way to a data page (class \<open>Compressor\<close>: constructor,
  the two \<open>pack\<close> methods, \<open>getPartialLength\<close>, \<open>unpack\<close>) and the delta coder for back
  versions (\<open>makeDiff\<close>, \<open>makeNoDiff\<close>, \<open>applyDiff\<close>).

  A pair of pointers \<open>(p, end)\<close> into a buffer is the list of the bytes between them; an
  output pointer is the list of the bytes written so far, and its distance to the end of
  the buffer is a number.  A \<open>BUGCHECK(n)\<close> is the error \<open>Bugcheck n\<close>.  A read beyond
  the end of the input, which C leaves undefined, is the error \<open>ReadOverrun\<close>.
\<close>

datatype sqz_error = Bugcheck nat | ReadOverrun

section \<open>The constructor: building the control string\<close>

record compressor =
  m_control :: bytes
  m_length :: nat

text \<open>
  The search for the end of a non-compressible run: \<open>data\<close> advances until three equal
  bytes follow each other or \<open>max\<close> runs out.  The result is the new \<open>count\<close>; \<open>pos\<close> is
  \<open>data - start\<close>.
\<close>

fun find_run :: "bytes \<Rightarrow> nat \<Rightarrow> nat \<Rightarrow> nat \<Rightarrow> nat" where
  "find_run (a # b # c # ds) pos mx count =
     (if a \<noteq> b \<or> a \<noteq> c
      then (if mx - 1 > 1 then find_run (b # c # ds) (pos + 1) (mx - 1) count else count)
      else pos)"
| "find_run _ pos mx count = count"

definition noncomp_count :: "bytes \<Rightarrow> nat" where
  "noncomp_count data =
     (let count = length data; mx = count - 1
      in if mx > 1 then find_run data 0 mx count else count)"

text \<open>Non-compressible runs are cut into pieces of at most 127 bytes.\<close>

function put_literals :: "nat \<Rightarrow> compressor \<Rightarrow> compressor" where
  "put_literals count c =
     (if count = 0 then c
      else let mx = min count 127
           in put_literals (count - mx)
                (c\<lparr>m_length := m_length c + (1 + mx), m_control := m_control c @ [of_nat mx]\<rparr>))"
  by pat_completeness auto
termination
  by (relation "measure fst") auto

declare put_literals.simps [simp del]

text \<open>The length of the run of bytes equal to \<open>c\<close>, at most \<open>max\<close>.\<close>

fun run_length :: "UCHAR \<Rightarrow> nat \<Rightarrow> bytes \<Rightarrow> nat" where
  "run_length c (Suc mx) (d # ds) = (if d \<noteq> c then 0 else Suc (run_length c mx ds))"
| "run_length c _ _ = 0"

definition put_run :: "bytes \<Rightarrow> compressor \<Rightarrow> bytes \<times> compressor" where
  "put_run data c =
     (let mx = min 128 (length data)
      in if mx \<ge> 3
         then let n = run_length (hd data) mx data
              in (drop n data,
                  c\<lparr>m_control := m_control c @ [- of_nat n], m_length := m_length c + 2\<rparr>)
         else (data, c))"

lemma find_run_0:
  "find_run data pos mx count = pos \<Longrightarrow> pos < count \<Longrightarrow> mx > 1 \<Longrightarrow>
     \<exists>a ds. data = a # a # a # ds"
proof -
  have *: "find_run data p mx count = pos \<Longrightarrow> pos < count \<Longrightarrow> pos \<le> p \<Longrightarrow>
      p = pos \<and> (\<exists>a ds. data = a # a # a # ds)" for p
    by (induction data p mx count rule: find_run.induct) (auto split: if_splits)
  show "find_run data pos mx count = pos \<Longrightarrow> pos < count \<Longrightarrow> mx > 1 \<Longrightarrow>
     \<exists>a ds. data = a # a # a # ds"
    using * [of pos] by blast
qed

lemma noncomp_count_0:
  assumes "noncomp_count data = 0" and "data \<noteq> []"
  shows "\<exists>a ds. data = a # a # a # ds"
proof (rule find_run_0)
  show "find_run data 0 (length data - 1) (length data) = 0"
    using assms by (simp add: noncomp_count_def Let_def split: if_splits)
  show "0 < length data" using assms(2) by simp
  show "length data - 1 > 1" using assms by (auto simp: noncomp_count_def Let_def split: if_splits)
qed

lemma run_length_Cons_pos: "0 < mx \<Longrightarrow> 0 < run_length a mx (a # ds)"
  by (cases mx) auto

text \<open>The main loop: a non-compressible run, then a compressible one.\<close>

function compress_loop :: "bytes \<Rightarrow> compressor \<Rightarrow> compressor" where
  "compress_loop data c =
     (if data = [] then c
      else let count = noncomp_count data;
               (data', c') = put_run (drop count data) (put_literals count c)
           in compress_loop data' c')"
  by pat_completeness auto
termination
proof (relation "measure (length \<circ> fst)", goal_cases)
  case 1
  show ?case by simp
next
  case (2 data c count y data' c')
  have le: "length (fst (put_run (drop count data) (put_literals count c))) \<le> length data - count"
    by (auto simp: put_run_def Let_def)
  show ?case
  proof (cases "count = 0")
    case True
    then obtain a ds where "data = a # a # a # ds"
      using noncomp_count_0 [of data] 2(1,2) by auto
    then have "length data' < length data"
      using 2(3,4) True run_length_Cons_pos [of "min 128 (length data)" a "a # a # ds"]
      by (auto simp: put_run_def Let_def split: if_splits)
    then show ?thesis by simp
  next
    case False
    then show ?thesis using 2 le by (cases data) auto
  qed
qed

declare compress_loop.simps [simp del]

definition Compressor :: "bytes \<Rightarrow> compressor" where
  "Compressor data = compress_loop data \<lparr>m_control = [], m_length = 0\<rparr>"

definition getPackedLength :: "compressor \<Rightarrow> nat" where
  "getPackedLength c = m_length c"

definition getControlSize :: "compressor \<Rightarrow> nat" where
  "getControlSize c = length (m_control c)"


section \<open>Packing\<close>

text \<open>\<open>pack(input, output)\<close>: the output area is assumed to be large enough.\<close>

fun pack :: "bytes \<Rightarrow> bytes \<Rightarrow> bytes \<Rightarrow> sqz_error + bytes" where
  "pack [] input output = Inr output"
| "pack (k # control) input output =
     (let len = schar k; output = output @ [word_of_int len]
      in if len < 0
         then (case input of
                 [] \<Rightarrow> Inl ReadOverrun
               | b # _ \<Rightarrow> pack control (drop (nat (- len)) input) (output @ [b]))
         else if len > 0
         then (if length input < nat len then Inl ReadOverrun
               else pack control (drop (nat len) input) (output @ take (nat len) input))
         else pack control input output)"

text \<open>
  \<open>pack(input, outLength, output)\<close>: stops when the area is full.  The result holds the
  number of input bytes consumed (\<open>input - start\<close>) and the bytes written.
\<close>

fun pack_limited :: "bytes \<Rightarrow> bytes \<Rightarrow> int \<Rightarrow> nat \<Rightarrow> bytes \<Rightarrow> sqz_error + (nat \<times> bytes)" where
  "pack_limited [] input space n output = Inl (Bugcheck 178)"
| "pack_limited (k # control) input space n output =
     (let space = space - 1
      in if space \<le> 0 then Inr (n, if space = 0 then output @ [0] else output)
         else
           let len = schar k
           in if len < 0
              then (case input of
                      [] \<Rightarrow> Inl ReadOverrun
                    | b # _ \<Rightarrow>
                        let m = nat ((- len) AND 255)
                        in pack_limited control (drop m input) (space - 1) (n + m)
                             (output @ [word_of_int len, b]))
              else let space = space - len
                   in if space < 0
                      then let len = len + space
                           in if length input < nat len then Inl ReadOverrun
                              else Inr (n + nat len, output @ [word_of_int len] @ take (nat len) input)
                      else if length input < nat len then Inl ReadOverrun
                      else pack_limited control (drop (nat len) input) space (n + nat len)
                             (output @ [word_of_int len] @ take (nat len) input))"

fun partial_length :: "bytes \<Rightarrow> int \<Rightarrow> nat \<Rightarrow> sqz_error + nat" where
  "partial_length [] space n = Inl (Bugcheck 178)"
| "partial_length (k # control) space n =
     (let space = space - 1
      in if space \<le> 0 then Inr n
         else
           let len = schar k
           in if len < 0
              then partial_length control (space - 1) (n + nat ((- len) AND 255))
              else let space = space - len
                   in if space < 0 then Inr (n + nat (len + space))
                      else partial_length control space (n + nat len))"

definition getPartialLength :: "compressor \<Rightarrow> nat \<Rightarrow> sqz_error + nat" where
  "getPartialLength c inLength = partial_length (m_control c) (int inLength) 0"

section \<open>Unpacking\<close>

function unpack_loop :: "bytes \<Rightarrow> nat \<Rightarrow> bytes \<Rightarrow> sqz_error + bytes" where
  "unpack_loop [] outLength output =
     (if length output > outLength then Inl (Bugcheck 179) else Inr output)"
| "unpack_loop (k # input) outLength output =
     (let len = schar k
      in if len < 0
         then (case input of
                 [] \<Rightarrow> Inl (Bugcheck 179)
               | c # input' \<Rightarrow>
                   if length output + nat (- len) > outLength then Inl (Bugcheck 179)
                   else unpack_loop input' outLength (output @ replicate (nat (- len)) c))
         else if length output + nat len > outLength then Inl (Bugcheck 179)
         else if length input < nat len then Inl ReadOverrun
         else unpack_loop (drop (nat len) input) outLength (output @ take (nat len) input))"
  by pat_completeness auto
termination
  by (relation "measure (\<lambda>(input, _, _). length input)") auto

text \<open>The result is the bytes written from \<open>output\<close> on; the C code returns the address after them.\<close>

definition unpack :: "bytes \<Rightarrow> nat \<Rightarrow> sqz_error + bytes" where
  "unpack input outLength = unpack_loop input outLength []"

section \<open>Differences\<close>

definition MAX_DIFFERENCES :: nat where
  "MAX_DIFFERENCES = 1024"

text \<open>
  \<open>applyDiff\<close> patches the record in \<open>output\<close> in place; \<open>p\<close> is an index into it.
\<close>

function apply_loop :: "bytes \<Rightarrow> nat \<Rightarrow> nat \<Rightarrow> bytes \<Rightarrow> sqz_error + (bytes \<times> nat \<times> bytes)" where
  "apply_loop [] outLength p output = Inr ([], p, output)"
| "apply_loop (k # differences) outLength p output =
     (if p < outLength
      then let l = schar k
           in if l > 0
              then (if p + nat l > outLength then Inl (Bugcheck 177)
                    else if length differences < nat l then Inl (Bugcheck 176)
                    else apply_loop (drop (nat l) differences) outLength (p + nat l)
                           (take p output @ take (nat l) differences @ drop (p + nat l) output))
              else apply_loop differences outLength (p + nat (- l)) output
      else Inr (k # differences, p, output))"
  by pat_completeness auto
termination
  by (relation "measure (\<lambda>(d, _, _, _). length d)") auto

definition applyDiff :: "bytes \<Rightarrow> nat \<Rightarrow> bytes \<Rightarrow> sqz_error + (nat \<times> bytes)" where
  "applyDiff differences outLength output =
     (if length differences > MAX_DIFFERENCES then Inl (Bugcheck 176)
      else case apply_loop differences outLength 0 output of
             Inl e \<Rightarrow> Inl e
           | Inr (rest, len, output') \<Rightarrow>
               if len > outLength \<or> rest \<noteq> [] then Inl (Bugcheck 177) else Inr (len, output'))"

text \<open>
  \<open>makeNoDiff\<close>: a difference record that changes nothing.
\<close>

function makeNoDiff :: "nat \<Rightarrow> bytes" where
  "makeNoDiff len =
     (if len > 127 then word_of_int (-127) # makeNoDiff (len - 127)
      else if len \<noteq> 0 then [word_of_int (- int len)] else [])"
  by pat_completeness auto
termination
  by (relation "measure id") auto

declare makeNoDiff.simps [simp del]

text \<open>
  The literal loop of \<open>makeDiff\<close>.  \<open>m\<close> is \<open>yellow + 1 - rec1\<close>, \<open>room\<close> is \<open>end - output\<close>;
  \<open>None\<close> is the macro \<open>STUFF\<close> returning \<open>MAX_ULONG\<close> because the area is full.
\<close>

fun diff_literals :: "nat \<Rightarrow> bytes \<Rightarrow> bytes \<Rightarrow> nat \<Rightarrow> bytes \<Rightarrow> (bytes \<times> bytes \<times> bytes) option" where
  "diff_literals (Suc m) (a # rec1) (b # rec2) room lits =
     (if a \<noteq> b \<or> (m > 0 \<and> hd rec1 \<noteq> hd rec2)
      then (if room > 0 then diff_literals m rec1 rec2 (room - 1) (lits @ [b]) else None)
      else Some (a # rec1, b # rec2, lits))"
| "diff_literals _ rec1 rec2 room lits = Some (rec1, rec2, lits)"

text \<open>The length of the common prefix of the two records.\<close>

fun equal_run :: "bytes \<Rightarrow> bytes \<Rightarrow> nat" where
  "equal_run (a # rec1) (b # rec2) = (if a = b then Suc (equal_run rec1 rec2) else 0)"
| "equal_run _ _ = 0"

text \<open>The skip counts of an equal run of \<open>l\<close> bytes, at most 127 each.\<close>

function put_skips :: "nat \<Rightarrow> nat \<Rightarrow> bytes \<Rightarrow> bytes option" where
  "put_skips l outLength output =
     (if l > 127
      then (if length output < outLength
            then put_skips (l - 127) outLength (output @ [word_of_int (-127)]) else None)
      else if l \<noteq> 0
      then (if length output < outLength then Some (output @ [word_of_int (- int l)]) else None)
      else Some output)"
  by pat_completeness auto
termination
  by (relation "measure (\<lambda>(l, _, _). l)") auto

declare put_skips.simps [simp del]

text \<open>
  What is left of the new record is stored literally.  The control byte is skipped before
  the bytes are stuffed, so a piece of \<open>n\<close> bytes fits if \<open>1 + n\<close> bytes are left.
\<close>

function diff_tail :: "bytes \<Rightarrow> nat \<Rightarrow> bytes \<Rightarrow> bytes option" where
  "diff_tail rec2 outLength output =
     (if rec2 = [] then Some output
      else let n = min (length rec2) 127
           in if length output + 1 + n \<le> outLength
              then diff_tail (drop n rec2) outLength (output @ [of_nat n] @ take n rec2)
              else None)"
  by pat_completeness auto
termination
  by (relation "measure (\<lambda>(r, _, _). length r)") auto

declare diff_tail.simps [simp del]

lemma diff_literals_length:
  "diff_literals m rec1 rec2 room lits = Some (r1, r2, lits') \<Longrightarrow> length r1 \<le> length rec1"
  by (induction m rec1 rec2 room lits rule: diff_literals.induct) (auto split: if_splits)

lemma diff_literals_progress:
  assumes "diff_literals m rec1 rec2 room [] = Some (r1, r2, lits)"
    and "m = min (length rec1) 127" and "2 < length rec1" and "2 \<le> length rec2"
    and "rec1 ! 0 \<noteq> rec2 ! 0 \<or> rec1 ! 1 \<noteq> rec2 ! 1"
  shows "length r1 < length rec1"
proof -
  obtain a a' as where rec1: "rec1 = a # a' # as" and "as \<noteq> []"
    using assms(3) by (cases rec1; cases "tl rec1"; force)
  obtain b b' bs where rec2: "rec2 = b # b' # bs"
    using assms(4) by (cases rec2; cases "tl rec2"; force)
  obtain k where m: "m = Suc (Suc k)"
    using assms(2,3) by (cases m; cases "m - 1"; force simp: min_def split: if_splits)
  show ?thesis
    using assms(1,5) diff_literals_length [of "Suc k" "a' # as" "b' # bs" "room - 1" "[b]" r1 r2 lits]
    by (auto simp: rec1 rec2 m split: if_splits)
qed

text \<open>
  The records' common part; \<open>rec1\<close> runs up to \<open>end1\<close>, \<open>rec2\<close> up to \<open>end2\<close>.  Since \<open>end1\<close> is
  cut at the shorter of the two lengths and both pointers advance together, \<open>rec1\<close> is never
  longer than \<open>rec2\<close>: the second half of the guard is always true and only makes the
  function total.
\<close>

function diff_loop :: "bytes \<Rightarrow> bytes \<Rightarrow> nat \<Rightarrow> bytes \<Rightarrow> bytes option" where
  "diff_loop rec1 rec2 outLength output =
     (if length rec1 > 2 \<and> length rec1 \<le> length rec2
      then if rec1 ! 0 \<noteq> rec2 ! 0 \<or> rec1 ! 1 \<noteq> rec2 ! 1
           then (case diff_literals (min (length rec1) 127) rec1 rec2
                        (outLength - (length output + 1)) [] of
                   None \<Rightarrow> None
                 | Some (rec1', rec2', lits) \<Rightarrow>
                     diff_loop rec1' rec2' outLength (output @ [of_nat (length lits)] @ lits))
           else let l = equal_run rec1 rec2
                in (case put_skips l outLength output of
                      None \<Rightarrow> None
                    | Some output' \<Rightarrow> diff_loop (drop l rec1) (drop l rec2) outLength output')
      else diff_tail rec2 outLength output)"
  by pat_completeness auto
termination
proof (relation "measure (\<lambda>(r, _, _, _). length r)", goal_cases)
  case 1
  show ?case by simp
next
  case (2 rec1 rec2 outLength out a r1 y r2 lits)
  then show ?case using diff_literals_progress by fastforce
next
  case (3 rec1 rec2 outLength out l out')
  then obtain a b as bs where "rec1 = a # as" "rec2 = b # bs"
    by (cases rec1; cases rec2; force)
  with 3 show ?case by auto
qed

declare diff_loop.simps [simp del]

definition makeDiff :: "bytes \<Rightarrow> bytes \<Rightarrow> nat \<Rightarrow> bytes option" where
  "makeDiff rec1 rec2 outLength =
     diff_loop (take (min (length rec1) (length rec2)) rec1) rec2 outLength []"



section \<open>Control strings that cover a record\<close>

definition chunk_size :: "UCHAR \<Rightarrow> nat" where
  "chunk_size k = (if schar k < 0 then 2 else 1 + nat (schar k))"

definition packed_size :: "bytes \<Rightarrow> nat" where
  "packed_size ks = sum_list (map chunk_size ks)"

lemma packed_size_simps [simp]:
  "packed_size [] = 0"
  "packed_size (k # ks) = chunk_size k + packed_size ks"
  "packed_size (ks @ ls) = packed_size ks + packed_size ls"
  by (simp_all add: packed_size_def)

fun covers :: "bytes \<Rightarrow> bytes \<Rightarrow> bool" where
  "covers [] data = (data = [])"
| "covers (k # ks) data =
     (let n = nat \<bar>schar k\<bar>
      in 0 < n \<and> n \<le> length data \<and> (schar k < 0 \<longrightarrow> take n data = replicate n (hd data))
         \<and> covers ks (drop n data))"

lemma run_length_le [bounds]: "run_length c mx data \<le> mx \<and> run_length c mx data \<le> length data"
  by (induction c mx data rule: run_length.induct) auto

lemma run_length_take: "take (run_length c mx data) data = replicate (run_length c mx data) c"
  by (induction c mx data rule: run_length.induct) auto

lemma run_length_three: "3 \<le> mx \<Longrightarrow> 3 \<le> run_length a mx (a # a # a # ds)"
  by (cases mx; cases "mx - 1"; cases "mx - 2") auto

lemma find_run_result:
  "find_run data pos mx count = r \<Longrightarrow>
     r = count \<or> (pos \<le> r \<and> r < pos + length data \<and> (\<exists>a ds. drop (r - pos) data = a # a # a # ds))"
proof (induction data pos mx count rule: find_run.induct)
  case (1 a b c ds pos mx count)
  show ?case
  proof (cases "(a \<noteq> b \<or> a \<noteq> c) \<and> 1 < mx - 1")
    case True
    then consider "r = count" | a' ds' where "pos + 1 \<le> r" "r < pos + 1 + length (b # c # ds)"
        "drop (r - (pos + 1)) (b # c # ds) = a' # a' # a' # ds'"
      using 1 by auto
    then show ?thesis
    proof cases
      case 2
      have "drop (r - pos) (a # b # c # ds) = drop (r - (pos + 1)) (b # c # ds)"
        using 2(1) by (metis Suc_diff_Suc Suc_eq_plus1 drop_Suc_Cons less_eq_Suc_le)
      with 2 show ?thesis by auto
    qed blast
  next
    case False
    with 1 show ?thesis by (auto split: if_splits)
  qed
qed auto

lemma noncomp_count_result:
  "noncomp_count data = length data \<or>
   (noncomp_count data < length data \<and>
     (\<exists>a ds. drop (noncomp_count data) data = a # a # a # ds))"
  using find_run_result [of data 0 "length data - 1" "length data"]
  by (auto simp: noncomp_count_def Let_def)

lemma covers_literals:
  "\<exists>ks. put_literals n c = c\<lparr>m_control := m_control c @ ks, m_length := m_length c + packed_size ks\<rparr>
     \<and> length ks = (n + 126) div 127 \<and> packed_size ks = n + (n + 126) div 127
     \<and> (\<forall>ls data. n \<le> length data \<longrightarrow> covers (ks @ ls) data = covers ls (drop n data))"
proof (induction n c rule: put_literals.induct)
  case (1 n c)
  show ?case
  proof (cases "n = 0")
    case True
    then show ?thesis by (intro exI [of _ "[]"]) (simp add: put_literals.simps)
  next
    case False
    define mx where "mx = min n 127"
    have mx: "0 < mx" "mx \<le> 127" "mx \<le> n" using False by (auto simp: mx_def)
    let ?c = "c\<lparr>m_length := m_length c + (1 + mx), m_control := m_control c @ [of_nat mx]\<rparr>"
    from 1 [OF False mx_def] obtain ks where ks:
      "put_literals (n - mx) ?c = ?c\<lparr>m_control := m_control ?c @ ks, m_length := m_length ?c + packed_size ks\<rparr>"
      "length ks = (n - mx + 126) div 127" "packed_size ks = n - mx + (n - mx + 126) div 127"
      "\<forall>ls data. n - mx \<le> length data \<longrightarrow> covers (ks @ ls) data = covers ls (drop (n - mx) data)"
      by blast
    have len: "length (of_nat mx # ks) = (n + 126) div 127"
      using ks(2) False by (cases "n \<le> 127") (auto simp: mx_def)
    have size: "packed_size (of_nat mx # ks) = n + (n + 126) div 127"
      using ks(2,3) len mx by (simp add: chunk_size_def)
    have "put_literals n c = put_literals (n - mx) ?c"
      using False by (subst put_literals.simps) (simp add: mx_def Let_def)
    also have "\<dots> = c\<lparr>m_control := m_control c @ (of_nat mx # ks),
        m_length := m_length c + packed_size (of_nat mx # ks)\<rparr>"
      unfolding ks(1) using mx by (simp add: chunk_size_def)
    finally show ?thesis
      using len size mx ks(4) by (intro exI [of _ "of_nat mx # ks"]) (auto simp: Let_def)
  qed
qed

lemma covers_run:
  assumes "data = a # a # a # ds" and "put_run data c = (data', c')"
  shows "\<exists>k. c' = c\<lparr>m_control := m_control c @ [k], m_length := m_length c + packed_size [k]\<rparr>
     \<and> length data' + 3 \<le> length data \<and> packed_size [k] = 2
     \<and> (\<forall>ls. covers (k # ls) data = covers ls data')"
proof -
  define n where "n = run_length a (min 128 (length data)) data"
  have n: "3 \<le> n" "n \<le> 128" "n \<le> length data" "take n data = replicate n a"
    using run_length_three [of "min 128 (length data)" a ds] run_length_take [of a]
      run_length_le [of a "min 128 (length data)" data] assms(1) by (auto simp: n_def)
  have *: "c' = c\<lparr>m_control := m_control c @ [- of_nat n], m_length := m_length c + 2\<rparr>"
    "data' = drop n data"
    using assms by (auto simp: put_run_def Let_def n_def split: if_splits)
  show ?thesis
    by (rule exI [of _ "- of_nat n"]) (use n assms(1) in \<open>auto simp: * chunk_size_def Let_def\<close>)
qed

lemma compress_loop_covers:
  "\<exists>ks. m_control (compress_loop data c) = m_control c @ ks
      \<and> m_length (compress_loop data c) = m_length c + packed_size ks
      \<and> covers ks data \<and> 2 * length ks \<le> length data + 1
      \<and> packed_size ks \<le> length data + (length data + 126) div 127"
proof (induction data c rule: compress_loop.induct)
  case (1 data c)
  show ?case
  proof (cases "data = []")
    case True
    then show ?thesis by (simp add: compress_loop.simps)
  next
    case False
    define n where "n = noncomp_count data"
    obtain ks where ks: "put_literals n c =
        c\<lparr>m_control := m_control c @ ks, m_length := m_length c + packed_size ks\<rparr>"
      "length ks = (n + 126) div 127" "packed_size ks = n + (n + 126) div 127"
      "\<And>ls. n \<le> length data \<Longrightarrow> covers (ks @ ls) data = covers ls (drop n data)"
      using covers_literals [of n c] by blast
    obtain data' c' where run: "put_run (drop n data) (put_literals n c) = (data', c')"
      by fastforce
    have step: "compress_loop data c = compress_loop data' c'"
      using False run by (subst compress_loop.simps) (simp add: n_def Let_def)
    obtain ls where ls: "m_control (compress_loop data' c') = m_control c' @ ls"
      "m_length (compress_loop data' c') = m_length c' + packed_size ls"
      "covers ls data'" "2 * length ls \<le> length data' + 1"
      "packed_size ls \<le> length data' + (length data' + 126) div 127"
      using 1 [OF False n_def refl, of data' c'] run by (auto simp: n_def)
    consider "n = length data" | a ds where "n < length data" "drop n data = a # a # a # ds"
      using noncomp_count_result [of data] by (auto simp: n_def)
    then show ?thesis
    proof cases
      case 1
      then have "data' = []" "c' = put_literals n c"
        using run by (auto simp: put_run_def)
      moreover from this have "compress_loop data c = put_literals n c"
        by (simp add: step compress_loop.simps [of "[]"])
      moreover have "2 * length ks \<le> length data + 1"
        using ks(2) 1 by simp
      ultimately show ?thesis
        using 1 ks(1,3) ks(4) [of "[]"] by (intro exI [of _ ks]) simp
    next
      case 2
      obtain k where k: "c' = (put_literals n c)\<lparr>m_control := m_control (put_literals n c) @ [k],
          m_length := m_length (put_literals n c) + packed_size [k]\<rparr>"
        "length data' + 3 \<le> length (drop n data)" "\<And>ms. covers (k # ms) (drop n data) = covers ms data'"
        "packed_size [k] = 2"
        using covers_run [OF 2(2) run] by blast
      have "2 * length (ks @ k # ls) \<le> length data + 1"
        using ls(4) k(2) ks(2) 2(1) by simp
      moreover have "packed_size (ks @ k # ls) \<le> length data + (length data + 126) div 127"
        using ls(5) k(2,4) ks(3) 2(1) by simp
      moreover have "covers (ks @ k # ls) data"
        using ks(4) k(3) ls(3) 2(1) by simp
      ultimately show ?thesis
        using ks(1) k(1) ls(1,2) by (intro exI [of _ "ks @ k # ls"]) (simp add: step)
    qed
  qed
qed

lemma Compressor_covers:
  "covers (m_control (Compressor data)) data"
  "m_length (Compressor data) = packed_size (m_control (Compressor data))"
  "2 * length (m_control (Compressor data)) \<le> length data + 1"
  "packed_size (m_control (Compressor data)) \<le> length data + (length data + 126) div 127"
  using compress_loop_covers [of data "\<lparr>m_control = [], m_length = 0\<rparr>"]
  by (auto simp: Compressor_def)


section \<open>Packing covered data\<close>

fun packed :: "bytes \<Rightarrow> bytes \<Rightarrow> bytes" where
  "packed [] data = []"
| "packed (k # ks) data =
     k # (if schar k < 0 then [hd data] else take (nat (schar k)) data)
       @ packed ks (drop (nat \<bar>schar k\<bar>) data)"

lemma word_of_int_schar [simp]: "word_of_int (schar k) = k"
  by (simp add: schar_def)

lemma length_packed: "covers ks data \<Longrightarrow> length (packed ks data) = packed_size ks"
  by (induction ks data rule: covers.induct) (auto simp: Let_def chunk_size_def)

lemma pack_covers:
  "covers ks data \<Longrightarrow> pack ks data out = Inr (out @ packed ks data)"
proof (induction ks data arbitrary: out rule: covers.induct)
  case (2 k ks data)
  then show ?case by (cases data) (auto simp: Let_def)
qed simp

declare unpack_loop.simps [simp del]

lemma unpack_run:
  "schar k < 0 \<Longrightarrow> length out + nat (- schar k) \<le> outLength \<Longrightarrow>
     unpack_loop (k # c # input) outLength out
       = unpack_loop input outLength (out @ replicate (nat (- schar k)) c)"
  by (simp add: unpack_loop.simps Let_def)

lemma unpack_lits:
  "0 \<le> schar k \<Longrightarrow> length out + length lits \<le> outLength \<Longrightarrow> nat (schar k) = length lits \<Longrightarrow>
     unpack_loop (k # lits @ input) outLength out = unpack_loop input outLength (out @ lits)"
  by (simp add: unpack_loop.simps Let_def)

lemma unpack_packed:
  "covers ks data \<Longrightarrow> length out + length data \<le> outLength \<Longrightarrow>
     unpack_loop (packed ks data @ rest) outLength out = unpack_loop rest outLength (out @ data)"
proof (induction ks data arbitrary: out rule: covers.induct)
  case (2 k ks data)
  define n where "n = nat \<bar>schar k\<bar>"
  have n: "0 < n" "n \<le> length data" and cov: "covers ks (drop n data)"
    and run: "schar k < 0 \<longrightarrow> take n data = replicate n (hd data)"
    using 2(2) by (auto simp: Let_def n_def)
  have step: "unpack_loop (packed (k # ks) data @ rest) outLength out
      = unpack_loop (packed ks (drop n data) @ rest) outLength (out @ take n data)"
  proof (cases "schar k < 0")
    case True
    then show ?thesis
      using unpack_run [of k out outLength "hd data"] 2(3) n run by (simp add: n_def Let_def)
  next
    case False
    then have sch: "schar k = int n" by (simp add: n_def)
    show ?thesis
      using unpack_lits [of k out "take n data" outLength] 2(3) n by (simp add: sch)
  qed
  also have "\<dots> = unpack_loop rest outLength ((out @ take n data) @ drop n data)"
    by (rule 2(1) [OF n_def cov]) (use 2(3) n in simp)
  finally show ?case by (simp only: append_assoc append_take_drop_id)
qed simp

lemma and_255: "0 \<le> n \<Longrightarrow> n \<le> 255 \<Longrightarrow> n AND 255 = (n::int)"
  using take_bit_eq_mask [of 8 n] by (simp add: mask_eq_exp_minus_1 take_bit_int_eq_self)

lemma pack_limited_covers:
  assumes "covers ks data" and "s < packed_size ks"
  shows "\<exists>m p. pack_limited ks data (int s) n out = Inr (n + m, out @ p)
     \<and> partial_length ks (int s) n = Inr (n + m) \<and> m < length data \<and> length p = s
     \<and> (\<forall>outLength acc. length acc + m \<le> outLength \<longrightarrow>
           unpack_loop p outLength acc = Inr (acc @ take m data))"
  using assms
proof (induction ks data arbitrary: s n out rule: covers.induct)
  case (2 k ks data)
  define l where "l = nat \<bar>schar k\<bar>"
  have l: "0 < l" "l \<le> length data" and cov: "covers ks (drop l data)"
    and run: "schar k < 0 \<longrightarrow> take l data = replicate l (hd data)"
    using 2(2) by (auto simp: Let_def l_def)
  have ne: "data \<noteq> []" using l by auto
  consider (full) "s \<le> 1" | (run) "1 < s" "schar k < 0"
    | (cut) "1 < s" "0 \<le> schar k" "s < 1 + l" | (lit) "1 < s" "0 \<le> schar k" "1 + l \<le> s"
    by linarith
  then show ?case
  proof cases
    case full
    then show ?thesis
      using ne by (intro exI [of _ 0] exI [of _ "if s = 1 then [0] else []"])
        (auto simp: Let_def schar_def unpack_loop.simps)
  next
    case run': run
    have and255: "nat ((- schar k) AND 255) = l"
      using run'(2) schar_ge [of k] by (simp add: and_255 l_def)
    have "s - 2 < packed_size ks" using 2(3) run' by (simp add: chunk_size_def)
    from 2(1) [OF l_def cov this] obtain m p where mp:
      "pack_limited ks (drop l data) (int (s - 2)) (n + l) (out @ [k, hd data])
         = Inr (n + l + m, (out @ [k, hd data]) @ p)"
      "partial_length ks (int (s - 2)) (n + l) = Inr (n + l + m)"
      "m < length (drop l data)" "length p = s - 2"
      "\<And>outLength acc. length acc + m \<le> outLength \<Longrightarrow>
         unpack_loop p outLength acc = Inr (acc @ take m (drop l data))"
      by blast
    have unp: "unpack_loop (k # hd data # p) outLength acc = Inr (acc @ take (l + m) data)"
      if "length acc + (l + m) \<le> outLength" for outLength acc
      using that unpack_run [of k acc outLength "hd data" p] run'(2) mp(5) [of "acc @ take l data"] run l
      by (simp add: l_def take_add Let_def)
    show ?thesis
      using run' mp(1-4) ne and255 l
      by (intro exI [of _ "l + m"] exI [of _ "k # hd data # p"])
        (auto simp: Let_def unp neq_Nil_conv add.assoc)
  next
    case cut
    have sch: "schar k = int l" using cut(2) by (simp add: l_def)
    have small: "s - 1 \<le> 127" using cut(3) sch schar_le [of k] by simp
    obtain j where s: "s = Suc j" using cut(1) by (cases s) auto
    have unp: "unpack_loop (of_nat j # take j data) outLength acc = Inr (acc @ take j data)"
      if "length acc + j \<le> outLength" for outLength acc
      using that small cut(1,3) l unpack_lits [of "of_nat j" acc "take j data" outLength "[]"]
      by (simp add: s unpack_loop.simps)
    show ?thesis
      using cut sch l small unp
      by (intro exI [of _ j] exI [of _ "of_nat j # take j data"]) (simp add: Let_def s)
  next
    case lit
    have sch: "schar k = int l" using lit(2) by (simp add: l_def)
    have kl: "of_nat l = k" using word_of_int_schar [of k] by (simp add: sch)
    define t where "t = s - 1 - l"
    have t: "s = 1 + l + t" using lit(3) by (simp add: t_def)
    have "t < packed_size ks" using 2(3) t sch by (simp add: chunk_size_def)
    from 2(1) [OF l_def cov this] obtain m p where mp:
      "pack_limited ks (drop l data) (int t) (n + l) (out @ k # take l data)
         = Inr (n + l + m, (out @ k # take l data) @ p)"
      "partial_length ks (int t) (n + l) = Inr (n + l + m)"
      "m < length (drop l data)" "length p = t"
      "\<And>outLength acc. length acc + m \<le> outLength \<Longrightarrow>
         unpack_loop p outLength acc = Inr (acc @ take m (drop l data))"
      by blast
    have unp: "unpack_loop (k # take l data @ p) outLength acc = Inr (acc @ take (l + m) data)"
      if "length acc + (l + m) \<le> outLength" for outLength acc
      using that unpack_lits [of k acc "take l data" outLength p] mp(5) [of "acc @ take l data"] l sch
      by (simp add: take_add)
    show ?thesis
      using mp(1-4) l unp
      by (intro exI [of _ "l + m"] exI [of _ "k # take l data @ p"])
        (simp add: t Let_def add.assoc sch kl)
  qed
qed simp

lemma pack_limited_fits:
  "covers ks data \<Longrightarrow> packed_size ks \<le> s \<Longrightarrow>
     pack_limited ks data (int s) n out = Inl (Bugcheck 178)
     \<and> partial_length ks (int s) n = Inl (Bugcheck 178)"
proof (induction ks data arbitrary: s n out rule: covers.induct)
  case (2 k ks data)
  define l where "l = nat \<bar>schar k\<bar>"
  have l: "0 < l" "l \<le> length data" and cov: "covers ks (drop l data)"
    using 2(2) by (auto simp: Let_def l_def)
  show ?case
  proof (cases "schar k < 0")
    case True
    define t where "t = s - 2"
    have t: "s = 2 + t" "packed_size ks \<le> t"
      using 2(3) True by (auto simp: t_def chunk_size_def)
    show ?thesis
      using 2(1) [OF l_def cov t(2)] True l schar_ge [of k]
      by (cases data) (auto simp: t Let_def and_255 l_def)
  next
    case False
    have sch: "schar k = int l" using False by (simp add: l_def)
    define t where "t = s - 1 - l"
    have t: "s = 1 + l + t" "packed_size ks \<le> t"
      using 2(3) sch by (auto simp: t_def chunk_size_def)
    show ?thesis
      using 2(1) [OF l_def cov t(2)] l by (simp add: t Let_def sch)
  qed
qed simp



section \<open>Difference records\<close>

declare apply_loop.simps [simp del]

lemma apply_lits:
  assumes "0 < length lits" "length lits \<le> 127" "p + length lits \<le> outLength"
  shows "apply_loop (of_nat (length lits) # lits @ rest) outLength p buf
       = apply_loop rest outLength (p + length lits) (patch p lits buf)"
proof -
  have "p < outLength" using assms by linarith
  with assms show ?thesis by (simp add: apply_loop.simps Let_def patch_def)
qed

lemma apply_skip:
  "0 < l \<Longrightarrow> l \<le> 127 \<Longrightarrow> p + l \<le> outLength \<Longrightarrow>
     apply_loop (word_of_int (- int l) # rest) outLength p buf = apply_loop rest outLength (p + l) buf"
  using schar_of_int [of "- int l"] by (simp add: apply_loop.simps Let_def)

lemma put_skips_apply:
  "put_skips l cap out = Some out' \<Longrightarrow>
     \<exists>ks. out' = out @ ks \<and> (\<forall>outLength p rest buf. p + l \<le> outLength \<longrightarrow>
       apply_loop (ks @ rest) outLength p buf = apply_loop rest outLength (p + l) buf)"
proof (induction l cap out rule: put_skips.induct)
  case (1 l cap out)
  consider (long) "127 < l" | (short) "0 < l" "l \<le> 127" | (none) "l = 0" by linarith
  then show ?case
  proof cases
    case long
    with 1(2) have c: "length out < cap" "put_skips (l - 127) cap (out @ [word_of_int (-127)]) = Some out'"
      by (auto simp: put_skips.simps [of l] split: if_splits)
    from 1(1) [OF long this] obtain ks where ks: "out' = (out @ [word_of_int (-127)]) @ ks"
      "\<And>outLength p rest buf. p + (l - 127) \<le> outLength \<Longrightarrow>
         apply_loop (ks @ rest) outLength p buf = apply_loop rest outLength (p + (l - 127)) buf"
      by blast
    have "apply_loop ((word_of_int (- 127) # ks) @ rest) outLength p buf = apply_loop rest outLength (p + l) buf"
      if "p + l \<le> outLength" for outLength p rest buf
      using apply_skip [of 127 p outLength "ks @ rest" buf] ks(2) [of "p + 127"] long that by simp
    then show ?thesis
      unfolding ks(1) by (intro exI [of _ "word_of_int (- 127) # ks"]) auto
  next
    case short
    with 1(2) have "out' = out @ [word_of_int (- int l)]"
      by (auto simp: put_skips.simps [of l] split: if_splits)
    with short show ?thesis
      using apply_skip [of l] by (intro exI [of _ "[word_of_int (- int l)]"]) auto
  next
    case none
    with 1(2) have "out' = out" by (simp add: put_skips.simps [of 0 cap out])
    with none show ?thesis by simp
  qed
qed

lemma diff_literals_result:
  "diff_literals m rec1 rec2 room lits = Some (r1, r2, lits') \<Longrightarrow>
     \<exists>n. n \<le> m \<and> n \<le> length rec1 \<and> n \<le> length rec2
       \<and> r1 = drop n rec1 \<and> r2 = drop n rec2 \<and> lits' = lits @ take n rec2"
proof (induction m rec1 rec2 room lits rule: diff_literals.induct)
  case (1 m a rec1 b rec2 room lits)
  show ?case
  proof (cases "a \<noteq> b \<or> 0 < m \<and> hd rec1 \<noteq> hd rec2")
    case True
    with 1 obtain n where "n \<le> m" "n \<le> length rec1" "n \<le> length rec2"
      "r1 = drop n rec1" "r2 = drop n rec2" "lits' = (lits @ [b]) @ take n rec2"
      by (auto split: if_splits)
    then show ?thesis by (intro exI [of _ "Suc n"]) simp
  next
    case False
    with 1 show ?thesis by (intro exI [of _ 0]) (auto split: if_splits)
  qed
qed auto

lemma equal_run_result:
  "equal_run rec1 rec2 \<le> length rec1 \<and> equal_run rec1 rec2 \<le> length rec2
   \<and> take (equal_run rec1 rec2) rec1 = take (equal_run rec1 rec2) rec2"
  by (induction rec1 rec2 rule: equal_run.induct) auto

lemma diff_tail_apply:
  "diff_tail rec2 cap out = Some d \<Longrightarrow>
     \<exists>ks. d = out @ ks \<and> (\<forall>outLength p rest buf.
       p + length rec2 \<le> outLength \<longrightarrow> outLength \<le> length buf \<longrightarrow>
       apply_loop (ks @ rest) outLength p buf
         = apply_loop rest outLength (p + length rec2) (patch p rec2 buf))"
proof (induction rec2 cap out rule: diff_tail.induct)
  case (1 rec2 cap out)
  show ?case
  proof (cases "rec2 = []")
    case True
    with 1(2) show ?thesis by (simp add: diff_tail.simps)
  next
    case False
    define n where "n = min (length rec2) 127"
    have n: "0 < n" "n \<le> 127" "n \<le> length rec2" using False by (auto simp: n_def)
    from 1(2) False have c: "length out + 1 + n \<le> cap"
      "diff_tail (drop n rec2) cap (out @ [of_nat n] @ take n rec2) = Some d"
      by (auto simp: diff_tail.simps [of rec2] Let_def n_def split: if_splits)
    from 1(1) [OF False n_def c] obtain ks where ks:
      "d = (out @ [of_nat n] @ take n rec2) @ ks"
      "\<And>outLength p rest buf. p + length (drop n rec2) \<le> outLength \<Longrightarrow> outLength \<le> length buf \<Longrightarrow>
         apply_loop (ks @ rest) outLength p buf
           = apply_loop rest outLength (p + length (drop n rec2)) (patch p (drop n rec2) buf)"
      by blast
    have "apply_loop ((of_nat n # take n rec2 @ ks) @ rest) outLength p buf
        = apply_loop rest outLength (p + length rec2) (patch p rec2 buf)"
      if le: "p + length rec2 \<le> outLength" "outLength \<le> length buf" for outLength p rest buf
    proof -
      have "apply_loop ((of_nat n # take n rec2 @ ks) @ rest) outLength p buf
          = apply_loop (ks @ rest) outLength (p + n) (patch p (take n rec2) buf)"
        using apply_lits [of "take n rec2" p outLength "ks @ rest" buf] n le by simp
      also have "\<dots> = apply_loop rest outLength (p + n + length (drop n rec2))
          (patch (p + n) (drop n rec2) (patch p (take n rec2) buf))"
        by (rule ks(2)) (use n le in auto)
      also have "\<dots> = apply_loop rest outLength (p + length rec2) (patch p rec2 buf)"
        using patch_patch [of p "take n rec2" "drop n rec2" buf] n le by simp
      finally show ?thesis .
    qed
    then show ?thesis
      unfolding ks(1) by (intro exI [of _ "of_nat n # take n rec2 @ ks"]) auto
  qed
qed

text \<open>A difference string \<open>ks\<close> turns \<open>rec1\<close> into \<open>rec2\<close> wherever \<open>rec1\<close> stands in the buffer.\<close>

definition turns :: "bytes \<Rightarrow> bytes \<Rightarrow> bytes \<Rightarrow> bool" where
  "turns ks rec1 rec2 \<longleftrightarrow> (\<forall>outLength p rest buf.
     p + length rec2 \<le> outLength \<longrightarrow> outLength \<le> length buf \<longrightarrow>
     take (length rec1) (drop p buf) = rec1 \<longrightarrow>
     apply_loop (ks @ rest) outLength p buf
       = apply_loop rest outLength (p + length rec2) (patch p rec2 buf))"

lemma turns_append:
  assumes "turns ks (take n rec1) (take n rec2)" "turns ls (drop n rec1) (drop n rec2)"
    and "n \<le> length rec1" "n \<le> length rec2"
  shows "turns (ks @ ls) rec1 rec2"
  unfolding turns_def
proof (intro allI impI)
  fix outLength p rest buf
  assume le: "p + length rec2 \<le> outLength" "outLength \<le> length buf"
    and at: "take (length rec1) (drop p buf) = rec1"
  have at1: "take (length (take n rec1)) (drop p buf) = take n rec1"
    using at assms(3) by (metis length_take min.absorb2 take_take)
  have at2: "take (length (drop n rec1)) (drop (p + n) buf) = drop n rec1"
    using at by (metis drop_drop drop_take length_drop add.commute)
  have dp: "drop (p + n) (patch p (take n rec2) buf) = drop (p + n) buf"
    using drop_patch [of p "take n rec2" buf] le assms(4) by simp
  have "apply_loop ((ks @ ls) @ rest) outLength p buf
      = apply_loop (ls @ rest) outLength (p + n) (patch p (take n rec2) buf)"
    using assms(1) [unfolded turns_def, rule_format, of p outLength buf "ls @ rest"] le at1 assms(4) by simp
  also have "\<dots> = apply_loop rest outLength (p + n + length (drop n rec2))
      (patch (p + n) (drop n rec2) (patch p (take n rec2) buf))"
    using assms(2) [unfolded turns_def, rule_format, of "p + n" outLength "patch p (take n rec2) buf" rest]
      le at2 dp assms(4) by simp
  also have "\<dots> = apply_loop rest outLength (p + length rec2) (patch p rec2 buf)"
    using patch_patch [of p "take n rec2" "drop n rec2" buf] le assms(4) by simp
  finally show "apply_loop ((ks @ ls) @ rest) outLength p buf
      = apply_loop rest outLength (p + length rec2) (patch p rec2 buf)" .
qed

lemma turns_lits:
  "0 < length lits \<Longrightarrow> length lits \<le> 127 \<Longrightarrow> turns (of_nat (length lits) # lits) rec1 lits"
  by (simp add: turns_def apply_lits)

lemma turns_skips:
  assumes "put_skips (length r) cap out = Some out'"
  shows "\<exists>ks. out' = out @ ks \<and> turns ks r r"
  using put_skips_apply [OF assms] by (auto simp: turns_def patch_same)

lemma diff_loop_turns:
  "length rec1 \<le> length rec2 \<Longrightarrow> diff_loop rec1 rec2 cap out = Some d \<Longrightarrow>
     \<exists>ks. d = out @ ks \<and> turns ks rec1 rec2"
proof (induction rec1 rec2 cap out rule: diff_loop.induct)
  case (1 rec1 rec2 cap out)
  show ?case
  proof (cases "2 < length rec1")
    case False
    then have "diff_tail rec2 cap out = Some d"
      using 1 by (simp add: diff_loop.simps [of rec1])
    from diff_tail_apply [OF this] show ?thesis by (auto simp: turns_def)
  next
    case True
    then have g: "2 < length rec1 \<and> length rec1 \<le> length rec2" using 1 by simp
    show ?thesis
    proof (cases "rec1 ! 0 \<noteq> rec2 ! 0 \<or> rec1 ! 1 \<noteq> rec2 ! 1")
      case diff: True
      then obtain r1 r2 lits where lits:
        "diff_literals (min (length rec1) 127) rec1 rec2 (cap - (length out + 1)) [] = Some (r1, r2, lits)"
        "diff_loop r1 r2 cap (out @ [of_nat (length lits)] @ lits) = Some d"
        using 1(4) g by (auto simp: diff_loop.simps [of rec1] split: option.splits)
      obtain n where n: "n \<le> min (length rec1) 127" "n \<le> length rec2" "r1 = drop n rec1"
        "r2 = drop n rec2" "lits = take n rec2"
        using diff_literals_result [OF lits(1)] by auto
      have pos: "0 < n"
        using diff_literals_progress [OF lits(1) refl True _ diff] g n(3) by simp
      from 1(1) [OF g diff lits(1) refl refl _ lits(2)] obtain ks where ks:
        "d = (out @ [of_nat (length lits)] @ lits) @ ks" "turns ks r1 r2"
        using g n diff_le_mono [of "length rec1" "length rec2" n] by auto
      have "turns (of_nat (length lits) # lits) (take n rec1) (take n rec2)"
        using turns_lits [of lits "take n rec1"] pos n g by simp
      then have "turns ((of_nat (length lits) # lits) @ ks) rec1 rec2"
        using ks(2) n by (intro turns_append [of _ n]) auto
      then show ?thesis
        unfolding ks(1) by (intro exI [of _ "(of_nat (length lits) # lits) @ ks"]) simp
    next
      case same: False
      define l where "l = equal_run rec1 rec2"
      have l: "l \<le> length rec1" "l \<le> length rec2" "take l rec1 = take l rec2"
        using equal_run_result [of rec1 rec2] by (auto simp: l_def)
      obtain out' where skips: "put_skips l cap out = Some out'"
        "diff_loop (drop l rec1) (drop l rec2) cap out' = Some d"
        using 1(4) g same by (auto simp: diff_loop.simps [of rec1] Let_def l_def split: option.splits)
      from 1(2) [OF g same l_def skips(1) _ skips(2)] obtain ks where ks:
        "d = out' @ ks" "turns ks (drop l rec1) (drop l rec2)"
        using g l diff_le_mono [of "length rec1" "length rec2" l] by auto
      obtain ls where ls: "out' = out @ ls" "turns ls (take l rec1) (take l rec2)"
        using turns_skips [of "take l rec1" cap out out'] skips(1) l by auto
      then have "turns (ls @ ks) rec1 rec2"
        using ks(2) l by (intro turns_append [of _ l]) auto
      then show ?thesis using ks(1) ls(1) by auto
    qed
  qed
qed


section \<open>Properties\<close>

text \<open>
  C24.  Packing a record with the control string of its own compressor reads nothing beyond
  the record, writes exactly \<open>getPackedLength\<close> bytes, and unpacking them into any area
  that holds the record gives the record back.
\<close>

theorem unpack_pack:
  assumes "length data \<le> outLength"
  shows "\<exists>out. pack (m_control (Compressor data)) data [] = Inr out
     \<and> length out = getPackedLength (Compressor data) \<and> unpack out outLength = Inr data"
proof (intro exI conjI)
  let ?ks = "m_control (Compressor data)"
  have cov: "covers ?ks data" by (rule Compressor_covers)
  show "pack ?ks data [] = Inr (packed ?ks data)"
    using pack_covers [OF cov] by simp
  show "length (packed ?ks data) = getPackedLength (Compressor data)"
    by (simp add: length_packed [OF cov] getPackedLength_def Compressor_covers(2))
  show "unpack (packed ?ks data) outLength = Inr data"
    using unpack_packed [OF cov, of "[]" outLength "[]"] assms
    by (simp add: unpack_def unpack_loop.simps)
qed

theorem unpack_pack_witness:
  "\<exists>out. pack (m_control (Compressor [1, 7, 7, 7, 7, 2])) [1, 7, 7, 7, 7, 2] [] = Inr out
     \<and> length out = getPackedLength (Compressor [1, 7, 7, 7, 7, 2])
     \<and> unpack out 8 = Inr [1, 7, 7, 7, 7, 2]"
  by (rule unpack_pack) simp


text \<open>
  The buffer of \<open>(length + 1) / 2\<close> bytes that the constructor reserves for the control
  string is never overrun, and a packed record is at most one byte per 127 longer than
  the record.
\<close>

theorem Compressor_bounds:
  "getControlSize (Compressor data) \<le> (length data + 1) div 2
   \<and> getPackedLength (Compressor data) \<le> length data + (length data + 126) div 127"
  using Compressor_covers [of data]
  by (simp add: getControlSize_def getPackedLength_def less_eq_div_iff_mult_less_eq ac_simps)



lemma unpack_loop_safe:
  "length out0 \<le> outLength \<Longrightarrow>
     (case unpack_loop input outLength out0 of
        Inr out \<Rightarrow> length out \<le> outLength | Inl e \<Rightarrow> e = Bugcheck 179 \<or> e = ReadOverrun)"
proof (induction input outLength out0 rule: unpack_loop.induct)
  case (2 k input outLength out0)
  show ?case
  proof (cases "schar k < 0")
    case True
    with 2 show ?thesis by (cases input) (simp_all add: unpack_loop.simps(2) Let_def)
  next
    case False
    with 2(2,3) show ?thesis by (simp add: unpack_loop.simps(2) Let_def)
  qed
qed (simp add: unpack_loop.simps)


text \<open>
  C28.  A difference record that \<open>makeDiff\<close> produced and that is not longer than
  \<open>MAX_DIFFERENCES\<close> turns the old record, standing at the start of the buffer, into the
  new one; \<open>applyDiff\<close> reports the new length and leaves the bytes after it alone.
\<close>

theorem applyDiff_makeDiff:
  assumes "makeDiff rec1 rec2 cap = Some d" and "length d \<le> MAX_DIFFERENCES"
    and "length rec2 \<le> outLength" and "outLength \<le> length (rec1 @ pad)"
  shows "applyDiff d outLength (rec1 @ pad)
       = Inr (length rec2, rec2 @ drop (length rec2) (rec1 @ pad))"
proof -
  let ?r = "take (min (length rec1) (length rec2)) rec1"
  obtain ks where "d = [] @ ks" "turns ks ?r rec2"
    using diff_loop_turns [of ?r rec2 cap "[]" d] assms(1) by (auto simp: makeDiff_def)
  moreover have "take (length ?r) (drop 0 (rec1 @ pad)) = ?r" by simp
  ultimately have "apply_loop (d @ []) outLength 0 (rec1 @ pad)
      = apply_loop [] outLength (0 + length rec2) (patch 0 rec2 (rec1 @ pad))"
    using assms(3,4) unfolding turns_def by (metis add_0 append_Nil)
  then show ?thesis
    using assms(2,3) by (simp add: applyDiff_def apply_loop.simps patch_def)
qed

theorem applyDiff_makeDiff_witness:
  "applyDiff [-3, 1, 9] 4 [1, 2, 3, 4] = Inr (4, [1, 2, 3, 9])"
proof -
  have "makeDiff [1, 2, 3, 4] [1, 2, 3, 9] 10 = Some [-3, 1, 9]"
    by (simp add: makeDiff_def diff_loop.simps put_skips.simps diff_tail.simps)
  from applyDiff_makeDiff [OF this, of 4 "[]"] show ?thesis
    by (simp add: MAX_DIFFERENCES_def)
qed

lemma makeNoDiff_apply:
  "p + len \<le> outLength \<Longrightarrow>
     apply_loop (makeNoDiff len @ rest) outLength p buf = apply_loop rest outLength (p + len) buf"
proof (induction len arbitrary: p rule: makeNoDiff.induct)
  case (1 len)
  consider "127 < len" | "0 < len" "len \<le> 127" | "len = 0" by linarith
  then show ?case
  proof cases
    case 1
    then have "makeNoDiff len = word_of_int (- int 127) # makeNoDiff (len - 127)"
      by (simp add: makeNoDiff.simps [of len])
    with 1 "1.IH" [of "p + 127"] "1.prems" show ?thesis
      using apply_skip [of 127 p outLength "makeNoDiff (len - 127) @ rest" buf] by simp
  next
    case 2
    with "1.prems" show ?thesis using apply_skip [of len] by (simp add: makeNoDiff.simps [of len])
  qed (simp add: makeNoDiff.simps)
qed

text \<open>
  The record of no differences leaves every record of its length unchanged.
\<close>

theorem applyDiff_makeNoDiff:
  assumes "length (makeNoDiff (length rec1)) \<le> MAX_DIFFERENCES"
  shows "applyDiff (makeNoDiff (length rec1)) (length rec1) rec1 = Inr (length rec1, rec1)"
  using assms makeNoDiff_apply [of 0 "length rec1" "length rec1" "[]" rec1]
  by (simp add: applyDiff_def apply_loop.simps)

theorem applyDiff_makeNoDiff_witness:
  "applyDiff (makeNoDiff (length [5, 6 :: UCHAR])) (length [5, 6 :: UCHAR]) [5, 6]
     = Inr (length [5, 6 :: UCHAR], [5, 6])"
  by (rule applyDiff_makeNoDiff) (simp add: makeNoDiff.simps MAX_DIFFERENCES_def)

end
