(* ===== verification/RecordNumber.thy ===== *)
theory RecordNumber
  imports Prelude
begin

text \<open>
  Record numbers and blob identifiers: \<^verbatim>\<open>src/src/jrd/RecordNumber.h\<close>.  A record number is a
  64-bit value that the storage layer splits into a pointer page sequence, a slot of that
  page and a line of the data page (\<open>decompose\<close>, \<open>compose\<close>), and that is stored in
  40 bits inside an 8-byte blob id or database key (class \<open>Packed\<close>, struct \<open>bid\<close>).  The
  layout of \<open>Packed\<close> modelled is the little-endian one.
\<close>

section \<open>Packed record numbers\<close>

record Packed =
  bid_relation_id :: USHORT
  bid_reserved_for_relation :: UCHAR
  bid_number_up :: UCHAR
  bid_number :: ULONG

definition bid_temp_id :: "Packed \<Rightarrow> ULONG" where
  "bid_temp_id p = bid_number p"

definition packed_encode :: "SINT64 \<Rightarrow> Packed \<Rightarrow> Packed" where
  "packed_encode v p =
     p\<lparr>bid_number := ucast v, bid_number_up := ucast (signed_drop_bit 32 v)\<rparr>"

definition packed_decode :: "Packed \<Rightarrow> SINT64" where
  "packed_decode p = ucast (bid_number p) + push_bit 32 (ucast (bid_number_up p))"

section \<open>Record numbers\<close>

record RecordNumber =
  rn_value :: SINT64
  rn_valid :: bool

definition BOF_NUMBER :: SINT64 where
  "BOF_NUMBER = -1"

definition rn_default :: RecordNumber where
  "rn_default = \<lparr>rn_value = 0, rn_valid = False\<rparr>"

definition rn_make :: "SINT64 \<Rightarrow> RecordNumber" where
  "rn_make number = \<lparr>rn_value = number, rn_valid = True\<rparr>"

definition rn_assign :: "RecordNumber \<Rightarrow> RecordNumber \<Rightarrow> RecordNumber" where
  "rn_assign this from = this\<lparr>rn_value := rn_value from, rn_valid := rn_valid from\<rparr>"

definition rn_eq :: "RecordNumber \<Rightarrow> RecordNumber \<Rightarrow> bool" where
  "rn_eq a b \<longleftrightarrow> rn_value a = rn_value b"

definition rn_ne :: "RecordNumber \<Rightarrow> RecordNumber \<Rightarrow> bool" where
  "rn_ne a b \<longleftrightarrow> rn_value a \<noteq> rn_value b"

definition rn_gt :: "RecordNumber \<Rightarrow> RecordNumber \<Rightarrow> bool" where
  "rn_gt a b \<longleftrightarrow> rn_value b <s rn_value a"

definition rn_lt :: "RecordNumber \<Rightarrow> RecordNumber \<Rightarrow> bool" where
  "rn_lt a b \<longleftrightarrow> rn_value a <s rn_value b"

definition rn_ge :: "RecordNumber \<Rightarrow> RecordNumber \<Rightarrow> bool" where
  "rn_ge a b \<longleftrightarrow> rn_value b \<le>s rn_value a"

definition rn_le :: "RecordNumber \<Rightarrow> RecordNumber \<Rightarrow> bool" where
  "rn_le a b \<longleftrightarrow> rn_value a \<le>s rn_value b"

definition rn_decrement :: "RecordNumber \<Rightarrow> RecordNumber" where
  "rn_decrement r = r\<lparr>rn_value := rn_value r - 1\<rparr>"

definition rn_increment :: "RecordNumber \<Rightarrow> RecordNumber" where
  "rn_increment r = r\<lparr>rn_value := rn_value r + 1\<rparr>"

definition rn_getValue :: "RecordNumber \<Rightarrow> SINT64" where
  "rn_getValue r = rn_value r"

definition rn_setValue :: "SINT64 \<Rightarrow> RecordNumber \<Rightarrow> RecordNumber" where
  "rn_setValue avalue r = r\<lparr>rn_value := avalue\<rparr>"

definition rn_isBof :: "RecordNumber \<Rightarrow> bool" where
  "rn_isBof r \<longleftrightarrow> rn_value r = BOF_NUMBER"

definition rn_isValid :: "RecordNumber \<Rightarrow> bool" where
  "rn_isValid r = rn_valid r"

definition rn_setValid :: "bool \<Rightarrow> RecordNumber \<Rightarrow> RecordNumber" where
  "rn_setValid to_value r = r\<lparr>rn_valid := to_value\<rparr>"

text \<open>
  The signed 64-bit division of \<open>decompose\<close> truncates towards zero; a division by zero,
  which traps, is \<open>None\<close>.
\<close>

definition decompose :: "USHORT \<Rightarrow> USHORT \<Rightarrow> RecordNumber \<Rightarrow> (USHORT \<times> USHORT \<times> ULONG) option" where
  "decompose records_per_page data_pages_per_pointer_page r =
     (if records_per_page = 0 \<or> data_pages_per_pointer_page = 0 then None
      else
        let line = word_of_int (sint (rn_value r) smod uint records_per_page);
            sequence = word_of_int (sint (rn_value r) sdiv uint records_per_page) :: ULONG;
            slot = ucast (sequence mod ucast data_pages_per_pointer_page);
            pp_sequence = sequence div ucast data_pages_per_pointer_page
        in Some (line, slot, pp_sequence))"

definition compose :: "USHORT \<Rightarrow> USHORT \<Rightarrow> USHORT \<Rightarrow> USHORT \<Rightarrow> ULONG \<Rightarrow> RecordNumber \<Rightarrow> RecordNumber" where
  "compose records_per_page data_pages_per_pointer_page line slot pp_sequence r =
     r\<lparr>rn_value := (ucast pp_sequence * ucast data_pages_per_pointer_page + ucast slot)
                     * ucast records_per_page + ucast line\<rparr>"

definition rn_bid_encode :: "RecordNumber \<Rightarrow> Packed \<Rightarrow> Packed" where
  "rn_bid_encode r recno = packed_encode (rn_value r) recno"

definition rn_bid_decode :: "Packed \<Rightarrow> RecordNumber \<Rightarrow> RecordNumber" where
  "rn_bid_decode recno r = r\<lparr>rn_value := packed_decode recno\<rparr>"

section \<open>Blob identifiers\<close>

text \<open>
  The anonymous union of struct \<open>bid\<close>: the internal fields are the state, and the public
  pair of longwords is computed from their bytes.
\<close>

record bid =
  bid_internal :: Packed

definition bid_quad_high :: "bid \<Rightarrow> ULONG" where
  "bid_quad_high b =
     ucast (bid_relation_id (bid_internal b))
     OR push_bit 16 (ucast (bid_reserved_for_relation (bid_internal b)))
     OR push_bit 24 (ucast (bid_number_up (bid_internal b)))"

definition bid_quad_low :: "bid \<Rightarrow> ULONG" where
  "bid_quad_low b = bid_number (bid_internal b)"

definition bid_isEmpty :: "bid \<Rightarrow> bool" where
  "bid_isEmpty b \<longleftrightarrow> bid_quad_high b = 0 \<and> bid_quad_low b = 0"

definition bid_clear :: "bid \<Rightarrow> bid" where
  "bid_clear b = b\<lparr>bid_internal :=
     \<lparr>bid_relation_id = 0, bid_reserved_for_relation = 0, bid_number_up = 0, bid_number = 0\<rparr>\<rparr>"

definition set_temporary :: "ULONG \<Rightarrow> bid \<Rightarrow> bid" where
  "set_temporary temp_id b =
     (let b = bid_clear b in b\<lparr>bid_internal := (bid_internal b)\<lparr>bid_number := temp_id\<rparr>\<rparr>)"

definition set_permanent :: "USHORT \<Rightarrow> RecordNumber \<Rightarrow> bid \<Rightarrow> bid" where
  "set_permanent relation_id num b =
     (let b = bid_clear b;
          b = b\<lparr>bid_internal := (bid_internal b)\<lparr>bid_relation_id := relation_id\<rparr>\<rparr>
      in b\<lparr>bid_internal := rn_bid_encode num (bid_internal b)\<rparr>)"

definition get_permanent_number :: "bid \<Rightarrow> RecordNumber" where
  "get_permanent_number b = rn_bid_decode (bid_internal b) rn_default"

definition bid_eq :: "bid \<Rightarrow> bid \<Rightarrow> bool" where
  "bid_eq a b \<longleftrightarrow> bid_quad_high a = bid_quad_high b \<and> bid_quad_low a = bid_quad_low b"

section \<open>The 40-bit encoding\<close>

lemma packed_decode_encode [codec]:
  assumes "unat v < 2 ^ 40"
  shows "packed_decode (packed_encode v p) = v"
proof -
  let ?lo = "ucast (ucast v :: ULONG) :: SINT64"
  let ?up = "push_bit 32 (ucast (ucast (signed_drop_bit 32 v) :: UCHAR)) :: SINT64"
  have "?lo + ?up = ?lo OR ?up"
    by (rule disjunctive_add) (auto simp: bit_simps)
  also have "\<dots> = v"
  proof (rule bit_word_eqI)
    fix n assume "n < LENGTH(64)"
    moreover have "bit v n \<Longrightarrow> n < 40" using not_bit_ge [OF assms, of n] by linarith
    ultimately show "bit (?lo OR ?up) n = bit v n"
      by (cases "n < 32") (auto simp: bit_simps)
  qed
  finally show ?thesis by (simp add: packed_decode_def packed_encode_def)
qed

lemma unat_packed_decode [bounds]: "unat (packed_decode p) < 2 ^ 40"
proof -
  have "unat (packed_decode p) = (unat (bid_number p) + unat (bid_number_up p) * 2 ^ 32) mod 2 ^ 64"
    by (simp add: packed_decode_def push_bit_eq_mult unat_word_ariths unsigned_ucast_eq mod_simps
        take_bit_nat_eq_self unat_less_32 unat_less_8 less_trans [OF unat_less_32] less_trans [OF unat_less_8])
  also have "\<dots> \<le> unat (bid_number p) + unat (bid_number_up p) * 2 ^ 32" by simp
  also have "\<dots> < 2 ^ 40"
    using unat_less_32 [of "bid_number p"] unat_less_8 [of "bid_number_up p"] by simp
  finally show ?thesis .
qed


section \<open>Composition\<close>

text \<open>The number that \<open>compose\<close> stands for, as a natural number.\<close>

definition location :: "USHORT \<Rightarrow> USHORT \<Rightarrow> USHORT \<Rightarrow> USHORT \<Rightarrow> ULONG \<Rightarrow> nat" where
  "location rpp dpp line slot pp = (unat pp * unat dpp + unat slot) * unat rpp + unat line"

lemma unat_ucast_up [simp]:
  "unat (ucast (w :: USHORT) :: SINT64) = unat w"
  "unat (ucast (u :: ULONG) :: SINT64) = unat u"
  "unat (ucast (w :: USHORT) :: ULONG) = unat w"
  using unat_less_16 [of w] unat_less_32 [of u]
  by (simp_all add: unsigned_ucast_eq take_bit_nat_eq_self)

lemma location_bound [bounds]:
  assumes "unat pp * unat dpp + unat slot < 2 ^ 32"
  shows "location rpp dpp line slot pp < 2 ^ 48"
proof -
  have "location rpp dpp line slot pp \<le> (2 ^ 32 - 1) * (2 ^ 16 - 1) + (2 ^ 16 - 1)"
    unfolding location_def
    using assms unat_less_16 [of rpp] unat_less_16 [of line] by (intro add_mono mult_mono) auto
  also have "\<dots> < 2 ^ 48" by simp
  finally show ?thesis .
qed

lemma unat_compose:
  assumes "unat pp * unat dpp + unat slot < 2 ^ 32"
  shows "unat (rn_value (compose rpp dpp line slot pp r)) = location rpp dpp line slot pp"
proof -
  have "unat (rn_value (compose rpp dpp line slot pp r)) = location rpp dpp line slot pp mod 2 ^ 64"
    by (simp add: compose_def location_def unat_word_ariths mod_simps)
  then show ?thesis using location_bound [OF assms, of rpp line] by simp
qed

lemma sint_compose:
  assumes "unat pp * unat dpp + unat slot < 2 ^ 32"
  shows "sint (rn_value (compose rpp dpp line slot pp r)) = int (location rpp dpp line slot pp)"
  using sint_eq_unat [of "rn_value (compose rpp dpp line slot pp r)"] location_bound [OF assms, of rpp line]
  by (simp add: unat_compose [OF assms])

lemma decompose_location:
  assumes "sint (rn_value r) = int V" and "V div unat rpp < 2 ^ 32" and "rpp \<noteq> 0" and "dpp \<noteq> 0"
  shows "decompose rpp dpp r = Some (of_nat (V mod unat rpp),
     of_nat (V div unat rpp mod unat dpp), of_nat (V div unat rpp div unat dpp))"
proof -
  define S where "S = V div unat rpp"
  have S: "S < 4294967296" using assms(2) by (simp add: S_def)
  have dv: "int V sdiv uint rpp = int S" "int V smod uint rpp = int (V mod unat rpp)"
    by (simp_all add: uint_nat S_def del: of_nat_unat)
  have seq: "unat (of_nat S :: ULONG) = S"
    using S by (simp add: unat_of_nat_eq)
  have slot: "(ucast ((of_nat S :: ULONG) mod ucast dpp) :: USHORT) = of_nat (S mod unat dpp)"
  proof -
    have "unat ((of_nat S :: ULONG) mod ucast dpp) = S mod unat dpp"
      by (simp add: unat_mod seq)
    then show ?thesis by (metis of_nat_unat)
  qed
  have pp: "(of_nat S :: ULONG) div ucast dpp = of_nat (S div unat dpp)"
  proof -
    have "S div unat dpp < 4294967296" using S le_less_trans [OF div_le_dividend] by blast
    then show ?thesis
      by (simp add: word_unat_eq_iff unat_div seq unat_of_nat_eq)
  qed
  show ?thesis
    using assms(3,4) by (simp add: decompose_def Let_def assms(1) dv slot pp S_def [symmetric])
qed


lemma location_split:
  assumes "unat line < unat rpp" and "unat slot < unat dpp"
  shows "location rpp dpp line slot pp mod unat rpp = unat line"
    and "location rpp dpp line slot pp div unat rpp mod unat dpp = unat slot"
    and "location rpp dpp line slot pp div unat rpp div unat dpp = unat pp"
  using assms by (simp_all add: location_def)

lemma lex_digits:
  fixes a b c d n :: nat
  assumes "b < n" and "d < n"
  shows "a * n + b < c * n + d \<longleftrightarrow> a < c \<or> a = c \<and> b < d"
proof -
  have "a * n + b < c * n + d" if "a < c"
  proof -
    have "a * n + n \<le> c * n" using mult_le_mono1 [of "Suc a" c n] that by simp
    then show ?thesis using assms by linarith
  qed
  moreover have "c * n + d < a * n + b" if "c < a"
  proof -
    have "c * n + n \<le> a * n" using mult_le_mono1 [of "Suc c" a n] that by simp
    then show ?thesis using assms by linarith
  qed
  ultimately show ?thesis by (metis add_less_cancel_left less_asym nat_neq_iff)
qed

lemma lex_digits_eq:
  fixes a b c d n :: nat
  assumes "b < n" and "d < n"
  shows "a * n + b = c * n + d \<longleftrightarrow> a = c \<and> b = d"
  using lex_digits [OF assms, of a c] lex_digits [OF assms(2,1), of c a] by (metis less_irrefl nat_neq_iff)

section \<open>Properties\<close>

text \<open>
  A record number composed from a line, a slot and a pointer page sequence that are in
  range decomposes into the same three numbers.
\<close>

theorem decompose_compose:
  assumes "unat line < unat rpp" and "unat slot < unat dpp"
    and "unat pp * unat dpp + unat slot < 2 ^ 32"
  shows "decompose rpp dpp (compose rpp dpp line slot pp r) = Some (line, slot, pp)"
proof -
  have nz: "rpp \<noteq> 0" "dpp \<noteq> 0" using assms(1,2) by auto
  have "location rpp dpp line slot pp div unat rpp < 2 ^ 32"
    using assms by (simp add: location_def)
  from decompose_location [OF sint_compose [OF assms(3)] this nz] show ?thesis
    by (simp add: location_split [OF assms(1,2)])
qed

theorem decompose_compose_witness:
  "decompose 200 1000 (compose 200 1000 17 999 3 rn_default) = Some (17, 999, 3)"
  by (rule decompose_compose) simp_all

text \<open>
  Conversely, a non-negative record number whose page sequence fits in 32 bits is
  restored by composing what it decomposes into, and the line and slot are in range.
\<close>

theorem compose_decompose:
  assumes "rpp \<noteq> 0" and "dpp \<noteq> 0" and "unat (rn_value r) < 2 ^ 63"
    and "unat (rn_value r) div unat rpp < 2 ^ 32"
  shows "\<exists>line slot pp. decompose rpp dpp r = Some (line, slot, pp)
     \<and> unat line < unat rpp \<and> unat slot < unat dpp \<and> compose rpp dpp line slot pp r = r"
proof -
  define V where "V = unat (rn_value r)"
  define line :: USHORT where "line = of_nat (V mod unat rpp)"
  define slot :: USHORT where "slot = of_nat (V div unat rpp mod unat dpp)"
  define pp :: ULONG where "pp = of_nat (V div unat rpp div unat dpp)"
  have pos: "0 < unat rpp" "0 < unat dpp" using assms(1,2) by (simp_all add: unat_gt_0)
  have line: "unat line = V mod unat rpp" "unat line < unat rpp"
    and slot: "unat slot = V div unat rpp mod unat dpp" "unat slot < unat dpp"
    using pos mod_less_divisor [OF pos(1), of V] mod_less_divisor [OF pos(2), of "V div unat rpp"]
      unat_less_16 [of rpp] unat_less_16 [of dpp]
    by (simp_all add: line_def slot_def unat_of_nat_eq)
  have pp: "unat pp = V div unat rpp div unat dpp"
    using le_less_trans [OF div_le_dividend assms(4)]
    by (simp add: pp_def V_def unat_of_nat_eq)
  have sv: "sint (rn_value r) = int V"
    using sint_eq_unat [of "rn_value r"] assms(3) by (simp add: V_def)
  have "decompose rpp dpp r = Some (line, slot, pp)"
    using decompose_location [OF sv _ assms(1,2)] assms(4) by (simp add: V_def line_def slot_def pp_def)
  moreover have "compose rpp dpp line slot pp r = r"
  proof -
    have fits: "unat pp * unat dpp + unat slot < 2 ^ 32"
      using assms(4) by (simp add: pp slot V_def)
    have "unat (rn_value (compose rpp dpp line slot pp r)) = unat (rn_value r)"
      using unat_compose [OF fits, of rpp line r] by (simp add: location_def pp slot line V_def)
    then have "rn_value (compose rpp dpp line slot pp r) = rn_value r"
      by (simp only: word_unat_eq_iff)
    then show ?thesis by (simp add: compose_def)
  qed
  ultimately show ?thesis using line slot by blast
qed

theorem compose_decompose_witness:
  "\<exists>line slot pp. decompose 200 1000 (rn_make 799817) = Some (line, slot, pp)
     \<and> unat line < unat (200 :: USHORT) \<and> unat slot < unat (1000 :: USHORT)
     \<and> compose 200 1000 line slot pp (rn_make 799817) = rn_make 799817"
  by (rule compose_decompose) (simp_all add: rn_make_def)

text \<open>
  C30.  The order of record numbers is the physical order of the records: pointer page
  first, then slot, then line.
\<close>

theorem record_order:
  assumes "unat l1 < unat rpp" and "unat s1 < unat dpp" and "unat p1 * unat dpp + unat s1 < 2 ^ 32"
    and "unat l2 < unat rpp" and "unat s2 < unat dpp" and "unat p2 * unat dpp + unat s2 < 2 ^ 32"
  shows "rn_lt (compose rpp dpp l1 s1 p1 r1) (compose rpp dpp l2 s2 p2 r2)
     \<longleftrightarrow> p1 < p2 \<or> p1 = p2 \<and> (s1 < s2 \<or> s1 = s2 \<and> l1 < l2)"
proof -
  have "rn_lt (compose rpp dpp l1 s1 p1 r1) (compose rpp dpp l2 s2 p2 r2)
     \<longleftrightarrow> location rpp dpp l1 s1 p1 < location rpp dpp l2 s2 p2"
    by (simp add: rn_lt_def word_sless_alt sint_compose [OF assms(3)] sint_compose [OF assms(6)])
  also have "\<dots> \<longleftrightarrow> unat p1 < unat p2 \<or> unat p1 = unat p2 \<and>
      (unat s1 < unat s2 \<or> unat s1 = unat s2 \<and> unat l1 < unat l2)"
    by (auto simp: location_def lex_digits lex_digits_eq assms)
  finally show ?thesis
    by (simp add: word_less_nat_alt word_unat_eq_iff)
qed

theorem record_order_witness:
  "rn_lt (compose 100 50 99 49 1 rn_default) (compose 100 50 0 0 2 rn_default)"
  using record_order [of 99 100 49 50 1 0 0 2 rn_default rn_default] by simp

text \<open>
  A permanent blob id keeps the relation and the record number it was made of, as
  long as the number fits in 40 bits, and is told apart from a temporary id by its
  relation.
\<close>

theorem permanent_blob_id:
  assumes "unat (rn_value num) < 2 ^ 40"
  shows "rn_eq (get_permanent_number (set_permanent relation_id num b)) num
     \<and> bid_relation_id (bid_internal (set_permanent relation_id num b)) = relation_id
     \<and> bid_relation_id (bid_internal (set_temporary temp_id b)) = 0
     \<and> bid_temp_id (bid_internal (set_temporary temp_id b)) = temp_id"
proof -
  let ?p = "\<lparr>bid_relation_id = relation_id, bid_reserved_for_relation = 0, bid_number_up = 0, bid_number = 0\<rparr>"
  have perm: "bid_internal (set_permanent relation_id num b) = packed_encode (rn_value num) ?p"
    by (simp add: set_permanent_def Let_def bid_clear_def rn_bid_encode_def)
  then have "rn_value (get_permanent_number (set_permanent relation_id num b)) = rn_value num"
    by (simp add: get_permanent_number_def rn_bid_decode_def packed_decode_encode [OF assms])
  moreover have "bid_relation_id (packed_encode (rn_value num) ?p) = relation_id"
    by (simp add: packed_encode_def)
  ultimately show ?thesis
    by (simp add: rn_eq_def perm set_temporary_def Let_def bid_clear_def bid_temp_id_def)
qed

theorem permanent_blob_id_witness:
  "rn_eq (get_permanent_number (set_permanent 128 (rn_make 0xABCDEF0123)
       \<lparr>bid_internal = \<lparr>bid_relation_id = 9, bid_reserved_for_relation = 9, bid_number_up = 9, bid_number = 9\<rparr>\<rparr>))
     (rn_make 0xABCDEF0123)"
  using permanent_blob_id [of "rn_make 0xABCDEF0123" 128] by (simp add: rn_make_def)

lemma quad_high_fields:
  "ucast (bid_quad_high b) = bid_relation_id (bid_internal b)"
  "ucast (drop_bit 16 (bid_quad_high b)) = bid_reserved_for_relation (bid_internal b)"
  "ucast (drop_bit 24 (bid_quad_high b)) = bid_number_up (bid_internal b)"
  by (rule bit_word_eqI; auto simp: bid_quad_high_def bit_simps dest: bit_imp_le_length)+

text \<open>
  Comparing the two longwords of blob ids, and testing them for zero, compares all
  eight bytes: equality and emptiness are those of the internal fields.
\<close>

theorem bid_comparison:
  "(bid_eq a b \<longleftrightarrow> bid_internal a = bid_internal b) \<and> (bid_isEmpty a \<longleftrightarrow> bid_eq a (bid_clear a))"
proof
  have "bid_internal a = bid_internal b" if "bid_eq a b"
    using that quad_high_fields [of a] quad_high_fields [of b]
    by (simp add: bid_eq_def bid_quad_low_def)
  moreover have "bid_eq a b" if "bid_internal a = bid_internal b"
    using that by (simp add: bid_eq_def bid_quad_low_def bid_quad_high_def)
  ultimately show "bid_eq a b \<longleftrightarrow> bid_internal a = bid_internal b" by blast
  show "bid_isEmpty a \<longleftrightarrow> bid_eq a (bid_clear a)"
    by (simp add: bid_isEmpty_def bid_eq_def bid_clear_def bid_quad_high_def bid_quad_low_def)
qed

end
