(* ===== verification/MemoryRoutines.thy ===== *)
theory MemoryRoutines
  imports Codec
begin

text \<open>
  Integers in byte buffers: \<^verbatim>\<open>src/src/include/memory_routines.h\<close>, the readers of
  parameter blocks in \<^verbatim>\<open>src/src/yvalve/gds.cpp\<close> and
  \<^verbatim>\<open>src/src/common/classes/ClumpletReader.cpp\<close>, and the writer in
  \<^verbatim>\<open>src/src/common/classes/ClumpletWriter.cpp\<close>.

  The argument \<open>big\<close> is the build's \<open>WORDS_BIGENDIAN\<close>.  A writer is the list of the bytes it
  stores; a reader that would leave its buffer is \<open>None\<close>.
\<close>

section \<open>Integers in memory\<close>

text \<open>The bytes \<open>memcpy\<close> copies from an integer, and the integer it copies them into.\<close>

definition value_bytes :: "bool \<Rightarrow> 'a::len word \<Rightarrow> bytes" where
  "value_bytes big w =
     (let c = map (\<lambda>i. ucast (drop_bit (8 * i) w)) [0..<LENGTH('a) div 8]
      in if big then rev c else c)"

definition bytes_value :: "bool \<Rightarrow> bytes \<Rightarrow> 'a::len word" where
  "bytes_value big c = foldr (\<lambda>b v. ucast b + push_bit 8 v) (if big then rev c else c) 0"

definition get_short :: "bool \<Rightarrow> bytes \<Rightarrow> (USHORT \<times> bytes) option" where
  "get_short big p = (case next_bytes 2 p of None \<Rightarrow> None | Some (c, q) \<Rightarrow> Some (bytes_value big c, q))"

definition get_long :: "bool \<Rightarrow> bytes \<Rightarrow> (SLONG \<times> bytes) option" where
  "get_long big p = (case next_bytes 4 p of None \<Rightarrow> None | Some (c, q) \<Rightarrow> Some (bytes_value big c, q))"

definition put_short :: "bool \<Rightarrow> USHORT \<Rightarrow> bytes" where
  "put_short big v = value_bytes big v"

definition put_long :: "bool \<Rightarrow> SLONG \<Rightarrow> bytes" where
  "put_long big v = value_bytes big v"

definition put_vax_short :: "bool \<Rightarrow> SSHORT \<Rightarrow> bytes" where
  "put_vax_short big v =
     (let c = value_bytes big v in if \<not> big then c else [c ! 1, c ! 0])"

definition put_vax_long :: "bool \<Rightarrow> SLONG \<Rightarrow> bytes" where
  "put_vax_long big v =
     (let c = value_bytes big v in if \<not> big then c else [c ! 3, c ! 2, c ! 1, c ! 0])"

definition put_vax_int64 :: "bool \<Rightarrow> SINT64 \<Rightarrow> bytes" where
  "put_vax_int64 big v =
     (let c = value_bytes big v
      in if \<not> big then c else [c ! 7, c ! 6, c ! 5, c ! 4, c ! 3, c ! 2, c ! 1, c ! 0])"

section \<open>VAX integers\<close>

fun vax_loop :: "'a::len word \<Rightarrow> nat \<Rightarrow> nat \<Rightarrow> bytes \<Rightarrow> 'a word option" where
  "vax_loop value shift 0 p = Some value"
| "vax_loop value shift (Suc n) [] = None"
| "vax_loop value shift (Suc n) (b # p) = vax_loop (value + push_bit shift (ucast b)) (shift + 8) n p"

text \<open>A null pointer is \<open>None\<close>.\<close>

definition gds_vax_integer :: "bytes option \<Rightarrow> SSHORT \<Rightarrow> SLONG option" where
  "gds_vax_integer ptr len =
     (case ptr of None \<Rightarrow> Some 0
      | Some p \<Rightarrow> if len \<le>s 0 \<or> 4 <s len then Some 0 else vax_loop 0 0 (unat len) p)"

definition isc_portable_integer :: "bytes option \<Rightarrow> SSHORT \<Rightarrow> SINT64 option" where
  "isc_portable_integer ptr len =
     (case ptr of None \<Rightarrow> Some 0
      | Some p \<Rightarrow> if len \<le>s 0 \<or> 8 <s len then Some 0 else vax_loop 0 0 (unat len) p)"

definition fromVaxInteger :: "bytes \<Rightarrow> nat \<Rightarrow> SINT64 option" where
  "fromVaxInteger ptr len = vax_loop 0 0 len ptr"

fun to_vax_loop :: "nat \<Rightarrow> nat \<Rightarrow> SINT64 \<Rightarrow> bytes" where
  "to_vax_loop shift 0 value = []"
| "to_vax_loop shift (Suc n) value =
     ucast (signed_drop_bit shift value) # to_vax_loop (shift + 8) n value"

definition toVaxInteger :: "nat \<Rightarrow> SINT64 \<Rightarrow> bytes" where
  "toVaxInteger len value = to_vax_loop 0 len value"

section \<open>The bytes of an integer and back\<close>

lemma length_value_bytes [simp]: "length (value_bytes big (w :: 'a::len word)) = LENGTH('a) div 8"
  by (simp add: value_bytes_def Let_def)

lemma bytes_value_rev: "bytes_value big (if big then rev c else c) = bytes_value False c"
  by (simp add: bytes_value_def)

lemma join_byte:
  "ucast (ucast w :: UCHAR) + push_bit 8 (take_bit m (drop_bit 8 w)) = take_bit (8 + m) (w :: 'a::len word)"
  if "8 \<le> LENGTH('a)"
proof -
  have "ucast (ucast w :: UCHAR) + push_bit 8 (take_bit m (drop_bit 8 w)) 
     = ucast (ucast w :: UCHAR) OR push_bit 8 (take_bit m (drop_bit 8 w))"
    by (rule disjunctive_add) (auto simp: bit_simps)
  also have "\<dots> = take_bit (8 + m) w"
    by (rule bit_word_eqI) (auto simp: bit_simps)
  finally show ?thesis .
qed

lemma bytes_value_map:
  "8 \<le> LENGTH('a) \<Longrightarrow>
     bytes_value False (map (\<lambda>i. ucast (drop_bit (8 * i) w)) [0..<n]) = take_bit (8 * n) (w :: 'a::len word)"
proof (induction n arbitrary: w)
  case 0
  then show ?case by (simp add: bytes_value_def)
next
  case (Suc n)
  have "map (\<lambda>i. ucast (drop_bit (8 * i) w) :: UCHAR) [0..<Suc n]
          = ucast w # map (\<lambda>i. ucast (drop_bit (8 * i) (drop_bit 8 w))) [0..<n]"
    by (simp add: upt_conv_Cons map_Suc_upt [symmetric] add.commute del: upt_Suc)
  with Suc.IH [of "drop_bit 8 w"] Suc.prems show ?case
    by (simp add: bytes_value_def join_byte)
qed

lemma bytes_value_bytes [codec]:
  assumes "8 dvd LENGTH('a)"
  shows "bytes_value big (value_bytes big w) = (w :: 'a::len word)"
proof -
  have "8 \<le> LENGTH('a)" using assms by (simp add: dvd_imp_le)
  then have "bytes_value False (value_bytes False w) = w"
    using assms by (simp add: value_bytes_def bytes_value_map)
  moreover have "value_bytes big w = (if big then rev (value_bytes False w) else value_bytes False w)"
    by (simp add: value_bytes_def)
  ultimately show ?thesis by (simp only: bytes_value_rev)
qed

lemma get_put_short [codec]: "get_short big (put_short big v @ rest) = Some (v, rest)"
  by (simp add: get_short_def put_short_def codec)

lemma get_put_long [codec]: "get_long big (put_long big v @ rest) = Some (v, rest)"
  by (simp add: get_long_def put_long_def codec)

lemma vax_loop_value:
  "n \<le> length p \<Longrightarrow> vax_loop v s n p = Some (v + push_bit s (bytes_value False (take n p)))"
proof (induction v s n p rule: vax_loop.induct)
  case (3 v s n b p)
  then show ?case by (simp add: bytes_value_def push_bit_add add.assoc)
qed (simp_all add: bytes_value_def)

lemma to_vax_loop_map:
  "s + 8 * n \<le> 64 \<Longrightarrow> to_vax_loop s n v = map (\<lambda>i. ucast (drop_bit (s + 8 * i) v)) [0..<n]"
proof (induction s n v rule: to_vax_loop.induct)
  case (2 s n v)
  have "(ucast (signed_drop_bit s v) :: UCHAR) = ucast (drop_bit s v)"
    using 2 by (intro bit_word_eqI) (auto simp: bit_simps)
  with 2 show ?case
    by (simp add: upt_conv_Cons map_Suc_upt [symmetric] ac_simps del: upt_Suc)
qed simp

lemma put_vax_little: 
  "put_vax_short big v = value_bytes False v"
  "put_vax_long big l = value_bytes False l"
  "put_vax_int64 big i = value_bytes False i"
proof -
  have rev: "value_bytes True w = rev (value_bytes False w)" for w :: "'a::len word"
    by (simp add: value_bytes_def)
  have flip: "length (c :: bytes) = 2 \<Longrightarrow> [c ! 1, c ! 0] = rev c"
    "length (c :: bytes) = 4 \<Longrightarrow> [c ! 3, c ! 2, c ! 1, c ! 0] = rev c"
    "length (c :: bytes) = 8 \<Longrightarrow>
       [c ! 7, c ! 6, c ! 5, c ! 4, c ! 3, c ! 2, c ! 1, c ! 0] = rev c" for c
    by (auto simp: length_Suc_conv numeral_eq_Suc)
  show "put_vax_short big v = value_bytes False v"
    by (cases big) (simp_all add: put_vax_short_def Let_def rev flip del: One_nat_def)
  show "put_vax_long big l = value_bytes False l"
    by (cases big) (simp_all add: put_vax_long_def Let_def rev flip del: One_nat_def)
  show "put_vax_int64 big i = value_bytes False i"
    by (cases big) (simp_all add: put_vax_int64_def Let_def rev flip del: One_nat_def)
qed

lemma toVaxInteger_bytes: "n \<le> 8 \<Longrightarrow> bytes_value False (toVaxInteger n v) = take_bit (8 * n) v"
  by (simp add: toVaxInteger_def to_vax_loop_map bytes_value_map)

lemma toVaxInteger_take: "n \<le> 8 \<Longrightarrow> toVaxInteger n v = take n (value_bytes False v)"
  by (simp add: toVaxInteger_def to_vax_loop_map value_bytes_def take_map)

lemma length_toVaxInteger [simp]: "n \<le> 8 \<Longrightarrow> length (toVaxInteger n v) = n"
  by (simp add: toVaxInteger_take)

section \<open>Properties\<close>

text \<open>
  An integer stored with \<open>put_vax_long\<close> or \<open>put_vax_int64\<close> is read back by
  \<open>gds__vax_integer\<close>, respectively \<open>isc_portable_integer\<close>, whatever the byte order of the
  machine that stored it and whatever follows it in the buffer.
\<close>

theorem vax_put_get:
  "gds_vax_integer (Some (put_vax_long big l @ rest)) 4 = Some l \<and>
   isc_portable_integer (Some (put_vax_int64 big' i @ rest)) 8 = Some i"
proof -
  have "\<not> (4 :: SSHORT) \<le>s 0" "\<not> (8 :: SSHORT) \<le>s 0" "\<not> 4 <s (4 :: SSHORT)" "\<not> 8 <s (8 :: SSHORT)"
    by (simp_all add: word_sle_eq)
  moreover have "take 4 (value_bytes False l @ rest) = value_bytes False l"
    "take 8 (value_bytes False i @ rest) = value_bytes False i" by simp_all
  ultimately show ?thesis
    by (simp add: gds_vax_integer_def isc_portable_integer_def put_vax_little vax_loop_value codec)
qed

text \<open>
  The integer a parameter block carries in \<open>n\<close> bytes, one to eight, is read by
  \<open>isc_portable_integer\<close> and by \<open>fromVaxInteger\<close> as the lowest \<open>8 * n\<close> bits of the value
  \<open>toVaxInteger\<close> was given: the sign is not extended.
\<close>

theorem vax_block_integer:
  assumes "0 < n" and "n \<le> 8"
  shows "isc_portable_integer (Some (toVaxInteger n v @ rest)) (of_nat n) = Some (take_bit (8 * n) v) \<and>
         fromVaxInteger (toVaxInteger n v @ rest) n = Some (take_bit (8 * n) v)"
proof -
  have "unat (of_nat n :: SSHORT) = n" using assms by (simp add: unat_of_nat_eq)
  moreover from this have "\<not> (of_nat n :: SSHORT) \<le>s 0" "\<not> 8 <s (of_nat n :: SSHORT)"
    using assms by (simp_all add: word_sless_alt word_sle_eq sint_eq_unat)
  moreover have "vax_loop 0 0 n (toVaxInteger n v @ rest) = Some (take_bit (8 * n) v)"
    using assms by (simp add: vax_loop_value toVaxInteger_bytes)
  ultimately show ?thesis by (simp add: isc_portable_integer_def fromVaxInteger_def)
qed

theorem vax_block_integer_witness:
  "isc_portable_integer (Some (toVaxInteger 2 (- 2) @ [7])) 2 = Some 65534"
  using vax_block_integer [of 2 "- 2" "[7]"] by (simp add: take_bit_eq_mask mask_eq_exp_minus_1)

end
