(* ===== verification/IndexNode.thy ===== *)
theory IndexNode
  imports MemoryRoutines RecordNumber
begin

text \<open>
  B-tree index nodes: \<^verbatim>\<open>src/src/jrd/btn.h\<close> and \<^verbatim>\<open>src/src/jrd/btn.cpp\<close>.  A node is stored
  as a flag byte with five bits of the record number, the rest of the number in groups of
  seven bits, on non-leaf pages a page number in the same form, the prefix and the length
  (left out when the flags tell them), and the key data.  Jump nodes are the page's own
  index into its nodes.

  The pointer \<open>data\<close> is the list of the bytes it points to.  \<open>SINT64\<close> numbers are never
  negative when they are shifted, so \<open>>>\<close> is \<open>drop_bit\<close>.
\<close>

section \<open>Flags\<close>

definition BTN_NORMAL_FLAG :: UCHAR where "BTN_NORMAL_FLAG = 0"
definition BTN_END_LEVEL_FLAG :: UCHAR where "BTN_END_LEVEL_FLAG = 1"
definition BTN_END_BUCKET_FLAG :: UCHAR where "BTN_END_BUCKET_FLAG = 2"
definition BTN_ZERO_PREFIX_ZERO_LENGTH_FLAG :: UCHAR where "BTN_ZERO_PREFIX_ZERO_LENGTH_FLAG = 3"
definition BTN_ZERO_LENGTH_FLAG :: UCHAR where "BTN_ZERO_LENGTH_FLAG = 4"
definition BTN_ONE_LENGTH_FLAG :: UCHAR where "BTN_ONE_LENGTH_FLAG = 5"

lemmas btn_flags = BTN_NORMAL_FLAG_def BTN_END_LEVEL_FLAG_def BTN_END_BUCKET_FLAG_def
  BTN_ZERO_PREFIX_ZERO_LENGTH_FLAG_def BTN_ZERO_LENGTH_FLAG_def BTN_ONE_LENGTH_FLAG_def

section \<open>Nodes\<close>

record IndexNode =
  n_prefix :: USHORT
  n_length :: USHORT
  n_pageNumber :: ULONG
  n_data :: bytes
  n_recordNumber :: RecordNumber
  n_isEndBucket :: bool
  n_isEndLevel :: bool

definition keyEqual :: "USHORT \<Rightarrow> bytes \<Rightarrow> IndexNode \<Rightarrow> bool" where
  "keyEqual len key node =
     (if unat len \<noteq> unat (n_length node) + unat (n_prefix node) then False
      else if n_length node = 0 then True
      else take (unat (n_length node)) (n_data node)
             = take (unat (n_length node)) (drop (unat (n_prefix node)) key))"

definition setEndBucket :: "IndexNode \<Rightarrow> IndexNode" where
  "setEndBucket node = node\<lparr>n_isEndBucket := True, n_isEndLevel := False\<rparr>"

definition setEndLevel :: "IndexNode \<Rightarrow> IndexNode" where
  "setEndLevel node = node\<lparr>n_isEndBucket := False, n_isEndLevel := True, n_prefix := 0,
     n_length := 0, n_pageNumber := 0, n_recordNumber := rn_setValue 0 (n_recordNumber node)\<rparr>"

definition setNode :: "USHORT \<Rightarrow> USHORT \<Rightarrow> RecordNumber \<Rightarrow> ULONG \<Rightarrow> bool \<Rightarrow> bool \<Rightarrow> IndexNode \<Rightarrow> IndexNode" where
  "setNode prefix len recordNumber pageNumber isEndBucket isEndLevel node =
     node\<lparr>n_isEndBucket := isEndBucket, n_isEndLevel := isEndLevel, n_prefix := prefix,
       n_length := len, n_recordNumber := recordNumber, n_pageNumber := pageNumber\<rparr>"

text \<open>The loop that counts equal leading bytes; \<open>l\<close> is the number of bytes left in both keys.\<close>

fun prefix_loop :: "nat \<Rightarrow> bytes \<Rightarrow> bytes \<Rightarrow> nat" where
  "prefix_loop (Suc l) (a # p) (b # s) =
     (if a = b then (if l = 0 then 1 else Suc (prefix_loop l p s)) else 0)"
| "prefix_loop _ _ _ = 0"

definition computePrefix :: "bytes \<Rightarrow> USHORT \<Rightarrow> bytes \<Rightarrow> USHORT \<Rightarrow> USHORT" where
  "computePrefix prevString prevLength string len =
     (let l = min (unat prevLength) (unat len)
      in if l = 0 then 0 else of_nat (prefix_loop l prevString string))"

section \<open>Writing a node\<close>

definition internalFlags :: "IndexNode \<Rightarrow> UCHAR" where
  "internalFlags node =
     (if n_isEndLevel node then BTN_END_LEVEL_FLAG
      else if n_isEndBucket node then BTN_END_BUCKET_FLAG
      else if n_length node = 0 then
        (if n_prefix node = 0 then BTN_ZERO_PREFIX_ZERO_LENGTH_FLAG else BTN_ZERO_LENGTH_FLAG)
      else if n_length node = 1 then BTN_ONE_LENGTH_FLAG
      else 0)"

definition clamp :: "SINT64 \<Rightarrow> SINT64" where
  "clamp number = (if number <s 0 then 0 else number)"

text \<open>The record number without its five lowest bits: one to five bytes.\<close>

definition write_number :: "SINT64 \<Rightarrow> bytes" where
  "write_number number =
     (let tmp = ucast (number AND 0x7F) :: UCHAR; number = drop_bit 7 number
      in if number = 0 then [tmp]
         else (tmp OR 0x80) #
           (let tmp = ucast (number AND 0x7F) :: UCHAR; number = drop_bit 7 number
            in if number = 0 then [tmp]
               else (tmp OR 0x80) #
                 (let tmp = ucast (number AND 0x7F) :: UCHAR; number = drop_bit 7 number
                  in if number = 0 then [tmp]
                     else (tmp OR 0x80) #
                       (let tmp = ucast (number AND 0x7F) :: UCHAR; number = drop_bit 7 number
                        in if number = 0 then [tmp]
                           else (tmp OR 0x80) #
                             (let tmp = ucast (number AND 0x7F) :: UCHAR; number = drop_bit 7 number
                              in if number = 0 then [tmp] else [])))))"

definition write_page :: "SINT64 \<Rightarrow> bytes" where
  "write_page number =
     (let tmp = ucast (number AND 0x7F) :: UCHAR; number = drop_bit 7 number;
          tmp = (if 0 <s number then tmp OR 0x80 else tmp)
      in tmp # (if 0 <s number then
           (let tmp = ucast (number AND 0x7F) :: UCHAR; number = drop_bit 7 number;
                tmp = (if 0 <s number then tmp OR 0x80 else tmp)
            in tmp # (if 0 <s number then
                 (let tmp = ucast (number AND 0x7F) :: UCHAR; number = drop_bit 7 number;
                      tmp = (if 0 <s number then tmp OR 0x80 else tmp)
                  in tmp # (if 0 <s number then
                       (let tmp = ucast (number AND 0x7F) :: UCHAR; number = drop_bit 7 number;
                            tmp = (if 0 <s number then tmp OR 0x80 else tmp)
                        in tmp # (if 0 <s number then [ucast (number AND 0x0F)] else []))
                     else []))
               else []))
         else []))"

text \<open>Prefix and length: at most 14 bits in one or two bytes.\<close>

definition write_short :: "SINT64 \<Rightarrow> bytes" where
  "write_short number =
     (let tmp = ucast (number AND 0x7F) :: UCHAR; number = drop_bit 7 number;
          tmp = (if 0 <s number then tmp OR 0x80 else tmp)
      in tmp # (if 0 <s number then [ucast (number AND 0x7F)] else []))"

definition write_prefix :: "UCHAR \<Rightarrow> USHORT \<Rightarrow> bytes" where
  "write_prefix flags prefix =
     (if flags \<noteq> BTN_ZERO_PREFIX_ZERO_LENGTH_FLAG then write_short (ucast prefix) else [])"

definition write_length :: "UCHAR \<Rightarrow> USHORT \<Rightarrow> bytes" where
  "write_length flags len =
     (if flags \<noteq> BTN_ZERO_PREFIX_ZERO_LENGTH_FLAG \<and> flags \<noteq> BTN_ZERO_LENGTH_FLAG
         \<and> flags \<noteq> BTN_ONE_LENGTH_FLAG
      then write_short (ucast len) else [])"

text \<open>The first byte: the flags above five bits of the record number.\<close>

definition first_byte :: "UCHAR \<Rightarrow> SINT64 \<Rightarrow> UCHAR" where
  "first_byte flags number = push_bit 5 flags OR ucast (number AND 0x1F)"

definition node_header :: "bool \<Rightarrow> IndexNode \<Rightarrow> bytes" where
  "node_header leafNode node =
     (let flags = internalFlags node; number = clamp (rn_value (n_recordNumber node));
          first = first_byte flags number
      in if n_isEndLevel node then [first]
         else first # write_number (drop_bit 5 number)
           @ (if \<not> leafNode then write_page (clamp (ucast (n_pageNumber node))) else [])
           @ write_prefix flags (n_prefix node) @ write_length flags (n_length node))"

section \<open>The size of a node\<close>

definition number_size :: "SINT64 \<Rightarrow> USHORT" where
  "number_size number =
     (if number AND 0xFFF0000000 \<noteq> 0 then 5
      else if number AND 0xFFFFE00000 \<noteq> 0 then 4
      else if number AND 0xFFFFFFC000 \<noteq> 0 then 3
      else if number AND 0xFFFFFFFF80 \<noteq> 0 then 2
      else 1)"

definition page_size :: "SINT64 \<Rightarrow> USHORT" where
  "page_size number =
     (if number AND 0xF0000000 \<noteq> 0 then 5
      else if number AND 0xFFE00000 \<noteq> 0 then 4
      else if number AND 0xFFFFC000 \<noteq> 0 then 3
      else if number AND 0xFFFFFF80 \<noteq> 0 then 2
      else 1)"

definition short_size :: "SINT64 \<Rightarrow> USHORT" where
  "short_size number =
     (if number AND 0xFFFFC000 \<noteq> 0 then 3
      else if number AND 0xFFFFFF80 \<noteq> 0 then 2
      else 1)"

definition getNodeSize :: "bool \<Rightarrow> IndexNode \<Rightarrow> USHORT" where
  "getNodeSize leafNode node =
     (let flags = internalFlags node; number = clamp (rn_value (n_recordNumber node))
      in if n_isEndLevel node then 1
         else 1 + number_size (drop_bit 5 number)
           + (if \<not> leafNode then page_size (clamp (ucast (n_pageNumber node))) else 0)
           + (if flags \<noteq> BTN_ZERO_PREFIX_ZERO_LENGTH_FLAG
              then short_size (ucast (n_prefix node)) else 0)
           + (if flags \<noteq> BTN_ZERO_PREFIX_ZERO_LENGTH_FLAG \<and> flags \<noteq> BTN_ZERO_LENGTH_FLAG
                 \<and> flags \<noteq> BTN_ONE_LENGTH_FLAG
              then short_size (ucast (n_length node)) else 0)
           + n_length node)"

text \<open>
  \<open>writeNode\<close> at position \<open>pos\<close> of a page; the result is the page and the position after
  the node.  Without \<open>withData\<close> the data is first moved to its place, found from the
  node's size, and the header is written over what was before it.
\<close>

definition writeNode :: "bytes \<Rightarrow> nat \<Rightarrow> bool \<Rightarrow> bool \<Rightarrow> IndexNode \<Rightarrow> bytes \<times> nat" where
  "writeNode page pos leafNode withData node =
     (let len = unat (n_length node);
          page = (if withData then page
                  else let offset = unat (getNodeSize leafNode node - n_length node)
                       in patch (pos + offset) (take len (n_data node)) page);
          header = node_header leafNode node;
          page = patch pos header page;
          p = pos + length header
      in if n_isEndLevel node then (page, p)
         else (if withData then patch p (take len (n_data node)) page else page, p + len))"

section \<open>Reading a node\<close>

definition read_number :: "SINT64 \<Rightarrow> bytes \<Rightarrow> (SINT64 \<times> bytes) option" where
  "read_number number p = do {
     (b, p) \<leftarrow> next_byte p;
     let tmp = (ucast b :: ULONG);
     let number = number OR ucast (push_bit 5 (tmp AND 0x7F));
     if tmp < 128 then Some (number, p) else do {
     (b, p) \<leftarrow> next_byte p;
     let tmp = (ucast b :: ULONG);
     let number = number OR ucast (push_bit 12 (tmp AND 0x7F));
     if tmp < 128 then Some (number, p) else do {
     (b, p) \<leftarrow> next_byte p;
     let tmp = (ucast b :: ULONG);
     let number = number OR ucast (push_bit 19 (tmp AND 0x7F));
     if tmp < 128 then Some (number, p) else do {
     (b, p) \<leftarrow> next_byte p;
     let tmp = (ucast b :: ULONG);
     let number = number OR push_bit 26 (ucast (tmp AND 0x7F));
     if tmp < 128 then Some (number, p) else do {
     (b, p) \<leftarrow> next_byte p;
     let tmp = (ucast b :: ULONG);
     Some (number OR push_bit 33 (ucast (tmp AND 0x7F)), p)
   }}}}}"

definition read_page :: "bytes \<Rightarrow> (ULONG \<times> bytes) option" where
  "read_page p = do {
     (b, p) \<leftarrow> next_byte p;
     let tmp = (ucast b :: ULONG);
     let number = (ucast (tmp AND 0x7F) :: SINT64);
     if tmp < 128 then Some (ucast number, p) else do {
     (b, p) \<leftarrow> next_byte p;
     let tmp = (ucast b :: ULONG);
     let number = number OR ucast (push_bit 7 (tmp AND 0x7F));
     if tmp < 128 then Some (ucast number, p) else do {
     (b, p) \<leftarrow> next_byte p;
     let tmp = (ucast b :: ULONG);
     let number = number OR ucast (push_bit 14 (tmp AND 0x7F));
     if tmp < 128 then Some (ucast number, p) else do {
     (b, p) \<leftarrow> next_byte p;
     let tmp = (ucast b :: ULONG);
     let number = number OR ucast (push_bit 21 (tmp AND 0x7F));
     if tmp < 128 then Some (ucast number, p) else do {
     (b, p) \<leftarrow> next_byte p;
     let tmp = (ucast b :: ULONG);
     Some (ucast (number OR ucast (push_bit 28 (tmp AND 0x0F))), p)
   }}}}}"

definition read_short :: "bytes \<Rightarrow> (USHORT \<times> bytes) option" where
  "read_short p = do {
     (b, p) \<leftarrow> next_byte p;
     let tmp = (ucast b :: ULONG);
     let number = (ucast (tmp AND 0x7F) :: USHORT);
     if tmp AND 0x80 = 0 then Some (number, p) else do {
     (b, p) \<leftarrow> next_byte p;
     let tmp = (ucast b :: ULONG);
     Some (number OR ucast (push_bit 7 (tmp AND 0x7F)), p)
   }}"

definition byte_number :: "UCHAR \<Rightarrow> SINT64" where
  "byte_number b = ucast (b AND 0x1F)"

definition byte_flags :: "UCHAR \<Rightarrow> UCHAR" where
  "byte_flags b = drop_bit 5 (b AND 0xE0)"

definition read_prefix :: "UCHAR \<Rightarrow> bytes \<Rightarrow> (USHORT \<times> bytes) option" where
  "read_prefix flags p =
     (if flags = BTN_ZERO_PREFIX_ZERO_LENGTH_FLAG then Some (0, p) else read_short p)"

definition read_length :: "UCHAR \<Rightarrow> bytes \<Rightarrow> (USHORT \<times> bytes) option" where
  "read_length flags p =
     (if flags = BTN_ZERO_LENGTH_FLAG \<or> flags = BTN_ZERO_PREFIX_ZERO_LENGTH_FLAG then Some (0, p)
      else if flags = BTN_ONE_LENGTH_FLAG then Some (1, p) else read_short p)"

text \<open>
  \<open>readNode\<close> fills the fields of an existing object: on a leaf page it leaves the page
  number alone, at an end-of-level mark also the data.
\<close>

definition readNode :: "bytes \<Rightarrow> bool \<Rightarrow> IndexNode \<Rightarrow> (IndexNode \<times> bytes) option" where
  "readNode p leafNode node = do {
     (b, p) \<leftarrow> next_byte p;
     let number = byte_number b;
     let flags = byte_flags b;
     let node = node\<lparr>n_isEndLevel := (flags = BTN_END_LEVEL_FLAG),
                     n_isEndBucket := (flags = BTN_END_BUCKET_FLAG)\<rparr>;
     if n_isEndLevel node
     then Some (node\<lparr>n_prefix := 0, n_length := 0,
                     n_recordNumber := rn_setValue 0 (n_recordNumber node), n_pageNumber := 0\<rparr>, p)
     else do {
     (number, p) \<leftarrow> read_number number p;
     let node = node\<lparr>n_recordNumber := rn_setValue number (n_recordNumber node)\<rparr>;
     (node, p) \<leftarrow> (if \<not> leafNode
        then do { (page, p) \<leftarrow> read_page p; Some (node\<lparr>n_pageNumber := page\<rparr>, p) }
        else Some (node, p));
     (prefix, p) \<leftarrow> read_prefix flags p;
     (len, p) \<leftarrow> read_length flags p;
     (ds, p) \<leftarrow> next_bytes (unat len) p;
     Some (node\<lparr>n_prefix := prefix, n_length := len, n_data := ds\<rparr>, p)
   }}"

section \<open>Groups of seven bits\<close>

lemma and_masks:
  "w AND 0x7F = take_bit 7 (w :: 'a::len word)"
  "w AND 0x1F = take_bit 5 w"
  "w AND 0x0F = take_bit 4 w"
  by (simp_all add: take_bit_eq_mask mask_eq_exp_minus_1)

lemma bit_128:
  "bit (0x80 :: 'a::len word) k \<longleftrightarrow> k = 7 \<and> 7 < LENGTH('a)"
  "bit (0x80 :: int) k \<longleftrightarrow> k = 7"
proof -
  have "(0x80 :: 'a word) = 2 ^ 7" "(0x80 :: int) = 2 ^ 7" by simp_all
  then show "bit (0x80 :: 'a word) k \<longleftrightarrow> k = 7 \<and> 7 < LENGTH('a)" "bit (0x80 :: int) k \<longleftrightarrow> k = 7"
    by (simp_all only: bit_exp_iff) (auto simp: possible_bit_def)
qed

lemma low7:
  "(ucast (ucast (take_bit 7 (n :: SINT64)) :: UCHAR) :: ULONG) < 128"
  "\<not> (ucast ((ucast (take_bit 7 n) :: UCHAR) OR 0x80) :: ULONG) < 128"
  "take_bit 7 (ucast (ucast (take_bit 7 n) :: UCHAR) :: ULONG) = ucast (take_bit 7 n)"
  "take_bit 7 (ucast ((ucast (take_bit 7 n) :: UCHAR) OR 0x80) :: ULONG) = ucast (take_bit 7 n)"
  "take_bit 4 (ucast (ucast (take_bit 4 n) :: UCHAR) :: ULONG) = ucast (take_bit 4 n)"
  "(ucast (ucast (take_bit 7 n) :: UCHAR) :: ULONG) AND 0x80 = 0"
  "(ucast ((ucast (take_bit 7 n) :: UCHAR) OR 0x80) :: ULONG) AND 0x80 \<noteq> 0"
proof -
  have "unat (ucast (ucast (take_bit 7 n) :: UCHAR) :: ULONG) < 2 ^ 7"
    using take_bit_nat_less_exp [of 7 "unat n"]
    by (simp add: unsigned_ucast_eq unsigned_take_bit_eq min_def)
  then show "(ucast (ucast (take_bit 7 n) :: UCHAR) :: ULONG) < 128"
    by (simp add: word_less_nat_alt)
  have "bit (ucast ((ucast (take_bit 7 n) :: UCHAR) OR 0x80) :: ULONG) 7"
    by (simp add: bit_simps bit_128)
  then show "\<not> (ucast ((ucast (take_bit 7 n) :: UCHAR) OR 0x80) :: ULONG) < 128"
    using not_bit_ge [of _ 7 7] by (auto simp: word_less_nat_alt)
  have "bit ((ucast ((ucast (take_bit 7 n) :: UCHAR) OR 0x80) :: ULONG) AND 0x80) 7"
    by (simp add: bit_simps bit_128)
  then show "(ucast ((ucast (take_bit 7 n) :: UCHAR) OR 0x80) :: ULONG) AND 0x80 \<noteq> 0"
    by (metis bit_0_eq bot_apply bot_bool_def)
  show "take_bit 7 (ucast (ucast (take_bit 7 n) :: UCHAR) :: ULONG) = ucast (take_bit 7 n)"
    by (rule bit_word_eqI; auto simp: bit_simps)
  show "take_bit 7 (ucast ((ucast (take_bit 7 n) :: UCHAR) OR 0x80) :: ULONG) = ucast (take_bit 7 n)"
    by (rule bit_word_eqI; auto simp: bit_simps bit_128)
  show "take_bit 4 (ucast (ucast (take_bit 4 n) :: UCHAR) :: ULONG) = ucast (take_bit 4 n)"
    by (rule bit_word_eqI; auto simp: bit_simps)
  show "(ucast (ucast (take_bit 7 n) :: UCHAR) :: ULONG) AND 0x80 = 0"
    by (rule bit_word_eqI; auto simp: bit_simps bit_128)
qed

lemma widen_group:
  "k + 7 \<le> 32 \<Longrightarrow> ucast (push_bit k (ucast (take_bit 7 (x :: SINT64)) :: ULONG)) = push_bit k (take_bit 7 x)"
  "ucast (push_bit 28 (ucast (take_bit 4 x) :: ULONG)) = push_bit 28 (take_bit 4 x)"
  "ucast (ucast (take_bit 7 x) :: ULONG) = take_bit 7 x"
  by (rule bit_word_eqI; auto simp: bit_simps)+

lemma join_groups: "take_bit a N OR push_bit a (take_bit b (drop_bit a N)) = take_bit (a + b) (N :: 'a::len word)"
  by (rule bit_word_eqI) (auto simp: bit_simps)

lemma drop_bit_eq_0:
  fixes N :: "'a::len word"
  assumes "unat N < 2 ^ k"
  shows "drop_bit k N = 0"
  by (rule bit_word_eqI) (use not_bit_ge [OF assms] in \<open>simp add: bit_simps\<close>)

lemma pos_drop_bit:
  fixes w :: SINT64
  assumes "0 < k"
  shows "0 <s drop_bit k w \<longleftrightarrow> drop_bit k w \<noteq> 0"
proof -
  have "unat (drop_bit k w) = unat w div 2 ^ k"
    by (simp only: unat_drop_bit_eq [of k w] drop_bit_eq_div [of k "unat w"])
  also have "\<dots> \<le> unat w div 2 ^ 1"
    using assms by (intro div_le_mono2 power_increasing) auto
  also have "\<dots> < 2 ^ 63"
  proof -
    have "unat w < 2 ^ 64" using unsigned_less [of w] by simp
    then show ?thesis by simp
  qed
  finally have "sint (drop_bit k w) = int (unat (drop_bit k w))"
    by (intro sint_eq_unat) simp
  then have "0 <s drop_bit k w \<longleftrightarrow> 0 < unat (drop_bit k w)"
    by (simp only: word_sless_alt signed_0 of_nat_0_less_iff)
  then show ?thesis by (simp only: word_unat_eq_iff unsigned_0 neq0_conv)
qed

lemmas regroup = widen_group join_groups take_bit_eq_self_iff_drop_bit_eq_0 pos_drop_bit

lemma read_write_number [codec]:
  fixes N :: SINT64
  assumes "unat N < 2 ^ 40"
  shows "read_number (take_bit 5 N) (write_number (drop_bit 5 N) @ rest) = Some (N, rest)"
  using drop_bit_eq_0 [OF assms]
  unfolding read_number_def write_number_def Let_def and_masks
  by (auto simp: low7 regroup)



lemma cast_groups:
  fixes g :: ULONG and h :: USHORT
  shows "ucast (ucast g :: SINT64) = g"
    and "drop_bit k (ucast g :: SINT64) = 0 \<Longrightarrow> ucast (take_bit k (ucast g :: SINT64)) = g"
    and "ucast (take_bit 32 (ucast g :: SINT64)) = g"
    and "drop_bit k (ucast h :: SINT64) = 0 \<Longrightarrow> ucast (take_bit k (ucast h :: SINT64)) = h"
proof -
  show g: "ucast (ucast g :: SINT64) = g"
    by (rule bit_word_eqI; auto simp: bit_simps)
  show "ucast (take_bit k (ucast g :: SINT64)) = g" if "drop_bit k (ucast g :: SINT64) = 0"
    using that by (simp add: take_bit_eq_self_iff_drop_bit_eq_0 [THEN iffD2] g)
  show "ucast (take_bit 32 (ucast g :: SINT64)) = g"
    by (rule bit_word_eqI; auto simp: bit_simps)
  have h: "ucast (ucast h :: SINT64) = h"
    by (rule bit_word_eqI; auto simp: bit_simps)
  show "ucast (take_bit k (ucast h :: SINT64)) = h" if "drop_bit k (ucast h :: SINT64) = 0"
    using that by (simp add: take_bit_eq_self_iff_drop_bit_eq_0 [THEN iffD2] h)
qed

lemma read_write_page [codec]:
  "read_page (write_page (ucast (g :: ULONG)) @ rest) = Some (g, rest)"
  unfolding read_page_def write_page_def Let_def and_masks
  by (auto simp: low7 regroup cast_groups)

lemma widen_short:
  "(ucast (push_bit 7 (ucast (take_bit 7 (x :: SINT64)) :: ULONG)) :: USHORT) = ucast (push_bit 7 (take_bit 7 x))"
  "(ucast (ucast (take_bit 7 x) :: ULONG) :: USHORT) = ucast (take_bit 7 x)"
  "(ucast x :: USHORT) OR ucast y = ucast (x OR y)"
  by (rule bit_word_eqI; auto simp: bit_simps)+

lemma read_write_short [codec]:
  assumes "unat (h :: USHORT) < 2 ^ 14"
  shows "read_short (write_short (ucast h) @ rest) = Some (h, rest)"
proof -
  have "unat (ucast h :: SINT64) < 2 ^ 14" using assms by (simp add: unsigned_ucast_eq)
  note drop_bit_eq_0 [OF this]
  then show ?thesis
  unfolding read_short_def write_short_def Let_def and_masks
  by (auto simp: low7 widen_short join_groups pos_drop_bit cast_groups)
qed

section \<open>The bytes of a node\<close>

lemma byte_flags_first:
  assumes "unat f < 8"
  shows "byte_flags (first_byte f n) = f"
proof -
  have e0: "(0xE0 :: UCHAR) = NOT (mask 5)" by (simp add: mask_eq_exp_minus_1)
  have "\<not> bit f k" if "3 \<le> k" for k using not_bit_ge [of f 3 k] assms that by simp
  then show ?thesis
    unfolding byte_flags_def first_byte_def e0 and_masks
    by (intro bit_word_eqI) (auto simp: bit_simps not_less [symmetric])
qed

lemma byte_number_first: "byte_number (first_byte f n) = take_bit 5 n"
  unfolding byte_number_def first_byte_def and_masks by (intro bit_word_eqI) (auto simp: bit_simps)

definition node_bytes :: "bool \<Rightarrow> IndexNode \<Rightarrow> bytes" where
  "node_bytes leafNode node = node_header leafNode node @
     (if n_isEndLevel node then [] else take (unat (n_length node)) (n_data node))"

definition wf_node :: "IndexNode \<Rightarrow> bool" where
  "wf_node node \<longleftrightarrow>
     unat (n_prefix node) < 2 ^ 14 \<and> unat (n_length node) < 2 ^ 14 \<and>
     length (n_data node) = unat (n_length node) \<and>
     unat (rn_value (n_recordNumber node)) < 2 ^ 40 \<and>
     (n_isEndLevel node \<longrightarrow> \<not> n_isEndBucket node \<and> n_prefix node = 0 \<and> n_length node = 0 \<and>
        n_pageNumber node = 0 \<and> rn_value (n_recordNumber node) = 0)"

definition fill_node :: "bool \<Rightarrow> IndexNode \<Rightarrow> IndexNode \<Rightarrow> IndexNode" where
  "fill_node leafNode old node =
     old\<lparr>n_isEndLevel := n_isEndLevel node, n_isEndBucket := n_isEndBucket node,
         n_recordNumber := rn_setValue (rn_value (n_recordNumber node)) (n_recordNumber old),
         n_pageNumber := (if leafNode \<and> \<not> n_isEndLevel node then n_pageNumber old else n_pageNumber node),
         n_prefix := n_prefix node, n_length := n_length node,
         n_data := (if n_isEndLevel node then n_data old else n_data node)\<rparr>"

lemma clamp_small: "unat n < 2 ^ 40 \<Longrightarrow> clamp n = n"
  by (simp add: clamp_def word_sless_alt sint_eq_unat)

lemma clamp_page: "clamp (ucast (g :: ULONG)) = ucast g"
proof -
  have "unat (ucast g :: SINT64) < 2 ^ 40"
    using unat_less_32 [of g] by (simp add: unsigned_ucast_eq)
  then show ?thesis by (rule clamp_small)
qed

lemma flags_small: "unat (internalFlags node) < 8"
  by (simp add: internalFlags_def btn_flags)

lemma flag_iff:
  "internalFlags node = BTN_END_LEVEL_FLAG \<longleftrightarrow> n_isEndLevel node"
  "internalFlags node = BTN_END_BUCKET_FLAG \<longleftrightarrow> n_isEndBucket node \<and> \<not> n_isEndLevel node"
  by (auto simp: internalFlags_def btn_flags)

lemma flag_lengths:
  "internalFlags node = BTN_ZERO_PREFIX_ZERO_LENGTH_FLAG \<Longrightarrow> n_prefix node = 0 \<and> n_length node = 0"
  "internalFlags node = BTN_ZERO_LENGTH_FLAG \<Longrightarrow> n_length node = 0"
  "internalFlags node = BTN_ONE_LENGTH_FLAG \<Longrightarrow> n_length node = 1"
  by (auto simp: internalFlags_def btn_flags split: if_splits)

lemmas first_byte_simps = byte_flags_first byte_number_first flags_small

lemma flags_distinct:
  "BTN_ZERO_LENGTH_FLAG \<noteq> BTN_ZERO_PREFIX_ZERO_LENGTH_FLAG"
  "BTN_ONE_LENGTH_FLAG \<noteq> BTN_ZERO_PREFIX_ZERO_LENGTH_FLAG"
  "BTN_ONE_LENGTH_FLAG \<noteq> BTN_ZERO_LENGTH_FLAG"
  by (simp_all add: btn_flags)

lemma read_prefix_length [codec]:
  fixes node
  defines "f \<equiv> internalFlags node"
  shows "unat (n_prefix node) < 2 ^ 14 \<Longrightarrow>
           read_prefix f (write_prefix f (n_prefix node) @ rest) = Some (n_prefix node, rest)"
    and "unat (n_length node) < 2 ^ 14 \<Longrightarrow>
           read_length f (write_length f (n_length node) @ rest) = Some (n_length node, rest)"
  using flag_lengths [of node]
  by (auto simp: f_def read_prefix_def write_prefix_def read_length_def write_length_def
    read_write_short flags_distinct)

lemma read_node_bytes [codec]:
  assumes "wf_node node"
  shows "readNode (node_bytes leaf node @ rest) leaf old = Some (fill_node leaf old node, rest)"
proof (cases "n_isEndLevel node")
  case True
  then have "internalFlags node = BTN_END_LEVEL_FLAG" by (simp add: internalFlags_def)
  with assms True show ?thesis
    by (simp add: readNode_def node_bytes_def node_header_def fill_node_def Let_def
      first_byte_simps flag_iff wf_node_def)
next
  case False
  from assms have clamp: "clamp (rn_value (n_recordNumber node)) = rn_value (n_recordNumber node)"
    by (simp add: wf_node_def clamp_small)
  from assms False show ?thesis
    by (cases leaf) (simp_all add: readNode_def node_bytes_def node_header_def fill_node_def
      Let_def flag_iff first_byte_simps clamp codec clamp_page wf_node_def)
qed

lemma drop_bit_chain:
  fixes N :: SINT64
  assumes "drop_bit k N = 0" and "k \<le> m"
  shows "drop_bit m N = 0"
proof -
  have "drop_bit m N = drop_bit (m - k) (drop_bit k N)" using assms(2) by simp
  then show ?thesis using assms(1) by simp
qed

lemma drop_bit_imp:
  "drop_bit 14 (N :: SINT64) \<noteq> 0 \<Longrightarrow> drop_bit 7 N \<noteq> 0"
  "drop_bit 21 N \<noteq> 0 \<Longrightarrow> drop_bit 14 N \<noteq> 0"
  "drop_bit 28 N \<noteq> 0 \<Longrightarrow> drop_bit 21 N \<noteq> 0"
  "drop_bit 35 N = 0 \<Longrightarrow> drop_bit 40 N = 0"
  using drop_bit_chain [of 7 N 14] drop_bit_chain [of 14 N 21] drop_bit_chain [of 21 N 28]
    drop_bit_chain [of 35 N 40] by auto

lemma and_shifted:
  fixes N :: SINT64
  assumes "drop_bit (k + m) N = 0"
  shows "N AND push_bit k (mask m) = 0 \<longleftrightarrow> drop_bit k N = 0"
proof -
  have ident: "drop_bit k (push_bit k (drop_bit k N)) = drop_bit k N"
    by (rule bit_word_eqI) (auto simp: bit_simps dest: bit_imp_le_length)
  have "N AND push_bit k (mask m) = push_bit k (take_bit m (drop_bit k N))"
    by (rule bit_word_eqI) (auto simp: bit_simps)
  also have "take_bit m (drop_bit k N) = drop_bit k N"
    using assms by (simp add: take_bit_eq_self_iff_drop_bit_eq_0 add.commute)
  also have "push_bit k (drop_bit k N) = 0 \<longleftrightarrow> drop_bit k N = 0"
    by (metis ident drop_bit_of_0 push_bit_of_0)
  finally show ?thesis .
qed

lemma size_masks:
  "(0xFFFFFFFF80 :: SINT64) = push_bit 7 (mask 33)" "(0xFFFFFFC000 :: SINT64) = push_bit 14 (mask 26)"
  "(0xFFFFE00000 :: SINT64) = push_bit 21 (mask 19)" "(0xFFF0000000 :: SINT64) = push_bit 28 (mask 12)"
  "(0xFFFFFF80 :: SINT64) = push_bit 7 (mask 25)" "(0xFFFFC000 :: SINT64) = push_bit 14 (mask 18)"
  "(0xFFE00000 :: SINT64) = push_bit 21 (mask 11)" "(0xF0000000 :: SINT64) = push_bit 28 (mask 4)"
  by (simp_all add: mask_eq_exp_minus_1 push_bit_eq_mult)

lemma size_tests:
  "drop_bit 40 (N :: SINT64) = 0 \<Longrightarrow> N AND 0xFFFFFFFF80 = 0 \<longleftrightarrow> drop_bit 7 N = 0"
  "drop_bit 40 (N :: SINT64) = 0 \<Longrightarrow> N AND 0xFFFFFFC000 = 0 \<longleftrightarrow> drop_bit 14 N = 0"
  "drop_bit 40 (N :: SINT64) = 0 \<Longrightarrow> N AND 0xFFFFE00000 = 0 \<longleftrightarrow> drop_bit 21 N = 0"
  "drop_bit 40 (N :: SINT64) = 0 \<Longrightarrow> N AND 0xFFF0000000 = 0 \<longleftrightarrow> drop_bit 28 N = 0"
  "drop_bit 32 (N :: SINT64) = 0 \<Longrightarrow> N AND 0xFFFFFF80 = 0 \<longleftrightarrow> drop_bit 7 N = 0"
  "drop_bit 32 (N :: SINT64) = 0 \<Longrightarrow> N AND 0xFFFFC000 = 0 \<longleftrightarrow> drop_bit 14 N = 0"
  "drop_bit 32 (N :: SINT64) = 0 \<Longrightarrow> N AND 0xFFE00000 = 0 \<longleftrightarrow> drop_bit 21 N = 0"
  "drop_bit 32 (N :: SINT64) = 0 \<Longrightarrow> N AND 0xF0000000 = 0 \<longleftrightarrow> drop_bit 28 N = 0"
  unfolding size_masks by (rule and_shifted; simp)+

lemma number_size:
  assumes "drop_bit 35 N = 0"
  shows "number_size N = of_nat (length (write_number N))"
  unfolding number_size_def write_number_def Let_def
  using assms size_tests(1-4) [OF drop_bit_imp(4) [OF assms]] drop_bit_imp [of N]
  by simp

lemma page_size:
  assumes "drop_bit 32 N = 0"
  shows "page_size N = of_nat (length (write_page N))"
  unfolding page_size_def write_page_def Let_def
  using assms size_tests(5-8) [OF assms] drop_bit_imp [of N]
  by (simp add: pos_drop_bit)

lemma short_size:
  assumes "drop_bit 14 N = 0"
  shows "short_size N = of_nat (length (write_short N))"
  unfolding short_size_def write_short_def Let_def
  using assms size_tests(5,6) [of N] drop_bit_chain [OF assms, of 32]
  by (simp add: pos_drop_bit)

lemma lengths_written:
  "length (write_number N) \<le> 5" "length (write_page N) \<le> 5" "length (write_short N) \<le> 2"
  by (simp_all add: write_number_def write_page_def write_short_def Let_def)

lemma drop_bit_small:
  "unat (N :: SINT64) < 2 ^ 40 \<Longrightarrow> drop_bit 40 N = 0"
  "drop_bit 32 (ucast (g :: ULONG) :: SINT64) = 0"
  "unat (h :: USHORT) < 2 ^ 14 \<Longrightarrow> drop_bit 14 (ucast h :: SINT64) = 0"
  using drop_bit_eq_0 [of N 40] drop_bit_eq_0 [of "ucast g :: SINT64" 32]
    drop_bit_eq_0 [of "ucast h :: SINT64" 14] unat_less_32 [of g]
  by (simp_all add: unsigned_ucast_eq)

text \<open>\<open>getNodeSize\<close> counts the bytes \<open>writeNode\<close> stores.\<close>

lemma getNodeSize_bytes:
  assumes "wf_node node"
  shows "getNodeSize leaf node = of_nat (length (node_bytes leaf node))"
  using assms
  by (simp add: getNodeSize_def node_bytes_def node_header_def wf_node_def Let_def clamp_small
    clamp_page number_size page_size short_size drop_bit_small write_prefix_def write_length_def)

lemma flag_parts_written: "length (write_prefix f h) \<le> 2" "length (write_length f h) \<le> 2"
  by (simp_all add: write_prefix_def write_length_def lengths_written)

lemma length_node_header: "length (node_header leaf node) \<le> 15"
proof -
  let ?f = "internalFlags node" and ?n = "drop_bit 5 (clamp (rn_value (n_recordNumber node)))"
    and ?p = "clamp (ucast (n_pageNumber node)) :: SINT64"
  show ?thesis
    using lengths_written(1) [of ?n] lengths_written(2) [of ?p]
      flag_parts_written(1) [of ?f "n_prefix node"] flag_parts_written(2) [of ?f "n_length node"]
    by (simp add: node_header_def Let_def)
qed

lemma length_node_bytes:
  assumes "wf_node node"
  shows "length (node_bytes leaf node) = length (node_header leaf node) + unat (n_length node)"
  using assms by (auto simp: node_bytes_def wf_node_def)

lemma getNodeSize_unat:
  assumes "wf_node node"
  shows "unat (getNodeSize leaf node) = length (node_bytes leaf node)"
    and "unat (getNodeSize leaf node - n_length node) = length (node_header leaf node)"
proof -
  have len: "length (node_bytes leaf node) = length (node_header leaf node) + unat (n_length node)"
    by (rule length_node_bytes [OF assms])
  have "unat (n_length node) < 2 ^ 14" using assms by (simp add: wf_node_def)
  with len length_node_header [of leaf node] have "length (node_bytes leaf node) < 2 ^ 16" by simp
  then show size: "unat (getNodeSize leaf node) = length (node_bytes leaf node)"
    by (simp add: getNodeSize_bytes [OF assms] unat_of_nat_eq)
  then have "n_length node \<le> getNodeSize leaf node" using len by (simp add: word_le_nat_alt)
  then show "unat (getNodeSize leaf node - n_length node) = length (node_header leaf node)"
    using size len by (simp add: unat_sub)
qed

text \<open>Both ways of writing a node store its bytes at the position and nothing else.\<close>

lemma writeNode_bytes:
  assumes wf: "wf_node node" and fits: "pos + length (node_bytes leaf node) \<le> length page"
  shows "writeNode page pos leaf withData node
           = (patch pos (node_bytes leaf node) page, pos + length (node_bytes leaf node))"
proof -
  let ?h = "node_header leaf node" and ?d = "take (unat (n_length node)) (n_data node)"
  have len: "length (node_bytes leaf node) = length ?h + unat (n_length node)"
    by (rule length_node_bytes [OF wf])
  have d: "length ?d = unat (n_length node)" using wf by (simp add: wf_node_def)
  have zero: "n_length node = 0" if "n_isEndLevel node" using wf that by (simp add: wf_node_def)
  have room: "pos + length ?h + length ?d \<le> length page" using fits len d by simp
  show ?thesis
  proof (cases withData)
    case True
    with patch_patch [OF room] zero len show ?thesis
      by (auto simp: writeNode_def Let_def node_bytes_def)
  next
    case False
    with patch_before [OF room] zero len getNodeSize_unat(2) [OF wf, of leaf] show ?thesis
      by (auto simp: writeNode_def Let_def node_bytes_def)
  qed
qed


end
