(* ===== verification/IndexSearch.thy ===== *)
theory IndexSearch
  imports IndexNode "HOL-Library.Sublist"
begin

text \<open>
  The page's index of jump nodes, the search through a run of duplicates and the contracts
  of the node codecs (\<^verbatim>\<open>src/src/jrd/btn.cpp\<close>, \<^verbatim>\<open>src/src/jrd/btn.h\<close>).
\<close>

section \<open>Jump nodes\<close>

record IndexJumpNode =
  j_prefix :: USHORT
  j_length :: USHORT
  j_offset :: USHORT
  j_data :: bytes

definition jump_size :: "USHORT \<Rightarrow> USHORT" where
  "jump_size number = (if number AND 0xC000 \<noteq> 0 then 3 else if number AND 0xFF80 \<noteq> 0 then 2 else 1)"

definition getJumpNodeSize :: "IndexJumpNode \<Rightarrow> USHORT" where
  "getJumpNodeSize node = jump_size (j_prefix node) + jump_size (j_length node) + 2 + j_length node"

definition read_jump_short :: "bytes \<Rightarrow> (USHORT \<times> bytes) option" where
  "read_jump_short p = do {
     (tmp, p) \<leftarrow> next_byte p;
     let number = (ucast (tmp AND 0x7F) :: USHORT);
     if tmp AND 0x80 = 0 then Some (number, p) else do {
     (tmp, p) \<leftarrow> next_byte p;
     Some (number OR push_bit 7 (ucast (tmp AND 0x7F)), p)
   }}"

definition readJumpNode :: "bool \<Rightarrow> bytes \<Rightarrow> (IndexJumpNode \<times> bytes) option" where
  "readJumpNode big p = do {
     (prefix, p) \<leftarrow> read_jump_short p;
     (len, p) \<leftarrow> read_jump_short p;
     (offset, p) \<leftarrow> get_short big p;
     (ds, p) \<leftarrow> next_bytes (unat len) p;
     Some (\<lparr>j_prefix = prefix, j_length = len, j_offset = offset, j_data = ds\<rparr>, p)
   }"

definition write_jump_short :: "USHORT \<Rightarrow> bytes" where
  "write_jump_short number =
     (let tmp = ucast (number AND 0x7F) :: UCHAR; number = drop_bit 7 number;
          tmp = (if 0 < number then tmp OR 0x80 else tmp)
      in tmp # (if tmp AND 0x80 \<noteq> 0 then [ucast (number AND 0x7F)] else []))"

definition writeJumpNode :: "bool \<Rightarrow> IndexJumpNode \<Rightarrow> bytes" where
  "writeJumpNode big node =
     write_jump_short (j_prefix node) @ write_jump_short (j_length node) @
     put_short big (j_offset node) @ take (unat (j_length node)) (j_data node)"

definition wf_jump :: "IndexJumpNode \<Rightarrow> bool" where
  "wf_jump node \<longleftrightarrow> unat (j_prefix node) < 2 ^ 14 \<and> unat (j_length node) < 2 ^ 14 \<and>
     length (j_data node) = unat (j_length node)"

lemma jump_low7:
  "(ucast (take_bit 7 (n :: USHORT)) :: UCHAR) AND 0x80 = 0"
  "((ucast (take_bit 7 n) :: UCHAR) OR 0x80) AND 0x80 \<noteq> 0"
  "take_bit 7 (ucast (take_bit 7 n) :: UCHAR) = ucast (take_bit 7 n)"
  "take_bit 7 ((ucast (take_bit 7 n) :: UCHAR) OR 0x80) = ucast (take_bit 7 n)"
  "ucast (ucast (take_bit 7 n) :: UCHAR) = take_bit 7 n"
proof -
  show "(ucast (take_bit 7 n) :: UCHAR) AND 0x80 = 0"
    by (rule bit_word_eqI; auto simp: bit_simps bit_128)
  have "bit (((ucast (take_bit 7 n) :: UCHAR) OR 0x80) AND 0x80) 7"
    by (simp add: bit_simps bit_128)
  then show "((ucast (take_bit 7 n) :: UCHAR) OR 0x80) AND 0x80 \<noteq> 0"
    by (metis bit_0_eq bot_apply bot_bool_def)
  show "take_bit 7 (ucast (take_bit 7 n) :: UCHAR) = ucast (take_bit 7 n)"
    by (rule bit_word_eqI; auto simp: bit_simps)
  show "take_bit 7 ((ucast (take_bit 7 n) :: UCHAR) OR 0x80) = ucast (take_bit 7 n)"
    by (rule bit_word_eqI; auto simp: bit_simps bit_128)
  show "ucast (ucast (take_bit 7 n) :: UCHAR) = take_bit 7 n"
    by (rule bit_word_eqI; auto simp: bit_simps)
qed

lemma read_write_jump_short [codec]:
  assumes "unat h < 2 ^ 14"
  shows "read_jump_short (write_jump_short h @ rest) = Some (h, rest)"
proof -
  have "drop_bit 14 h = 0" using assms by (rule drop_bit_eq_0)
  then show ?thesis
    unfolding read_jump_short_def write_jump_short_def Let_def and_masks
    by (auto simp: jump_low7 join_groups take_bit_eq_self_iff_drop_bit_eq_0 word_gt_0)
qed

lemma readJumpNode_write:
  "wf_jump node \<Longrightarrow> readJumpNode big (writeJumpNode big node @ rest) = Some (node, rest)"
  by (simp add: wf_jump_def readJumpNode_def writeJumpNode_def codec)

lemma jump_size_bytes:
  assumes "unat h < 2 ^ 14"
  shows "jump_size h = of_nat (length (write_jump_short h))"
proof -
  have big: "drop_bit 14 h = 0" using assms by (rule drop_bit_eq_0)
  have "(0xC000 :: USHORT) = push_bit 14 (mask 2)" "(0xFF80 :: USHORT) = push_bit 7 (mask 9)"
    by (simp_all add: mask_eq_exp_minus_1 push_bit_eq_mult)
  moreover have "h AND push_bit 14 (mask 2) = 0"
    using not_bit_ge [OF assms] by (intro bit_word_eqI) (auto simp: bit_simps)
  moreover have "h AND push_bit 7 (mask 9) = 0 \<longleftrightarrow> drop_bit 7 h = 0"
  proof -
    have "h AND push_bit 7 (mask 9) = push_bit 7 (drop_bit 7 h)"
      by (intro bit_word_eqI) (auto simp: bit_simps dest: bit_imp_le_length)
    moreover have "drop_bit 7 (push_bit 7 (drop_bit 7 h)) = drop_bit 7 h"
      by (intro bit_word_eqI) (auto simp: bit_simps dest: bit_imp_le_length)
    ultimately show ?thesis by (metis drop_bit_of_0 push_bit_of_0)
  qed
  ultimately show ?thesis
    unfolding jump_size_def write_jump_short_def Let_def and_masks
    by (simp add: jump_low7 word_gt_0)
qed

section \<open>Common prefixes\<close>

lemma prefix_loop_lcp:
  "prefix_loop l p s = length (longest_common_prefix (take l p) (take l s))"
  by (induction l p s rule: prefix_loop.induct) auto

lemma lcp_take:
  "longest_common_prefix (take (min a b) p) (take (min a b) s)
     = longest_common_prefix (take a p) (take b s)"
proof (induction p arbitrary: a b s)
  case (Cons x p)
  then show ?case by (cases s; cases a; cases b; simp)
qed simp

lemma computePrefix_lcp:
  "unat (computePrefix p lp s ls)
     = length (longest_common_prefix (take (unat lp) p) (take (unat ls) s))"
proof -
  let ?l = "min (unat lp) (unat ls)"
  have "prefix_loop ?l p s \<le> ?l"
    using longest_common_prefix_prefix1 [of "take ?l p" "take ?l s"]
    by (fastforce simp: prefix_loop_lcp dest: prefix_length_le)
  then have "prefix_loop ?l p s < 2 ^ 16" using unat_less_16 [of lp] by simp
  then have "unat (computePrefix p lp s ls) = prefix_loop ?l p s"
    by (simp add: computePrefix_def Let_def unat_of_nat_eq)
  then show ?thesis by (simp add: prefix_loop_lcp lcp_take)
qed


section \<open>Searching a run of duplicates\<close>

lemma consumes_read_parts [consuming]:
  "length p \<le> n \<Longrightarrow> consumes (read_number v p) n"
  "length p \<le> n \<Longrightarrow> consumes (read_page p) n"
  "length p \<le> n \<Longrightarrow> consumes (read_prefix f p) n"
  "length p \<le> n \<Longrightarrow> consumes (read_length f p) n"
  unfolding read_number_def read_page_def read_prefix_def read_length_def read_short_def Let_def
  by (assumption | rule consuming)+

lemma readNode_shorter:
  assumes "readNode p leaf node = Some (n, q)"
  shows "length q < length p"
proof (cases p)
  case (Cons b p')
  have "consumes (readNode p leaf node) (length p')"
    unfolding readNode_def Cons next_byte_simps Let_def bind.bind_lunit case_prod_conv
    by (assumption | rule consuming order_refl)+
  with assms Cons show ?thesis by (auto dest: consumesD)
qed (use assms in \<open>simp add: readNode_def\<close>)

function find_loop ::
  "bool \<Rightarrow> RecordNumber \<Rightarrow> SLONG \<Rightarrow> IndexNode \<Rightarrow> bytes \<Rightarrow> SLONG option" where
  "find_loop leafPage findRecordNumber previousNumber node pointer =
     (if n_isEndBucket node then Some previousNumber
      else if rn_le findRecordNumber (n_recordNumber node) then Some previousNumber
      else
        (let previousNumber = n_pageNumber node; previousNode = node
         in case readNode pointer leafPage node of
              None \<Rightarrow> None
            | Some (node, pointer) \<Rightarrow>
                if n_isEndLevel node \<or> n_length node \<noteq> 0 \<or>
                   unat (n_prefix node) \<noteq> unat (n_length previousNode) + unat (n_prefix previousNode)
                then Some previousNumber
                else find_loop leafPage findRecordNumber previousNumber node pointer))"
  by pat_completeness auto

termination
  by (relation "measure (\<lambda>(leaf, find, prev, node, p). length p)") (auto dest: readNode_shorter)

declare find_loop.simps [simp del]

definition findPageInDuplicates ::
  "nat \<Rightarrow> bytes \<Rightarrow> SLONG \<Rightarrow> RecordNumber \<Rightarrow> IndexNode \<Rightarrow> SLONG option" where
  "findPageInDuplicates btr_level pointer previousNumber findRecordNumber node =
     (let leafPage = (btr_level = 0)
      in case readNode pointer leafPage node of
           None \<Rightarrow> None
         | Some (node, pointer) \<Rightarrow> find_loop leafPage findRecordNumber previousNumber node pointer)"


text \<open>The reference: the run of duplicates that starts at \<open>x\<close>.\<close>

definition is_duplicate :: "IndexNode \<Rightarrow> IndexNode \<Rightarrow> bool" where
  "is_duplicate x y \<longleftrightarrow> \<not> n_isEndLevel y \<and> n_length y = 0 \<and>
     unat (n_prefix y) = unat (n_length x) + unat (n_prefix x)"

fun dup_run :: "IndexNode \<Rightarrow> IndexNode list \<Rightarrow> IndexNode list" where
  "dup_run x [] = [x]"
| "dup_run x (y # ys) = x # (if is_duplicate x y then dup_run y ys else [])"

definition before_record :: "RecordNumber \<Rightarrow> IndexNode \<Rightarrow> bool" where
  "before_record r d \<longleftrightarrow> \<not> n_isEndBucket d \<and> \<not> rn_le r (n_recordNumber d)"

lemma fill_simps [simp]:
  "n_isEndBucket (fill_node leaf old x) = n_isEndBucket x"
  "n_isEndLevel (fill_node leaf old x) = n_isEndLevel x"
  "n_length (fill_node leaf old x) = n_length x"
  "n_prefix (fill_node leaf old x) = n_prefix x"
  "n_pageNumber (fill_node False old x) = n_pageNumber x"
  "rn_le r (n_recordNumber (fill_node leaf old x)) = rn_le r (n_recordNumber x)"
  by (simp_all add: fill_node_def rn_le_def rn_setValue_def)

lemma find_loop_run:
  "list_all wf_node ys \<Longrightarrow>
   n_isEndBucket x \<or> list_ex (\<lambda>y. n_isEndLevel y \<or> n_isEndBucket y) ys \<Longrightarrow>
   find_loop False r prev (fill_node False old x) (concat (map (node_bytes False) ys) @ rest)
     = Some (last (prev # map n_pageNumber (takeWhile (before_record r) (dup_run x ys))))"
proof (induction ys arbitrary: x old prev)
  case Nil
  then show ?case by (simp add: find_loop.simps [of False] before_record_def)
next
  case (Cons y ys)
  show ?case
  proof (cases "before_record r x \<and> is_duplicate x y")
    case True
    then have "n_isEndBucket y \<or> list_ex (\<lambda>y. n_isEndLevel y \<or> n_isEndBucket y) ys"
      using Cons.prems by (auto simp: before_record_def is_duplicate_def)
    note IH = Cons.IH [OF _ this, of "n_pageNumber x" "fill_node False old x"]
    from True Cons.prems IH show ?thesis
      by (simp add: find_loop.simps [of False r prev] before_record_def codec is_duplicate_def)
  next
    case False
    with Cons.prems show ?thesis
      by (auto simp: find_loop.simps [of False] before_record_def codec is_duplicate_def)
  qed
qed

section \<open>The contracts of the codecs\<close>

definition blank_node :: IndexNode where
  "blank_node = \<lparr>n_prefix = 0, n_length = 0, n_pageNumber = 0, n_data = [],
     n_recordNumber = rn_default, n_isEndBucket = False, n_isEndLevel = False\<rparr>"

definition canonical :: "bool \<Rightarrow> IndexNode \<Rightarrow> bool" where
  "canonical leaf node \<longleftrightarrow> wf_node node \<and> fill_node leaf blank_node node = node"

interpretation node: byte_codec "canonical leaf" "node_bytes leaf" "\<lambda>p. readNode p leaf blank_node"
  for leaf
  by unfold_locales (simp add: canonical_def codec)

interpretation jump: byte_codec wf_jump "writeJumpNode big" "readJumpNode big"
  for big
  by unfold_locales (rule readJumpNode_write)

section \<open>Properties\<close>

lemma node_bytes_fit:
  "wf_node node \<Longrightarrow> pos + 15 + unat (n_length node) \<le> k \<Longrightarrow>
     pos + length (node_bytes leaf node) \<le> k"
  using length_node_header [of leaf node] by (simp add: length_node_bytes)

definition sample_node :: "USHORT \<Rightarrow> bytes \<Rightarrow> ULONG \<Rightarrow> SINT64 \<Rightarrow> IndexNode" where
  "sample_node pre ds page number = \<lparr>n_prefix = pre, n_length = of_nat (length ds),
     n_pageNumber = page, n_data = ds, n_recordNumber = \<lparr>rn_value = number, rn_valid = False\<rparr>,
     n_isEndBucket = False, n_isEndLevel = False\<rparr>"

definition end_bucket :: IndexNode where
  "end_bucket = setEndBucket (sample_node 0 [9] 77 0)"

lemmas samples = sample_node_def end_bucket_def setEndBucket_def blank_node_def wf_node_def
  canonical_def fill_node_def rn_setValue_def rn_default_def

text \<open>
  A node written to a page, with its data or around data that is already on the page, is
  read back from its position with every field unchanged, and the reader stops where the
  writer stopped, at the size \<open>getNodeSize\<close> tells.
\<close>

theorem index_node_roundtrip:
  assumes "wf_node node" and "pos + length (node_bytes leaf node) \<le> length page"
  shows "case writeNode page pos leaf withData node of
           (page', end) \<Rightarrow>
             readNode (drop pos page') leaf old = Some (fill_node leaf old node, drop end page') \<and>
             end = pos + unat (getNodeSize leaf node)"
proof -
  have "drop (pos + length (node_bytes leaf node)) (patch pos (node_bytes leaf node) page)
          = drop (pos + length (node_bytes leaf node)) page"
    using assms(2) by (rule drop_patch)
  with assms show ?thesis
    by (simp add: writeNode_bytes getNodeSize_unat drop_patch_start codec)
qed

theorem index_node_roundtrip_witness:
  "case writeNode (replicate 40 0) 4 False False (sample_node 130 [5, 6] 300 123456) of
     (page', end) \<Rightarrow>
       readNode (drop 4 page') False blank_node
         = Some (fill_node False blank_node (sample_node 130 [5, 6] 300 123456), drop end page') \<and>
       end = 4 + unat (getNodeSize False (sample_node 130 [5, 6] 300 123456))"
  by (rule index_node_roundtrip; (rule node_bytes_fit)?; simp add: samples)

text \<open>
  \<open>writeNode\<close> stores the same page with and without data, keeps the page's length and
  touches no byte outside the node.
\<close>

theorem writeNode_frame:
  assumes "wf_node node" and "pos + length (node_bytes leaf node) \<le> length page"
  shows "writeNode page pos leaf True node = writeNode page pos leaf False node \<and>
         (case writeNode page pos leaf True node of
            (page', end) \<Rightarrow>
              length page' = length page \<and> take pos page' = take pos page \<and>
              drop end page' = drop end page)"
  using assms by (simp add: writeNode_bytes patch_def)

theorem writeNode_frame_witness:
  "writeNode (replicate 40 7) 2 True True (sample_node 3 [5, 6] 0 40)
     = writeNode (replicate 40 7) 2 True False (sample_node 3 [5, 6] 0 40)"
  by (rule writeNode_frame [THEN conjunct1]; (rule node_bytes_fit)?; simp add: samples)



text \<open>
  Jump nodes: the table of jump nodes of a page is read back, and \<open>getJumpNodeSize\<close> is
  the number of bytes of a node, on either byte order.
\<close>

theorem jump_table_roundtrip:
  assumes "list_all wf_jump jumps"
  shows "read_seq (readJumpNode big) (length jumps)
           (concat (map (writeJumpNode big) jumps) @ rest) = Some (jumps, rest) \<and>
         list_all (\<lambda>j. unat (getJumpNodeSize j) = length (writeJumpNode big j)) jumps"
proof
  show "read_seq (readJumpNode big) (length jumps)
           (concat (map (writeJumpNode big) jumps) @ rest) = Some (jumps, rest)"
    using assms by (rule jump.read_seq_enc)
  have "unat (getJumpNodeSize j) = length (writeJumpNode big j)" if "wf_jump j" for j
  proof -
    have "getJumpNodeSize j = of_nat (length (writeJumpNode big j))"
      using that by (simp add: wf_jump_def getJumpNodeSize_def writeJumpNode_def jump_size_bytes
        put_short_def)
    moreover have "length (writeJumpNode big j) < 2 ^ 16"
      using that by (simp add: wf_jump_def writeJumpNode_def put_short_def write_jump_short_def Let_def)
    ultimately show ?thesis by (simp add: unat_of_nat_eq)
  qed
  with assms show "list_all (\<lambda>j. unat (getJumpNodeSize j) = length (writeJumpNode big j)) jumps"
    by (simp add: list_all_iff)
qed

theorem jump_table_roundtrip_witness:
  "read_seq (readJumpNode True) 1
     (writeJumpNode True \<lparr>j_prefix = 0, j_length = 1, j_offset = 258, j_data = [3]\<rparr> @ [4])
       = Some ([\<lparr>j_prefix = 0, j_length = 1, j_offset = 258, j_data = [3]\<rparr>], [4])"
  using jump_table_roundtrip [of "[\<lparr>j_prefix = 0, j_length = 1, j_offset = 258, j_data = [3]\<rparr>]" True "[4]"]
  by (simp add: wf_jump_def)

text \<open>
  \<open>computePrefix\<close> is the length of the longest common prefix of the two keys: storing
  only the rest of a key after it loses nothing, and no longer prefix would do.
\<close>

theorem prefix_compression:
  assumes "length prev = unat lp" and "length key = unat lk"
  shows "let n = unat (computePrefix prev lp key lk)
         in take n prev @ drop n key = key \<and>
            (\<forall>m. take m prev = take m key \<and> m \<le> length prev \<and> m \<le> length key \<longrightarrow> m \<le> n)"
proof -
  let ?c = "longest_common_prefix prev key"
  have n: "unat (computePrefix prev lp key lk) = length ?c"
    using assms by (simp add: computePrefix_lcp)
  obtain u v where uv: "prev = ?c @ u" "key = ?c @ v"
    using longest_common_prefix_prefix1 [of prev key] longest_common_prefix_prefix2 [of prev key]
    by (auto simp: prefix_def)
  have "take (length ?c) prev @ drop (length ?c) key = ?c @ v"
    by (subst uv(1), subst (3) uv(2)) simp
  moreover have "m \<le> length ?c"
    if "take m prev = take m key" "m \<le> length prev" "m \<le> length key" for m
  proof -
    have "prefix (take m prev) ?c"
      using that by (intro longest_common_prefix_max_prefix) (metis take_is_prefix)+
    then show ?thesis using that(2) by (auto dest: prefix_length_le)
  qed
  ultimately show ?thesis using uv(2) by (simp add: n)
qed

theorem prefix_compression_witness:
  "let n = unat (computePrefix [1, 2, 3] 3 [1, 2, 4, 5] 4)
   in take n [1, 2, 3] @ drop n [1, 2, 4, 5] = [1, 2, 4, 5 :: UCHAR]"
  using prefix_compression [of "[1, 2, 3]" 3 "[1, 2, 4, 5]" 4] by (simp add: Let_def)

text \<open>
  C31. The page found for a record in a run of duplicates on a non-leaf page is the page of
  the last duplicate before the first one that is not below the record, and the page passed
  in when there is none.
\<close>

theorem findPageInDuplicates_run:
  assumes "list_all wf_node (x # ys)" and "level \<noteq> 0"
    and "n_isEndBucket x \<or> list_ex (\<lambda>y. n_isEndLevel y \<or> n_isEndBucket y) ys"
  shows "findPageInDuplicates level (concat (map (node_bytes False) (x # ys)) @ rest) prev r node
     = Some (last (prev # map n_pageNumber (takeWhile (before_record r) (dup_run x ys))))"
  using assms by (simp add: findPageInDuplicates_def codec find_loop_run)

theorem findPageInDuplicates_run_witness:
  "findPageInDuplicates 1
     (concat (map (node_bytes False) [sample_node 0 [9] 10 5, sample_node 1 [] 11 8, end_bucket]) @ [])
     99 \<lparr>rn_value = 8, rn_valid = True\<rparr> blank_node
   = Some (last (99 # map n_pageNumber (takeWhile (before_record \<lparr>rn_value = 8, rn_valid = True\<rparr>)
       (dup_run (sample_node 0 [9] 10 5) [sample_node 1 [] 11 8, end_bucket]))))"
  by (rule findPageInDuplicates_run) (simp_all add: samples)



end
