(* ===== verification/TimeStamp.thy ===== *)
theory TimeStamp
  imports Prelude
begin

text \<open>
  Dates and times: \<^verbatim>\<open>src/src/common/classes/NoThrowTimeStamp.h\<close> and
  \<^verbatim>\<open>src/src/common/classes/NoThrowTimeStamp.cpp\<close>.

  \<open>ISC_DATE\<close> is a signed 32 bit day number, here an \<open>int\<close>: for the dates \<open>isValidDate\<close>
  accepts every intermediate value of the code is far below \<open>2 ^ 31\<close>, and beyond that C
  leaves the overflow undefined.  \<open>/\<close> and \<open>%\<close> are C's, which round towards zero.
  \<open>ISC_TIME\<close> is unsigned and wraps.
\<close>

section \<open>State\<close>

type_synonym ISC_DATE = int
type_synonym ISC_TIME = ULONG

record ISC_TIMESTAMP =
  timestamp_date :: ISC_DATE
  timestamp_time :: ISC_TIME

record tm =
  tm_sec :: int
  tm_min :: int
  tm_hour :: int
  tm_mday :: int
  tm_mon :: int
  tm_year :: int
  tm_wday :: int
  tm_yday :: int
  tm_isdst :: int

definition MIN_DATE :: ISC_DATE where "MIN_DATE = - 678575"
definition MAX_DATE :: ISC_DATE where "MAX_DATE = 2973483"
definition BAD_DATE :: ISC_DATE where "BAD_DATE = 2 ^ 31 - 1"
definition BAD_TIME :: ISC_TIME where "BAD_TIME = 0xFFFFFFFF"
definition GDS_EPOCH_START :: int where "GDS_EPOCH_START = 40617"
definition ISC_TIME_SECONDS_PRECISION :: int where "ISC_TIME_SECONDS_PRECISION = 10000"
definition ISC_TIME_SECONDS_PRECISION_SCALE :: int where "ISC_TIME_SECONDS_PRECISION_SCALE = - 4"

definition POW_10_TABLE :: "ISC_TIME list" where
  "POW_10_TABLE = [1, 10, 100, 1000, 10000, 100000, 1000000, 10000000, 100000000, 1000000000]"

definition invalidate :: ISC_TIMESTAMP where
  "invalidate = \<lparr>timestamp_date = BAD_DATE, timestamp_time = BAD_TIME\<rparr>"

definition ts_make :: "ISC_DATE \<Rightarrow> ISC_TIME \<Rightarrow> ISC_TIMESTAMP" where
  "ts_make date time = \<lparr>timestamp_date = date, timestamp_time = time\<rparr>"

definition ts_isEmpty :: "ISC_TIMESTAMP \<Rightarrow> bool" where
  "ts_isEmpty ts \<longleftrightarrow> timestamp_date ts = BAD_DATE \<and> timestamp_time ts = BAD_TIME"

text \<open>The current time comes from the operating system.\<close>

definition ts_validate :: "ISC_TIMESTAMP \<Rightarrow> ISC_TIMESTAMP \<Rightarrow> ISC_TIMESTAMP" where
  "ts_validate now ts = (if ts_isEmpty ts then now else ts)"

definition isValidDate :: "ISC_DATE \<Rightarrow> bool" where
  "isValidDate ndate \<longleftrightarrow> ndate \<ge> MIN_DATE \<and> ndate \<le> MAX_DATE"

definition isValidTime :: "ISC_TIME \<Rightarrow> bool" where
  "isValidTime ntime \<longleftrightarrow> ntime < word_of_int (24 * 3600 * ISC_TIME_SECONDS_PRECISION)"

definition isValidTimeStamp :: "ISC_TIMESTAMP \<Rightarrow> bool" where
  "isValidTimeStamp ts \<longleftrightarrow> isValidDate (timestamp_date ts) \<and> isValidTime (timestamp_time ts)"

definition isLeapYear :: "int \<Rightarrow> bool" where
  "isLeapYear year \<longleftrightarrow> (year smod 4 = 0 \<and> year smod 100 \<noteq> 0) \<or> year smod 400 = 0"

section \<open>Dates\<close>

definition yday :: "tm \<Rightarrow> int" where
  "yday tms =
     (let day = tm_mday tms; month = tm_mon tms; year = tm_year tms + 1900;
          day = day - 1;
          day = day + (214 * month + 3) sdiv 7
      in if month < 2 then day
         else if (year smod 4 = 0 \<and> year smod 100 \<noteq> 0) \<or> year smod 400 = 0 then day - 1
         else day - 2)"

definition zero_tm :: tm where
  "zero_tm = \<lparr>tm_sec = 0, tm_min = 0, tm_hour = 0, tm_mday = 0, tm_mon = 0, tm_year = 0,
     tm_wday = 0, tm_yday = 0, tm_isdst = 0\<rparr>"

definition decode_date :: "ISC_DATE \<Rightarrow> tm" where
  "decode_date nday =
     (let wday = (nday + 3) smod 7;
          wday = (if wday < 0 then wday + 7 else wday);
          nday = nday + (2400001 - 1721119);
          century = (4 * nday - 1) sdiv 146097;
          nday = 4 * nday - 1 - 146097 * century;
          day = nday sdiv 4;
          nday = (4 * day + 3) sdiv 1461;
          day = 4 * day + 3 - 1461 * nday;
          day = (day + 4) sdiv 4;
          month = (5 * day - 3) sdiv 153;
          day = 5 * day - 3 - 153 * month;
          day = (day + 5) sdiv 5;
          year = 100 * century + nday;
          (month, year) = (if month < 10 then (month + 3, year) else (month - 9, year + 1));
          tms = zero_tm\<lparr>tm_wday := wday, tm_mday := day, tm_mon := month - 1,
                          tm_year := year - 1900\<rparr>
      in tms\<lparr>tm_yday := yday tms\<rparr>)"

definition encode_date :: "tm \<Rightarrow> ISC_DATE" where
  "encode_date tms =
     (let day = tm_mday tms; month = tm_mon tms + 1; year = tm_year tms + 1900;
          (month, year) = (if month > 2 then (month - 3, year) else (month + 9, year - 1));
          c = year sdiv 100;
          ya = year - 100 * c
      in signed_take_bit 31
           ((146097 * c) sdiv 4 + (1461 * ya) sdiv 4 + (153 * month + 2) sdiv 5 + day
              + 1721119 - 2400001))"

section \<open>Times\<close>

definition decode_time :: "ISC_TIME \<Rightarrow> int \<times> int \<times> int \<times> int" where
  "decode_time ntime =
     (let p = word_of_int ISC_TIME_SECONDS_PRECISION;
          hours = ntime div (3600 * p); ntime = ntime mod (3600 * p);
          minutes = ntime div (60 * p); ntime = ntime mod (60 * p);
          seconds = ntime div p;
          fractions = ntime mod p
      in (sint hours, sint minutes, sint seconds, sint fractions))"

definition encode_time :: "int \<Rightarrow> int \<Rightarrow> int \<Rightarrow> int \<Rightarrow> ISC_TIME" where
  "encode_time hours minutes seconds fractions =
     word_of_int (((hours * 60 + minutes) * 60 + seconds) * ISC_TIME_SECONDS_PRECISION + fractions)"

definition decode_timestamp :: "ISC_TIMESTAMP \<Rightarrow> tm \<times> int" where
  "decode_timestamp ts =
     (let tms = decode_date (timestamp_date ts);
          (hours, minutes, seconds, fractions) = decode_time (timestamp_time ts)
      in (tms\<lparr>tm_hour := hours, tm_min := minutes, tm_sec := seconds\<rparr>, fractions))"

definition encode_timestamp :: "tm \<Rightarrow> int \<Rightarrow> ISC_TIMESTAMP" where
  "encode_timestamp tms fractions =
     \<lparr>timestamp_date = encode_date tms,
      timestamp_time = encode_time (tm_hour tms) (tm_min tms) (tm_sec tms) fractions\<rparr>"

text \<open>A scale beyond the table, which the code only asserts against, is \<open>None\<close>.\<close>

definition round_time :: "ISC_TIME \<Rightarrow> int \<Rightarrow> ISC_TIME option" where
  "round_time ntime precision =
     (let scale = - ISC_TIME_SECONDS_PRECISION_SCALE - precision
      in if scale \<le> 0 then Some ntime
         else if nat scale < length POW_10_TABLE
         then (let period = POW_10_TABLE ! nat scale in Some (ntime - ntime mod period))
         else None)"


section \<open>Division and remainder\<close>

lemma sdiv_pos: "0 \<le> a \<Longrightarrow> 0 < b \<Longrightarrow> a sdiv b = a div (b :: int)"
  by (cases "a = 0") (simp_all add: signed_divide_int_def sgn_if)

lemma smod_pos: "0 \<le> a \<Longrightarrow> 0 < b \<Longrightarrow> a smod b = a mod (b :: int)"
  by (cases "a = 0") (simp_all add: signed_modulo_int_def)

lemma div_mod_unique:
  fixes a :: int
  assumes "a = b * q + r" "0 \<le> r" "r < b"
  shows "a div b = q" and "a mod b = r"
  using assms int_div_pos_eq [of a b q r] int_mod_pos_eq [of a b q r] by simp_all

section \<open>The calendar\<close>

definition days_in_month :: "int \<Rightarrow> int \<Rightarrow> int" where
  "days_in_month year mon =
     (if mon = 1 then (if isLeapYear year then 29 else 28)
      else if mon \<in> {3, 5, 8, 10} then 30 else 31)"

definition valid_tm :: "tm \<Rightarrow> bool" where
  "valid_tm t \<longleftrightarrow> 1 \<le> tm_year t + 1900 \<and> tm_year t + 1900 \<le> 9999 \<and>
     0 \<le> tm_mon t \<and> tm_mon t \<le> 11 \<and>
     1 \<le> tm_mday t \<and> tm_mday t \<le> days_in_month (tm_year t + 1900) (tm_mon t)"

text \<open>Months counted from March.\<close>

definition march_days :: "int \<Rightarrow> bool \<Rightarrow> int" where
  "march_days m leap = (if m = 11 then (if leap then 29 else 28) else if m \<in> {1, 3, 6, 8} then 30 else 31)"

lemma month_cases:
  fixes m :: int
  assumes "0 \<le> m" "m \<le> 11"
  obtains "m = 0" | "m = 1" | "m = 2" | "m = 3" | "m = 4" | "m = 5" | "m = 6" | "m = 7" | "m = 8"
    | "m = 9" | "m = 10" | "m = 11"
proof -
  have "m = 0 \<or> m = 1 \<or> m = 2 \<or> m = 3 \<or> m = 4 \<or> m = 5 \<or> m = 6 \<or> m = 7 \<or> m = 8
      \<or> m = 9 \<or> m = 10 \<or> m = 11" using assms by arith
  then show thesis using that by blast
qed

text \<open>\<open>153 * m + 2\<close> fifths of a day: the days before the month.\<close>

lemma before_month: "5 * ((153 * m + 2) div 5) = 153 * m + 2 - (153 * m + 2) mod (5 :: int)"
  by (metis minus_mod_eq_mult_div)

lemma march_days_31:
  "0 \<le> m \<Longrightarrow> m \<le> 11 \<Longrightarrow> march_days m leap \<le> 30 \<or> march_days m leap = 31 \<and> 2 \<le> (153 * m + 2) mod 5"
  by (cases m rule: month_cases) (simp_all add: march_days_def)

lemma month_of_day:
  fixes m d :: int
  assumes m: "0 \<le> m" "m \<le> 11" and d: "1 \<le> d" "d \<le> march_days m leap"
    and doy: "doy = (153 * m + 2) div 5 + d"
  shows "(5 * doy - 3) div 153 = m" and "((5 * doy - 3) mod 153 + 5) div 5 = d"
    and "1 \<le> doy" and "doy \<le> (if leap then 366 else 365)"
proof -
  define t where "t = (153 * m + 2) mod 5"
  have t: "0 \<le> t" "t \<le> 4" by (simp_all add: t_def zle_diff1_eq [symmetric])
  have eq: "5 * doy - 3 = 153 * m + (5 * (d - 1) + (4 - t))"
    using before_month [of m] by (simp add: doy t_def)
  have r: "0 \<le> 5 * (d - 1) + (4 - t)" "5 * (d - 1) + (4 - t) < 153"
    using d t march_days_31 [OF m, of leap] by (auto simp: t_def)
  show "(5 * doy - 3) div 153 = m" using eq r by (rule div_mod_unique)
  have "(5 * doy - 3) mod 153 = 5 * (d - 1) + (4 - t)" using eq r by (rule div_mod_unique)
  moreover have "(5 * (d - 1) + (4 - t) + 5) div 5 = d"
    using t by (intro div_mod_unique(1) [of _ _ _ "4 - t"]) simp_all
  ultimately show "((5 * doy - 3) mod 153 + 5) div 5 = d" by simp
  show "1 \<le> doy" using doy d m by (simp add: pos_imp_zdiv_nonneg_iff)
  show "doy \<le> (if leap then 366 else 365)"
    using d by (cases rule: month_cases [OF m]) (auto simp: doy march_days_def split: if_splits)
qed

lemma day_of_month:
  fixes doy :: int
  assumes doy: "1 \<le> doy" "doy \<le> (if leap then 366 else 365)"
    and m: "m = (5 * doy - 3) div 153" and d: "d = ((5 * doy - 3) mod 153 + 5) div 5"
  shows "0 \<le> m" "m \<le> 11" "1 \<le> d" "d \<le> march_days m leap" "(153 * m + 2) div 5 + d = doy"
proof -
  define r where "r = (5 * doy - 3) mod 153"
  have r: "5 * doy - 3 = 153 * m + r" "0 \<le> r" "r < 153" by (simp_all add: r_def m)
  show m0: "0 \<le> m" "m \<le> 11" using r doy by (auto split: if_splits)
  define e where "e = (r + 5) mod 5"
  have "d = (r + 5) div 5" by (simp only: d r_def)
  then have e: "r + 5 = 5 * d + e" "0 \<le> e" "e < 5" by (simp_all only: e_def mult_div_mod_eq)
  have eq: "153 * m + 2 = 5 * (doy - d) + (4 - e)" using r(1) e(1) by simp
  have e4: "0 \<le> 4 - e" "4 - e < 5" using e by simp_all
  note q = div_mod_unique [OF eq e4]
  show "(153 * m + 2) div 5 + d = doy" using q by simp
  show "1 \<le> d" using r(2) e by simp
  have le: "5 * d \<le> 157 - e" using r(3) e(1) by simp
  show "d \<le> march_days m leap"
    using le q doy(2) e by (cases rule: month_cases [OF m0]) (auto simp: march_days_def split: if_splits)
qed


lemma century_days: "4 * ((146097 * c) div 4) = 146097 * c - c mod (4 :: int)"
proof -
  have "(146097 * c) mod 4 = (146097 mod 4 * c) mod 4" by (rule mod_mult_left_eq [symmetric])
  then show ?thesis by (simp flip: minus_mod_eq_mult_div)
qed

lemma cycle_days: "4 * ((1461 * y) div 4) = 1461 * y - y mod (4 :: int)"
proof -
  have "(1461 * y) mod 4 = (1461 mod 4 * y) mod 4" by (rule mod_mult_left_eq [symmetric])
  then show ?thesis by (simp flip: minus_mod_eq_mult_div)
qed

lemma mod_4: "0 \<le> c mod (4 :: int)" "c mod (4 :: int) \<le> 3"
  by simp_all

lemma four_cut: "4 * x = s + 1 \<Longrightarrow> 0 \<le> s \<Longrightarrow> s \<le> 6 \<Longrightarrow> s = (3 :: int)"
  by presburger

lemma four_one: "4 * x = s + 1 \<Longrightarrow> s = 3 \<Longrightarrow> x = (1 :: int)"
  by presburger

lemma leap_iff:
  fixes c ya :: int
  assumes "0 \<le> c" "0 \<le> ya" "ya \<le> 99"
  shows "isLeapYear (100 * c + ya + 1) \<longleftrightarrow> ya mod 4 = 3 \<and> (ya = 99 \<longrightarrow> c mod 4 = 3)"
proof -
  let ?y = "100 * c + ya + 1"
  have m4: "?y mod 4 = 0 \<longleftrightarrow> ya mod 4 = 3" by presburger
  have "?y mod 100 = (ya + 1) mod 100" by (simp add: add.assoc)
  then have m100: "?y mod 100 = 0 \<longleftrightarrow> ya = 99"
    using assms(2,3) by (cases "ya = 99") simp_all
  have m400: "?y mod 400 = 0 \<longleftrightarrow> ya = 99 \<and> c mod 4 = 3"
  proof (cases "ya = 99")
    case True
    then have "?y mod 400 = 100 * ((c + 1) mod 4)"
      using mod_mult_mult1 [of 100 "c + 1" 4] by (simp add: algebra_simps)
    moreover have "(c + 1) mod 4 = 0 \<longleftrightarrow> c mod 4 = 3" by presburger
    ultimately show ?thesis using True by simp
  next
    case False
    then have "?y mod 100 \<noteq> 0" using m100 by simp
    moreover have "?y mod 400 mod 100 = ?y mod 100" by (rule mod_mod_cancel) simp
    ultimately have "?y mod 400 \<noteq> 0" by auto
    then show ?thesis using False by simp
  qed
  have "0 \<le> ?y" using assms by simp
  then show ?thesis using m4 m100 m400 by (auto simp: isLeapYear_def smod_pos)
qed

lemma day_of_cycle:
  fixes c ya doy n :: int
  assumes c: "0 \<le> c" and ya: "0 \<le> ya" "ya \<le> 99"
    and doy: "1 \<le> doy" "doy \<le> (if isLeapYear (100 * c + ya + 1) then 366 else 365)"
    and n: "n = (146097 * c) div 4 + (1461 * ya) div 4 + doy"
    and day: "day = ((4 * n - 1) mod 146097) div 4"
  shows "(4 * n - 1) div 146097 = c" "(4 * day + 3) div 1461 = ya" "((4 * day + 3) mod 1461 + 4) div 4 = doy"
proof -
  define j where "j = c mod 4"
  define i where "i = ya mod 4"
  have j: "0 \<le> j" "j \<le> 3" "4 * ((146097 * c) div 4) = 146097 * c - j"
    unfolding j_def by (rule mod_4 century_days)+
  have i: "0 \<le> i" "i \<le> 3" "4 * ((1461 * ya) div 4) = 1461 * ya - i" "i \<le> ya"
    unfolding i_def by (rule mod_4 cycle_days)+ (simp add: ya zmod_le_nonneg_dividend)
  have leap: "doy \<le> 365 \<or> doy = 366 \<and> i = 3 \<and> (ya = 99 \<longrightarrow> j = 3)"
  proof (cases "isLeapYear (100 * c + ya + 1)")
    case True
    then have "doy \<le> 365 \<or> doy = 366" using doy(2) by auto
    then show ?thesis using leap_iff [OF c ya] True by (simp add: i_def j_def)
  qed (use doy(2) in simp)
  define R where "R = 1461 * ya + 4 * doy - 1 - i - j"
  have eq: "4 * n - 1 = 146097 * c + R" using i(3) j(3) by (simp add: n R_def)
  have i99: "ya = 99 \<Longrightarrow> i = 3" by (simp add: i_def)
  have R: "0 \<le> R" "R < 146097"
  proof -
    show "0 \<le> R" using i j doy(1) unfolding R_def by linarith
    show "R < 146097" using leap i i99 j ya unfolding R_def by (cases "ya = 99") auto
  qed
  show "(4 * n - 1) div 146097 = c" using eq R by (rule div_mod_unique)
  have "day = R div 4" using div_mod_unique(2) [OF eq R] by (simp add: day)
  also have "\<dots> = (1461 * ya) div 4 + doy - 1"
    using i j by (intro div_mod_unique(1) [of _ _ _ "3 - j"]) (simp_all add: R_def)
  finally have eq2: "4 * day + 3 = 1461 * ya + (4 * doy - 1 - i)" using i(3) by simp
  have S: "0 \<le> 4 * doy - 1 - i" "4 * doy - 1 - i < 1461" using i doy(1) leap by auto
  show "(4 * day + 3) div 1461 = ya" using eq2 S by (rule div_mod_unique)
  have "(4 * day + 3) mod 1461 = 4 * doy - 1 - i" using eq2 S by (rule div_mod_unique)
  then show "((4 * day + 3) mod 1461 + 4) div 4 = doy"
    using i by (intro div_mod_unique(1) [of _ _ _ "3 - i"]) simp_all
qed

lemma cycle_of_day:
  fixes n :: int
  assumes n: "1 \<le> n" and c: "c = (4 * n - 1) div 146097"
    and day: "day = ((4 * n - 1) mod 146097) div 4"
    and ya: "ya = (4 * day + 3) div 1461"
    and doy: "doy = ((4 * day + 3) mod 1461 + 4) div 4"
  shows "0 \<le> c" "0 \<le> ya" "ya \<le> 99" "1 \<le> doy"
    "doy \<le> (if isLeapYear (100 * c + ya + 1) then 366 else 365)"
    "n = (146097 * c) div 4 + (1461 * ya) div 4 + doy"
proof -
  define R where "R = (4 * n - 1) mod 146097"
  define S where "S = (4 * day + 3) mod 1461"
  define j where "j = c mod 4"
  define i where "i = ya mod 4"
  have R: "4 * n - 1 = 146097 * c + R" "0 \<le> R" "R < 146097" by (simp_all add: R_def c)
  have S: "4 * day + 3 = 1461 * ya + S" "0 \<le> S" "S < 1461" by (simp_all add: S_def ya)
  define k where "k = R mod 4"
  have k: "R = 4 * day + k" "0 \<le> k" "k \<le> 3"
    unfolding day R_def [symmetric] k_def by presburger+
  define u where "u = S mod 4"
  have u: "S = 4 * (doy - 1) + u" "0 \<le> u" "u \<le> 3"
    unfolding doy S_def [symmetric] u_def by presburger+
  show c0: "0 \<le> c" using R n by linarith
  have day0: "0 \<le> day" using k R(2) by linarith
  show ya0: "0 \<le> ya" using S day0 by linarith
  show ya99: "ya \<le> 99" using S k R(3) by linarith
  show doy1: "1 \<le> doy" using u S(2) by presburger
  have j: "0 \<le> j" "j \<le> 3" "4 * ((146097 * c) div 4) = 146097 * c - j"
    unfolding j_def by (rule mod_4 century_days)+
  have i: "0 \<le> i" "i \<le> 3" "4 * ((1461 * ya) div 4) = 1461 * ya - i"
    unfolding i_def by (rule mod_4 cycle_days)+
  have n': "4 * (n - (146097 * c) div 4 - day) = j + k + 1" using R(1) k(1) j(3) by simp
  have jk: "j + k = 3" by (rule four_cut [OF n']) (use j k in simp_all)
  have d': "4 * (day - (1461 * ya) div 4 - doy + 1) = i + u - 3" using S(1) u(1) i(3) by simp
  then have iu: "i + u = 3" using i u by (intro four_cut [of "day - (1461 * ya) div 4 - doy + 2"]) simp_all
  show "n = (146097 * c) div 4 + (1461 * ya) div 4 + doy" using four_one [OF n' jk] four_one [of "day - (1461 * ya) div 4 - doy + 2" "i + u"] d' iu
    by simp
  have "doy \<le> 365 \<or> doy = 366 \<and> i = 3 \<and> (ya = 99 \<longrightarrow> j = 3)"
  proof (cases "doy \<le> 365")
    case False
    moreover have "4 * doy + u < 1465" using u(1) S(3) by simp
    ultimately have "doy = 366" "u = 0" using u(2) by simp_all
    moreover have "j = 3" if "ya = 99"
      using that S(1) u \<open>doy = 366\<close> \<open>u = 0\<close> k R(3) jk by simp
    ultimately show ?thesis using iu by simp
  qed simp
  then show "doy \<le> (if isLeapYear (100 * c + ya + 1) then 366 else 365)"
    using leap_iff [OF c0 ya0 ya99] by (auto simp: i_def j_def)
qed


section \<open>The code's dates in centuries, years and months from March\<close>

definition march_tm :: "int \<Rightarrow> int \<Rightarrow> int \<Rightarrow> int \<Rightarrow> tm \<Rightarrow> bool" where
  "march_tm c ya m d t \<longleftrightarrow> tm_mday t = d \<and> tm_mon t = (if m < 10 then m + 2 else m - 10) \<and>
     tm_year t + 1900 = 100 * c + ya + (if m < 10 then 0 else 1)"

definition march_day :: "int \<Rightarrow> int \<Rightarrow> int \<Rightarrow> int \<Rightarrow> int" where
  "march_day c ya m d = (146097 * c) div 4 + (1461 * ya) div 4 + ((153 * m + 2) div 5 + d)"

definition march_ok :: "int \<Rightarrow> int \<Rightarrow> int \<Rightarrow> int \<Rightarrow> bool" where
  "march_ok c ya m d \<longleftrightarrow> 0 \<le> c \<and> 0 \<le> ya \<and> ya \<le> 99 \<and> 0 \<le> m \<and> m \<le> 11 \<and> 1 \<le> d \<and>
     d \<le> march_days m (isLeapYear (100 * c + ya + 1))"

lemma decode_march:
  assumes "- 678882 < n"
  obtains c ya m d where "march_ok c ya m d" "march_tm c ya m d (decode_date n)"
    "n = march_day c ya m d - 678882"
proof -
  define N where "N = n + 678882"
  have N: "1 \<le> N" using assms by (simp add: N_def)
  define c where "c = (4 * N - 1) div 146097"
  define day where "day = ((4 * N - 1) mod 146097) div 4"
  define ya where "ya = (4 * day + 3) div 1461"
  define doy where "doy = ((4 * day + 3) mod 1461 + 4) div 4"
  define m where "m = (5 * doy - 3) div 153"
  define d where "d = ((5 * doy - 3) mod 153 + 5) div 5"
  note cyc = cycle_of_day [OF N c_def day_def ya_def doy_def]
  note mon = day_of_month [OF cyc(4,5) m_def d_def]
  have "0 \<le> day" by (simp add: day_def pos_imp_zdiv_nonneg_iff)
  have mods: "4 * N - 1 - 146097 * c = (4 * N - 1) mod 146097"
    "4 * day + 3 - 1461 * ya = (4 * day + 3) mod 1461" "5 * doy - 3 - 153 * m = (5 * doy - 3) mod 153"
    unfolding c_def ya_def m_def by (rule minus_mult_div_eq_mod)+
  have "n + (2400001 - 1721119) = N" by (simp add: N_def)
  moreover have "(4 * N - 1) sdiv 146097 = c" unfolding c_def by (rule sdiv_pos) (use N in simp_all)
  moreover have "(4 * N - 1 - 146097 * c) sdiv 4 = day"
    unfolding mods day_def by (rule sdiv_pos) simp_all
  moreover have "(4 * day + 3) sdiv 1461 = ya"
    unfolding ya_def by (rule sdiv_pos) (use \<open>0 \<le> day\<close> in simp_all)
  moreover have "(4 * day + 3 - 1461 * ya + 4) sdiv 4 = doy"
    unfolding mods doy_def by (rule sdiv_pos) simp_all
  moreover have "(5 * doy - 3) sdiv 153 = m" unfolding m_def by (rule sdiv_pos) (use cyc(4) in simp_all)
  moreover have "(5 * doy - 3 - 153 * m + 5) sdiv 5 = d"
    unfolding mods d_def by (rule sdiv_pos) simp_all
  ultimately have "march_tm c ya m d (decode_date n)"
    unfolding decode_date_def march_tm_def Let_def by (simp only:) simp
  moreover have "march_ok c ya m d" using cyc mon by (simp add: march_ok_def)
  moreover have "n = march_day c ya m d - 678882"
    using cyc(6) mon(5) by (simp add: march_day_def N_def)
  ultimately show thesis using that by blast
qed


lemma signed_32: "- (2 ^ 31) \<le> x \<Longrightarrow> x < 2 ^ 31 \<Longrightarrow> signed_take_bit 31 x = (x :: int)"
  by (rule signed_take_bit_int_eq_self)

lemma march_bounds:
  assumes "march_ok c ya m d" "c \<le> 99"
  shows "1 \<le> march_day c ya m d" "march_day c ya m d \<le> 3652425"
proof -
  have "march_days m l \<le> 31" for l by (simp add: march_days_def)
  then have d: "d \<le> 31" using assms(1) by (auto simp: march_ok_def intro: order_trans)
  have X: "(146097 * c) div 4 \<le> 3615900" using assms by (auto simp: march_ok_def)
  have Y: "(1461 * ya) div 4 \<le> 36159" using assms by (auto simp: march_ok_def)
  have M: "(153 * m + 2) div 5 \<le> 335 \<or> m = 11" "(153 * m + 2) div 5 \<le> 337"
    using assms(1) by (auto simp: march_ok_def)
  have "m = 11 \<Longrightarrow> d \<le> 29" using assms(1) by (auto simp: march_ok_def march_days_def split: if_splits)
  then have "(153 * m + 2) div 5 + d \<le> 366" using M d by auto
  then show "march_day c ya m d \<le> 3652425" using X Y by (simp add: march_day_def)
  have "0 \<le> (146097 * c) div 4" "0 \<le> (1461 * ya) div 4" "0 \<le> (153 * m + 2) div 5"
    using assms by (auto simp: march_ok_def pos_imp_zdiv_nonneg_iff)
  then show "1 \<le> march_day c ya m d" using assms(1) by (simp add: march_day_def march_ok_def)
qed

lemma encode_march:
  assumes ok: "march_ok c ya m d" and c: "c \<le> 99" and tm: "march_tm c ya m d t"
  shows "encode_date t = march_day c ya m d - 678882"
proof -
  have "tm_mon t + 1 > 2 \<longleftrightarrow> m < 10" using tm ok by (auto simp: march_tm_def march_ok_def)
  then have parts: "(if tm_mon t + 1 > 2 then (tm_mon t + 1 - 3, tm_year t + 1900)
      else (tm_mon t + 1 + 9, tm_year t + 1900 - 1)) = (m, 100 * c + ya)" and day: "tm_mday t = d"
    using tm by (auto simp: march_tm_def)
  have ge: "0 \<le> c" "0 \<le> ya" "ya \<le> 99" "0 \<le> m" using ok by (simp_all add: march_ok_def)
  have cent: "(100 * c + ya) sdiv 100 = c" using ge by (simp add: sdiv_pos)
  have "encode_date t = signed_take_bit 31 (march_day c ya m d - 678882)"
    unfolding encode_date_def Let_def parts prod.case cent day
    using ge by (simp add: sdiv_pos march_day_def add.assoc)
  also have "\<dots> = march_day c ya m d - 678882"
    using march_bounds [OF ok c] by (intro signed_32) simp_all
  finally show ?thesis .
qed

lemma march_days_month:
  assumes "0 \<le> m" "m \<le> 11"
  shows "march_days m (isLeapYear (100 * c + ya + 1))
    = days_in_month (100 * c + ya + (if m < 10 then 0 else 1)) (if m < 10 then m + 2 else m - 10)"
  by (cases rule: month_cases [OF assms]) (simp_all add: march_days_def days_in_month_def)

lemma valid_tm_march:
  assumes "valid_tm t"
  obtains c ya m d where "march_ok c ya m d" "march_tm c ya m d t" "c \<le> 99"
proof -
  define m where "m = (if 2 \<le> tm_mon t then tm_mon t - 2 else tm_mon t + 10)"
  define y where "y = (if 2 \<le> tm_mon t then tm_year t + 1900 else tm_year t + 1899)"
  have t: "tm_mon t = (if m < 10 then m + 2 else m - 10)" "0 \<le> m" "m \<le> 11"
    "tm_year t + 1900 = y + (if m < 10 then 0 else 1)" "0 \<le> y" "y \<le> 9999"
    using assms by (auto simp: valid_tm_def m_def y_def)
  define c where "c = y div 100"
  define ya where "ya = y mod 100"
  have y: "y = 100 * c + ya" "0 \<le> ya" "ya \<le> 99" by (simp_all add: c_def ya_def)
  have c: "0 \<le> c" "c \<le> 99"
  proof -
    show "0 \<le> c" using t(5) by (simp add: c_def pos_imp_zdiv_nonneg_iff)
    have "100 * c + ya \<le> 9999" using t(6) unfolding y(1) .
    then show "c \<le> 99" using y(2) by simp
  qed
  have "tm_mday t \<le> march_days m (isLeapYear (100 * c + ya + 1))"
    using assms t y by (simp add: march_days_month valid_tm_def)
  then have "march_ok c ya m (tm_mday t)" using assms c y t by (simp add: march_ok_def valid_tm_def)
  moreover have "march_tm c ya m (tm_mday t) t" using t y by (simp add: march_tm_def)
  ultimately show thesis using c(2) that by blast
qed

lemma march_unique:
  assumes "march_ok c ya m d" "march_ok c' ya' m' d'" and eq: "march_day c ya m d = march_day c' ya' m' d'"
  shows "c = c' \<and> ya = ya' \<and> m = m' \<and> d = d'"
proof -
  have parts: "c = (4 * march_day c ya m d - 1) div 146097 \<and>
     ya = (4 * (((4 * march_day c ya m d - 1) mod 146097) div 4) + 3) div 1461 \<and>
     m = (5 * (((4 * (((4 * march_day c ya m d - 1) mod 146097) div 4) + 3) mod 1461 + 4) div 4) - 3) div 153 \<and>
     d = ((5 * (((4 * (((4 * march_day c ya m d - 1) mod 146097) div 4) + 3) mod 1461 + 4) div 4) - 3) mod 153 + 5) div 5"
    if ok: "march_ok c ya m d" for c ya m d
  proof -
    have ok': "0 \<le> c" "0 \<le> ya" "ya \<le> 99" "0 \<le> m" "m \<le> 11" "1 \<le> d"
       "d \<le> march_days m (isLeapYear (100 * c + ya + 1))" using ok by (simp_all add: march_ok_def)
    note mon = month_of_day [OF ok'(4-7) refl]
    note cyc = day_of_cycle [OF ok'(1-3) mon(3,4) march_day_def refl]
    show ?thesis unfolding cyc using mon by simp
  qed
  show ?thesis using parts [OF assms(1)] parts [OF assms(2)] unfolding eq by metis
qed



definition cal :: "tm \<Rightarrow> int \<times> int \<times> int" where
  "cal t = (tm_year t + 1900, tm_mon t, tm_mday t)"

text \<open>The day after a day of the calendar.\<close>

fun next_day :: "int \<times> int \<times> int \<Rightarrow> int \<times> int \<times> int" where
  "next_day (year, mon, day) =
     (if day < days_in_month year mon then (year, mon, day + 1)
      else if mon < 11 then (year, mon + 1, 1)
      else (year + 1, 0, 1))"

definition march_step :: "int \<times> int \<times> int \<times> int \<Rightarrow> int \<times> int \<times> int \<times> int" where
  "march_step p = (case p of (c, ya, m, d) \<Rightarrow>
     if d < march_days m (isLeapYear (100 * c + ya + 1)) then (c, ya, m, d + 1)
     else if m < 11 then (c, ya, m + 1, 1)
     else if ya < 99 then (c, ya + 1, 0, 1)
     else (c + 1, 0, 0, 1))"

lemma next_month: "0 \<le> m \<Longrightarrow> m < 11 \<Longrightarrow>
  (153 * (m + 1) + 2) div 5 = (153 * m + 2) div 5 + march_days m leap"
  by (cases rule: month_cases [of m]) (simp_all add: march_days_def)

lemma next_year:
  assumes "0 \<le> c" "0 \<le> ya" "ya < 99"
  shows "(1461 * (ya + 1)) div 4 = (1461 * ya) div 4 + 337 + march_days 11 (isLeapYear (100 * c + ya + 1))"
proof -
  have step: "(ya + 1) mod 4 = (if ya mod 4 = 3 then 0 else ya mod 4 + 1)" by presburger
  then have "4 * ((1461 * (ya + 1)) div 4) = 4 * ((1461 * ya) div 4) + (if ya mod 4 = 3 then 1464 else 1460)"
    unfolding cycle_days by (simp add: step)
  then show ?thesis using leap_iff [of c ya] assms
    by (cases "ya mod 4 = 3") (simp_all add: march_days_def)
qed

lemma next_century:
  assumes "0 \<le> c"
  shows "(146097 * (c + 1)) div 4 
     = (146097 * c) div 4 + 36159 + 337 + march_days 11 (isLeapYear (100 * c + 99 + 1))"
proof -
  have step: "(c + 1) mod 4 = (if c mod 4 = 3 then 0 else c mod 4 + 1)" by presburger
  then have "4 * ((146097 * (c + 1)) div 4) = 4 * ((146097 * c) div 4) + (if c mod 4 = 3 then 146100 else 146096)"
    unfolding century_days by (simp add: step)
  then show ?thesis using leap_iff [of c 99] assms by (simp add: march_days_def split: if_splits)
qed

definition march_cal :: "int \<Rightarrow> int \<Rightarrow> int \<Rightarrow> int \<Rightarrow> int \<times> int \<times> int" where
  "march_cal c ya m d = (if m < 10 then (100 * c + ya, m + 2, d) else (100 * c + ya + 1, m - 10, d))"

lemma march_tm_cal: "march_tm c ya m d t \<Longrightarrow> cal t = march_cal c ya m d"
  by (auto simp: march_tm_def cal_def march_cal_def)

lemma march_cal_days:
  assumes "0 \<le> m" "m \<le> 11"
  shows "m < 10 \<Longrightarrow> days_in_month (100 * c + ya) (m + 2) = march_days m (isLeapYear (100 * c + ya + 1))"
    and "10 \<le> m \<Longrightarrow> days_in_month (100 * c + ya + 1) (m - 10) = march_days m (isLeapYear (100 * c + ya + 1))"
  using march_days_month [OF assms, of c ya] by simp_all

lemma march_step_day:
  assumes ok: "march_ok c ya m d" and step: "march_step (c, ya, m, d) = (c', ya', m', d')"
  shows "march_ok c' ya' m' d'" and "march_day c' ya' m' d' = march_day c ya m d + 1"
    and "march_tm c ya m d t \<Longrightarrow> march_tm c' ya' m' d' t' \<Longrightarrow> cal t' = next_day (cal t)"
proof -
  let ?leap = "isLeapYear (100 * c + ya + 1)"
  have p: "0 \<le> c" "0 \<le> ya" "ya \<le> 99" "0 \<le> m" "m \<le> 11" "1 \<le> d" "d \<le> march_days m ?leap"
    using ok by (simp_all add: march_ok_def)
  have pos: "1 \<le> march_days k l" for k l by (simp add: march_days_def)
  consider "d < march_days m ?leap" "c' = c" "ya' = ya" "m' = m" "d' = d + 1"
    | "d = march_days m ?leap" "m < 11" "c' = c" "ya' = ya" "m' = m + 1" "d' = 1"
    | "d = march_days m ?leap" "m = 11" "ya < 99" "c' = c" "ya' = ya + 1" "m' = 0" "d' = 1"
    | "d = march_days m ?leap" "m = 11" "ya = 99" "c' = c + 1" "ya' = 0" "m' = 0" "d' = 1"
  proof (cases "d < march_days m ?leap")
    case True
    then show thesis using step by (intro that(1)) (simp_all add: march_step_def)
  next
    case False
    then have d: "d = march_days m ?leap" using p(7) by simp
    show thesis
    proof (cases "m < 11")
      case True
      then show thesis using step False d by (intro that(2)) (simp_all add: march_step_def)
    next
      case m: False
      then have "m = 11" using p(5) by simp
      show thesis
      proof (cases "ya < 99")
        case True
        then show thesis using step d \<open>m = 11\<close> by (intro that(3)) (simp_all add: march_step_def)
      next
        case False
        then show thesis using step d \<open>m = 11\<close> p(3) by (intro that(4)) (simp_all add: march_step_def)
      qed
    qed
  qed
  note cases = this
  show "march_ok c' ya' m' d'" using p pos by (cases rule: cases) (simp_all add: march_ok_def)
  show "march_day c' ya' m' d' = march_day c ya m d + 1"
  proof (cases rule: cases)
    case 1
    then show ?thesis by (simp add: march_day_def)
  next
    case 2
    then show ?thesis unfolding march_day_def using next_month [OF p(4), of ?leap] by simp
  next
    case 3
    then show ?thesis unfolding march_day_def using next_year [OF p(1,2)] by simp
  next
    case 4
    then show ?thesis unfolding march_day_def using next_century [OF p(1)] by simp
  qed
  assume t: "march_tm c ya m d t" "march_tm c' ya' m' d' t'"
  have "next_day (march_cal c ya m d) = march_cal c' ya' m' d'"
  proof (cases rule: cases)
    case 1
    then show ?thesis using march_cal_days [OF p(4,5)] by (simp add: march_cal_def)
  next
    case 2
    then consider "m < 9" | "m = 9" | "m = 10" by linarith
    then show ?thesis using 2 march_cal_days [OF p(4,5), of c ya] by cases (simp_all add: march_cal_def)
  next
    case 3
    then show ?thesis using march_cal_days(2) [of 11 c ya] by (simp add: march_cal_def add.commute)
  next
    case 4
    then show ?thesis using march_cal_days(2) [of 11 c ya] by (simp add: march_cal_def)
  qed
  then show "cal t' = next_day (cal t)" using t by (simp add: march_tm_cal)
qed

lemma march_first_months:
  assumes "march_ok c ya m d"
  shows "m < 10 \<longleftrightarrow> (153 * m + 2) div 5 + d \<le> 306"
proof -
  have m: "0 \<le> m" "m \<le> 11" "1 \<le> d" and d: "d \<le> march_days m (isLeapYear (100 * c + ya + 1))"
    using assms by (simp_all add: march_ok_def)
  show ?thesis using m(3) d by (cases rule: month_cases [OF m(1,2)]) (auto simp: march_days_def split: if_splits)
qed

lemma march_years:
  assumes ok: "march_ok c ya m d" and c: "c \<le> 99"
  shows "1 \<le> 100 * c + ya + (if m < 10 then 0 else 1) \<longleftrightarrow> 307 \<le> march_day c ya m d"
    and "100 * c + ya + (if m < 10 then 0 else 1) \<le> 9999 \<longleftrightarrow> march_day c ya m d \<le> 3652365"
proof -
  have p: "0 \<le> c" "0 \<le> ya" "ya \<le> 99" "0 \<le> m" "1 \<le> d" using ok by (simp_all add: march_ok_def)
  define doy where "doy = (153 * m + 2) div 5 + d"
  have doy: "1 \<le> doy" "doy \<le> 366" "m < 10 \<longleftrightarrow> doy \<le> 306"
    using month_of_day(3,4) [OF _ _ _ _ doy_def, of "isLeapYear (100 * c + ya + 1)"] ok march_first_months [OF ok]
    by (auto simp: march_ok_def doy_def split: if_splits)
  have day: "march_day c ya m d = (146097 * c) div 4 + (1461 * ya) div 4 + doy"
    by (simp add: march_day_def doy_def)
  have X: "0 \<le> (146097 * c) div 4" "0 \<le> (1461 * ya) div 4" using p by (simp_all add: pos_imp_zdiv_nonneg_iff)
  show "1 \<le> 100 * c + ya + (if m < 10 then 0 else 1) \<longleftrightarrow> 307 \<le> march_day c ya m d"
  proof (cases "c = 0 \<and> ya = 0")
    case False
    then have "365 \<le> (146097 * c) div 4 \<or> 365 \<le> (1461 * ya) div 4" using p by auto
    then show ?thesis using False p X doy day by auto
  qed (use doy day in auto)
  show "100 * c + ya + (if m < 10 then 0 else 1) \<le> 9999 \<longleftrightarrow> march_day c ya m d \<le> 3652365"
  proof (cases "c = 99 \<and> ya = 99")
    case False
    then have "(146097 * c) div 4 \<le> 3579376 \<or> (1461 * ya) div 4 \<le> 35794" using p c by auto
    moreover have "(146097 * c) div 4 \<le> 3615900" "(1461 * ya) div 4 \<le> 36159" using p c by auto
    moreover have "100 * c + ya + 1 \<le> 9999" using False p c by auto
    ultimately show ?thesis using doy day by auto
  qed (use doy day in auto)
qed

lemma valid_date_march:
  assumes "isValidDate n"
  obtains c ya m d where "march_ok c ya m d" "c \<le> 99" "march_tm c ya m d (decode_date n)"
    "n = march_day c ya m d - 678882"
proof -
  have "- 678882 < n" using assms by (simp add: isValidDate_def MIN_DATE_def)
  then obtain c ya m d where p: "march_ok c ya m d" "march_tm c ya m d (decode_date n)"
    "n = march_day c ya m d - 678882" by (rule decode_march)
  have "c \<le> 99"
  proof (rule ccontr)
    assume "\<not> c \<le> 99"
    then have "3652425 \<le> (146097 * c) div 4" by auto
    moreover have "0 \<le> (1461 * ya) div 4" "0 \<le> (153 * m + 2) div 5" "1 \<le> d"
      using p(1) by (simp_all add: march_ok_def pos_imp_zdiv_nonneg_iff)
    ultimately show False using p(3) assms by (simp add: isValidDate_def MAX_DATE_def march_day_def)
  qed
  with p that show thesis by blast
qed


lemma valid_tm_decode: 
  assumes "isValidDate n" 
  shows "valid_tm (decode_date n)"
proof -
  from assms obtain c ya m d where p: "march_ok c ya m d" "c \<le> 99" "march_tm c ya m d (decode_date n)"
    "n = march_day c ya m d - 678882" by (rule valid_date_march)
  have "307 \<le> march_day c ya m d" "march_day c ya m d \<le> 3652365"
    using p(4) assms by (simp_all add: isValidDate_def MIN_DATE_def MAX_DATE_def)
  note years = this [folded march_years [OF p(1,2)]]
  have m: "0 \<le> m" "m \<le> 11" using p(1) by (simp_all add: march_ok_def)
  show ?thesis
    using p(1,3) years march_days_month [OF m, of c ya]
    by (auto simp: valid_tm_def march_tm_def march_ok_def)
qed

lemma decode_fields:
  "tm_sec (decode_date n) = 0" "tm_min (decode_date n) = 0" "tm_hour (decode_date n) = 0"
  "tm_isdst (decode_date n) = 0" 
  "tm_yday (decode_date n) = yday (decode_date n)"
proof -
  have yday_update: "yday (t\<lparr>tm_yday := x\<rparr>) = yday t"
    and select_update: "tm_yday (t\<lparr>tm_yday := x\<rparr>) = x" for t x by (simp_all add: yday_def)
  show "tm_sec (decode_date n) = 0" "tm_min (decode_date n) = 0" "tm_hour (decode_date n) = 0"
    "tm_isdst (decode_date n) = 0"
    unfolding decode_date_def Let_def zero_tm_def by (simp_all only: split_beta tm.simps)
  show "tm_yday (decode_date n) = yday (decode_date n)"
    unfolding decode_date_def Let_def by (simp only: split_beta select_update yday_update)
qed

lemma decode_wday: "tm_wday (decode_date n) = (n + 3) mod 7"
proof -
  have "(if x smod 7 < 0 then x smod 7 + 7 else x smod 7) = x mod 7" for x :: int
  proof (cases "0 \<le> x")
    case False
    then have "x smod 7 = - ((- x) mod 7)" by (simp add: signed_modulo_int_def)
    moreover have "x mod 7 = (if (- x) mod 7 = 0 then 0 else 7 - (- x) mod 7)"
      using zmod_zminus1_eq_if [of "- x" 7] by simp
    moreover have "0 \<le> (- x) mod 7" by simp
    ultimately show ?thesis by auto
  qed (simp add: smod_pos)
  moreover have "tm_wday (decode_date n) =
      (if (n + 3) smod 7 < 0 then (n + 3) smod 7 + 7 else (n + 3) smod 7)"
    unfolding decode_date_def Let_def zero_tm_def by (simp only: split_beta tm.simps)
  ultimately show ?thesis by simp
qed

text \<open>The days of the year before a month.\<close>

definition days_before :: "int \<Rightarrow> int \<Rightarrow> int" where
  "days_before year mon = sum_list (map (\<lambda>k. days_in_month year (int k)) [0..<nat mon])"

lemma yday_days:
  assumes "valid_tm t"
  shows "yday t = days_before (tm_year t + 1900) (tm_mon t) + tm_mday t - 1"
proof -
  have m: "0 \<le> tm_mon t" "tm_mon t \<le> 11" "0 \<le> tm_year t + 1900" using assms by (simp_all add: valid_tm_def)
  show ?thesis
    unfolding yday_def isLeapYear_def [symmetric] Let_def using m(3)
    by (cases rule: month_cases [OF m(1,2)])
      (simp_all add: days_before_def days_in_month_def sdiv_pos eval_nat_numeral)
qed

section \<open>Times of the day\<close>

lemma time_constants:
  "3600 * word_of_int ISC_TIME_SECONDS_PRECISION = (36000000 :: ULONG)"
  "60 * word_of_int ISC_TIME_SECONDS_PRECISION = (600000 :: ULONG)"
  "word_of_int ISC_TIME_SECONDS_PRECISION = (10000 :: ULONG)"
  by (simp_all add: ISC_TIME_SECONDS_PRECISION_def)

lemma isValidTime_iff: "isValidTime t \<longleftrightarrow> unat t < 864000000"
  by (simp add: isValidTime_def ISC_TIME_SECONDS_PRECISION_def word_less_nat_alt)

lemma decode_time_parts:
  "decode_time t = (let n = int (unat t) in
     (n div 36000000, n mod 36000000 div 600000, n mod 600000 div 10000, n mod 10000))"
  if "unat t < 2 ^ 31"
proof -
  let ?n = "unat t"
  have sint: "sint (w :: ULONG) = int (unat w)" if "unat w < 2 ^ 31" for w
    using that by (intro sint_eq_unat) simp
  have "?n mod 36000000 mod 600000 = ?n mod 600000" "?n mod 600000 mod 10000 = ?n mod 10000"
    by (rule mod_mod_cancel; simp)+
  moreover have "?n div 36000000 < 2 ^ 31" "?n mod 36000000 div 600000 < 2 ^ 31"
    "?n mod 600000 div 10000 < 2 ^ 31" "?n mod 10000 < 2 ^ 31"
    using that by (auto intro: le_less_trans [OF div_le_dividend] less_trans [OF mod_less_divisor])
  ultimately show ?thesis
    unfolding decode_time_def time_constants Let_def
    by (simp add: sint unat_div_distrib unat_mod_distrib zdiv_int zmod_int)
qed



lemma mixed_radix:
  fixes h m s f :: int
  assumes "0 \<le> h" "0 \<le> m" "m < 60" "0 \<le> s" "s < 60" "0 \<le> f" "f < 10000"
    and N: "N = ((h * 60 + m) * 60 + s) * 10000 + f"
  shows "N div 36000000 = h" "N mod 36000000 div 600000 = m" "N mod 600000 div 10000 = s" "N mod 10000 = f"
proof -
  have h: "N = 36000000 * h + (600000 * m + (10000 * s + f))" by (simp add: N)
  have r: "0 \<le> 600000 * m + (10000 * s + f)" "600000 * m + (10000 * s + f) < 36000000" using assms by simp_all
  show "N div 36000000 = h" using h r by (rule div_mod_unique)
  have q: "0 \<le> 10000 * s + f" "10000 * s + f < 600000" using assms by simp_all
  show "N mod 36000000 div 600000 = m"
    using div_mod_unique(2) [OF h r] div_mod_unique(1) [OF refl q] by simp
  have "N = 600000 * (60 * h + m) + (10000 * s + f)" by (simp add: N)
  then have "N mod 600000 = 10000 * s + f" using q by (rule div_mod_unique)
  then show "N mod 600000 div 10000 = s" using assms(6,7) by (simp add: div_mod_unique)
  have "N = 10000 * ((h * 60 + m) * 60 + s) + f" by (simp add: N)
  then show "N mod 10000 = f" using assms(6,7) by (rule div_mod_unique)
qed

lemma radix_join:
  fixes n :: int
  shows "((n div 36000000 * 60 + n mod 36000000 div 600000) * 60 + n mod 600000 div 10000) * 10000 + n mod 10000 = n"
proof -
  have join: "((q * 60 + m) * 60 + s) * 10000 + f = N"
    if "q * 36000000 + r = N" "m * 600000 + r' = r" "s * 10000 + f = r'" for N q r m r' s f :: int
    unfolding that [symmetric] by simp
  have "n mod 36000000 mod 600000 = n mod 600000" "n mod 600000 mod 10000 = n mod 10000"
    by (rule mod_mod_cancel; simp)+
  then have "n mod 36000000 div 600000 * 600000 + n mod 600000 = n mod 36000000"
    "n mod 600000 div 10000 * 10000 + n mod 10000 = n mod 600000"
    using div_mult_mod_eq [of "n mod 36000000" 600000] div_mult_mod_eq [of "n mod 600000" 10000]
    by (simp_all only:)
  with div_mult_mod_eq show ?thesis by (rule join)
qed

lemma radix_bounds:
  fixes n :: int
  shows "n mod 36000000 div 600000 < 60" and "n mod 600000 div 10000 < 60"
proof -
  have "r < 36000000 \<Longrightarrow> r div 600000 < 60" "r < 600000 \<Longrightarrow> r div 10000 < 60" for r :: int by simp_all
  then show "n mod 36000000 div 600000 < 60" "n mod 600000 div 10000 < 60" by simp_all
qed

lemma unat_encode_time:
  assumes "0 \<le> h" "h < 24" "0 \<le> m" "m < 60" "0 \<le> s" "s < 60" "0 \<le> f" "f < 10000"
  shows "int (unat (encode_time h m s f)) = ((h * 60 + m) * 60 + s) * 10000 + f"
    and "unat (encode_time h m s f) < 864000000"
proof -
  let ?N = "((h * 60 + m) * 60 + s) * 10000 + f"
  have N: "0 \<le> ?N" "?N < 864000000" using assms by simp_all
  have "int (unat (word_of_int k :: ULONG)) = k" if "0 \<le> k" "k < 864000000" for k
    using that by (simp add: unsigned_of_int take_bit_int_eq_self)
  from this [OF N] show eq: "int (unat (encode_time h m s f)) = ?N"
    unfolding encode_time_def ISC_TIME_SECONDS_PRECISION_def .
  show "unat (encode_time h m s f) < 864000000" using eq N by linarith
qed

lemma encode_time_radix:
  assumes "unat t < 864000000"
  defines "n \<equiv> int (unat t)"
  shows "encode_time (n div 36000000) (n mod 36000000 div 600000) (n mod 600000 div 10000) (n mod 10000) = t"
  unfolding encode_time_def ISC_TIME_SECONDS_PRECISION_def radix_join
  by (simp add: n_def)

lemma pow_table: "k < length POW_10_TABLE \<Longrightarrow> unat (POW_10_TABLE ! k) = 10 ^ k"
proof -
  assume "k < length POW_10_TABLE"
  then have "k \<in> {0, 1, 2, 3, 4, 5, 6, 7, 8, 9}" by (auto simp: POW_10_TABLE_def)
  then show ?thesis by (auto simp: POW_10_TABLE_def)
qed

lemma encode_decode:
  assumes "isValidDate n"
  shows "encode_date (decode_date n) = n"
proof -
  from assms obtain c ya m d where "march_ok c ya m d" "c \<le> 99" "march_tm c ya m d (decode_date n)"
    "n = march_day c ya m d - 678882" by (rule valid_date_march)
  then show ?thesis by (simp add: encode_march)
qed

section \<open>Properties\<close>

text \<open>
  C29. Every day number from 1 January of the year 1 to 31 December 9999 decodes to a date of
  the calendar, and encoding that date gives the day number back.
\<close>

theorem encode_decode_date:
  assumes "isValidDate n"
  shows "valid_tm (decode_date n) \<and> encode_date (decode_date n) = n"
  using assms by (simp add: valid_tm_decode encode_decode)

theorem encode_decode_date_witness:
  "valid_tm (decode_date 60000) \<and> encode_date (decode_date 60000) = 60000"
  by (rule encode_decode_date) (simp add: isValidDate_def MIN_DATE_def MAX_DATE_def)

text \<open>
  Every date of the calendar between the years 1 and 9999 encodes to a valid day number,
  which decodes to the same year, month and day.
\<close>

theorem decode_encode_date:
  assumes "valid_tm t"
  shows "isValidDate (encode_date t) \<and> cal (decode_date (encode_date t)) = cal t"
proof -
  from assms obtain c ya m d where p: "march_ok c ya m d" "march_tm c ya m d t" "c \<le> 99"
    by (rule valid_tm_march)
  have n: "encode_date t = march_day c ya m d - 678882" using p by (simp add: encode_march)
  have "1 \<le> 100 * c + ya + (if m < 10 then 0 else 1)" "100 * c + ya + (if m < 10 then 0 else 1) \<le> 9999"
    using assms p(2) by (simp_all only: valid_tm_def march_tm_def)
  then have "307 \<le> march_day c ya m d" "march_day c ya m d \<le> 3652365"
    using march_years [OF p(1,3)] by simp_all
  then have valid: "isValidDate (encode_date t)" by (simp add: n isValidDate_def MIN_DATE_def MAX_DATE_def)
  then obtain c' ya' m' d' where q: "march_ok c' ya' m' d'" "c' \<le> 99"
    "march_tm c' ya' m' d' (decode_date (encode_date t))" "encode_date t = march_day c' ya' m' d' - 678882"
    by (rule valid_date_march)
  have "march_day c ya m d = march_day c' ya' m' d'" using n q(4) by simp
  then have "c = c' \<and> ya = ya' \<and> m = m' \<and> d = d'" by (rule march_unique [OF p(1) q(1)])
  then have "cal (decode_date (encode_date t)) = cal t"
    using march_tm_cal [OF p(2)] march_tm_cal [OF q(3)] by simp
  with valid show ?thesis ..
qed

theorem decode_encode_date_witness:
  "isValidDate (encode_date (zero_tm\<lparr>tm_mday := 29, tm_mon := 1, tm_year := 100\<rparr>)) \<and>
   cal (decode_date (encode_date (zero_tm\<lparr>tm_mday := 29, tm_mon := 1, tm_year := 100\<rparr>)))
     = (2000, 1, 29)"
  using decode_encode_date [of "zero_tm\<lparr>tm_mday := 29, tm_mon := 1, tm_year := 100\<rparr>"]
  by (simp add: valid_tm_def zero_tm_def days_in_month_def isLeapYear_def smod_pos cal_def)

text \<open>
  C27. Consecutive day numbers decode to consecutive days of the calendar, month lengths and
  leap years included, and the first valid day is 1 January of the year 1.
\<close>

theorem decode_date_next:
  assumes "isValidDate n" and "isValidDate (n + 1)"
  shows "cal (decode_date (n + 1)) = next_day (cal (decode_date n)) \<and>
         cal (decode_date MIN_DATE) = (1, 0, 1)"
proof
  from assms(1) obtain c ya m d where p: "march_ok c ya m d" "c \<le> 99" "march_tm c ya m d (decode_date n)"
    "n = march_day c ya m d - 678882" by (rule valid_date_march)
  from assms(2) obtain c' ya' m' d' where q: "march_ok c' ya' m' d'" "c' \<le> 99"
    "march_tm c' ya' m' d' (decode_date (n + 1))" "n + 1 = march_day c' ya' m' d' - 678882"
    by (rule valid_date_march)
  obtain c2 ya2 m2 d2 where step: "march_step (c, ya, m, d) = (c2, ya2, m2, d2)" by (metis prod.exhaust)
  note next2 = march_step_day [OF p(1) step]
  have "march_day c2 ya2 m2 d2 = march_day c' ya' m' d'" using next2(2) p(4) q(4) by simp
  then have "c2 = c' \<and> ya2 = ya' \<and> m2 = m' \<and> d2 = d'" by (rule march_unique [OF next2(1) q(1)])
  then show "cal (decode_date (n + 1)) = next_day (cal (decode_date n))"
    using next2(3) p(3) q(3) by blast
  show "cal (decode_date MIN_DATE) = (1, 0, 1)"
    by (simp add: decode_date_def MIN_DATE_def cal_def sdiv_pos Let_def zero_tm_def)
qed

theorem decode_date_next_witness:
  "cal (decode_date (15078 + 1)) = next_day (cal (decode_date 15078))"
  by (rule decode_date_next [THEN conjunct1]) (simp_all add: isValidDate_def MIN_DATE_def MAX_DATE_def)

text \<open>
  The day of the week \<open>decode_date\<close> stores advances by one a day, modulo seven, and the day
  of the year is the number of days of the year before the date.
\<close>

theorem decode_date_week_year:
  assumes "isValidDate n"
  shows "tm_wday (decode_date n) = (n + 3) mod 7 \<and>
         tm_yday (decode_date n) = days_before (tm_year (decode_date n) + 1900) (tm_mon (decode_date n))
           + tm_mday (decode_date n) - 1"
  using yday_days [OF valid_tm_decode [OF assms]] by (simp add: decode_wday decode_fields)

theorem decode_date_week_year_witness:
  "tm_wday (decode_date (- 1)) = (- 1 + 3) mod 7"
  by (rule decode_date_week_year [THEN conjunct1]) (simp add: isValidDate_def MIN_DATE_def MAX_DATE_def)

text \<open>
  Timestamps: a valid timestamp decodes to a date of the calendar and to hours, minutes,
  seconds and fractions in their ranges, and encodes back to itself.
\<close>

theorem timestamp_roundtrip:
  assumes "isValidTimeStamp ts"
  shows "case decode_timestamp ts of (t, fractions) \<Rightarrow>
           valid_tm t \<and> tm_hour t \<in> {0..<24} \<and> tm_min t \<in> {0..<60} \<and> tm_sec t \<in> {0..<60} \<and>
           fractions \<in> {0..<10000} \<and> encode_timestamp t fractions = ts"
proof -
  let ?n = "int (unat (timestamp_time ts))" and ?t = "decode_date (timestamp_date ts)"
  have date: "isValidDate (timestamp_date ts)" and time: "unat (timestamp_time ts) < 864000000"
    using assms by (simp_all add: isValidTimeStamp_def isValidTime_iff)
  have "decode_time (timestamp_time ts) = (?n div 36000000, ?n mod 36000000 div 600000,
      ?n mod 600000 div 10000, ?n mod 10000)"
    using time by (simp add: decode_time_parts Let_def)
  moreover have "?n div 36000000 < 24"
  proof -
    have "k div 36000000 < 24" if "k < 864000000" for k :: int using that by simp
    moreover have "?n < 864000000" using time by (simp only: of_nat_less_numeral_iff)
    ultimately show ?thesis by blast
  qed
  moreover have "valid_tm ?t" "encode_date ?t = timestamp_date ts"
    using date by (simp_all add: valid_tm_decode encode_decode)
  moreover have "encode_date (?t\<lparr>tm_hour := h, tm_min := m, tm_sec := s\<rparr>) = encode_date ?t" for h m s
    by (simp add: encode_date_def)
  ultimately show ?thesis
    using encode_time_radix [OF time]
    by (simp add: decode_timestamp_def encode_timestamp_def valid_tm_def pos_imp_zdiv_nonneg_iff
      radix_bounds)
qed


theorem timestamp_roundtrip_witness:
  "case decode_timestamp (ts_make 60000 863999999) of (t, fractions) \<Rightarrow>
     encode_timestamp t fractions = ts_make 60000 863999999"
  using timestamp_roundtrip [of "ts_make 60000 863999999"]
  by (auto simp: isValidTimeStamp_def isValidTime_iff isValidDate_def MIN_DATE_def MAX_DATE_def ts_make_def)

text \<open>
  Hours, minutes, seconds and fractions in their ranges encode to a valid time, which
  decodes to them.
\<close>

theorem decode_encode_time:
  assumes "h \<in> {0..<24}" and "m \<in> {0..<60}" and "s \<in> {0..<60}" and "f \<in> {0..<10000}"
  shows "isValidTime (encode_time h m s f) \<and> decode_time (encode_time h m s f) = (h, m, s, f)"
proof -
  have r: "0 \<le> h" "h < 24" "0 \<le> m" "m < 60" "0 \<le> s" "s < 60" "0 \<le> f" "f < 10000" using assms by auto
  note enc = unat_encode_time [OF r]
  have "unat (encode_time h m s f) < 2 ^ 31" using enc(2) by simp
  then have "decode_time (encode_time h m s f) = (h, m, s, f)"
    unfolding decode_time_parts [OF \<open>unat (encode_time h m s f) < 2 ^ 31\<close>] Let_def
    by (simp only: mixed_radix [OF r(1) r(3-8) enc(1)])
  then show ?thesis using enc(2) by (simp add: isValidTime_iff)
qed

theorem decode_encode_time_witness: "decode_time (encode_time 23 59 58 1234) = (23, 59, 58, 1234)"
  by (rule decode_encode_time [THEN conjunct2]) simp_all

text \<open>
  \<open>round_time\<close> rounds a time down to a whole number of the units of the precision asked
  for, one unit being a power of ten of the smallest fraction, and a precision the engine
  cannot provide leaves the time as it is.
\<close>

theorem round_time_precision:
  assumes "- 5 \<le> precision"
  shows "\<exists>t. round_time ntime precision = Some t \<and>
           (let unit = 10 ^ nat (4 - precision)
            in unat t \<le> unat ntime \<and> unat ntime < unat t + unit \<and> unit dvd unat t)"
proof (cases "precision < 4")
  case True
  define k where "k = nat (4 - precision)"
  have k: "k < length POW_10_TABLE" using assms True by (simp add: k_def POW_10_TABLE_def)
  have scale: "- ISC_TIME_SECONDS_PRECISION_SCALE - precision = 4 - precision"
    by (simp add: ISC_TIME_SECONDS_PRECISION_SCALE_def)
  let ?t = "ntime - ntime mod POW_10_TABLE ! k"
  have "round_time ntime precision = Some ?t"
    using True k by (simp add: round_time_def scale k_def [symmetric] Let_def)
  moreover have mod: "unat (ntime mod POW_10_TABLE ! k) = unat ntime mod 10 ^ k"
    by (simp add: unat_mod_distrib pow_table [OF k])
  have "ntime mod POW_10_TABLE ! k \<le> ntime" by (simp add: word_le_nat_alt mod)
  then have t: "unat ?t = unat ntime - unat ntime mod 10 ^ k" by (simp add: unat_sub mod)
  have "unat ntime mod 10 ^ k \<le> unat ntime" "unat ntime mod 10 ^ k < 10 ^ k" by simp_all
  then have "unat ?t \<le> unat ntime" "unat ntime < unat ?t + 10 ^ k" using t by linarith+
  moreover have "10 ^ k dvd unat ?t" unfolding t by (rule dvd_minus_mod)
  ultimately show ?thesis unfolding Let_def k_def [symmetric] by blast
qed (simp add: round_time_def ISC_TIME_SECONDS_PRECISION_SCALE_def)

theorem round_time_precision_witness:
  "\<exists>t. round_time 123456 1 = Some t \<and>
     (let unit = 10 ^ nat (4 - 1) in unat t \<le> unat (123456 :: ISC_TIME) \<and>
        unat (123456 :: ISC_TIME) < unat t + unit \<and> unit dvd unat t)"
  by (rule round_time_precision) simp


end
