(* ===== verification/KMP.thy ===== *)
theory KMP
  imports Prelude "HOL-Library.Monad_Syntax" "HOL-Library.Sublist"
begin

text \<open>
  Knuth-Morris-Pratt: the failure table \<open>preKmp\<close> and the matching loop shared by the
  evaluators of \<^verbatim>\<open>src/src/jrd/evl_string.h\<close>.  Indexes are the code's \<open>SLONG\<close>, here \<open>int\<close>: they
  stay between \<open>-1\<close> and the length of the pattern.  An access outside an array, undefined in
  C, is \<open>None\<close>.
\<close>

section \<open>Arrays\<close>

definition fetch :: "'a list \<Rightarrow> int \<Rightarrow> 'a option" where
  "fetch xs i = (if 0 \<le> i \<and> nat i < length xs then Some (xs ! nat i) else None)"

definition store :: "'a list \<Rightarrow> int \<Rightarrow> 'a \<Rightarrow> 'a list option" where
  "store xs i a = (if 0 \<le> i \<and> nat i < length xs then Some (xs[nat i := a]) else None)"

lemma fetch_of_nat [simp]: "k < length xs \<Longrightarrow> fetch xs (int k) = Some (xs ! k)"
  by (simp add: fetch_def)

lemma store_of_nat [simp]: "k < length xs \<Longrightarrow> store xs (int k) a = Some (xs[k := a])"
  by (simp add: store_def)

section \<open>The code\<close>

text \<open>The loop \<open>while (j > -1 && y[i] != x[j]) j = kmpNext[j]\<close>.\<close>

partial_function (option) kmp_back ::
  "'a list \<Rightarrow> int list \<Rightarrow> 'a list \<Rightarrow> int \<Rightarrow> int \<Rightarrow> int option" where
  "kmp_back x kmpNext y i j =
     (if j > -1
      then do {
        a \<leftarrow> fetch x j;
        b \<leftarrow> fetch y i;
        if a \<noteq> b then do { j \<leftarrow> fetch kmpNext j; kmp_back x kmpNext y i j } else Some j
      }
      else Some j)"

declare kmp_back.simps [code]

function preKmp_loop ::
  "'a list \<Rightarrow> int \<Rightarrow> int list \<Rightarrow> int \<Rightarrow> int \<Rightarrow> (int list \<times> int \<times> int) option" where
  "preKmp_loop x m kmpNext i j =
     (if i < m - 1
      then do {
        j \<leftarrow> kmp_back x kmpNext x i j;
        a \<leftarrow> fetch x (i + 1);
        b \<leftarrow> fetch x (j + 1);
        kmpNext \<leftarrow> (if a = b
                    then do { k \<leftarrow> fetch kmpNext (j + 1); store kmpNext (i + 1) k }
                    else store kmpNext (i + 1) (j + 1));
        preKmp_loop x m kmpNext (i + 1) (j + 1)
      }
      else Some (kmpNext, i, j))"
  by pat_completeness auto

termination
  by (relation "measure (\<lambda>(x, m, kmpNext, i, j). nat (m - 1 - i))") auto

declare preKmp_loop.simps [simp del]

definition preKmp :: "'a list \<Rightarrow> int \<Rightarrow> int list \<Rightarrow> int list option" where
  "preKmp x m kmpNext = do {
     kmpNext \<leftarrow> store kmpNext 0 (-1);
     (kmpNext, i, j) \<leftarrow> preKmp_loop x m kmpNext 0 (-1);
     j \<leftarrow> kmp_back x kmpNext x i j;
     store kmpNext (i + 1) (j + 1)
   }"

section \<open>Borders\<close>

text \<open>\<open>k\<close> is the length of a proper border of the first \<open>i\<close> characters.\<close>

definition border :: "'a list \<Rightarrow> nat \<Rightarrow> nat \<Rightarrow> bool" where
  "border x i k \<longleftrightarrow> k < i \<and> suffix (take k x) (take i x)"

lemma border_0 [simp]: "0 < i \<Longrightarrow> border x i 0"
  by (simp add: border_def)

lemma border_trans: "border x i j \<Longrightarrow> border x j k \<Longrightarrow> border x i k"
  by (auto simp: border_def intro: suffix_order.trans)

lemma border_of_border:
  assumes "border x i j" "border x i k" "k < j" "i \<le> length x"
  shows "border x j k"
proof -
  have "suffix (take k x) (take j x)"
    by (rule suffix_length_suffix [of _ "take i x"]) (use assms in \<open>simp_all add: border_def\<close>)
  then show ?thesis using assms by (simp add: border_def)
qed

lemma suffix_take_Suc:
  assumes "k < length x"
  shows "suffix (take (Suc k) x) (t @ [c]) \<longleftrightarrow> suffix (take k x) t \<and> x ! k = c"
  unfolding take_Suc_conv_app_nth [OF assms] snoc_suffix_snoc by blast

lemma border_Suc:
  assumes "i < length x"
  shows "border x (Suc i) (Suc k) \<longleftrightarrow> border x i k \<and> x ! k = x ! i"
proof (cases "k < i")
  case True
  then have "k < length x" using assms by simp
  from suffix_take_Suc [OF this] show ?thesis
    unfolding border_def take_Suc_conv_app_nth [OF assms] by simp
qed (simp add: border_def)

text \<open>What the code stores for a prefix: a border such that every longer one fails as well.\<close>

definition link_ok :: "'a list \<Rightarrow> int list \<Rightarrow> nat \<Rightarrow> bool" where
  "link_ok x nxt j \<longleftrightarrow> j < length nxt \<and> -1 \<le> nxt ! j \<and> nxt ! j < int j \<and>
     (0 \<le> nxt ! j \<longrightarrow> border x j (nat (nxt ! j))) \<and>
     (\<forall>k. border x j k \<and> nxt ! j < int k \<longrightarrow> x ! k = x ! j)"

definition table_ok :: "'a list \<Rightarrow> int list \<Rightarrow> bool" where
  "table_ok x nxt \<longleftrightarrow> length nxt = Suc (length x) \<and> (\<forall>j < length x. link_ok x nxt j) \<and>
     0 \<le> nxt ! length x \<and> border x (length x) (nat (nxt ! length x)) \<and>
     (\<forall>k. border x (length x) k \<longrightarrow> int k \<le> nxt ! length x)"

lemma kmp_back_links:
  assumes links: "\<forall>j < n. link_ok x nxt j" and n: "n \<le> length x"
    and i: "i < length y"
    and down: "\<And>j k. P j \<Longrightarrow> border x j k \<Longrightarrow> P k"
    and same: "\<And>j k. P j \<Longrightarrow> P k \<Longrightarrow> k < j \<Longrightarrow> border x j k"
    and small: "\<And>k. P k \<Longrightarrow> k < n"
  shows "-1 \<le> j \<Longrightarrow> (0 \<le> j \<longrightarrow> P (nat j)) \<Longrightarrow> (\<forall>k. P k \<and> j < int k \<longrightarrow> x ! k \<noteq> y ! i) \<Longrightarrow>
    \<exists>j'. kmp_back x nxt y (int i) j = Some j' \<and> -1 \<le> j' \<and> j' \<le> j \<and>
      (0 \<le> j' \<longrightarrow> P (nat j') \<and> x ! nat j' = y ! i) \<and> (\<forall>k. P k \<and> j' < int k \<longrightarrow> x ! k \<noteq> y ! i)"
proof (induction "nat (j + 1)" arbitrary: j rule: less_induct)
  case less
  show ?case
  proof (cases "0 \<le> j")
    case False
    then show ?thesis using less.prems by (subst kmp_back.simps) auto
  next
    case True
    then obtain k where j: "j = int k" by (metis nonneg_int_cases)
    have k: "P k" "k < n" using less.prems(2) True small by (simp_all add: j)
    show ?thesis
    proof (cases "x ! k = y ! i")
      case True
      then show ?thesis using less.prems k n i by (subst kmp_back.simps) (auto simp: j)
    next
      case False
      let ?f = "nxt ! k"
      have l: "link_ok x nxt k" using links k by simp
      then have f: "k < length nxt" "-1 \<le> ?f" "?f < int k" "0 \<le> ?f \<longrightarrow> border x k (nat ?f)"
        "\<forall>k'. border x k k' \<and> ?f < int k' \<longrightarrow> x ! k' = x ! k"
        by (simp_all add: link_ok_def)
      have "\<exists>j'. kmp_back x nxt y (int i) ?f = Some j' \<and> -1 \<le> j' \<and> j' \<le> ?f \<and>
          (0 \<le> j' \<longrightarrow> P (nat j') \<and> x ! nat j' = y ! i) \<and> (\<forall>k. P k \<and> j' < int k \<longrightarrow> x ! k \<noteq> y ! i)"
      proof (rule less.hyps)
        show "nat (?f + 1) < nat (j + 1)" using f by (simp add: j)
        show "-1 \<le> ?f" by (rule f)
        show "0 \<le> ?f \<longrightarrow> P (nat ?f)" using f(4) down k by blast
        show "\<forall>k'. P k' \<and> ?f < int k' \<longrightarrow> x ! k' \<noteq> y ! i"
        proof (intro allI impI)
          fix k' assume k': "P k' \<and> ?f < int k'"
          then consider "k' < k" | "k' = k" | "k < k'" by linarith
          then show "x ! k' \<noteq> y ! i"
          proof cases
            case 1
            then have "x ! k' = x ! k" using same [OF k(1)] k' f(5) by blast
            then show ?thesis using False by simp
          next
            case 3
            then show ?thesis using less.prems(3) k' by (simp add: j)
          qed (use False in simp)
        qed
      qed
      moreover have "kmp_back x nxt y (int i) j = kmp_back x nxt y (int i) ?f"
        using False k n i f(1) by (subst kmp_back.simps) (simp add: j)
      ultimately show ?thesis using f(3) by (auto simp: j)
    qed
  qed
qed


section \<open>The table\<close>

text \<open>The state of the outer loop: \<open>j\<close> is the longest proper border of the first \<open>i\<close> characters.\<close>

definition pre_inv :: "'a list \<Rightarrow> int list \<Rightarrow> nat \<Rightarrow> int \<Rightarrow> bool" where
  "pre_inv x nxt i j \<longleftrightarrow> length nxt = Suc (length x) \<and> i < length x \<and> (\<forall>k \<le> i. link_ok x nxt k) \<and>
     -1 \<le> j \<and> (0 \<le> j \<longrightarrow> border x i (nat j)) \<and> (\<forall>k. border x i k \<longrightarrow> int k \<le> j)"

lemma pre_back:
  assumes "pre_inv x nxt i j"
  obtains j' where "kmp_back x nxt x (int i) j = Some j'" "-1 \<le> j'"
    "border x (Suc i) (nat (j' + 1))" "\<And>k. border x (Suc i) k \<Longrightarrow> int k \<le> j' + 1"
proof -
  have inv: "i < length x" "\<forall>k \<le> i. link_ok x nxt k" "-1 \<le> j" "0 \<le> j \<longrightarrow> border x i (nat j)"
    "\<forall>k. border x i k \<longrightarrow> int k \<le> j" using assms by (simp_all add: pre_inv_def)
  have "\<exists>j'. kmp_back x nxt x (int i) j = Some j' \<and> -1 \<le> j' \<and> j' \<le> j \<and>
      (0 \<le> j' \<longrightarrow> border x i (nat j') \<and> x ! nat j' = x ! i) \<and>
      (\<forall>k. border x i k \<and> j' < int k \<longrightarrow> x ! k \<noteq> x ! i)"
  proof (rule kmp_back_links [where n = i])
    show "\<forall>k < i. link_ok x nxt k" "i \<le> length x" "i < length x" "-1 \<le> j"
      "0 \<le> j \<longrightarrow> border x i (nat j)" using inv(1-4) by simp_all
    show "\<forall>k. border x i k \<and> j < int k \<longrightarrow> x ! k \<noteq> x ! i" using inv(5) by (meson not_less)
    show "border x i k" if "border x i j" "border x j k" for j k using that by (rule border_trans)
    show "border x j k" if "border x i j" "border x i k" "k < j" for j k
      by (rule border_of_border [OF that]) (use inv(1) in simp)
    show "k < i" if "border x i k" for k using that by (simp add: border_def)
  qed
  then obtain j' where j': "kmp_back x nxt x (int i) j = Some j'" "-1 \<le> j'" 
    "0 \<le> j' \<longrightarrow> border x i (nat j') \<and> x ! nat j' = x ! i"
    "\<forall>k. border x i k \<and> j' < int k \<longrightarrow> x ! k \<noteq> x ! i" by blast
  note Suc = border_Suc [OF inv(1)]
  have "border x (Suc i) (nat (j' + 1))"
  proof (cases "0 \<le> j'")
    case True
    then have "nat (j' + 1) = Suc (nat j')" by simp
    then show ?thesis using j'(3) True Suc by simp
  qed (use j'(2) in simp)
  moreover have "int k \<le> j' + 1" if "border x (Suc i) k" for k
  proof (cases k)
    case k: (Suc k')
    then have "border x i k' \<and> x ! k' = x ! i" using that by (simp add: Suc)
    then have "\<not> j' < int k'" using j'(4) by blast
    then show ?thesis using k by simp
  qed (use j'(2) in simp)
  ultimately show thesis using that j'(1,2) by blast
qed


lemma pre_inv_step:
  assumes inv: "pre_inv x nxt i j" and i: "Suc i < length x"
  shows "\<exists>nxt' j'. preKmp_loop x (int (length x)) nxt (int i) j
           = preKmp_loop x (int (length x)) nxt' (int (Suc i)) j' \<and> pre_inv x nxt' (Suc i) j'"
proof -
  obtain j0 where kb: "kmp_back x nxt x (int i) j = Some j0" "-1 \<le> j0"
    "border x (Suc i) (nat (j0 + 1))" "\<And>k. border x (Suc i) k \<Longrightarrow> int k \<le> j0 + 1"
    using pre_back [OF inv] by blast
  define b where "b = nat (j0 + 1)"
  have j0: "j0 + 1 = int b" using kb(2) by (simp add: b_def)
  have b: "border x (Suc i) b" using kb(3) by (simp add: b_def)
  have bi: "b \<le> i" using b by (simp add: border_def)
  have max: "k \<le> b" if "border x (Suc i) k" for k using kb(4) [OF that] j0 by simp
  have len: "length nxt = Suc (length x)" and links: "\<forall>k \<le> i. link_ok x nxt k"
    using inv by (simp_all add: pre_inv_def)
  define v where "v = (if x ! Suc i = x ! b then nxt ! b else int b)"
  define nxt' where "nxt' = nxt[Suc i := v]"
  have step: "preKmp_loop x (int (length x)) nxt (int i) j
      = preKmp_loop x (int (length x)) nxt' (int i + 1) (int b)"
    using i bi len unfolding nxt'_def v_def
    by (subst preKmp_loop.simps) (auto simp: kb(1) j0 fetch_def store_def nat_add_distrib)
  have old: "link_ok x nxt' k" if "k \<le> i" for k
    using links that by (simp add: link_ok_def nxt'_def)
  have lb: "link_ok x nxt b" using links bi by simp
  have "link_ok x nxt' (Suc i)"
  proof (cases "x ! Suc i = x ! b")
    case True
    have "x ! k = x ! Suc i" if k: "border x (Suc i) k" "nxt ! b < int k" for k
    proof (cases "k = b")
      case False
      then have "border x b k" using max [OF k(1)] k(1) b i border_of_border [of x "Suc i" b k] by simp
      then show ?thesis using lb k(2) True by (simp add: link_ok_def)
    qed (simp add: True)
    moreover have "0 \<le> nxt ! b \<longrightarrow> border x (Suc i) (nat (nxt ! b))"
      using lb b border_trans unfolding link_ok_def by blast
    moreover have "-1 \<le> nxt ! b" "nxt ! b < int (Suc i)" using lb bi by (simp_all add: link_ok_def)
    ultimately show ?thesis using i len True by (simp add: link_ok_def nxt'_def v_def)
  next
    case False
    moreover have "\<forall>k. border x (Suc i) k \<and> b < k \<longrightarrow> x ! k = x ! Suc i"
      using max by (meson not_less)
    ultimately show ?thesis using b bi i len by (simp add: link_ok_def nxt'_def v_def)
  qed
  then have "pre_inv x nxt' (Suc i) (int b)"
    using old i len b max by (auto simp: pre_inv_def nxt'_def le_Suc_eq)
  with step show ?thesis by (metis of_nat_Suc add.commute)
qed

lemma preKmp_loop_ok:
  "pre_inv x nxt i j \<Longrightarrow>
     \<exists>nxt' j'. preKmp_loop x (int (length x)) nxt (int i) j = Some (nxt', int (length x) - 1, j') \<and>
       pre_inv x nxt' (length x - 1) j'"
proof (induction "length x - i" arbitrary: nxt i j rule: less_induct)
  case less
  show ?case
  proof (cases "Suc i < length x")
    case True
    obtain nxt' j' where "preKmp_loop x (int (length x)) nxt (int i) j
        = preKmp_loop x (int (length x)) nxt' (int (Suc i)) j'" "pre_inv x nxt' (Suc i) j'"
      using pre_inv_step [OF less.prems True] by blast
    then show ?thesis using less.hyps [of "Suc i" nxt' j'] True by simp
  next
    case False
    then have "i = length x - 1" "0 < length x" using less.prems by (auto simp: pre_inv_def)
    then have "int i = int (length x) - 1" by linarith
    moreover have "preKmp_loop x (int (length x)) nxt (int i) j = Some (nxt, int i, j)"
      using False by (subst preKmp_loop.simps) simp
    ultimately show ?thesis using less.prems \<open>i = length x - 1\<close> by simp
  qed
qed

text \<open>For a pattern that is not empty the table is complete and no access leaves an array.\<close>

lemma preKmp_ok:
  assumes "x \<noteq> []" and "length nxt = Suc (length x)"
  shows "\<exists>nxt'. preKmp x (int (length x)) nxt = Some nxt' \<and> table_ok x nxt'"
proof -
  have "pre_inv x (nxt[0 := -1]) 0 (-1)"
    using assms by (auto simp: pre_inv_def link_ok_def border_def)
  then obtain nxt1 j where loop: "preKmp_loop x (int (length x)) (nxt[0 := -1]) 0 (-1)
      = Some (nxt1, int (length x) - 1, j)" and inv: "pre_inv x nxt1 (length x - 1) j"
    using preKmp_loop_ok [of x "nxt[0 := -1]" 0 "-1"] by auto
  let ?n = "length x - 1"
  have n: "Suc ?n = length x" "int (length x) - 1 = int ?n" using assms(1) by (simp_all add: of_nat_diff Suc_le_eq)
  obtain j' where kb: "kmp_back x nxt1 x (int ?n) j = Some j'" "-1 \<le> j'"
    "border x (length x) (nat (j' + 1))" "\<And>k. border x (length x) k \<Longrightarrow> int k \<le> j' + 1"
    using pre_back [OF inv] n(1) by metis
  have len: "length nxt1 = Suc (length x)" and links: "\<forall>k \<le> ?n. link_ok x nxt1 k"
    using inv by (simp_all add: pre_inv_def)
  have "preKmp x (int (length x)) nxt = Some (nxt1[length x := j' + 1])"
  proof -
    have "store nxt 0 (-1) = Some (nxt[0 := -1])" using assms by (simp add: store_def)
    moreover have "store nxt1 (int (length x)) (j' + 1) = Some (nxt1[length x := j' + 1])"
      using len by simp
    ultimately show ?thesis using loop kb(1) unfolding preKmp_def n(2) [symmetric]
      by simp
  qed
  moreover have "table_ok x (nxt1[length x := j' + 1])"
  proof -
    have "link_ok x (nxt1[length x := j' + 1]) k" if "k < length x" for k
    proof -
      have "k \<le> ?n" using that by simp
      then have "link_ok x nxt1 k" using links by blast
      then show ?thesis using that by (simp add: link_ok_def)
    qed
    then show ?thesis using kb(2-4) len by (simp add: table_ok_def)
  qed
  ultimately show ?thesis by blast
qed

text \<open>For the empty pattern the code writes one element past the table it allocated.\<close>

lemma preKmp_empty: "preKmp [] 0 [a] = None"
  by (simp add: preKmp_def store_def preKmp_loop.simps kmp_back.simps)

section \<open>Searching\<close>

text \<open>The pattern occurs in the text, and what follows the occurrence satisfies \<open>after\<close>.\<close>

definition occurs :: "'a list \<Rightarrow> ('a list \<Rightarrow> bool) \<Rightarrow> 'a list \<Rightarrow> bool" where
  "occurs s after w \<longleftrightarrow> (\<exists>a b. w = a @ s @ b \<and> after b)"

text \<open>
  Of the text read so far only the longest suffix that begins the pattern matters.
\<close>

lemma occurs_shift:
  assumes p: "suffix (take p s) u" "p < length s"
    and max: "\<And>k. k < length s \<Longrightarrow> suffix (take k s) u \<Longrightarrow> k \<le> p"
    and short: "length u \<le> length s"
  shows "occurs s after (u @ v) \<longleftrightarrow> (u = s \<and> after v) \<or> occurs s after (take p s @ v)"
proof
  assume "occurs s after (u @ v)"
  then obtain a b where eq: "u @ v = a @ s @ b" and b: "after b" by (auto simp: occurs_def)
  show "(u = s \<and> after v) \<or> occurs s after (take p s @ v)"
  proof (cases "length v \<le> length b")
    case True
    have "length u + length v = length a + (length s + length b)" using arg_cong [OF eq, of length] by simp
    then have "length a = 0" "length v = length b" using short True by linarith+
    then show ?thesis using eq b by auto
  next
    case False
    then have "suffix b v" using eq by (metis append_assoc nat_le_linear suffixI suffix_length_suffix)
    then obtain w where v: "v = w @ b" by (auto simp: suffix_def)
    then have eq': "u @ w = a @ s" using eq by simp
    show ?thesis
    proof (cases "length s \<le> length w")
      case True
      then have "suffix s w" using eq' by (metis suffixI suffix_length_suffix)
      then obtain w' where "w = w' @ s" by (auto simp: suffix_def)
      then have "take p s @ v = (take p s @ w') @ s @ b" using v by simp
      then show ?thesis using b by (auto simp: occurs_def)
    next
      case False
      define k where "k = length s - length w"
      have "w \<noteq> []" using v \<open>\<not> length v \<le> length b\<close> by auto
      then have "0 < length w" by simp
      then have k: "k < length s" using False unfolding k_def by linarith
      have "suffix w s" using eq' False by (metis nat_le_linear suffixI suffix_length_suffix)
      then have s: "s = take k s @ w" using False
        by (auto simp: suffix_def k_def)
      then have "u = a @ take k s" using eq' by (metis append_assoc same_append_eq append_same_eq)
      then have su: "suffix (take k s) u" by (simp add: suffix_def)
      then have "k \<le> p" using max k by blast
      then have "suffix (take k s) (take p s)"
        using su p(1) k p(2) by (intro suffix_length_suffix [OF su p(1)]) simp
      then obtain a' where "take p s = a' @ take k s" by (auto simp: suffix_def)
      then have "take p s @ v = a' @ s @ b" using s v by (metis append_assoc)
      then show ?thesis using b by (auto simp: occurs_def)
    qed
  qed
next
  obtain a where u: "u = a @ take p s" using p(1) by (auto simp: suffix_def)
  assume "(u = s \<and> after v) \<or> occurs s after (take p s @ v)"
  then show "occurs s after (u @ v)"
  proof
    assume "occurs s after (take p s @ v)"
    then obtain a' b where "take p s @ v = a' @ s @ b" "after b" by (auto simp: occurs_def)
    then have "u @ v = (a @ a') @ s @ b" "after b" by (simp_all add: u)
    then show ?thesis unfolding occurs_def by blast
  next
    assume "u = s \<and> after v"
    then have "u @ v = [] @ s @ v" "after v" by simp_all
    then show ?thesis unfolding occurs_def by blast
  qed
qed

text \<open>One character of the data: the loop, and the step after it.\<close>

lemma kmp_step:
  assumes tab: "table_ok x nxt" and p: "p < length x" and i: "i < length y"
  obtains q where "kmp_back x nxt y (int i) (int p) = Some (int q - 1)" "q \<le> length x"
    "\<And>after v. q < length x \<Longrightarrow> occurs x after (take p x @ y ! i # v) \<longleftrightarrow> occurs x after (take q x @ v)"
    "\<And>after v. q = length x \<Longrightarrow> nat (nxt ! length x) < length x \<and> 0 \<le> nxt ! length x \<and>
       (occurs x after (take p x @ y ! i # v)
          \<longleftrightarrow> after v \<or> occurs x after (take (nat (nxt ! length x)) x @ v))"
proof -
  define P where "P k \<longleftrightarrow> k = p \<or> border x p k" for k
  have le: "p \<le> length x" using p by simp
  have P_iff: "P k \<longleftrightarrow> k \<le> p \<and> suffix (take k x) (take p x)" for k
    by (auto simp: P_def border_def)
  have "\<exists>j'. kmp_back x nxt y (int i) (int p) = Some j' \<and> -1 \<le> j' \<and> j' \<le> int p \<and>
      (0 \<le> j' \<longrightarrow> P (nat j') \<and> x ! nat j' = y ! i) \<and> (\<forall>k. P k \<and> j' < int k \<longrightarrow> x ! k \<noteq> y ! i)"
  proof (rule kmp_back_links [where n = "length x"])
    show "\<forall>j < length x. link_ok x nxt j" using tab by (simp add: table_ok_def)
    show "P k" if "P j" "border x j k" for j k using that border_trans by (auto simp: P_def)
    show "border x j k" if "P j" "P k" "k < j" for j k
    proof (cases "j = p")
      case False
      then have "border x p j" "border x p k" using that by (auto simp: P_def border_def)
      then show ?thesis using that(3) le by (rule border_of_border)
    qed (use that in \<open>auto simp: P_def\<close>)
    show "k < length x" if "P k" for k using that p by (auto simp: P_def border_def)
    show "\<forall>k. P k \<and> int p < int k \<longrightarrow> x ! k \<noteq> y ! i" by (auto simp: P_def border_def)
  qed (use i in \<open>simp_all add: P_def\<close>)
  then obtain j' where j': "kmp_back x nxt y (int i) (int p) = Some j'" "-1 \<le> j'" "j' \<le> int p"
      "0 \<le> j' \<longrightarrow> P (nat j') \<and> x ! nat j' = y ! i" "\<forall>k. P k \<and> j' < int k \<longrightarrow> x ! k \<noteq> y ! i"
    by blast
  define q where "q = nat (j' + 1)"
  have q: "j' = int q - 1" "q \<le> Suc p" using j'(2,3) by (simp_all add: q_def)
  let ?u = "take p x @ [y ! i]"
  have len: "length ?u = Suc p" using p by simp
  have ext: "suffix (take (Suc k) x) ?u \<longleftrightarrow> P k \<and> x ! k = y ! i" if "k < length x" for k
  proof -
    have "suffix (take k x) (take p x) \<Longrightarrow> k \<le> p" using that p by (auto dest!: suffix_length_le)
    then show ?thesis using suffix_take_Suc [OF that, of "take p x" "y ! i"] P_iff [of k] by blast
  qed
  have "suffix (take q x) ?u"
  proof (cases q)
    case (Suc k)
    then have "k < length x" "P k" "x ! k = y ! i" using j'(4) q p by auto
    then show ?thesis using ext Suc by blast
  qed simp
  moreover have "k \<le> q" if "k \<le> length x" "suffix (take k x) ?u" for k
  proof (cases k)
    case (Suc k')
    then have "P k'" "x ! k' = y ! i" using ext [of k'] that by auto
    then have "\<not> j' < int k'" using j'(5) by blast
    then show ?thesis using Suc q by simp
  qed simp
  ultimately have longest: "suffix (take q x) ?u" "\<And>k. k \<le> length x \<Longrightarrow> suffix (take k x) ?u \<Longrightarrow> k \<le> q" .
  have short: "length ?u \<le> length x" using p len by simp
  show thesis
  proof
    show "kmp_back x nxt y (int i) (int p) = Some (int q - 1)" using j'(1) q by simp
    show "q \<le> length x" using q p by simp
    fix after v
    assume q: "q < length x"
    have "?u \<noteq> x"
    proof
      assume "?u = x"
      then have "suffix (take (length x) x) ?u" by (metis suffix_order.refl take_all order_refl)
      then show False using longest(2) [of "length x"] q by simp
    qed
    then show "occurs x after (take p x @ y ! i # v) \<longleftrightarrow> occurs x after (take q x @ v)"
      using occurs_shift [OF longest(1) _ _ short, of after v] longest(2) q by simp
  next
    fix after v
    assume full: "q = length x"
    then obtain a where a: "?u = a @ x" using longest(1) by (auto simp: suffix_def)
    have "length a = 0" using arg_cong [OF a, of length] short by simp
    then have u: "?u = x" using a by simp
    let ?r = "nat (nxt ! length x)"
    have r: "0 \<le> nxt ! length x" "border x (length x) ?r" "\<forall>k. border x (length x) k \<longrightarrow> int k \<le> nxt ! length x"
      using tab by (simp_all add: table_ok_def)
    then have r': "suffix (take ?r x) ?u" "?r < length x" using u by (simp_all add: border_def)
    have "k \<le> ?r" if "k < length x" "suffix (take k x) ?u" for k
      using r(3) that u by (auto simp: border_def le_nat_iff)
    then show "?r < length x \<and> 0 \<le> nxt ! length x \<and> (occurs x after (take p x @ y ! i # v) \<longleftrightarrow>
        after v \<or> occurs x after (take ?r x @ v))"
      using occurs_shift [OF r' _ short, of after v] u r(1) r'(2)
      by (metis append.assoc append_Cons append_Nil)
  qed
qed

end
