(* ===== verification/StringMatch.thy ===== *)
theory StringMatch
  imports KMP
begin

text \<open>
  The evaluators of STARTING WITH and CONTAINING in \<^verbatim>\<open>src/src/jrd/evl_string.h\<close>, the
  allocator they share, and the contract of an evaluator that is fed a text in chunks, with
  the loop of \<^verbatim>\<open>src/src/dsql/BoolNodes.cpp\<close> that feeds it.

  A chunk is the list of its characters; \<open>data_len\<close> is its length.
\<close>

section \<open>The evaluators' memory\<close>

text \<open>
  The allocator hands out offsets of its static buffer, then blocks of the pool, which are
  kept for the destructor.  The alignment is the build's \<open>FB_ALIGNMENT\<close>.
\<close>

definition STATIC_PATTERN_BUFFER :: int where "STATIC_PATTERN_BUFFER = 256"

definition ROUNDUP :: "int \<Rightarrow> int \<Rightarrow> int" where
  "ROUNDUP n b = (n + b - 1) AND NOT (b - 1)"

datatype place = Buffer int | Pool nat

record StaticAllocator =
  chunksToFree :: "nat list"
  allocated :: int
  poolNext :: nat

definition StaticAllocator_make :: "nat \<Rightarrow> StaticAllocator" where
  "StaticAllocator_make next = \<lparr>chunksToFree = [], allocated = 0, poolNext = next\<rparr>"

definition alloc :: "int \<Rightarrow> int \<Rightarrow> StaticAllocator \<Rightarrow> place \<times> StaticAllocator" where
  "alloc align count a =
     (let localCount = ROUNDUP count align
      in if allocated a + localCount \<le> STATIC_PATTERN_BUFFER
         then (Buffer (allocated a), a\<lparr>allocated := allocated a + localCount\<rparr>)
         else (Pool (poolNext a),
               a\<lparr>chunksToFree := chunksToFree a @ [poolNext a], poolNext := Suc (poolNext a)\<rparr>))"

section \<open>STARTING WITH\<close>

record 'c StartsEvaluator =
  s_offset :: nat
  s_pattern_str :: "'c list"
  s_pattern_len :: nat
  s_result :: bool

definition starts_reset :: "'c StartsEvaluator \<Rightarrow> 'c StartsEvaluator" where
  "starts_reset s = s\<lparr>s_result := True, s_offset := 0\<rparr>"

definition starts_make :: "'c list \<Rightarrow> nat \<Rightarrow> 'c StartsEvaluator" where
  "starts_make pattern_str pattern_len =
     starts_reset \<lparr>s_offset = 0, s_pattern_str = take pattern_len pattern_str,
       s_pattern_len = pattern_len, s_result = False\<rparr>"

definition starts_getResult :: "'c StartsEvaluator \<Rightarrow> bool" where
  "starts_getResult s \<longleftrightarrow> s_offset s \<ge> s_pattern_len s \<and> s_result s"

definition starts_process :: "'c StartsEvaluator \<Rightarrow> 'c list \<Rightarrow> ('c StartsEvaluator \<times> bool) option" where
  "starts_process s data =
     (if \<not> s_result s \<or> s_offset s \<ge> s_pattern_len s then Some (s, False)
      else
        (let comp_length = (if length data < s_pattern_len s - s_offset s then length data
                            else s_pattern_len s - s_offset s)
         in if take comp_length data \<noteq> take comp_length (drop (s_offset s) (s_pattern_str s))
            then Some (s\<lparr>s_result := False\<rparr>, False)
            else Some (s\<lparr>s_offset := s_offset s + comp_length\<rparr>,
                       s_offset s + comp_length < s_pattern_len s)))"

section \<open>CONTAINING\<close>

record 'c ContainsEvaluator =
  c_pattern_str :: "'c list"
  c_pattern_len :: int
  c_offset :: int
  c_result :: bool
  c_kmpNext :: "int list"

definition contains_reset :: "'c ContainsEvaluator \<Rightarrow> 'c ContainsEvaluator" where
  "contains_reset s = s\<lparr>c_offset := 0, c_result := (c_pattern_len s = 0)\<rparr>"

text \<open>\<open>fresh\<close> is what the allocated table holds before it is filled.\<close>

definition contains_make :: "'c list \<Rightarrow> int list \<Rightarrow> 'c ContainsEvaluator option" where
  "contains_make pattern fresh = do {
     kmpNext \<leftarrow> preKmp pattern (int (length pattern)) (take (Suc (length pattern)) fresh);
     Some (contains_reset \<lparr>c_pattern_str = pattern, c_pattern_len = int (length pattern),
       c_offset = 0, c_result = False, c_kmpNext = kmpNext\<rparr>)
   }"

definition contains_getResult :: "'c ContainsEvaluator \<Rightarrow> bool" where
  "contains_getResult s = c_result s"

function contains_loop ::
  "'c ContainsEvaluator \<Rightarrow> 'c list \<Rightarrow> nat \<Rightarrow> ('c ContainsEvaluator \<times> bool) option" where
  "contains_loop s data data_pos =
     (if data_pos < length data
      then do {
        off \<leftarrow> kmp_back (c_pattern_str s) (c_kmpNext s) data (int data_pos) (c_offset s);
        if off + 1 \<ge> c_pattern_len s
        then Some (s\<lparr>c_offset := off + 1, c_result := True\<rparr>, False)
        else contains_loop (s\<lparr>c_offset := off + 1\<rparr>) data (data_pos + 1)
      }
      else Some (s, True))"
  by pat_completeness auto

termination
  by (relation "measure (\<lambda>(s, data, data_pos). length data - data_pos)") auto

declare contains_loop.simps [simp del]

definition contains_process ::
  "'c ContainsEvaluator \<Rightarrow> 'c list \<Rightarrow> ('c ContainsEvaluator \<times> bool) option" where
  "contains_process s data = (if c_result s then Some (s, False) else contains_loop s data 0)"

section \<open>Feeding an evaluator\<close>

text \<open>The text comes in chunks until the evaluator asks for no more.\<close>

fun feed :: "('s \<Rightarrow> 'c list \<Rightarrow> ('s \<times> bool) option) \<Rightarrow> 's \<Rightarrow> 'c list list \<Rightarrow> 's option" where
  "feed process s [] = Some s"
| "feed process s (d # ds) =
     (case process s d of
        None \<Rightarrow> None
      | Some (s', need) \<Rightarrow> if need then feed process s' ds else Some s')"

locale chunk_matcher =
  fixes process :: "'s \<Rightarrow> 'c list \<Rightarrow> ('s \<times> bool) option"
    and result :: "'s \<Rightarrow> bool"
    and spec :: "'c list \<Rightarrow> bool"
    and inv :: "'c list \<Rightarrow> 's \<Rightarrow> bool"
  assumes process: "inv t s \<Longrightarrow> \<exists>s' need. process s d = Some (s', need) \<and> inv (t @ d) s' \<and>
      (\<not> need \<longrightarrow> (\<forall>u. spec (t @ d @ u) = spec (t @ d)))"
    and result: "inv t s \<Longrightarrow> result s = spec t"
begin

lemma feed_from:
  "inv t s \<Longrightarrow> \<exists>s'. feed process s ds = Some s' \<and> result s' = spec (t @ concat ds)"
proof (induction ds arbitrary: t s)
  case Nil
  then show ?case using result by simp
next
  case (Cons d ds)
  obtain s' need where step: "process s d = Some (s', need)" "inv (t @ d) s'"
    "\<not> need \<longrightarrow> (\<forall>u. spec (t @ d @ u) = spec (t @ d))" using process [OF Cons.prems, of d] by blast
  show ?case
  proof (cases need)
    case True
    then show ?thesis using Cons.IH [OF step(2)] step(1) by simp
  next
    case False
    then show ?thesis using step result [OF step(2)] by simp
  qed
qed

text \<open>The result depends on the text alone, however it is cut into chunks.\<close>

lemma feed_spec:
  "inv [] s \<Longrightarrow> \<exists>s'. feed process s ds = Some s' \<and> result s' = spec (concat ds)"
  using feed_from [of "[]" s ds] by simp

end


section \<open>The evaluators keep the contract\<close>

definition starts_inv :: "'c list \<Rightarrow> 'c list \<Rightarrow> 'c StartsEvaluator \<Rightarrow> bool" where
  "starts_inv p t s \<longleftrightarrow> s_pattern_str s = p \<and> s_pattern_len s = length p \<and>
     (if s_result s then s_offset s = min (length t) (length p) \<and> take (s_offset s) t = take (s_offset s) p
      else (\<forall>u. \<not> prefix p (t @ u)))"

lemma prefix_mismatch:
  assumes "take n (drop k p) \<noteq> take n d" and "take k p = t" and "k \<le> length p" "n \<le> length d"
    "n \<le> length p - k"
  shows "\<not> prefix p (t @ d @ u)"
proof
  assume "prefix p (t @ d @ u)"
  then obtain z where z: "t @ d @ u = p @ z" by (auto simp: prefix_def)
  have "take n (drop k (t @ d @ u)) = take n d" using assms(2,3,4) by auto
  moreover have "take n (drop k (p @ z)) = take n (drop k p)" using assms(3,5) by simp
  ultimately show False using assms(1) z by simp
qed

lemma starts_process_inv:
  assumes inv: "starts_inv p t s"
  shows "\<exists>s' need. starts_process s d = Some (s', need) \<and> starts_inv p (t @ d) s' \<and>
      (\<not> need \<longrightarrow> (\<forall>u. prefix p (t @ d @ u) = prefix p (t @ d)))"
proof (cases "s_result s")
  case False
  then have "\<not> prefix p (t @ u)" for u using inv by (simp add: starts_inv_def)
  then have no: "\<not> prefix p ((t @ d) @ u)" for u by simp
  then show ?thesis using False inv no [of "[]"]
    by (auto simp: starts_process_def starts_inv_def)
next
  case True
  let ?k = "s_offset s"
  have "s_pattern_str s = p \<and> s_pattern_len s = length p \<and>
      ?k = min (length t) (length p) \<and> take ?k t = take ?k p"
    using inv True unfolding starts_inv_def by metis
  then have k: "?k = min (length t) (length p)" "take ?k t = take ?k p"
    and p: "s_pattern_str s = p" "s_pattern_len s = length p" by blast+
  show ?thesis
  proof (cases "length p \<le> ?k")
    case full: True
    then have pt: "take (length p) t = p" "length p \<le> length t" "?k = length p" using k by auto
    then have "prefix p t" by (metis take_is_prefix)
    then have yes: "prefix p (t @ u)" for u by (simp add: prefix_def) (metis append_assoc)
    then show ?thesis using True full pt p yes [of d]
      by (auto simp: starts_process_def starts_inv_def)
  next
    case False
    then have kt: "?k = length t" "length t < length p" "take ?k p = t" using k by auto
    define n where "n = (if length d < length p - ?k then length d else length p - ?k)"
    have n: "n \<le> length d" "n \<le> length p - ?k" by (simp_all add: n_def)
    have comp: "(if length d < s_pattern_len s - ?k then length d else s_pattern_len s - ?k) = n"
      by (simp add: n_def p)
    have proc: "starts_process s d =
        (if take n d \<noteq> take n (drop ?k p) then Some (s\<lparr>s_result := False\<rparr>, False)
         else Some (s\<lparr>s_offset := ?k + n\<rparr>, ?k + n < length p))"
      unfolding starts_process_def Let_def comp using True False p by simp
    show ?thesis
    proof (cases "take n d = take n (drop ?k p)")
      case mis: False
      have no: "\<not> prefix p (t @ d @ u)" for u
        by (rule prefix_mismatch [of n ?k]) (use mis kt n in auto)
      then show ?thesis using proc p mis no [of "[]"] by (auto simp: starts_inv_def)
    next
      case ok: True
      have ext: "take (?k + n) (t @ d) = take (?k + n) p" using kt ok n by (simp add: take_add)
      have step: "starts_process s d = Some (s\<lparr>s_offset := ?k + n\<rparr>, ?k + n < length p)"
        using proc ok by simp
      have min: "?k + n = min (length (t @ d)) (length p)" using kt n by (auto simp: n_def)
      have "prefix p (t @ d @ u) = prefix p (t @ d)" if "\<not> ?k + n < length p" for u
      proof -
        have "take (length p) (t @ d) = p" "length p \<le> length (t @ d)"
          using that ext min by (auto simp: min_def split: if_splits)
        then have "prefix p (t @ d)" by (metis take_is_prefix)
        then show ?thesis by (metis append_assoc prefix_prefix)
      qed
      then show ?thesis using step inv True p ext min by (auto simp: starts_inv_def)
    qed
  qed
qed

lemma starts_result_inv:
  assumes inv: "starts_inv p t s"
  shows "starts_getResult s = prefix p t"
proof (cases "s_result s")
  case False
  then have "\<not> prefix p (t @ [])" using inv unfolding starts_inv_def by metis
  then show ?thesis using False by (simp add: starts_getResult_def)
next
  case True
  have "s_pattern_len s = length p \<and> s_offset s = min (length t) (length p) \<and>
      take (s_offset s) t = take (s_offset s) p"
    using inv True unfolding starts_inv_def by metis
  then have k: "s_offset s = min (length t) (length p)" "take (s_offset s) t = take (s_offset s) p"
    and p: "s_pattern_len s = length p" by blast+
  have "prefix p t \<longleftrightarrow> length p \<le> length t \<and> take (length p) t = p"
    by (metis prefix_length_le take_is_prefix append_eq_conv_conj prefix_def)
  also have "\<dots> \<longleftrightarrow> s_offset s \<ge> length p" using k by auto
  finally show ?thesis using True p by (simp add: starts_getResult_def)
qed

interpretation starts: chunk_matcher starts_process starts_getResult "prefix p" "starts_inv p"
  for p :: "'c list"
  by unfold_locales (rule starts_process_inv, assumption, rule starts_result_inv)

text \<open>The search is where the rest of the text can still complete an occurrence.\<close>

definition contains_inv :: "'c list \<Rightarrow> 'c list \<Rightarrow> 'c ContainsEvaluator \<Rightarrow> bool" where
  "contains_inv p t s \<longleftrightarrow> c_pattern_str s = p \<and> c_pattern_len s = int (length p) \<and>
     table_ok p (c_kmpNext s) \<and>
     (if c_result s then \<forall>u. sublist p (t @ u)
      else 0 \<le> c_offset s \<and> nat (c_offset s) < length p \<and>
           (\<forall>u. sublist p (t @ u) = occurs p (\<lambda>_. True) (take (nat (c_offset s)) p @ u)))"

lemma contains_loop_inv:
  "contains_inv p (t @ take i d) s \<Longrightarrow> \<not> c_result s \<Longrightarrow> i \<le> length d \<Longrightarrow>
   \<exists>s' need. contains_loop s d i = Some (s', need) \<and> contains_inv p (t @ d) s' \<and> (need = (\<not> c_result s'))"
proof (induction "length d - i" arbitrary: i s rule: less_induct)
  case less
  show ?case
  proof (cases "i < length d")
    case False
    then show ?thesis using less.prems by (subst contains_loop.simps) simp
  next
    case True
    have inv: "c_pattern_str s = p" "c_pattern_len s = int (length p)" "table_ok p (c_kmpNext s)"
      "0 \<le> c_offset s" "nat (c_offset s) < length p"
      "\<And>u. sublist p ((t @ take i d) @ u) = occurs p (\<lambda>_. True) (take (nat (c_offset s)) p @ u)"
      using less.prems by (simp_all add: contains_inv_def)
    define k where "k = nat (c_offset s)"
    have k: "c_offset s = int k" "k < length p" using inv(4,5) by (simp_all add: k_def)
    obtain q where q: "kmp_back p (c_kmpNext s) d (int i) (int k) = Some (int q - 1)" "q \<le> length p"
      "\<And>after v. q < length p \<Longrightarrow> occurs p after (take k p @ d ! i # v)
          \<longleftrightarrow> occurs p after (take q p @ v)"
      "\<And>after v. q = length p \<Longrightarrow> nat (c_kmpNext s ! length p) < length p \<and> 0 \<le> c_kmpNext s ! length p \<and>
       (occurs p after (take k p @ d ! i # v)
          \<longleftrightarrow> after v \<or> occurs p after (take (nat (c_kmpNext s ! length p)) p @ v))"
      using kmp_step [OF inv(3) k(2) True] by blast
    note inv = inv(1-3) inv(6) [folded k_def]
    have grow: "sublist p ((t @ take (Suc i) d) @ u)
        = occurs p (\<lambda>_. True) (take k p @ d ! i # u)" for u
      using inv(4) [of "d ! i # u"] True by (simp add: take_Suc_conv_app_nth)
    show ?thesis
    proof (cases "q = length p")
      case full: True
      let ?s = "s\<lparr>c_offset := int q, c_result := True\<rparr>"
      have yes: "sublist p ((t @ take (Suc i) d) @ u)" for u
        unfolding grow using q(4) [OF full] by blast
      have "sublist p ((t @ d) @ u)" for u
      proof -
        have "(t @ take (Suc i) d) @ drop (Suc i) d @ u = (t @ d) @ u"
          by (metis append_assoc append_take_drop_id)
        then show ?thesis using yes [of "drop (Suc i) d @ u"] by metis
      qed
      then have "contains_inv p (t @ d) ?s" using inv by (simp add: contains_inv_def)
      moreover have "contains_loop s d i = Some (?s, False)"
        using True q(1) full inv k(1) by (subst contains_loop.simps) simp
      ultimately show ?thesis by (intro exI [of _ ?s] exI [of _ False]) simp
    next
      case False
      let ?s = "s\<lparr>c_offset := int q\<rparr>"
      have less_q: "q < length p" using False q(2) by simp
      have "contains_inv p (t @ take (Suc i) d) ?s"
        using inv grow q(3) [OF less_q] less_q less.prems(2) by (simp add: contains_inv_def)
      moreover have "contains_loop s d i = contains_loop ?s d (Suc i)"
        using True q(1) less_q inv k(1) by (subst contains_loop.simps) simp
      ultimately show ?thesis using less.hyps [of "Suc i" ?s] True less.prems(2) by simp
    qed
  qed
qed

lemma contains_process_inv:
  assumes inv: "contains_inv p t s"
  shows "\<exists>s' need. contains_process s d = Some (s', need) \<and> contains_inv p (t @ d) s' \<and>
      (\<not> need \<longrightarrow> (\<forall>u. sublist p (t @ d @ u) = sublist p (t @ d)))"
proof (cases "c_result s")
  case True
  then have yes: "sublist p (t @ u)" for u using inv by (simp add: contains_inv_def)
  then show ?thesis using True inv yes [of "d @ _"] by (auto simp: contains_process_def contains_inv_def)
next
  case False
  obtain s' need where s': "contains_loop s d 0 = Some (s', need)" "contains_inv p (t @ d) s'"
    "need = (\<not> c_result s')" using contains_loop_inv [of p t 0 d s] inv False by auto
  have "sublist p (t @ d @ u) = sublist p (t @ d)" if "\<not> need" for u
  proof -
    have "sublist p ((t @ d) @ u)" for u using s' that unfolding contains_inv_def by metis
    from this [of u] this [of "[]"] show ?thesis by simp
  qed
  then show ?thesis using s' False by (auto simp: contains_process_def)
qed

lemma contains_result_inv:
  assumes inv: "contains_inv p t s"
  shows "contains_getResult s = sublist p t"
proof (cases "c_result s")
  case True
  then have "sublist p (t @ [])" using inv unfolding contains_inv_def by metis
  then show ?thesis using True by (simp add: contains_getResult_def)
next
  case False
  have "\<not> occurs p (\<lambda>_. True) (take k p)" if "k < length p" for k
    using that by (auto simp: occurs_def dest!: arg_cong [of _ _ length])
  moreover have bound: "nat (c_offset s) < length p \<and>
      (\<forall>u. sublist p (t @ u) = occurs p (\<lambda>_. True) (take (nat (c_offset s)) p @ u))"
    using inv False unfolding contains_inv_def by metis
  then have "sublist p (t @ []) = occurs p (\<lambda>_. True) (take (nat (c_offset s)) p @ [])"
    "nat (c_offset s) < length p" by blast+
  ultimately show ?thesis using False by (simp add: contains_getResult_def)
qed

interpretation contains: chunk_matcher contains_process contains_getResult "sublist p" "contains_inv p"
  for p :: "'c list"
  by unfold_locales (rule contains_process_inv, assumption, rule contains_result_inv)


lemma starts_make_inv: "starts_inv p [] (starts_make p (length p))"
  by (simp add: starts_inv_def starts_make_def starts_reset_def)

lemma contains_make_inv:
  assumes "p \<noteq> []" and "length p < length fresh"
  shows "\<exists>s. contains_make p fresh = Some s \<and> contains_inv p [] s"
proof -
  have "length (take (Suc (length p)) fresh) = Suc (length p)" using assms(2) by simp
  from preKmp_ok [OF assms(1) this] obtain nxt where
    "preKmp p (int (length p)) (take (Suc (length p)) fresh) = Some nxt" "table_ok p nxt" by blast
  moreover have "sublist p u = occurs p (\<lambda>_. True) u" for u by (auto simp: sublist_def occurs_def)
  ultimately show ?thesis using assms(1)
    by (simp add: contains_make_def contains_inv_def contains_reset_def)
qed

section \<open>The allocator\<close>

lemma ROUNDUP_multiple:
  "ROUNDUP n (2 ^ k) = (n + 2 ^ k - 1) div 2 ^ k * 2 ^ k"
proof -
  have "x AND NOT (mask k) = push_bit k (drop_bit k x)" for x :: int
    by (rule bit_eqI) (auto simp: bit_simps)
  then show ?thesis
    by (simp add: ROUNDUP_def mask_eq_exp_minus_1 [symmetric] push_bit_eq_mult drop_bit_eq_div)
qed

lemma ROUNDUP_ge: "n \<le> ROUNDUP n (2 ^ k)"
proof -
  have "(n + 2 ^ k - 1) div 2 ^ k * 2 ^ k = n + 2 ^ k - 1 - (n + 2 ^ k - 1) mod 2 ^ k"
    by (simp add: minus_mod_eq_div_mult)
  moreover have "(n + 2 ^ k - 1) mod 2 ^ k < 2 ^ k" by simp
  ultimately show ?thesis unfolding ROUNDUP_multiple by linarith
qed

text \<open>A block of the static buffer lies inside it, beyond every block handed out before.\<close>

lemma alloc_block:
  assumes "alloc (2 ^ k) count a = (Buffer off, a')" and "0 \<le> allocated a" and "0 \<le> count"
  shows "off = allocated a \<and> off + count \<le> allocated a' \<and> allocated a' \<le> STATIC_PATTERN_BUFFER"
  using assms ROUNDUP_ge [of count k] by (auto simp: alloc_def Let_def split: if_splits)

section \<open>Properties\<close>

text \<open>
  STARTING WITH: however the text is cut into chunks, empty ones included, and although
  the feeding stops at the first chunk that decides, the evaluator answers whether the
  pattern is a prefix of the text.
\<close>

theorem starts_evaluator:
  "\<exists>s. feed starts_process (starts_make p (length p)) ds = Some s \<and>
       starts_getResult s = prefix p (concat ds)"
  using starts.feed_spec [OF starts_make_inv] .

text \<open>
  C26. CONTAINING: for a pattern that is not empty the evaluator is built and fed without
  an access outside its arrays, and answers whether the pattern occurs in the text.
\<close>

theorem contains_evaluator:
  assumes "p \<noteq> []" and "length p < length fresh"
  shows "\<exists>s s'. contains_make p fresh = Some s \<and> feed contains_process s ds = Some s' \<and>
           contains_getResult s' = sublist p (concat ds)"
  using contains_make_inv [OF assms] contains.feed_spec by metis

theorem contains_evaluator_witness:
  "\<exists>s s'. contains_make ''aab'' [7, 7, 7, 7] = Some s \<and>
     feed contains_process s [''a'', ''aa'', [], ''bc''] = Some s' \<and>
     contains_getResult s' = sublist ''aab'' (concat [''a'', ''aa'', [], ''bc''])"
  by (rule contains_evaluator) simp_all


end
