(* ===== verification/LikeEvaluator.thy ===== *)
theory LikeEvaluator
  imports StringMatch
begin

text \<open>
  The evaluator of LIKE in \<^verbatim>\<open>src/src/jrd/evl_string.h\<close>: the two passes that compile a pattern
  into items and the matching of a chunk by branches.

  \<open>str.length\<close> and \<open>skipCount\<close> share their storage in the code's union, so they are one
  field here.  A string is the position of its first character in the copy of the pattern
  while it is parsed (\<open>i_pos\<close>) and its characters when it is compiled (\<open>i_data\<close>).
\<close>

section \<open>Items and branches\<close>

datatype PatternItemType =
  piNone | piSearch | piSkipFixed | piDirectMatch | piEscapedString | piSkipMore

datatype MatchType = MATCH_NONE | MATCH_FIXED | MATCH_ANY

datatype like_error = isc_escape_invalid

record 'c PatternItem =
  i_type :: PatternItemType
  i_count :: int
  i_pos :: nat
  i_data :: "'c list"
  i_kmpNext :: "int list"
  i_match_any :: bool

record 'c LikeEvaluator =
  l_patternItems :: "'c PatternItem list"
  l_branches :: "(nat \<times> int) list"
  l_match_type :: MatchType

text \<open>What \<open>grow\<close> appends: storage filled with zeros.\<close>

definition new_item :: "'c PatternItem" where
  "new_item = \<lparr>i_type = piNone, i_count = 0, i_pos = 0, i_data = [], i_kmpNext = [], i_match_any = False\<rparr>"

section \<open>Pass 1: parsing\<close>

text \<open>
  The items are those before the current one and the current one, which is always the last.
  \<open>pos\<close> is \<open>pattern_pos\<close> after the character has been read.
\<close>

type_synonym 'c items = "'c PatternItem list \<times> 'c PatternItem"

definition start_string :: "PatternItemType \<Rightarrow> nat \<Rightarrow> 'c PatternItem \<Rightarrow> 'c PatternItem" where
  "start_string ty pos item = item\<lparr>i_type := ty, i_pos := pos, i_count := 1\<rparr>"

definition add_escaped :: "nat \<Rightarrow> 'c items \<Rightarrow> 'c items" where
  "add_escaped pos its = (case its of (prev, item) \<Rightarrow>
     (case i_type item of
        piSkipFixed \<Rightarrow> (prev @ [item], start_string piEscapedString (pos - 2) new_item)
      | piSkipMore \<Rightarrow> (prev @ [item], start_string piEscapedString (pos - 2) new_item)
      | piNone \<Rightarrow> (prev, start_string piEscapedString (pos - 2) item)
      | piSearch \<Rightarrow> (prev, item\<lparr>i_type := piEscapedString, i_count := i_count item + 1\<rparr>)
      | piEscapedString \<Rightarrow> (prev, item\<lparr>i_count := i_count item + 1\<rparr>)
      | piDirectMatch \<Rightarrow> (prev, item)))"

definition add_percent :: "'c items \<Rightarrow> 'c items" where
  "add_percent its = (case its of (prev, item) \<Rightarrow>
     (case i_type item of
        piSearch \<Rightarrow> (prev @ [item], new_item\<lparr>i_type := piSkipMore\<rparr>)
      | piEscapedString \<Rightarrow> (prev @ [item], new_item\<lparr>i_type := piSkipMore\<rparr>)
      | piSkipFixed \<Rightarrow> (prev, item\<lparr>i_type := piSkipMore\<rparr>)
      | piNone \<Rightarrow> (prev, item\<lparr>i_type := piSkipMore\<rparr>)
      | piDirectMatch \<Rightarrow> (prev, item)
      | piSkipMore \<Rightarrow> (prev, item)))"

definition add_underscore :: "'c items \<Rightarrow> 'c items" where
  "add_underscore its = (case its of (prev, item) \<Rightarrow>
     (case i_type item of
        piSearch \<Rightarrow> (prev @ [item], new_item\<lparr>i_type := piSkipFixed, i_count := 1\<rparr>)
      | piEscapedString \<Rightarrow> (prev @ [item], new_item\<lparr>i_type := piSkipFixed, i_count := 1\<rparr>)
      | piNone \<Rightarrow> (prev, item\<lparr>i_type := piSkipFixed, i_count := 1\<rparr>)
      | piSkipFixed \<Rightarrow> (prev, item\<lparr>i_count := i_count item + 1\<rparr>)
      | piSkipMore \<Rightarrow> (prev, item\<lparr>i_count := i_count item + 1\<rparr>)
      | piDirectMatch \<Rightarrow> (prev, item)))"

definition add_char :: "nat \<Rightarrow> 'c items \<Rightarrow> 'c items" where
  "add_char pos its = (case its of (prev, item) \<Rightarrow>
     (case i_type item of
        piSkipFixed \<Rightarrow> (prev @ [item], start_string piSearch (pos - 1) new_item)
      | piSkipMore \<Rightarrow> (prev @ [item], start_string piSearch (pos - 1) new_item)
      | piNone \<Rightarrow> (prev, start_string piSearch (pos - 1) item)
      | piSearch \<Rightarrow> (prev, item\<lparr>i_count := i_count item + 1\<rparr>)
      | piEscapedString \<Rightarrow> (prev, item\<lparr>i_count := i_count item + 1\<rparr>)
      | piDirectMatch \<Rightarrow> (prev, item)))"

record 'c like_chars =
  use_escape :: bool
  escape_char :: 'c
  sql_match_any :: 'c
  sql_match_one :: 'c

definition is_any :: "'c::zero like_chars \<Rightarrow> 'c \<Rightarrow> bool" where
  "is_any k c \<longleftrightarrow> sql_match_any k \<noteq> 0 \<and> c = sql_match_any k"

definition is_one :: "'c::zero like_chars \<Rightarrow> 'c \<Rightarrow> bool" where
  "is_one k c \<longleftrightarrow> sql_match_one k \<noteq> 0 \<and> c = sql_match_one k"

fun pass1 :: "'c::zero like_chars \<Rightarrow> nat \<Rightarrow> 'c list \<Rightarrow> 'c items \<Rightarrow> like_error + 'c items" where
  "pass1 k pattern_pos [] its = Inr its"
| "pass1 k pattern_pos (c # cs) its =
     (if use_escape k \<and> c = escape_char k
      then (case cs of
              [] \<Rightarrow> Inl isc_escape_invalid
            | d # ds \<Rightarrow>
                if d = escape_char k \<or> is_any k d \<or> is_one k d
                then pass1 k (pattern_pos + 2) ds (add_escaped (pattern_pos + 2) its)
                else Inl isc_escape_invalid)
      else if is_any k c then pass1 k (pattern_pos + 1) cs (add_percent its)
      else if is_one k c then pass1 k (pattern_pos + 1) cs (add_underscore its)
      else pass1 k (pattern_pos + 1) cs (add_char (pattern_pos + 1) its))"

section \<open>Pass 2: compilation\<close>

fun unescape :: "'c like_chars \<Rightarrow> nat \<Rightarrow> 'c list \<Rightarrow> 'c list option" where
  "unescape k 0 curPos = Some []"
| "unescape k (Suc n) curPos = do {
     curPos \<leftarrow> (case curPos of
                 [] \<Rightarrow> None
               | c # cs \<Rightarrow> Some (if use_escape k \<and> c = escape_char k then cs else curPos));
     (case curPos of
        [] \<Rightarrow> None
      | c # cs \<Rightarrow> do { ds \<leftarrow> unescape k n cs; Some (c # ds) })
   }"

text \<open>
  A string becomes a direct match, or a search with its table when a percent sign has
  been seen since the last string.  \<open>junk\<close> is what the allocated table holds.
\<close>

definition compile_string ::
  "int \<Rightarrow> bool \<Rightarrow> 'c list \<Rightarrow> 'c PatternItem \<Rightarrow> 'c PatternItem option" where
  "compile_string junk directMatch cs item =
     (let item = item\<lparr>i_type := piSearch, i_data := cs\<rparr>
      in if directMatch then Some (item\<lparr>i_type := piDirectMatch\<rparr>)
         else do {
           kmpNext \<leftarrow> preKmp cs (i_count item) (replicate (nat (i_count item) + 1) junk);
           Some (item\<lparr>i_kmpNext := kmpNext\<rparr>)
         })"

text \<open>\<open>prev\<close> are the items with index below \<open>i\<close>, the list after them starts at index \<open>i\<close>.\<close>

fun pass2 ::
  "'c like_chars \<Rightarrow> 'c list \<Rightarrow> int \<Rightarrow> bool \<Rightarrow> 'c PatternItem list \<Rightarrow> 'c PatternItem list \<Rightarrow>
     'c PatternItem list option" where
  "pass2 k pattern_str junk directMatch prev [] = Some prev"
| "pass2 k pattern_str junk directMatch prev (item # rest) =
     (case i_type item of
        piEscapedString \<Rightarrow> do {
          cs \<leftarrow> unescape k (nat (i_count item)) (drop (i_pos item) pattern_str);
          item \<leftarrow> compile_string junk directMatch cs item;
          pass2 k pattern_str junk True (prev @ [item]) rest
        }
      | piSearch \<Rightarrow> do {
          item \<leftarrow> compile_string junk directMatch
                    (take (nat (i_count item)) (drop (i_pos item) pattern_str)) item;
          pass2 k pattern_str junk True (prev @ [item]) rest
        }
      | piSkipMore \<Rightarrow>
          (if i_count item \<noteq> 0
           then pass2 k pattern_str junk False
                  (prev @ [item\<lparr>i_type := piSkipFixed, i_match_any := True\<rparr>]) rest
           else if prev \<noteq> []
           then pass2 k pattern_str junk False
                  (butlast prev @ [(last prev)\<lparr>i_match_any := True\<rparr>]) rest
           else if length prev + length (item # rest) \<noteq> 1
           then pass2 k pattern_str junk False prev rest
           else pass2 k pattern_str junk False
                  (prev @ [item\<lparr>i_type := piNone, i_match_any := True\<rparr>]) rest)
      | _ \<Rightarrow> pass2 k pattern_str junk directMatch (prev @ [item]) rest)"

definition like_reset :: "'c LikeEvaluator \<Rightarrow> 'c LikeEvaluator" where
  "like_reset e =
     (let e = e\<lparr>l_branches := []\<rparr>
      in if i_type (hd (l_patternItems e)) = piNone
         then e\<lparr>l_match_type := (if i_match_any (hd (l_patternItems e)) then MATCH_ANY else MATCH_FIXED)\<rparr>
         else e\<lparr>l_branches := [(0, 0)], l_match_type := MATCH_NONE\<rparr>)"

definition like_make ::
  "'c::zero like_chars \<Rightarrow> 'c list \<Rightarrow> int \<Rightarrow> (like_error + 'c LikeEvaluator) option" where
  "like_make k pattern junk =
     (case pass1 k 0 pattern ([], new_item) of
        Inl err \<Rightarrow> Some (Inl err)
      | Inr (prev, item) \<Rightarrow> do {
          its \<leftarrow> pass2 k pattern junk True [] (prev @ [item]);
          Some (Inr (like_reset \<lparr>l_patternItems = its, l_branches = [], l_match_type = MATCH_NONE\<rparr>))
        })"

definition like_getResult :: "'c LikeEvaluator \<Rightarrow> bool" where
  "like_getResult e \<longleftrightarrow> l_match_type e \<noteq> MATCH_NONE"

section \<open>Matching a chunk\<close>

text \<open>
  What the loop over the branches does with one character: it leaves the function, or it goes
  on to the next character with new branches and a finish candidate.
\<close>

datatype 'c outcome = Return "'c LikeEvaluator" bool | Next "(nat \<times> int) list" int

text \<open>
  The branches before \<open>branch_number\<close> and the ones from it on.  Each case of the switch
  ends in \<open>break\<close>, which keeps the branch, in \<open>continue\<close> after removing it, or in a return.
\<close>

fun branch_loop ::
  "'c LikeEvaluator \<Rightarrow> 'c list \<Rightarrow> int \<Rightarrow> (nat \<times> int) list \<Rightarrow> (nat \<times> int) list \<Rightarrow> int \<Rightarrow>
     'c outcome option" where
  "branch_loop e data data_pos prev [] finishCandidate = Some (Next prev finishCandidate)"
| "branch_loop e data data_pos prev ((k, offset) # rest) finishCandidate = do {
     pattern \<leftarrow> fetch (l_patternItems e) (int k);
     let count = int (length (l_patternItems e));
     let advance =
       (if offset + 1 \<ge> i_count pattern
        then if i_match_any pattern
             then if int k + 1 \<ge> count
                  then Some (Return (e\<lparr>l_branches := [], l_match_type := MATCH_ANY\<rparr>) False)
                  else Some (Next [(k + 1, 0)] finishCandidate)
             else if int k + 1 \<ge> count
             then if prev @ rest = []
                  then if data_pos = int (length data) - 1
                       then Some (Return (e\<lparr>l_branches := [], l_match_type := MATCH_FIXED\<rparr>) True)
                       else Some (Return (e\<lparr>l_branches := []\<rparr>) False)
                  else branch_loop e data data_pos prev rest data_pos
             else branch_loop e data data_pos (prev @ [(k + 1, 0)]) rest finishCandidate
        else branch_loop e data data_pos (prev @ [(k, offset + 1)]) rest finishCandidate);
     (case i_type pattern of
        piDirectMatch \<Rightarrow> do {
          a \<leftarrow> fetch data data_pos;
          b \<leftarrow> fetch (i_data pattern) offset;
          if a \<noteq> b
          then if prev @ rest = [] then Some (Return (e\<lparr>l_branches := []\<rparr>) False)
               else branch_loop e data data_pos prev rest finishCandidate
          else advance
        }
      | piSkipFixed \<Rightarrow> advance
      | piSearch \<Rightarrow> do {
          offset \<leftarrow> kmp_back (i_data pattern) (i_kmpNext pattern) data data_pos offset;
          let offset = offset + 1;
          if offset \<ge> i_count pattern
          then if int k + 1 \<ge> count
               then if i_match_any pattern
                    then Some (Return (e\<lparr>l_branches := [], l_match_type := MATCH_ANY\<rparr>) False)
                    else do {
                      offset \<leftarrow> fetch (i_kmpNext pattern) offset;
                      branch_loop e data data_pos (prev @ [(k, offset)]) rest data_pos
                    }
               else do {
                 next_pattern \<leftarrow> fetch (l_patternItems e) (int k + 1);
                 if i_type next_pattern = piSearch
                 then branch_loop e data data_pos (prev @ [(k + 1, 0)]) rest finishCandidate
                 else do {
                   offset \<leftarrow> fetch (i_kmpNext pattern) offset;
                   branch_loop e data data_pos (prev @ [(k, offset), (k + 1, 0)]) rest finishCandidate
                 }
               }
          else branch_loop e data data_pos (prev @ [(k, offset)]) rest finishCandidate
        }
      | _ \<Rightarrow> branch_loop e data data_pos (prev @ [(k, offset)]) rest finishCandidate)
   }"

function char_loop ::
  "'c LikeEvaluator \<Rightarrow> 'c list \<Rightarrow> nat \<Rightarrow> int \<Rightarrow> ('c LikeEvaluator \<times> bool) option" where
  "char_loop e data data_pos finishCandidate =
     (if data_pos < length data
      then (case branch_loop e data (int data_pos) [] (l_branches e) finishCandidate of
              None \<Rightarrow> None
            | Some (Return e' need) \<Rightarrow> Some (e', need)
            | Some (Next bs fin) \<Rightarrow> char_loop (e\<lparr>l_branches := bs\<rparr>) data (data_pos + 1) fin)
      else Some (if finishCandidate = int (length data) - 1 then e\<lparr>l_match_type := MATCH_FIXED\<rparr> else e,
                 True))"
  by pat_completeness auto

termination
  by (relation "measure (\<lambda>(e, data, data_pos, fin). length data - data_pos)") auto

declare char_loop.simps [simp del]

definition like_process :: "'c LikeEvaluator \<Rightarrow> 'c list \<Rightarrow> ('c LikeEvaluator \<times> bool) option" where
  "like_process e data =
     (if data = [] then Some (e, l_branches e \<noteq> [] \<or> l_match_type e = MATCH_FIXED)
      else
        (let e = (if l_match_type e = MATCH_FIXED then e\<lparr>l_match_type := MATCH_NONE\<rparr> else e)
         in if l_branches e = [] then Some (e, False) else char_loop e data 0 (-1)))"

end
