(* ===== verification/LikeCorrect.thy ===== *)
theory LikeCorrect
  imports LikeEvaluator
begin

text \<open>
  LIKE is what the SQL standard says it is: the reference reading of a pattern and of a match,
  and the proof that the compiled items and the matching by branches implement it.
\<close>

section \<open>Reference\<close>

datatype 'c token = Lit 'c | One | Any

text \<open>A pattern read by the rules for LIKE with an escape character.\<close>

fun tokens :: "'c::zero like_chars \<Rightarrow> 'c list \<Rightarrow> 'c token list option" where
  "tokens k [] = Some []"
| "tokens k (c # cs) =
     (if use_escape k \<and> c = escape_char k
      then (case cs of
              [] \<Rightarrow> None
            | d # ds \<Rightarrow>
                if d = escape_char k \<or> sql_match_any k \<noteq> 0 \<and> d = sql_match_any k \<or> sql_match_one k \<noteq> 0 \<and> d = sql_match_one k
                then map_option ((#) (Lit d)) (tokens k ds)
                else None)
      else map_option ((#) (if sql_match_any k \<noteq> 0 \<and> c = sql_match_any k then Any
                            else if sql_match_one k \<noteq> 0 \<and> c = sql_match_one k then One else Lit c)) (tokens k cs))"

declare tokens.simps(2) [simp del]

text \<open>The same, over the tests that the constructor makes.\<close>

lemma tokens_Cons [simp]:
  "tokens k (c # cs) =
     (if use_escape k \<and> c = escape_char k
      then (case cs of
              [] \<Rightarrow> None
            | d # ds \<Rightarrow>
                if d = escape_char k \<or> is_any k d \<or> is_one k d
                then map_option ((#) (Lit d)) (tokens k ds)
                else None)
      else map_option ((#) (if is_any k c then Any else if is_one k c then One else Lit c)) (tokens k cs))"
  unfolding is_any_def is_one_def by (rule tokens.simps(2))

fun like :: "'c token list \<Rightarrow> 'c list \<Rightarrow> bool" where
  "like [] v = (v = [])"
| "like (Lit c # ts) v = (case v of [] \<Rightarrow> False | x # v' \<Rightarrow> x = c \<and> like ts v')"
| "like (One # ts) v = (case v of [] \<Rightarrow> False | x # v' \<Rightarrow> like ts v')"
| "like (Any # ts) v = (like ts v \<or> (case v of [] \<Rightarrow> False | x # v' \<Rightarrow> like (Any # ts) v'))"

section \<open>What items and branches accept\<close>

definition rest_accept :: "bool \<Rightarrow> ('c list \<Rightarrow> bool) \<Rightarrow> 'c list \<Rightarrow> bool" where
  "rest_accept any accept v \<longleftrightarrow> (if any then \<exists>a d. v = a @ d \<and> accept d else accept v)"

definition item_accept :: "'c PatternItem \<Rightarrow> int \<Rightarrow> ('c list \<Rightarrow> bool) \<Rightarrow> 'c list \<Rightarrow> bool" where
  "item_accept it off after v \<longleftrightarrow>
     (case i_type it of
        piDirectMatch \<Rightarrow> \<exists>b. v = drop (nat off) (i_data it) @ b \<and> after b
      | piSkipFixed \<Rightarrow> \<exists>a b. v = a @ b \<and> int (length a) = i_count it - off \<and> after b
      | piSearch \<Rightarrow> occurs (i_data it) after (take (nat off) (i_data it) @ v)
      | _ \<Rightarrow> after v)"

fun accept :: "'c PatternItem list \<Rightarrow> 'c list \<Rightarrow> bool" where
  "accept [] v = (v = [])"
| "accept (it # its) v = item_accept it 0 (rest_accept (i_match_any it) (accept its)) v"

definition after_item :: "'c PatternItem list \<Rightarrow> nat \<Rightarrow> 'c list \<Rightarrow> bool" where
  "after_item its k = rest_accept (i_match_any (its ! k)) (accept (drop (Suc k) its))"

fun branch_accept :: "'c PatternItem list \<Rightarrow> nat \<times> int \<Rightarrow> 'c list \<Rightarrow> bool" where
  "branch_accept its (k, off) v = item_accept (its ! k) off (after_item its k) v"

lemma accept_drop: "k < length its \<Longrightarrow> accept (drop k its) v = branch_accept its (k, 0) v"
  by (simp add: after_item_def Cons_nth_drop_Suc [symmetric])

definition item_ok :: "'c PatternItem \<Rightarrow> bool" where
  "item_ok it \<longleftrightarrow> i_type it \<in> {piDirectMatch, piSkipFixed, piSearch} \<and> 0 < i_count it \<and>
     (i_type it \<noteq> piSkipFixed \<longrightarrow> int (length (i_data it)) = i_count it) \<and>
     (i_type it = piSearch \<longrightarrow> table_ok (i_data it) (i_kmpNext it))"

definition items_ok :: "'c PatternItem list \<Rightarrow> bool" where
  "items_ok its \<longleftrightarrow> (\<forall>it \<in> set its. item_ok it) \<and>
     (\<forall>k. Suc k < length its \<longrightarrow> i_match_any (its ! k) = (i_type (its ! Suc k) = piSearch))"

lemma direct_step:
  assumes "item_ok it" "i_type it = piDirectMatch" "0 \<le> off" "off < i_count it"
  shows "item_accept it off after (c # v) \<longleftrightarrow> c = i_data it ! nat off \<and>
    (if off + 1 \<ge> i_count it then after v else item_accept it (off + 1) after v)"
proof -
  have n: "nat off < length (i_data it)" using assms by (simp add: item_ok_def)
  have d: "drop (nat off) (i_data it) = i_data it ! nat off # drop (nat (off + 1)) (i_data it)"
    using n assms(3) by (simp add: Cons_nth_drop_Suc nat_add_distrib)
  have "drop (nat (off + 1)) (i_data it) = []" if "off + 1 \<ge> i_count it"
    using that assms by (simp add: item_ok_def)
  then show ?thesis using assms(2) d by (auto simp: item_accept_def)
qed

lemma skip_step:
  assumes "i_type it = piSkipFixed" "0 \<le> off" "off < i_count it"
  shows "item_accept it off after (c # v) \<longleftrightarrow>
    (if off + 1 \<ge> i_count it then after v else item_accept it (off + 1) after v)"
proof -
  have "(\<exists>a b. c # v = a @ b \<and> int (length a) = i_count it - off \<and> after b)
      \<longleftrightarrow> (\<exists>a b. v = a @ b \<and> int (length a) = i_count it - (off + 1) \<and> after b)"
  proof
    assume "\<exists>a b. c # v = a @ b \<and> int (length a) = i_count it - off \<and> after b"
    then obtain a b where ab: "c # v = a @ b" "int (length a) = i_count it - off" "after b" by blast
    then obtain a' where "a = c # a'" using assms(3) by (cases a) auto
    then have "v = a' @ b" "int (length a') = i_count it - (off + 1)" using ab by simp_all
    then show "\<exists>a b. v = a @ b \<and> int (length a) = i_count it - (off + 1) \<and> after b" using ab(3) by blast
  next
    assume "\<exists>a b. v = a @ b \<and> int (length a) = i_count it - (off + 1) \<and> after b"
    then obtain a b where "v = a @ b" "int (length a) = i_count it - (off + 1)" "after b" by blast
    then show "\<exists>a b. c # v = a @ b \<and> int (length a) = i_count it - off \<and> after b"
      by (intro exI [of _ "c # a"] exI [of _ b]) simp
  qed
  moreover have "(\<exists>a b. v = a @ b \<and> int (length a) = i_count it - (off + 1) \<and> after b) \<longleftrightarrow> after v"
    if "off + 1 \<ge> i_count it"
  proof -
    have "i_count it - (off + 1) = 0" using that assms(3) by simp
    then show ?thesis by simp
  qed
  ultimately show ?thesis using assms(1) by (simp add: item_accept_def)
qed

text \<open>A branch in the middle of an item needs at least one more character.\<close>

lemma item_accept_split:
  assumes ok: "item_ok it" and off: "0 \<le> off" "off < i_count it" and acc: "item_accept it off after v"
  obtains a b where "v = a @ b" "a \<noteq> []" "after b"
proof -
  consider "i_type it = piDirectMatch" | "i_type it = piSkipFixed" | "i_type it = piSearch"
    using ok by (auto simp: item_ok_def)
  then show thesis
  proof cases
    case 1
    then obtain b where b: "v = drop (nat off) (i_data it) @ b" "after b" using acc by (auto simp: item_accept_def)
    have "drop (nat off) (i_data it) \<noteq> []" using ok off 1 by (simp add: item_ok_def)
    then show thesis using that b by blast
  next
    case 2
    then obtain a b where b: "v = a @ b" "int (length a) = i_count it - off" "after b"
      using acc by (auto simp: item_accept_def)
    then have "a \<noteq> []" using off by auto
    then show thesis using that b by blast
  next
    case 3
    then obtain a b where b: "take (nat off) (i_data it) @ v = a @ i_data it @ b" "after b"
      using acc by (auto simp: item_accept_def occurs_def)
    have "int (length (i_data it)) = i_count it" using ok 3 by (simp add: item_ok_def)
    then have "nat off < length (i_data it)" using off by linarith
    then have "length b < length v" using arg_cong [OF b(1), of length] by simp
    moreover have "suffix b (take (nat off) (i_data it) @ v)" using b(1) by (metis append_assoc suffixI)
    ultimately have "suffix b v" by (metis less_imp_le suffixI suffix_length_suffix)
    then obtain a' where a': "v = a' @ b" by (auto simp: suffix_def)
    then have "a' \<noteq> []" using \<open>length b < length v\<close> by auto
    then show thesis using that a' b(2) by blast
  qed
qed

lemma rest_accept_suffix:
  assumes "rest_accept any A v" obtains a b where "v = a @ b" "A b"
  using assms by (auto simp: rest_accept_def split: if_splits)

lemma branch_split:
  assumes "item_ok (its ! k)" "0 \<le> off" "off < i_count (its ! k)" "branch_accept its (k, off) v"
  obtains a b where "v = a @ b" "a \<noteq> []" "accept (drop (Suc k) its) b"
proof -
  obtain a b where ab: "v = a @ b" "a \<noteq> []" "after_item its k b"
    using assms(4) unfolding branch_accept.simps by (rule item_accept_split [OF assms(1-3)])
  obtain a' b' where "b = a' @ b'" "accept (drop (Suc k) its) b'"
    using ab(3) unfolding after_item_def by (rule rest_accept_suffix)
  then show thesis using that [of "a @ a'" b'] ab by simp
qed

lemma accept_drop_later:
  "k \<le> j \<Longrightarrow> j \<le> length its \<Longrightarrow> \<forall>it \<in> set its. item_ok it \<Longrightarrow> accept (drop k its) v \<Longrightarrow>
     \<exists>a b. v = a @ b \<and> accept (drop j its) b"
proof (induction "j - k" arbitrary: k v)
  case 0
  then show ?case by (metis append_Nil diff_is_0_eq le_antisym)
next
  case (Suc n)
  then have k: "k < length its" by simp
  then have ok: "item_ok (its ! k)" using Suc.prems(3) by simp
  have "0 < i_count (its ! k)" "branch_accept its (k, 0) v"
    using ok Suc.prems(4) accept_drop [OF k, of v] by (simp_all add: item_ok_def)
  then obtain a b where "v = a @ b" "accept (drop (Suc k) its) b"
    using branch_split [OF ok order_refl] by metis
  moreover obtain a' b' where "b = a' @ b'" "accept (drop j its) b'"
  proof -
    have "n = j - Suc k" "Suc k \<le> j" using Suc.hyps(2) by simp_all
    from Suc.hyps(1) [OF this Suc.prems(2,3) \<open>accept (drop (Suc k) its) b\<close>] show thesis
      using that by blast
  qed
  ultimately show ?case by (metis append_assoc)
qed

lemma search_prepend:
  assumes "k < length its" "i_type (its ! k) = piSearch" "accept (drop k its) v"
  shows "accept (drop k its) (a @ v)"
proof -
  obtain x y where "v = x @ i_data (its ! k) @ y" "after_item its k y"
    using assms accept_drop [OF assms(1), of v] by (auto simp: item_accept_def occurs_def)
  then have "a @ v = (a @ x) @ i_data (its ! k) @ y" "after_item its k y" by simp_all
  then show ?thesis using assms(2) accept_drop [OF assms(1), of "a @ v"]
    unfolding branch_accept.simps item_accept_def occurs_def by (auto simp del: append_assoc)
qed

section \<open>Segments\<close>

text \<open>The number of items before \<open>k\<close> after which the matching commits.\<close>

definition cuts :: "'c PatternItem list \<Rightarrow> nat \<Rightarrow> nat" where
  "cuts its k = length (filter i_match_any (take k its))"

definition is_search :: "'c PatternItem list \<Rightarrow> nat \<times> int \<Rightarrow> bool" where
  "is_search its b \<longleftrightarrow> i_type (its ! fst b) = piSearch"

definition branch_ok :: "'c PatternItem list \<Rightarrow> nat \<Rightarrow> nat \<times> int \<Rightarrow> bool" where
  "branch_ok its n b \<longleftrightarrow> fst b < length its \<and> 0 \<le> snd b \<and> snd b < i_count (its ! fst b) \<and>
     cuts its (fst b) = n"

lemma cuts_Suc: "k < length its \<Longrightarrow> cuts its (Suc k) = cuts its k + (if i_match_any (its ! k) then 1 else 0)"
  by (simp add: cuts_def take_Suc_conv_app_nth)

lemma cuts_mono: "j \<le> k \<Longrightarrow> cuts its j \<le> cuts its k"
proof -
  assume "j \<le> k"
  then obtain d where "k = j + d" by (auto simp: le_iff_add)
  then show ?thesis by (simp add: cuts_def take_add)
qed

lemma same_segment:
  assumes "cuts its j = cuts its k" "k < length its" "i_match_any (its ! k)"
  shows "j \<le> k"
proof (rule ccontr)
  assume "\<not> j \<le> k"
  then have "cuts its (Suc k) \<le> cuts its j" by (intro cuts_mono) simp
  then show False using assms cuts_Suc by fastforce
qed

lemma search_first:
  assumes "items_ok its" "cuts its j = cuts its k" "k < length its" "i_type (its ! k) = piSearch" "j \<le> k"
  shows "j = k"
proof (rule ccontr)
  assume "j \<noteq> k"
  then obtain i where i: "k = Suc i" "j \<le> i" using assms(5) by (cases k) auto
  then have "i_match_any (its ! i)" using assms(1,3,4) by (simp add: items_ok_def)
  then have "cuts its k = cuts its i + 1" using i assms(3) by (simp add: cuts_Suc)
  then show False using cuts_mono [OF i(2), of its] assms(2) by simp
qed

text \<open>When the last item of a segment is complete, no branch of the segment accepts more.\<close>

lemma commit_accept:
  assumes its: "items_ok its" and b: "branch_ok its n b" and k: "Suc k < length its" "cuts its k = n" "i_match_any (its ! k)"
    and acc: "branch_accept its b w" and w: "w = v \<or> w = c # v"
  shows "accept (drop (Suc k) its) v"
proof -
  obtain j off where bj: "b = (j, off)" by (cases b)
  have j: "j < length its" "0 \<le> off" "off < i_count (its ! j)" "cuts its j = n"
    using b by (simp_all add: branch_ok_def bj)
  have jk: "j \<le> k" using same_segment [of its j k] j(4) k by simp
  have all: "\<forall>it \<in> set its. item_ok it" using its by (simp add: items_ok_def)
  then have "item_ok (its ! j)" using j by simp
  from branch_split [OF this j(2,3)] acc obtain x y where
    xy: "w = x @ y" "x \<noteq> []" "accept (drop (Suc j) its) y" unfolding bj by metis
  obtain x' y' where y: "y = x' @ y'" "accept (drop (Suc k) its) y'"
    using accept_drop_later [of "Suc j" "Suc k" its y] jk k(1) all xy(3) by auto
  have "\<exists>z. v = z @ y'"
  proof -
    obtain p x1 where x: "x = p # x1" using xy(2) by (cases x) auto
    have eq: "w = (p # x1 @ x') @ y'" using xy(1) y(1) x by simp
    from w show ?thesis
    proof
      assume "w = v" then show ?thesis using eq by blast
    next
      assume "w = c # v"
      then have "v = (x1 @ x') @ y'" using eq by simp
      then show ?thesis by blast
    qed
  qed
  then obtain z where "v = z @ y'" by blast
  moreover have "i_type (its ! Suc k) = piSearch" using its k by (simp add: items_ok_def)
  ultimately show ?thesis using search_prepend [OF k(1) _ y(2)] by simp
qed

section \<open>One character\<close>

definition pending :: "'c PatternItem list \<Rightarrow> 'c \<Rightarrow> int \<Rightarrow> (nat \<times> int) list \<Rightarrow> (nat \<times> int) list \<Rightarrow> int \<Rightarrow> 'c list \<Rightarrow> bool" where
  "pending its c pos prev todo fin v \<longleftrightarrow>
     (\<exists>b \<in> set prev. branch_accept its b v) \<or> (\<exists>b \<in> set todo. branch_accept its b (c # v)) \<or>
     (v = [] \<and> fin = pos)"

definition branches_ok :: "'c PatternItem list \<Rightarrow> nat \<Rightarrow> (nat \<times> int) list \<Rightarrow> bool" where
  "branches_ok its n bs \<longleftrightarrow> (\<forall>b \<in> set bs. branch_ok its n b) \<and> (\<forall>b \<in> set (tl bs). \<not> is_search its b)"

text \<open>
  What the loop over the branches may return: everything from here on matches, nothing
  does, or only a text that ends here.
\<close>

definition good_return ::
  "'c LikeEvaluator \<Rightarrow> bool \<Rightarrow> ('c list \<Rightarrow> bool) \<Rightarrow> 'c LikeEvaluator \<Rightarrow> bool \<Rightarrow> bool" where
  "good_return e final A e' need \<longleftrightarrow>
     (e' = e\<lparr>l_branches := [], l_match_type := MATCH_ANY\<rparr> \<and> \<not> need \<and> (\<forall>v. A v)) \<or>
     (e' = e\<lparr>l_branches := []\<rparr> \<and> \<not> need \<and> (\<forall>v. \<not> A v)) \<or>
     (e' = e\<lparr>l_branches := []\<rparr> \<and> \<not> need \<and> \<not> final \<and> (\<forall>v. A v = (v = []))) \<or>
     (e' = e\<lparr>l_branches := [], l_match_type := MATCH_FIXED\<rparr> \<and> need \<and> final \<and> (\<forall>v. A v = (v = [])))"

definition good_next :: "'c PatternItem list \<Rightarrow> int \<Rightarrow> ('c list \<Rightarrow> bool) \<Rightarrow> (nat \<times> int) list \<Rightarrow> int \<Rightarrow> int \<Rightarrow> bool" where
  "good_next its pos A bs fin fin' \<longleftrightarrow>
     (\<forall>v. A v \<longleftrightarrow> (\<exists>b \<in> set bs. branch_accept its b v) \<or> (v = [] \<and> fin' = pos)) \<and>
     (\<exists>n. branches_ok its n bs) \<and> bs \<noteq> [] \<and> (length bs = 1 \<or> is_search its (hd bs)) \<and>
     (fin' = fin \<or> fin' = pos)"

definition good_outcome ::
  "'c LikeEvaluator \<Rightarrow> 'c list \<Rightarrow> int \<Rightarrow> ('c list \<Rightarrow> bool) \<Rightarrow> int \<Rightarrow> 'c outcome option \<Rightarrow> bool" where
  "good_outcome e data pos A fin out \<longleftrightarrow>
     (case out of
        None \<Rightarrow> False
      | Some (Return e' need) \<Rightarrow> good_return e (pos = int (length data) - 1) A e' need
      | Some (Next bs fin') \<Rightarrow> good_next (l_patternItems e) pos A bs fin fin')"

lemma good_outcome_cong:
  assumes "\<And>v. A v = B v" "fin = fin' \<or> fin' = pos" "good_outcome e data pos B fin' out"
  shows "good_outcome e data pos A fin out"
proof -
  have "A = B" using assms(1) by blast
  then show ?thesis using assms(2,3)
    by (auto simp: good_outcome_def good_next_def split: option.splits outcome.splits)
qed

text \<open>The branches after the first one: each is a direct match or a skip.\<close>

lemma pending_move:
  assumes "\<And>v. branch_accept its b (c # v) = branch_accept its b' v"
  shows "pending its c pos prev (b # rest) fin v = pending its c pos (prev @ [b']) rest fin v"
  using assms by (auto simp: pending_def)

lemma pending_drop:
  assumes "\<And>v. \<not> branch_accept its b (c # v)"
  shows "pending its c pos prev (b # rest) fin v = pending its c pos prev rest fin v"
  using assms by (auto simp: pending_def)

lemma pending_finish:
  assumes "\<And>v. branch_accept its b (c # v) = (v = [])"
  shows "pending its c pos prev (b # rest) fin v = pending its c pos prev rest pos v"
  using assms by (auto simp: pending_def)

lemma not_finished:
  assumes "fin \<noteq> pos \<or> cuts its (length its - 1) = n" and "cuts its k = n"
    and "Suc k < length its" "i_match_any (its ! k)"
  shows "fin \<noteq> pos"
proof
  assume "fin = pos"
  then have "cuts its (length its - 1) = cuts its k" using assms by simp
  then have "length its - 1 \<le> k" by (rule same_segment) (use assms in simp_all)
  then show False using assms(3) by simp
qed

lemma pending_commit:
  assumes its: "items_ok its" and ok: "branches_ok its n (prev @ (k, off) # rest)"
    and k: "Suc k < length its" "i_match_any (its ! k)"
    and fin: "fin \<noteq> pos \<or> cuts its (length its - 1) = n"
    and acc: "\<And>v. branch_accept its (k, off) (c # v) = after_item its k v"
  shows "pending its c pos prev ((k, off) # rest) fin v = branch_accept its (Suc k, 0) v"
proof -
  have cuts: "cuts its k = n" using ok by (simp add: branches_ok_def branch_ok_def)
  have search: "i_type (its ! Suc k) = piSearch" using its k by (simp add: items_ok_def)
  have "fin \<noteq> pos" using not_finished [OF fin cuts k] .
  moreover have "after_item its k v \<longleftrightarrow> accept (drop (Suc k) its) v"
  proof
    assume "after_item its k v"
    then obtain x y where "v = x @ y" "accept (drop (Suc k) its) y"
      unfolding after_item_def by (rule rest_accept_suffix)
    then show "accept (drop (Suc k) its) v" using search_prepend [OF k(1) search] by simp
  next
    assume "accept (drop (Suc k) its) v"
    then show "after_item its k v" using k(2) by (auto simp: after_item_def rest_accept_def intro: exI [of _ "[]"])
  qed
  moreover have "accept (drop (Suc k) its) v" if "b \<in> set prev" "branch_accept its b v" for b
    using commit_accept [OF its _ k(1) cuts k(2) that(2), of v] that(1) ok by (auto simp: branches_ok_def)
  moreover have "accept (drop (Suc k) its) v" if "b \<in> set rest" "branch_accept its b (c # v)" for b
    using commit_accept [OF its _ k(1) cuts k(2) that(2), of v c] that(1) ok by (auto simp: branches_ok_def)
  ultimately show ?thesis
    using acc accept_drop [OF k(1), of v] by (auto simp: pending_def)
qed

lemma after_last:
  assumes "Suc k = length its"
  shows "after_item its k v \<longleftrightarrow> i_match_any (its ! k) \<or> v = []"
  using assms by (auto simp: after_item_def rest_accept_def)

lemma after_next:
  assumes "Suc k < length its" "\<not> i_match_any (its ! k)"
  shows "after_item its k v = branch_accept its (Suc k, 0) v"
  using assms accept_drop [of "Suc k" its v] by (simp add: after_item_def rest_accept_def)

lemma branches_ok_tail:
  "branches_ok its n (prev @ b # rest) \<Longrightarrow> prev \<noteq> [] \<Longrightarrow> branches_ok its n (prev @ rest)"
  by (cases prev) (auto simp: branches_ok_def)

lemma branches_ok_move:
  "branches_ok its n (prev @ b # rest) \<Longrightarrow> prev \<noteq> [] \<Longrightarrow> branch_ok its n b' \<Longrightarrow> \<not> is_search its b' \<Longrightarrow>
     branches_ok its n ((prev @ [b']) @ rest)"
  by (cases prev) (auto simp: branches_ok_def)

text \<open>The part of the loop that advances a direct match or a skip.\<close>

definition advance ::
  "'c LikeEvaluator \<Rightarrow> 'c list \<Rightarrow> int \<Rightarrow> (nat \<times> int) list \<Rightarrow> nat \<Rightarrow> int \<Rightarrow> (nat \<times> int) list \<Rightarrow> int \<Rightarrow> 'c outcome option" where
  "advance e data data_pos prev k offset rest finishCandidate =
     (let pattern = l_patternItems e ! k; count = length (l_patternItems e)
      in if offset + 1 \<ge> i_count pattern
        then if i_match_any pattern
             then if Suc k \<ge> count
                  then Some (Return (e\<lparr>l_branches := [], l_match_type := MATCH_ANY\<rparr>) False)
                  else Some (Next [(Suc k, 0)] finishCandidate)
             else if Suc k \<ge> count
             then if prev @ rest = []
                  then if data_pos = int (length data) - 1
                       then Some (Return (e\<lparr>l_branches := [], l_match_type := MATCH_FIXED\<rparr>) True)
                       else Some (Return (e\<lparr>l_branches := []\<rparr>) False)
                  else branch_loop e data data_pos prev rest data_pos
             else branch_loop e data data_pos (prev @ [(Suc k, 0)]) rest finishCandidate
        else branch_loop e data data_pos (prev @ [(k, offset + 1)]) rest finishCandidate)"

lemma branch_loop_plain:
  assumes k: "k < length (l_patternItems e)" and ok: "item_ok (l_patternItems e ! k)"
    and off: "0 \<le> off" "off < i_count (l_patternItems e ! k)"
    and i: "i < length data" and plain: "\<not> is_search (l_patternItems e) (k, off)"
  shows "(branch_loop e data (int i) prev ((k, off) # rest) fin = advance e data (int i) prev k off rest fin \<and>
          (\<forall>v. branch_accept (l_patternItems e) (k, off) (data ! i # v) \<longleftrightarrow>
             (if off + 1 \<ge> i_count (l_patternItems e ! k) then after_item (l_patternItems e) k v
              else branch_accept (l_patternItems e) (k, off + 1) v))) \<or>
         (branch_loop e data (int i) prev ((k, off) # rest) fin =
            (if prev @ rest = [] then Some (Return (e\<lparr>l_branches := []\<rparr>) False)
             else branch_loop e data (int i) prev rest fin) \<and>
          (\<forall>v. \<not> branch_accept (l_patternItems e) (k, off) (data ! i # v)))"
proof -
  let ?it = "l_patternItems e ! k"
  consider "i_type ?it = piDirectMatch" | "i_type ?it = piSkipFixed"
    using ok plain by (auto simp: item_ok_def is_search_def)
  then show ?thesis
  proof cases
    case 1
    have "nat off < length (i_data ?it)" using ok off 1 by (auto simp: item_ok_def)
    then have fetch: "fetch (i_data ?it) off = Some (i_data ?it ! nat off)" using off by (simp add: fetch_def)
    show ?thesis
    proof (cases "data ! i = i_data ?it ! nat off")
      case True
      then have "branch_loop e data (int i) prev ((k, off) # rest) fin = advance e data (int i) prev k off rest fin"
        using k 1 fetch i by (simp add: advance_def Let_def)
      then show ?thesis using direct_step [OF ok 1 off] True by simp
    next
      case False
      then have "branch_loop e data (int i) prev ((k, off) # rest) fin =
            (if prev @ rest = [] then Some (Return (e\<lparr>l_branches := []\<rparr>) False)
             else branch_loop e data (int i) prev rest fin)"
        using k 1 fetch i by (simp add: Let_def)
      then show ?thesis using direct_step [OF ok 1 off] False by simp
    qed
  next
    case 2
    then have "branch_loop e data (int i) prev ((k, off) # rest) fin = advance e data (int i) prev k off rest fin"
      using k by (simp add: advance_def Let_def)
    then show ?thesis using skip_step [OF 2 off] by simp
  qed
qed

end
