(* ===== verification/LikeMatch.thy ===== *)
theory LikeMatch
  imports LikeCorrect
begin

text \<open>
  One character and one chunk of the matching of LIKE: every branch list the loop produces
  accepts what is left of the text exactly when the branches before it accepted the whole.
\<close>

lemma plain_branches:
  assumes its: "items_ok its" "l_patternItems e = its" and i: "i < length data"
  shows "branches_ok its n (prev @ todo) \<Longrightarrow> prev \<noteq> [] \<Longrightarrow>
    is_search its (hd prev) \<or> length prev = 1 \<and> todo = [] \<Longrightarrow>
    fin \<noteq> int i \<or> cuts its (length its - 1) = n \<Longrightarrow>
    good_outcome e data (int i) (pending its (data ! i) (int i) prev todo fin) fin
      (branch_loop e data (int i) prev todo fin)"
proof (induction todo arbitrary: prev fin)
  case Nil
  then show ?case using its by (auto simp: good_outcome_def good_next_def pending_def)
next
  case (Cons b rest)
  obtain k off where b: "b = (k, off)" by (cases b)
  let ?c = "data ! i" and ?pos = "int i"
  have search: "is_search its (hd prev)" using Cons.prems(3) by simp
  have bok: "branch_ok its n (k, off)" using Cons.prems(1) by (simp add: branches_ok_def b)
  then have k: "k < length its" "0 \<le> off" "off < i_count (its ! k)" "cuts its k = n"
    by (simp_all add: branch_ok_def)
  have plain: "\<not> is_search its (k, off)"
    using Cons.prems(1,2) by (cases prev) (auto simp: branches_ok_def b)
  have item: "item_ok (its ! k)" using its k by (simp add: items_ok_def)
  have hd_prev: "hd (prev @ xs) = hd prev" for xs using Cons.prems(2) by simp
  note run = branch_loop_plain [of k e off i data prev rest fin, unfolded its(2), OF k(1) item k(2,3) i plain]
  from run show ?case
  proof
    assume A: "branch_loop e data ?pos prev ((k, off) # rest) fin =
            (if prev @ rest = [] then Some (Return (e\<lparr>l_branches := []\<rparr>) False)
             else branch_loop e data ?pos prev rest fin) \<and>
          (\<forall>v. \<not> branch_accept its (k, off) (?c # v))"
    have "good_outcome e data ?pos (pending its ?c ?pos prev rest fin) fin (branch_loop e data ?pos prev rest fin)"
      using Cons.prems search by (intro Cons.IH) (auto dest: branches_ok_tail)
    then have "good_outcome e data ?pos (pending its ?c ?pos prev ((k, off) # rest) fin) fin
        (branch_loop e data ?pos prev rest fin)"
      by (rule good_outcome_cong [rotated 2]) (use A in \<open>simp_all add: pending_drop\<close>)
    then show ?thesis using A Cons.prems(2) by (simp add: b)
  next
    assume A: "branch_loop e data ?pos prev ((k, off) # rest) fin = advance e data ?pos prev k off rest fin \<and>
          (\<forall>v. branch_accept its (k, off) (?c # v) \<longleftrightarrow>
             (if off + 1 \<ge> i_count (its ! k) then after_item its k v
              else branch_accept its (k, off + 1) v))"
    let ?A = "pending its ?c ?pos prev ((k, off) # rest) fin"
    have move: "good_outcome e data ?pos ?A fin (branch_loop e data ?pos (prev @ [b']) rest fin)"
      if b': "branch_ok its n b'" "\<not> is_search its b'"
        and eq: "\<And>v. branch_accept its (k, off) (?c # v) = branch_accept its b' v" for b'
    proof -
      have "branches_ok its n ((prev @ [b']) @ rest)"
        using Cons.prems(1,2) b' unfolding b by (intro branches_ok_move)
      then have "good_outcome e data ?pos (pending its ?c ?pos (prev @ [b']) rest fin) fin
          (branch_loop e data ?pos (prev @ [b']) rest fin)"
        using Cons.prems search by (intro Cons.IH) (simp_all add: hd_prev)
      then show ?thesis by (rule good_outcome_cong [rotated 2]) (simp_all add: pending_move [OF eq])
    qed
    have "good_outcome e data ?pos ?A fin (advance e data ?pos prev k off rest fin)"
    proof (cases "off + 1 \<ge> i_count (its ! k)")
      case False
      then have adv: "advance e data ?pos prev k off rest fin = branch_loop e data ?pos (prev @ [(k, off + 1)]) rest fin"
        using its(2) by (simp add: advance_def Let_def)
      show ?thesis unfolding adv
        by (rule move) (use A False k plain in \<open>simp_all add: branch_ok_def is_search_def\<close>)
    next
      case full: True
      then have acc: "branch_accept its (k, off) (?c # v) = after_item its k v" for v using A by simp
      consider "i_match_any (its ! k)" "Suc k < length its" | "i_match_any (its ! k)" "Suc k = length its"
        | "\<not> i_match_any (its ! k)" "Suc k < length its" | "\<not> i_match_any (its ! k)" "Suc k = length its"
        using k(1) by linarith
      then show ?thesis
      proof cases
        case 1
        have eq: "?A v = branch_accept its (Suc k, 0) v" for v
          using pending_commit [OF its(1) _ 1(2,1) Cons.prems(4) acc] Cons.prems(1) by (simp add: b)
        have "branches_ok its (cuts its (Suc k)) [(Suc k, 0)]"
          using its 1 by (simp add: branches_ok_def branch_ok_def items_ok_def item_ok_def)
        then have "good_next its ?pos ?A [(Suc k, 0)] fin fin"
          unfolding good_next_def eq using not_finished [OF Cons.prems(4) k(4) 1(2,1)] by auto
        then show ?thesis using 1 full its(2)
          by (simp add: advance_def good_outcome_def Let_def)
      next
        case 2
        then have "?A v" for v using acc after_last [OF 2(2)] by (auto simp: pending_def)
        then show ?thesis using 2 full its(2)
          by (auto simp: advance_def good_outcome_def good_return_def Let_def)
      next
        case 3
        then have adv: "advance e data ?pos prev k off rest fin = branch_loop e data ?pos (prev @ [(Suc k, 0)]) rest fin"
          using its(2) full by (simp add: advance_def Let_def)
        have "i_type (its ! Suc k) \<noteq> piSearch" using its 3 by (simp add: items_ok_def)
        moreover have "0 < i_count (its ! Suc k)" using its 3 by (simp add: items_ok_def item_ok_def)
        ultimately show ?thesis unfolding adv
          by (intro move) (use acc after_next 3 k cuts_Suc [of k its] in
            \<open>simp_all add: branch_ok_def is_search_def\<close>)
      next
        case 4
        then have adv: "advance e data ?pos prev k off rest fin = branch_loop e data ?pos prev rest ?pos"
          using its(2) full Cons.prems(2) by (simp add: advance_def Let_def)
        have "k = length its - 1" using 4 by simp
        then have "good_outcome e data ?pos (pending its ?c ?pos prev rest ?pos) ?pos (branch_loop e data ?pos prev rest ?pos)"
          using Cons.prems search k(4) by (intro Cons.IH) (auto dest: branches_ok_tail)
        then have "good_outcome e data ?pos ?A fin (branch_loop e data ?pos prev rest ?pos)"
        proof (rule good_outcome_cong [rotated 2])
          have "branch_accept its (k, off) (?c # v) = (v = [])" for v
            using acc after_last [OF 4(2)] 4(1) by simp
          then show "?A v = pending its ?c ?pos prev rest ?pos v" for v by (rule pending_finish)
        qed simp
        then show ?thesis unfolding adv .
      qed
    qed
    then show ?thesis using A by (simp add: b)
  qed
qed


text \<open>The first branch: the only one that may be a search.\<close>

lemma search_branch:
  assumes its: "items_ok its" "l_patternItems e = its" and i: "i < length data"
    and ok: "branches_ok its n ((k, off) # rest)" and search: "i_type (its ! k) = piSearch"
    and fin: "fin \<noteq> int i"
  shows "good_outcome e data (int i) (pending its (data ! i) (int i) [] ((k, off) # rest) fin) fin
      (branch_loop e data (int i) [] ((k, off) # rest) fin)"
proof -
  let ?c = "data ! i" and ?pos = "int i" and ?x = "i_data (its ! k)" and ?nxt = "i_kmpNext (its ! k)"
  let ?A = "pending its ?c ?pos [] ((k, off) # rest) fin"
  have k: "k < length its" "0 \<le> off" "off < i_count (its ! k)" "cuts its k = n"
    using ok by (simp_all add: branches_ok_def branch_ok_def)
  have rest: "\<forall>b \<in> set rest. branch_ok its n b \<and> \<not> is_search its b" using ok by (simp add: branches_ok_def)
  have item: "int (length ?x) = i_count (its ! k)" "table_ok ?x ?nxt"
    using its(1) k search by (simp_all add: items_ok_def item_ok_def)
  define p where "p = nat off"
  have p: "off = int p" "p < length ?x" using k item by (simp_all add: p_def)
  obtain q where q: "kmp_back ?x ?nxt data ?pos (int p) = Some (int q - 1)" "q \<le> length ?x"
    "\<And>after v. q < length ?x \<Longrightarrow> occurs ?x after (take p ?x @ ?c # v) \<longleftrightarrow> occurs ?x after (take q ?x @ v)"
    "\<And>after v. q = length ?x \<Longrightarrow> nat (?nxt ! length ?x) < length ?x \<and> 0 \<le> ?nxt ! length ?x \<and>
       (occurs ?x after (take p ?x @ ?c # v) \<longleftrightarrow> after v \<or> occurs ?x after (take (nat (?nxt ! length ?x)) ?x @ v))"
    using kmp_step [OF item(2) p(2) i] by blast
  have acc: "branch_accept its (k, off') v \<longleftrightarrow> occurs ?x (after_item its k) (take (nat off') ?x @ v)" for off' v
    using search by (simp add: item_accept_def)
  have go: "good_outcome e data ?pos ?A fin (branch_loop e data ?pos (b' # bs) rest fin')"
    if "branch_ok its n b'" "is_search its b' \<or> bs = [] \<and> rest = []" "\<forall>b \<in> set bs. branch_ok its n b \<and> \<not> is_search its b"
      "fin' = fin \<or> fin' = ?pos \<and> cuts its (length its - 1) = n"
      "\<And>v. ?A v = pending its ?c ?pos (b' # bs) rest fin' v" for b' bs fin'
  proof (rule good_outcome_cong [OF that(5)])
    show "fin = fin' \<or> fin' = ?pos" using that(4) by blast
    have "branches_ok its n ((b' # bs) @ rest)" using that rest by (auto simp: branches_ok_def)
    then show "good_outcome e data ?pos (pending its ?c ?pos (b' # bs) rest fin') fin' (branch_loop e data ?pos (b' # bs) rest fin')"
      using that(2,4) fin by (intro plain_branches [OF its i]) auto
  qed
  show ?thesis
  proof (cases "q = length ?x")
    case False
    then have less: "q < length ?x" using q(2) by simp
    have run: "branch_loop e data ?pos [] ((k, off) # rest) fin = branch_loop e data ?pos [(k, int q)] rest fin"
      using k its(2) search q(1) p(1) less item(1) by (simp add: Let_def)
    have "branch_accept its (k, off) (?c # v) = branch_accept its (k, int q) v" for v
      unfolding acc using q(3) [OF less] p by simp
    then have "?A v = pending its ?c ?pos [(k, int q)] rest fin v" for v
      using pending_move [of its "(k, off)" ?c "(k, int q)" ?pos "[]" rest fin v] by simp
    then show ?thesis unfolding run
      using k less item(1) search by (intro go) (simp_all add: branch_ok_def is_search_def)
  next
    case full: True
    define r where "r = nat (?nxt ! length ?x)"
    have r: "r < length ?x" "?nxt ! length ?x = int r" using q(4) [OF full] by (simp_all add: r_def)
    have stored: "fetch ?nxt (i_count (its ! k)) = Some (int r)"
      using item r(2) by (simp add: table_ok_def flip: item(1))
    have step: "branch_accept its (k, off) (?c # v) \<longleftrightarrow> after_item its k v \<or> branch_accept its (k, int r) v" for v
      unfolding acc using q(4) [OF full] p r by simp
    have border: "branch_ok its n (k, int r)" "is_search its (k, int r)"
      using k r item(1) search by (simp_all add: branch_ok_def is_search_def)
    consider "i_match_any (its ! k)" "Suc k = length its" | "\<not> i_match_any (its ! k)" "Suc k = length its"
      | "Suc k < length its" "i_type (its ! Suc k) = piSearch" | "Suc k < length its" "i_type (its ! Suc k) \<noteq> piSearch"
      using k(1) by linarith
    then show ?thesis
    proof cases
      case 1
      then have "?A v" for v using step after_last [OF 1(2)] by (auto simp: pending_def)
      then show ?thesis using 1 k its(2) search q(1) p(1) full item(1)
        by (simp add: good_outcome_def good_return_def Let_def)
    next
      case 2
      have run: "branch_loop e data ?pos [] ((k, off) # rest) fin = branch_loop e data ?pos [(k, int r)] rest ?pos"
        using 2 k its(2) search q(1) p(1) full item(1) stored by (simp add: Let_def)
      have "k = length its - 1" using 2 by simp
      moreover have "?A v = pending its ?c ?pos [(k, int r)] rest ?pos v" for v
        using step [of v] after_last [OF 2(2)] 2(1) fin by (auto simp: pending_def)
      ultimately show ?thesis unfolding run using border k(4) by (intro go) simp_all
    next
      case 3
      have any: "i_match_any (its ! k)" using its(1) 3 by (simp add: items_ok_def)
      have "rest = []"
      proof (rule ccontr)
        assume "rest \<noteq> []"
        then obtain j off' where j: "branch_ok its n (j, off')" "\<not> is_search its (j, off')"
          using rest by (cases rest) auto
        then have "cuts its j = cuts its k" "j \<le> k" using k(1,4) any same_segment [of its j k]
          by (simp_all add: branch_ok_def)
        then have "j = k" using search_first [OF its(1) _ k(1) search] by blast
        then show False using j(2) search by (simp add: is_search_def)
      qed
      have run: "branch_loop e data ?pos [] ((k, off) # rest) fin = Some (Next [(Suc k, 0)] fin)"
        using 3 k its(2) search q(1) p(1) full item(1) \<open>rest = []\<close>
        by (simp add: Let_def fetch_def nat_add_distrib)
      have "after_item its k v \<or> branch_accept its (k, int r) v \<longleftrightarrow> branch_accept its (Suc k, 0) v" for v
      proof -
        have "accept (drop (Suc k) its) v" if either: "after_item its k v \<or> branch_accept its (k, int r) v"
        proof -
          obtain x y where "v = x @ y" "accept (drop (Suc k) its) y"
            using either
          proof
            assume "after_item its k v"
            then show thesis using that unfolding after_item_def by (metis rest_accept_suffix)
          next
            assume "branch_accept its (k, int r) v"
            moreover have "item_ok (its ! k)" using its(1) k by (simp add: items_ok_def)
            moreover have "int r < i_count (its ! k)" using r(1) item(1) by simp
            ultimately show thesis using branch_split [of its k "int r" v] that by (metis of_nat_0_le_iff)
          qed
          then show ?thesis using search_prepend [OF 3] by simp
        qed
        moreover have "after_item its k v" if "accept (drop (Suc k) its) v"
          using that any by (auto simp: after_item_def rest_accept_def intro: exI [of _ "[]"])
        ultimately show ?thesis using accept_drop [OF 3(1), of v] by blast
      qed
      then have "?A v = branch_accept its (Suc k, 0) v" for v
        using step [of v] fin \<open>rest = []\<close> by (auto simp: pending_def)
      moreover have "branches_ok its (cuts its (Suc k)) [(Suc k, 0)]"
        using its 3 by (simp add: branches_ok_def branch_ok_def items_ok_def item_ok_def)
      ultimately have "good_next its ?pos ?A [(Suc k, 0)] fin fin"
        unfolding good_next_def using fin by auto
      then show ?thesis using its(2) run by (simp add: good_outcome_def)
    next
      case 4
      have any: "\<not> i_match_any (its ! k)" using its(1) 4 by (simp add: items_ok_def)
      have run: "branch_loop e data ?pos [] ((k, off) # rest) fin
          = branch_loop e data ?pos [(k, int r), (Suc k, 0)] rest fin"
        using 4 k its(2) search q(1) p(1) full item(1) stored
        by (simp add: Let_def fetch_def nat_add_distrib)
      have "branch_ok its n (Suc k, 0)" using its(1) 4 k any cuts_Suc [OF k(1)]
        by (simp add: branch_ok_def items_ok_def item_ok_def)
      moreover have "?A v = pending its ?c ?pos [(k, int r), (Suc k, 0)] rest fin v" for v
        using step [of v] after_next [OF 4(1) any] by (auto simp: pending_def)
      ultimately show ?thesis unfolding run using border 4(2)
        by (intro go) (simp_all add: is_search_def)
    qed
  qed
qed


lemma first_branch:
  assumes its: "items_ok its" "l_patternItems e = its" and i: "i < length data"
    and ok: "branches_ok its n bs" and bs: "bs \<noteq> []" "length bs = 1 \<or> is_search its (hd bs)"
    and fin: "fin \<noteq> int i"
  shows "good_outcome e data (int i) (pending its (data ! i) (int i) [] bs fin) fin
      (branch_loop e data (int i) [] bs fin)"
proof -
  obtain k off rest where b: "bs = (k, off) # rest" using bs(1) by (cases bs) auto
  show ?thesis
  proof (cases "is_search its (k, off)")
    case True
    then show ?thesis using search_branch [OF its i _ _ fin] ok unfolding b is_search_def by simp
  next
    case plain: False
    let ?c = "data ! i" and ?pos = "int i"
    have rest: "rest = []" using bs(2) plain by (simp add: b)
    have k: "k < length its" "0 \<le> off" "off < i_count (its ! k)" "cuts its k = n"
      using ok by (simp_all add: b branches_ok_def branch_ok_def)
    have item: "item_ok (its ! k)" using its k by (simp add: items_ok_def)
    let ?A = "pending its ?c ?pos [] [(k, off)] fin"
    have A: "?A v = branch_accept its (k, off) (?c # v)" for v using fin by (simp add: pending_def)
    have next1: "good_outcome e data ?pos ?A fin (Some (Next [b'] fin))"
      if "\<And>v. branch_accept its (k, off) (?c # v) = branch_accept its b' v" "branch_ok its m b'" for b' m
    proof -
      have a: "?A v \<longleftrightarrow> (\<exists>b \<in> set [b']. branch_accept its b v) \<or> v = [] \<and> fin = ?pos" for v
        using that(1) [of v] A [of v] fin by simp
      have o: "branches_ok its m [b']" using that(2) by (simp add: branches_ok_def)
      have "[b'] \<noteq> []" "length [b'] = 1 \<or> is_search its (hd [b'])" "fin = fin \<or> fin = ?pos" by simp_all
      with a o have "good_next its ?pos ?A [b'] fin fin"
        unfolding good_next_def by blast
      then show ?thesis using its(2) by (simp add: good_outcome_def)
    qed
    note run = branch_loop_plain [of k e off i data "[]" "[]" fin, unfolded its(2), OF k(1) item k(2,3) i plain]
    from run have "good_outcome e data ?pos ?A fin (branch_loop e data ?pos [] [(k, off)] fin)"
    proof
      assume "branch_loop e data ?pos [] [(k, off)] fin =
            (if [] @ [] = ([] :: (nat \<times> int) list) then Some (Return (e\<lparr>l_branches := []\<rparr>) False)
             else branch_loop e data ?pos [] [] fin) \<and> (\<forall>v. \<not> branch_accept its (k, off) (?c # v))"
      then show ?thesis using A by (simp add: good_outcome_def good_return_def)
    next
      assume R: "branch_loop e data ?pos [] [(k, off)] fin = advance e data ?pos [] k off [] fin \<and>
          (\<forall>v. branch_accept its (k, off) (?c # v) \<longleftrightarrow>
             (if off + 1 \<ge> i_count (its ! k) then after_item its k v
              else branch_accept its (k, off + 1) v))"
      have "good_outcome e data ?pos ?A fin (advance e data ?pos [] k off [] fin)"
      proof (cases "off + 1 \<ge> i_count (its ! k)")
        case False
        then have adv: "advance e data ?pos [] k off [] fin = Some (Next [(k, off + 1)] fin)"
          using its(2) by (simp add: advance_def Let_def)
        show ?thesis unfolding adv
          by (rule next1 [of _ n]) (use R False k in \<open>simp_all add: branch_ok_def\<close>)
      next
        case full: True
        then have acc: "branch_accept its (k, off) (?c # v) = after_item its k v" for v using R by simp
        show ?thesis
        proof (cases "Suc k < length its")
          case True
          have adv: "advance e data ?pos [] k off [] fin = Some (Next [(Suc k, 0)] fin)"
            using its(2) full True by (simp add: advance_def Let_def)
          have "0 < i_count (its ! Suc k)" using its True by (simp add: items_ok_def item_ok_def)
          then have "branch_ok its (cuts its (Suc k)) (Suc k, 0)" using True by (simp add: branch_ok_def)
          moreover have "branch_accept its (k, off) (?c # v) = branch_accept its (Suc k, 0) v" for v
          proof (cases "i_match_any (its ! k)")
            case any: True
            have "branches_ok its n ([] @ (k, off) # [])" using ok unfolding b rest by simp
            from pending_commit [OF its(1) this True any _ acc, of fin ?pos] show ?thesis
              using A fin by simp
          next
            case False
            then show ?thesis using acc after_next [OF True False] by simp
          qed
          ultimately show ?thesis unfolding adv by (intro next1)
        next
          case False
          then have lst: "Suc k = length its" using k(1) by simp
          have total: "?A v \<longleftrightarrow> i_match_any (its ! k) \<or> v = []" for v
            using A acc after_last [OF lst] by simp
          show ?thesis
          proof (cases "i_match_any (its ! k)")
            case True
            then have "advance e data ?pos [] k off [] fin
                = Some (Return (e\<lparr>l_branches := [], l_match_type := MATCH_ANY\<rparr>) False)"
              using its(2) full lst by (simp add: advance_def Let_def)
            then show ?thesis using total True by (simp add: good_outcome_def good_return_def)
          next
            case False
            then have "advance e data ?pos [] k off [] fin =
              (if ?pos = int (length data) - 1
               then Some (Return (e\<lparr>l_branches := [], l_match_type := MATCH_FIXED\<rparr>) True)
               else Some (Return (e\<lparr>l_branches := []\<rparr>) False))"
              using its(2) full lst by (simp add: advance_def Let_def)
            moreover define B where "B = ?A"
            moreover have "B v \<longleftrightarrow> v = []" for v using total False by (simp add: B_def)
            ultimately show ?thesis unfolding B_def [symmetric] by (simp add: good_outcome_def good_return_def)
          qed
        qed
      qed
      then show ?thesis using R by simp
    qed
    then show ?thesis by (simp add: b rest)
  qed
qed

section \<open>A chunk\<close>

definition like_inv :: "'c PatternItem list \<Rightarrow> 'c list \<Rightarrow> 'c LikeEvaluator \<Rightarrow> bool" where
  "like_inv its t e \<longleftrightarrow> l_patternItems e = its \<and>
     (l_branches e \<noteq> [] \<longrightarrow> l_match_type e \<noteq> MATCH_ANY \<and> items_ok its \<and> (\<exists>n. branches_ok its n (l_branches e)) \<and>
        (length (l_branches e) = 1 \<or> is_search its (hd (l_branches e)))) \<and>
     (\<forall>v. accept its (t @ v) \<longleftrightarrow> l_match_type e = MATCH_ANY \<or> (v = [] \<and> l_match_type e = MATCH_FIXED) \<or>
        (\<exists>b \<in> set (l_branches e). branch_accept its b v))"

lemma char_loop_inv:
  "items_ok its \<Longrightarrow> l_patternItems e = its \<Longrightarrow> l_match_type e = MATCH_NONE \<Longrightarrow>
   branches_ok its n (l_branches e) \<Longrightarrow> l_branches e \<noteq> [] \<Longrightarrow>
   length (l_branches e) = 1 \<or> is_search its (hd (l_branches e)) \<Longrightarrow>
   i \<le> length d \<Longrightarrow> d \<noteq> [] \<Longrightarrow> fin < int i \<Longrightarrow>
   (\<And>v. v \<noteq> [] \<or> 0 < i \<Longrightarrow> accept its (t @ take i d @ v) \<longleftrightarrow>
      (\<exists>b \<in> set (l_branches e). branch_accept its b v) \<or> (v = [] \<and> fin = int i - 1)) \<Longrightarrow>
   \<exists>e' need. char_loop e d i fin = Some (e', need) \<and> like_inv its (t @ d) e' \<and>
     (\<not> need \<longrightarrow> (\<forall>u. accept its (t @ d @ u) = accept its (t @ d)))"
proof (induction "length d - i" arbitrary: i e fin n rule: less_induct)
  case less
  show ?case
  proof (cases "i < length d")
    case False
    then have i: "i = length d" "0 < i" using less.prems(7,8) by auto
    have acc: "accept its (t @ d @ v) \<longleftrightarrow>
      (\<exists>b \<in> set (l_branches e). branch_accept its b v) \<or> (v = [] \<and> fin = int i - 1)" for v
      using less.prems(10) [of v] i by simp
    show ?thesis
      using less.prems(1-6) i acc
      by (subst char_loop.simps) (auto simp: like_inv_def)
  next
    case True
    let ?A = "pending its (d ! i) (int i) [] (l_branches e) fin"
    have A: "accept its (t @ take (Suc i) d @ v) = ?A v" for v
      using less.prems(10) [of "d ! i # v"] True less.prems(9)
      by (simp add: pending_def take_Suc_conv_app_nth)
    have whole: "accept its (t @ d @ u) = ?A (drop (Suc i) d @ u)" for u
      using A [of "drop (Suc i) d @ u"] by (metis append_assoc append_take_drop_id)
    have lst: "drop (Suc i) d = [] \<longleftrightarrow> int i = int (length d) - 1" using True by auto
    have out: "good_outcome e d (int i) ?A fin (branch_loop e d (int i) [] (l_branches e) fin)"
      using less.prems True by (intro first_branch) auto
    then consider e' need where "branch_loop e d (int i) [] (l_branches e) fin = Some (Return e' need)"
        "good_return e (int i = int (length d) - 1) ?A e' need"
      | bs fin' where "branch_loop e d (int i) [] (l_branches e) fin = Some (Next bs fin')"
        "good_next its (int i) ?A bs fin fin'"
      using less.prems(2) by (auto simp: good_outcome_def split: option.splits outcome.splits)
    then show ?thesis
    proof cases
      case 1
      then have run: "char_loop e d i fin = Some (e', need)" using True by (subst char_loop.simps) simp
      have "like_inv its (t @ d) e' \<and> (\<not> need \<longrightarrow> (\<forall>u. accept its (t @ d @ u) = accept its (t @ d)))"
        using 1(2) whole whole [of "[]"] lst less.prems(2,3) unfolding good_return_def like_inv_def
        by (elim disjE) auto
      then show ?thesis using run by blast
    next
      case 2
      then have run: "char_loop e d i fin = char_loop (e\<lparr>l_branches := bs\<rparr>) d (Suc i) fin'"
        using True by (subst char_loop.simps) simp
      obtain m where "branches_ok its m bs" using 2(2) by (auto simp: good_next_def)
      then show ?thesis unfolding run
        using 2(2) less.prems True A by (intro less.hyps) (auto simp: good_next_def)
    qed
  qed
qed

lemma like_process_inv:
  assumes inv: "like_inv its t e"
  shows "\<exists>e' need. like_process e d = Some (e', need) \<and> like_inv its (t @ d) e' \<and>
      (\<not> need \<longrightarrow> (\<forall>u. accept its (t @ d @ u) = accept its (t @ d)))"
proof (cases "d = []")
  case True
  have acc: "accept its (t @ v) \<longleftrightarrow> l_match_type e = MATCH_ANY \<or> (v = [] \<and> l_match_type e = MATCH_FIXED) \<or>
        (\<exists>b \<in> set (l_branches e). branch_accept its b v)" for v using inv by (simp add: like_inv_def)
  then show ?thesis using True inv acc [of "[]"] by (auto simp: like_process_def)
next
  case d: False
  let ?e = "if l_match_type e = MATCH_FIXED then e\<lparr>l_match_type := MATCH_NONE\<rparr> else e"
  have acc: "accept its (t @ v) \<longleftrightarrow> l_match_type e = MATCH_ANY \<or> (v = [] \<and> l_match_type e = MATCH_FIXED) \<or>
        (\<exists>b \<in> set (l_branches e). branch_accept its b v)" for v using inv by (simp add: like_inv_def)
  show ?thesis
  proof (cases "l_branches e = []")
    case True
    have "accept its (t @ d @ u) \<longleftrightarrow> l_match_type e = MATCH_ANY" for u using acc [of "d @ u"] d True by simp
    then show ?thesis using d True inv
      by (auto simp: like_process_def like_inv_def Let_def)
  next
    case False
    then obtain n where e: "l_match_type ?e = MATCH_NONE" "items_ok its" "branches_ok its n (l_branches e)"
      "length (l_branches e) = 1 \<or> is_search its (hd (l_branches e))" "l_patternItems e = its"
      using inv by (cases "l_match_type e") (auto simp: like_inv_def)
    have "like_process e d = char_loop ?e d 0 (-1)" using d False by (simp add: like_process_def Let_def)
    moreover have "\<exists>e' need. char_loop ?e d 0 (-1) = Some (e', need) \<and> like_inv its (t @ d) e' \<and>
      (\<not> need \<longrightarrow> (\<forall>u. accept its (t @ d @ u) = accept its (t @ d)))"
    proof (rule char_loop_inv)
      show "accept its (t @ take 0 d @ v) \<longleftrightarrow>
        (\<exists>b \<in> set (l_branches ?e). branch_accept its b v) \<or> (v = [] \<and> -1 = int 0 - 1)"
        if "v \<noteq> [] \<or> (0::nat) < 0" for v
      proof -
        have "v \<noteq> []" using that by simp
        moreover have "l_match_type e \<noteq> MATCH_ANY" using inv False by (simp add: like_inv_def)
        ultimately show ?thesis using acc [of v] by simp
      qed
    qed (use e False d in auto)
    ultimately show ?thesis by simp
  qed
qed

lemma like_result_inv:
  assumes inv: "like_inv its t e"
  shows "like_getResult e = accept its t"
proof -
  have "\<not> branch_accept its b []" if "b \<in> set (l_branches e)" for b
  proof
    assume acc: "branch_accept its b []"
    obtain k off where b: "b = (k, off)" by (cases b)
    have "l_branches e \<noteq> []" using that by auto
    then obtain n where n: "items_ok its" "branches_ok its n (l_branches e)"
      using inv unfolding like_inv_def by blast
    then have "k < length its" "0 \<le> off" "off < i_count (its ! k)"
      using that by (auto simp: branches_ok_def branch_ok_def b)
    moreover from this have "item_ok (its ! k)" using n(1) by (simp add: items_ok_def)
    ultimately show False using branch_split [of its k off "[]"] acc unfolding b by auto
  qed
  moreover have "accept its (t @ []) \<longleftrightarrow> l_match_type e = MATCH_ANY \<or> ([] = ([] :: 'a list) \<and> l_match_type e = MATCH_FIXED) \<or>
        (\<exists>b \<in> set (l_branches e). branch_accept its b [])" using inv unfolding like_inv_def by blast
  ultimately show ?thesis by (cases "l_match_type e") (auto simp: like_getResult_def)
qed

interpretation like: chunk_matcher like_process like_getResult "accept its" "like_inv its"
  for its :: "'c PatternItem list"
  by unfold_locales (rule like_process_inv, assumption, rule like_result_inv)

end
