(* ===== verification/LikeCompile.thy ===== *)
theory LikeCompile
  imports LikeMatch
begin

text \<open>
  The two passes of the LIKE constructor: what the items of each pass mean as a pattern, and
  the proof that the compiled items mean the pattern that was parsed.
\<close>

section \<open>The meaning of token lists\<close>

lemma like_Any: "like (Any # ts) v \<longleftrightarrow> (\<exists>a b. v = a @ b \<and> like ts b)"
proof (induction v)
  case Nil then show ?case by simp
next
  case (Cons x v)
  have "(\<exists>a b. x # v = a @ b \<and> like ts b) \<longleftrightarrow> like ts (x # v) \<or> (\<exists>a b. v = a @ b \<and> like ts b)"
    by (auto simp: Cons_eq_append_conv)
  with Cons show ?case by simp
qed

lemma like_One: "like (One # ts) v \<longleftrightarrow> (\<exists>x w. v = x # w \<and> like ts w)"
  by (cases v) simp_all

lemma like_Lit: "like (Lit c # ts) v \<longleftrightarrow> (\<exists>w. v = c # w \<and> like ts w)"
  by (cases v) auto

lemmas like_iff = like.simps(1) like_Any like_One like_Lit

lemma like_append: "like (xs @ ys) v \<longleftrightarrow> (\<exists>a b. v = a @ b \<and> like xs a \<and> like ys b)"
proof (induction xs arbitrary: v)
  case Nil
  then show ?case by simp
next
  case (Cons x xs)
  show ?case
  proof (cases x)
    case (Lit c)
    have "like ((x # xs) @ ys) v \<longleftrightarrow> (\<exists>a b. v = c # a @ b \<and> like xs a \<and> like ys b)"
      using Cons.IH Lit by (auto simp: like_Lit simp del: like.simps)
    also have "\<dots> \<longleftrightarrow> (\<exists>a b. v = a @ b \<and> like (x # xs) a \<and> like ys b)"
      using Lit by (simp add: like_Lit del: like.simps) (metis append_Cons)
    finally show ?thesis .
  next
    case One
    have "like ((x # xs) @ ys) v \<longleftrightarrow> (\<exists>z a b. v = z # a @ b \<and> like xs a \<and> like ys b)"
      using Cons.IH One by (auto simp: like_One simp del: like.simps)
    also have "\<dots> \<longleftrightarrow> (\<exists>a b. v = a @ b \<and> like (x # xs) a \<and> like ys b)"
      using One by (simp add: like_One del: like.simps) (metis append_Cons)
    finally show ?thesis .
  next
    case Any
    have "like ((x # xs) @ ys) v \<longleftrightarrow> (\<exists>z a b. v = z @ a @ b \<and> like xs a \<and> like ys b)"
      using Cons.IH Any by (auto simp: like_Any simp del: like.simps)
    also have "\<dots> \<longleftrightarrow> (\<exists>a b. v = a @ b \<and> like (x # xs) a \<and> like ys b)"
      using Any by (simp add: like_Any del: like.simps) (metis append_assoc)
    finally show ?thesis .
  qed
qed

definition same :: "'c token list \<Rightarrow> 'c token list \<Rightarrow> bool" where
  "same xs ys \<longleftrightarrow> (\<forall>v. like xs v = like ys v)"

lemma same_refl [simp]: "same xs xs" by (simp add: same_def)

lemma same_trans [trans]: "same xs ys \<Longrightarrow> same ys zs \<Longrightarrow> same xs zs" by (simp add: same_def)

lemma same_sym: "same xs ys \<Longrightarrow> same ys xs" by (simp add: same_def)

lemma same_append: "same xs xs' \<Longrightarrow> same ys ys' \<Longrightarrow> same (xs @ ys) (xs' @ ys')"
  by (simp add: same_def like_append)

lemma like_Lits: "like (map Lit cs) v \<longleftrightarrow> v = cs"
  by (induction cs arbitrary: v) (auto simp: like_Lit simp del: like.simps(2))

lemma like_Ones: "like (replicate n One) v \<longleftrightarrow> length v = n"
proof (induction n arbitrary: v)
  case (Suc n)
  then show ?case by (cases v) simp_all
qed simp

lemma same_Any_Any: "same (Any # Any # ts) (Any # ts)"
proof -
  have "(\<exists>a b. v = a @ b \<and> (\<exists>c d. b = c @ d \<and> like ts d)) \<longleftrightarrow> (\<exists>a b. v = a @ b \<and> like ts b)" for v
    by (metis append_assoc append_Nil)
  then show ?thesis by (simp add: same_def like_Any del: like.simps)
qed

lemma same_Any_One: "same (Any # One # ts) (One # Any # ts)"
proof -
  have "(\<exists>a x b. v = a @ x # b \<and> like ts b) \<longleftrightarrow> (\<exists>x a b. v = x # a @ b \<and> like ts b)" for v
  proof
    assume "\<exists>a x b. v = a @ x # b \<and> like ts b"
    then obtain a x b where v: "v = a @ x # b" "like ts b" by blast
    show "\<exists>x a b. v = x # a @ b \<and> like ts b"
    proof (cases a)
      case Nil
      with v have "v = x # [] @ b" by simp
      with v(2) show ?thesis by blast
    next
      case (Cons y a')
      with v have "v = y # (a' @ [x]) @ b" by simp
      with v(2) show ?thesis by blast
    qed
  next
    assume "\<exists>x a b. v = x # a @ b \<and> like ts b"
    then obtain x a b where v: "v = (x # a) @ b" "like ts b" by auto
    have "(butlast (x # a) @ [last (x # a)]) @ b = (x # a) @ b"
      by (subst append_butlast_last_id) simp_all
    then have "v = butlast (x # a) @ last (x # a) # b" using v(1) by (simp del: butlast.simps last.simps)
    with v(2) show "\<exists>a x b. v = a @ x # b \<and> like ts b" by blast
  qed
  note swap = this
  have "like (Any # One # ts) v \<longleftrightarrow> (\<exists>a x b. v = a @ x # b \<and> like ts b)" for v
    unfolding like_Any like_One by blast
  moreover have "like (One # Any # ts) v \<longleftrightarrow> (\<exists>x a b. v = x # a @ b \<and> like ts b)" for v
    unfolding like_Any like_One by blast
  ultimately show ?thesis by (simp only: same_def swap simp_thms)
qed

section \<open>What compiled items mean\<close>

definition item_tokens :: "'c PatternItem \<Rightarrow> 'c token list" where
  "item_tokens it =
     (case i_type it of
        piDirectMatch \<Rightarrow> map Lit (i_data it)
      | piSearch \<Rightarrow> Any # map Lit (i_data it)
      | piSkipFixed \<Rightarrow> replicate (nat (i_count it)) One
      | _ \<Rightarrow> [])
     @ (if i_match_any it then [Any] else [])"

lemma accept_like:
  "\<forall>it \<in> set its. item_ok it \<Longrightarrow> accept its v \<longleftrightarrow> like (concat (map item_tokens its)) v"
proof (induction its arbitrary: v)
  case (Cons it its)
  let ?ts = "concat (map item_tokens its)"
  have rest: "rest_accept (i_match_any it) (accept its) w
      \<longleftrightarrow> like ((if i_match_any it then [Any] else []) @ ?ts) w" for w
    using Cons by (simp add: rest_accept_def like_Any del: like.simps)
  let ?more = "if i_match_any it then [Any] else []"
  have ok: "item_ok it" using Cons.prems by simp
  consider "i_type it = piDirectMatch" | "i_type it = piSkipFixed" | "i_type it = piSearch"
    using ok by (auto simp: item_ok_def)
  then show ?case
  proof cases
    case 1
    have "item_tokens it = map Lit (i_data it) @ ?more" using 1 by (simp add: item_tokens_def)
    then have "concat (map item_tokens (it # its)) = map Lit (i_data it) @ ?more @ ?ts" by simp
    with 1 show ?thesis by (simp only: accept.simps item_accept_def rest like_append [of "map Lit _"] like_Lits) simp
  next
    case 2
    have "0 < i_count it" using ok by (simp add: item_ok_def)
    then have len: "int (length a) = i_count it \<longleftrightarrow> length a = nat (i_count it)" for a :: "'a list" by auto
    have "item_tokens it = replicate (nat (i_count it)) One @ ?more" using 2 by (simp add: item_tokens_def)
    then have "concat (map item_tokens (it # its)) = replicate (nat (i_count it)) One @ ?more @ ?ts" by simp
    with 2 show ?thesis
      by (simp only: accept.simps item_accept_def rest like_append [of "replicate _ _"] like_Ones) (simp add: len)
  next
    case 3
    have any: "like (Any # map Lit (i_data it) @ ts) w \<longleftrightarrow> (\<exists>a b. w = a @ i_data it @ b \<and> like ts b)" for ts w
      unfolding like_Any like_append [of "map Lit _"] like_Lits by blast
    have "item_tokens it = Any # map Lit (i_data it) @ ?more" using 3 by (simp add: item_tokens_def)
    then have "concat (map item_tokens (it # its)) = Any # map Lit (i_data it) @ ?more @ ?ts" by simp
    with 3 show ?thesis
      by (simp only: accept.simps item_accept_def rest any occurs_def) simp
  qed
qed simp

section \<open>Pass 1\<close>

text \<open>The characters of the pattern that stand for the given characters of the text.\<close>

inductive raw :: "'c like_chars \<Rightarrow> 'c list \<Rightarrow> 'c list \<Rightarrow> bool" for k where
  raw_Nil: "raw k [] []"
| raw_char: "\<not> (use_escape k \<and> c = escape_char k) \<Longrightarrow> raw k r cs \<Longrightarrow> raw k (c # r) (c # cs)"
| raw_escaped: "use_escape k \<Longrightarrow> raw k r cs \<Longrightarrow> raw k (escape_char k # d # r) (d # cs)"

lemma raw_append: "raw k r cs \<Longrightarrow> raw k r' cs' \<Longrightarrow> raw k (r @ r') (cs @ cs')"
  by (induction rule: raw.induct) (auto intro: raw.intros)

lemma unescape_raw: "raw k r cs \<Longrightarrow> unescape k (length cs) (r @ rest) = Some cs"
  by (induction rule: raw.induct) auto

definition is_string :: "'c PatternItem \<Rightarrow> bool" where
  "is_string it \<longleftrightarrow> i_type it = piSearch \<or> i_type it = piEscapedString"

definition is_skip :: "'c PatternItem \<Rightarrow> bool" where
  "is_skip it \<longleftrightarrow> i_type it = piSkipFixed \<or> i_type it = piSkipMore"

text \<open>A string item is the part of the pattern that ends before \<open>b\<close>.\<close>

definition string_at :: "'c like_chars \<Rightarrow> 'c list \<Rightarrow> 'c PatternItem \<Rightarrow> 'c list \<Rightarrow> 'c list \<Rightarrow> bool" where
  "string_at k pattern it cs b \<longleftrightarrow> (\<exists>a r. pattern = a @ r @ b \<and> length a = i_pos it \<and> raw k r cs \<and>
     int (length cs) = i_count it \<and> cs \<noteq> [] \<and> (i_type it = piSearch \<longrightarrow> r = cs))"

definition parsed_item :: "'c like_chars \<Rightarrow> 'c list \<Rightarrow> 'c PatternItem \<Rightarrow> 'c list \<Rightarrow> 'c token list \<Rightarrow> bool" where
  "parsed_item k pattern it b ts \<longleftrightarrow> \<not> i_match_any it \<and>
     (if is_string it then \<exists>cs. string_at k pattern it cs b \<and> ts = map Lit cs
      else if i_type it = piSkipFixed then 0 < i_count it \<and> ts = replicate (nat (i_count it)) One
      else i_type it = piSkipMore \<and> 0 \<le> i_count it \<and> ts = replicate (nat (i_count it)) One @ [Any])"

fun parsed :: "'c like_chars \<Rightarrow> 'c list \<Rightarrow> 'c PatternItem list \<Rightarrow> 'c token list \<Rightarrow> bool" where
  "parsed k pattern [] ts = (ts = [])"
| "parsed k pattern (it # its) ts \<longleftrightarrow> (\<exists>b us vs. ts = us @ vs \<and> parsed_item k pattern it b us \<and> parsed k pattern its vs) \<and>
     (its \<noteq> [] \<longrightarrow> is_string it \<noteq> is_string (hd its))"

lemma parsed_snoc:
  "parsed k pattern its ts \<Longrightarrow> parsed_item k pattern it b us \<Longrightarrow>
     (its \<noteq> [] \<Longrightarrow> is_string (last its) \<noteq> is_string it) \<Longrightarrow> parsed k pattern (its @ [it]) (ts @ us)"
proof (induction its arbitrary: ts)
  case Nil
  then show ?case by auto
next
  case (Cons x its)
  then obtain b' xs vs where x: "ts = xs @ vs" "parsed_item k pattern x b' xs" "parsed k pattern its vs"
    "its \<noteq> [] \<longrightarrow> is_string x \<noteq> is_string (hd its)" by auto
  have "parsed k pattern (its @ [it]) (vs @ us)"
    using Cons.IH [OF x(3) Cons.prems(2)] Cons.prems(3) by (cases its) auto
  moreover have "is_string x \<noteq> is_string (hd (its @ [it]))" using x(4) Cons.prems(3) by (cases its) auto
  moreover have "\<exists>b'' us' vs'. ts @ us = us' @ vs' \<and> parsed_item k pattern x b'' us' \<and> parsed k pattern (its @ [it]) vs'"
    using x(1,2) calculation(1) by (metis append_assoc)
  ultimately show ?case by simp
qed

text \<open>
  The state of the parser: the finished items, and the current one, which is empty only at
  the beginning.
\<close>

definition parsing :: "'c like_chars \<Rightarrow> 'c list \<Rightarrow> 'c items \<Rightarrow> 'c list \<Rightarrow> 'c token list \<Rightarrow> bool" where
  "parsing k pattern its b ts \<longleftrightarrow>
     (its = ([], new_item) \<and> ts = []) \<or>
     (\<exists>us vs. same ts (us @ vs) \<and> parsed k pattern (fst its) us \<and> parsed_item k pattern (snd its) b vs \<and>
        (fst its \<noteq> [] \<longrightarrow> is_string (last (fst its)) \<noteq> is_string (snd its)))"

lemma same_trans_append: "same ts us \<Longrightarrow> same (us @ ws) vs \<Longrightarrow> same (ts @ ws) vs"
  using same_append [of ts us ws ws] same_trans by fastforce

lemma raw_span:
  "\<not> (use_escape k \<and> c = escape_char k) \<Longrightarrow> raw k [c] [c]"
  "use_escape k \<Longrightarrow> raw k [escape_char k, d] [d]"
  by (auto intro: raw.intros)

lemma same_Any_Ones: "same (replicate n One @ Any # One # ts) (replicate (Suc n) One @ Any # ts)"
  using same_append [OF same_refl same_Any_One, of "replicate n One" ts]
  by (simp add: replicate_app_Cons_same)

text \<open>What a character of a string, escaped or not, does to the items.\<close>

definition extend :: "(PatternItemType \<Rightarrow> PatternItemType) \<Rightarrow> nat \<Rightarrow> 'c items \<Rightarrow> 'c items" where
  "extend f pos its = (case its of (prev, it) \<Rightarrow>
     if is_string it then (prev, it\<lparr>i_type := f (i_type it), i_count := i_count it + 1\<rparr>)
     else if i_type it = piNone then (prev, start_string (f piSearch) pos it)
     else (prev @ [it], start_string (f piSearch) pos new_item))"

lemma add_char_extend:
  "i_type (snd its) \<noteq> piDirectMatch \<Longrightarrow> add_char (Suc pos) its = extend id pos its"
  by (cases its; cases "i_type (snd its)") (auto simp: add_char_def extend_def is_string_def)

lemma add_escaped_extend:
  "i_type (snd its) \<noteq> piDirectMatch \<Longrightarrow> add_escaped (Suc (Suc pos)) its = extend (\<lambda>_. piEscapedString) pos its"
  by (cases its; cases "i_type (snd its)") (auto simp: add_escaped_def extend_def is_string_def)

lemma parsed_string:
  "string_at k pattern it cs b \<Longrightarrow> is_string it \<Longrightarrow> \<not> i_match_any it \<Longrightarrow> parsed_item k pattern it b (map Lit cs)"
  by (auto simp: parsed_item_def)

lemma parsing_type: "parsing k pattern its b ts \<Longrightarrow> i_type (snd its) \<noteq> piDirectMatch"
  by (auto simp: parsing_def new_item_def parsed_item_def is_string_def split: if_splits)

lemma parsing_string:
  assumes inv: "parsing k pattern its (r @ b) ts" and r: "raw k r [c]" and pos: "pattern = a @ r @ b"
    and f: "f = id \<and> r = [c] \<or> f = (\<lambda>_. piEscapedString)"
  shows "parsing k pattern (extend f (length a) its) b (ts @ [Lit c])"
proof -
  let ?new = "start_string (f piSearch) (length a) new_item :: 'a PatternItem"
  have str: "is_string ?new" "\<not> i_match_any ?new" using f by (auto simp: start_string_def is_string_def new_item_def)
  have "string_at k pattern ?new [c] b"
    unfolding string_at_def using r pos f
    by (intro exI [of _ a] exI [of _ r]) (auto simp: start_string_def)
  then have start: "parsed_item k pattern ?new b [Lit c]" using parsed_string [OF _ str] by fastforce
  from inv consider "its = ([], new_item)" "ts = []"
    | us vs where "same ts (us @ vs)" "parsed k pattern (fst its) us" "parsed_item k pattern (snd its) (r @ b) vs"
        "fst its \<noteq> [] \<longrightarrow> is_string (last (fst its)) \<noteq> is_string (snd its)"
    unfolding parsing_def by blast
  then show ?thesis
  proof cases
    case 1
    then have "extend f (length a) its = ([], ?new)" by (simp add: extend_def new_item_def is_string_def)
    then show ?thesis using 1 start unfolding parsing_def by (intro disjI2 exI [of _ "[]"] exI [of _ "[Lit c]"]) simp
  next
    case 2
    obtain prev it where its: "its = (prev, it)" by (cases its)
    show ?thesis
    proof (cases "is_string it")
      case True
      let ?it = "it\<lparr>i_type := f (i_type it), i_count := i_count it + 1\<rparr>"
      have add: "extend f (length a) its = (prev, ?it)" using True its by (simp add: extend_def)
      obtain cs where cs: "string_at k pattern it cs (r @ b)" "vs = map Lit cs" "\<not> i_match_any it"
        using 2(3) True its by (auto simp: parsed_item_def)
      then obtain a' q where q: "pattern = a' @ q @ r @ b" "length a' = i_pos it" "raw k q cs"
        "int (length cs) = i_count it" "i_type it = piSearch \<longrightarrow> q = cs" by (auto simp: string_at_def)
      have at: "string_at k pattern ?it (cs @ [c]) b"
        unfolding string_at_def using q raw_append [OF q(3) r] f
        by (intro exI [of _ a'] exI [of _ "q @ r"]) auto
      have it: "is_string ?it" using True f by (auto simp: is_string_def)
      have "parsed_item k pattern ?it b (vs @ [Lit c])"
        using parsed_string [OF at it] cs by simp
      moreover have "same (ts @ [Lit c]) (us @ vs @ [Lit c])" using same_append [OF 2(1) same_refl] by simp
      ultimately show ?thesis unfolding parsing_def add using 2(2,4) its it True by auto
    next
      case False
      then have "i_type it \<noteq> piNone" using 2(3) its by (auto simp: parsed_item_def split: if_splits)
      then have add: "extend f (length a) its = (prev @ [it], ?new)" using False its by (simp add: extend_def)
      have "parsed k pattern (prev @ [it]) (us @ vs)" using 2 its by (intro parsed_snoc) auto
      moreover have "same (ts @ [Lit c]) ((us @ vs) @ [Lit c])" using same_append [OF 2(1) same_refl] by simp
      ultimately show ?thesis unfolding parsing_def add using False start str
        by (intro disjI2 exI [of _ "us @ vs"] exI [of _ "[Lit c]"]) simp
    qed
  qed
qed

text \<open>The wildcards: the items' tokens change to a list with the same meaning.\<close>

definition new_skip :: "PatternItemType \<Rightarrow> int \<Rightarrow> 'c PatternItem" where
  "new_skip ty n = new_item\<lparr>i_type := ty, i_count := n\<rparr>"

lemma parsing_wild:
  assumes inv: "parsing k pattern its b ts"
    and fresh: "its = ([], new_item) \<Longrightarrow> add = ([], sk) \<and> parsed_item k pattern sk b' [t]"
    and string: "is_string (snd its) \<Longrightarrow> add = (fst its @ [snd its], sk) \<and> parsed_item k pattern sk b' [t]"
    and skip: "\<And>vs. \<not> is_string (snd its) \<Longrightarrow> parsed_item k pattern (snd its) b vs \<Longrightarrow>
        \<exists>ws. fst add = fst its \<and> \<not> is_string (snd add) \<and> same (vs @ [t]) ws \<and> parsed_item k pattern (snd add) b' ws"
    and sk: "\<not> is_string sk"
  shows "parsing k pattern add b' (ts @ [t])"
proof -
  from inv consider "its = ([], new_item)" "ts = []"
    | us vs where "same ts (us @ vs)" "parsed k pattern (fst its) us" "parsed_item k pattern (snd its) b vs"
        "fst its \<noteq> [] \<longrightarrow> is_string (last (fst its)) \<noteq> is_string (snd its)"
    unfolding parsing_def by blast
  then show ?thesis
  proof cases
    case 1
    then show ?thesis using fresh unfolding parsing_def by (intro disjI2 exI [of _ "[]"] exI [of _ "[t]"]) simp
  next
    case 2
    have same: "same (ts @ [t]) (us @ vs @ [t])" using same_append [OF 2(1) same_refl] by simp
    show ?thesis
    proof (cases "is_string (snd its)")
      case True
      have "parsed k pattern (fst its @ [snd its]) (us @ vs)" using 2 by (intro parsed_snoc) auto
      then show ?thesis using string [OF True] same True sk
        unfolding parsing_def by (intro disjI2 exI [of _ "us @ vs"] exI [of _ "[t]"]) simp
    next
      case False
      then obtain ws where ws: "fst add = fst its" "\<not> is_string (snd add)" "same (vs @ [t]) ws"
        "parsed_item k pattern (snd add) b' ws" using skip [OF False 2(3)] by blast
      have "same (ts @ [t]) (us @ ws)" using same_trans [OF same same_append [OF same_refl ws(3)]] .
      then show ?thesis using 2(2,4) ws(1,2,4) False
        unfolding parsing_def by (intro disjI2 exI [of _ us] exI [of _ ws]) simp
    qed
  qed
qed

lemma parsing_percent:
  assumes "parsing k pattern its b ts" shows "parsing k pattern (add_percent its) b' (ts @ [Any])"
proof -
  obtain prev it where its: "its = (prev, it)" by (cases its)
  show ?thesis
  proof (rule parsing_wild [where sk = "new_skip piSkipMore 0", OF assms])
    fix vs assume it: "\<not> is_string (snd its)" "parsed_item k pattern (snd its) b vs"
    have "same ([Any] @ [Any]) [Any]" using same_Any_Any [of "[]"] by simp
    then have "same (us @ [Any] @ [Any]) (us @ [Any])" for us by (intro same_append) simp
    then show "\<exists>ws. fst (add_percent its) = fst its \<and> \<not> is_string (snd (add_percent its)) \<and>
        same (vs @ [Any]) ws \<and> parsed_item k pattern (snd (add_percent its)) b' ws"
      using it its by (auto simp: add_percent_def parsed_item_def is_string_def split: if_splits)
  qed (use its in \<open>auto simp: add_percent_def parsed_item_def is_string_def new_skip_def new_item_def\<close>)
qed

lemma parsing_underscore:
  assumes "parsing k pattern its b ts" shows "parsing k pattern (add_underscore its) b' (ts @ [One])"
proof -
  obtain prev it where its: "its = (prev, it)" by (cases its)
  show ?thesis
  proof (rule parsing_wild [where sk = "new_skip piSkipFixed 1", OF assms])
    fix vs assume it: "\<not> is_string (snd its)" "parsed_item k pattern (snd its) b vs"
    have "same (replicate n One @ [Any, One]) (replicate (Suc n) One @ [Any])" for n
      using same_Any_Ones [of n "[]"] by simp
    then have swap: "0 \<le> n \<Longrightarrow> same (replicate (nat n) One @ [Any, One]) (replicate (nat (n + 1)) One @ [Any])" for n
      by (simp add: nat_add_distrib)
    have app: "0 \<le> n \<Longrightarrow> replicate (nat n) One @ [One] = replicate (nat (n + 1)) One" for n
      by (simp add: nat_add_distrib replicate_append_same)
    have "0 < n \<Longrightarrow> same (replicate (nat n) One @ [One]) (replicate (nat (n + 1)) One)" for n
      by (subst app) simp_all
    then show "\<exists>ws. fst (add_underscore its) = fst its \<and> \<not> is_string (snd (add_underscore its)) \<and>
        same (vs @ [One]) ws \<and> parsed_item k pattern (snd (add_underscore its)) b' ws"
      using it its swap
      by (auto simp: add_underscore_def parsed_item_def is_string_def split: if_splits)
  qed (use its in \<open>auto simp: add_underscore_def parsed_item_def is_string_def new_skip_def new_item_def\<close>)
qed

lemma pass1_parses:
  "pattern = a @ cs \<Longrightarrow> parsing k pattern its cs ts \<Longrightarrow>
   (case tokens k cs of
      None \<Rightarrow> pass1 k (length a) cs its = Inl isc_escape_invalid
    | Some us \<Rightarrow> \<exists>its'. pass1 k (length a) cs its = Inr its' \<and> parsing k pattern its' [] (ts @ us))"
proof (induction cs arbitrary: a its ts rule: tokens.induct)
  case (1 k)
  then show ?case by simp
next
  case (2 k c cs)
  show ?case
  proof (cases "use_escape k \<and> c = escape_char k")
    case True
    show ?thesis
    proof (cases "cs = [] \<or> \<not> (hd cs = escape_char k \<or> is_any k (hd cs) \<or> is_one k (hd cs))")
      case bad: True
      then show ?thesis using True by (cases cs) auto
    next
      case False
      then obtain d ds where cs: "cs = d # ds" by (cases cs) auto
      have span: "pattern = a @ [c, d] @ ds" "raw k [c, d] [d]" "parsing k pattern its ([c, d] @ ds) ts"
        using 2(3,4) cs True raw_span(2) [of k d] by simp_all
      have "parsing k pattern (add_escaped (length a + 2) its) ds (ts @ [Lit d])"
        using parsing_string [OF span(3,2,1), of "\<lambda>_. piEscapedString"] add_escaped_extend [OF parsing_type [OF 2(4)]] by simp
      from 2(1) [OF _ _ _ _ this, of d "a @ [c, d]"] show ?thesis
        using True False cs span(1) by (cases "tokens k ds") (auto simp: is_any_def is_one_def)
    qed
  next
    case False
    consider "is_any k c" | "\<not> is_any k c" "is_one k c" | "\<not> is_any k c" "\<not> is_one k c" by blast
    then have "\<exists>its' t. pass1 k (length a) (c # cs) its = pass1 k (length (a @ [c])) cs its' \<and>
        tokens k (c # cs) = map_option ((#) t) (tokens k cs) \<and> parsing k pattern its' cs (ts @ [t])"
    proof cases
      case 1
      then show ?thesis using False parsing_percent [OF "2.prems"(2)]
        by (intro exI [of _ "add_percent its"] exI [of _ Any]) auto
    next
      case 2
      then show ?thesis using False parsing_underscore [OF "2.prems"(2)]
        by (intro exI [of _ "add_underscore its"] exI [of _ One]) auto
    next
      case 3
      have "parsing k pattern its ([c] @ cs) ts" "pattern = a @ [c] @ cs" using 2(3,4) by simp_all
      from parsing_string [OF this(1) raw_span(1) [OF False] this(2), of id] show ?thesis
        using False 3 add_char_extend [OF parsing_type [OF "2.prems"(2)]]
        by (intro exI [of _ "extend id (length a) its"] exI [of _ "Lit c"]) auto
    qed
    then obtain its' t where "pass1 k (length a) (c # cs) its = pass1 k (length (a @ [c])) cs its'"
      "tokens k (c # cs) = map_option ((#) t) (tokens k cs)" "parsing k pattern its' cs (ts @ [t])" by blast
    with 2(2) [OF False _ this(3), of "a @ [c]"] 2(3) show ?thesis by (cases "tokens k cs") auto
  qed
qed

section \<open>Pass 2\<close>

lemma compile_ok:
  assumes "int (length cs) = i_count it" "cs \<noteq> []" "\<not> i_match_any it"
  shows "\<exists>it'. compile_string junk dm cs it = Some it' \<and> item_ok it' \<and> \<not> i_match_any it' \<and>
     (i_type it' = piSearch) = (\<not> dm) \<and> item_tokens it' = (if dm then [] else [Any]) @ map Lit cs"
proof (cases dm)
  case True
  then show ?thesis using assms(2,3)
    by (simp add: compile_string_def item_ok_def item_tokens_def Let_def flip: assms(1))
next
  case False
  obtain nxt where "preKmp cs (int (length cs)) (replicate (Suc (length cs)) junk) = Some nxt" "table_ok cs nxt"
    using preKmp_ok [OF assms(2), of "replicate (Suc (length cs)) junk"] by auto
  then show ?thesis using assms(2,3) False
    by (simp add: compile_string_def item_ok_def item_tokens_def Let_def flip: assms(1))
qed

lemma items_ok_snoc:
  "items_ok (its @ [it]) \<longleftrightarrow> items_ok its \<and> item_ok it \<and>
     (its \<noteq> [] \<longrightarrow> i_match_any (last its) = (i_type it = piSearch))"
proof -
  have "(\<forall>k. Suc k < length (its @ [it]) \<longrightarrow> i_match_any ((its @ [it]) ! k) = (i_type ((its @ [it]) ! Suc k) = piSearch))
    \<longleftrightarrow> (\<forall>k. Suc k < length its \<longrightarrow> i_match_any (its ! k) = (i_type (its ! Suc k) = piSearch)) \<and>
      (its \<noteq> [] \<longrightarrow> i_match_any (last its) = (i_type it = piSearch))" (is "?l = ?r")
  proof
    assume l: ?l
    show ?r
    proof (intro conjI allI impI)
      fix k assume "Suc k < length its"
      then show "i_match_any (its ! k) = (i_type (its ! Suc k) = piSearch)" using l [rule_format, of k] by (simp add: nth_append)
    next
      assume "its \<noteq> []"
      then show "i_match_any (last its) = (i_type it = piSearch)"
        using l [rule_format, of "length its - 1"] by (simp add: nth_append last_conv_nth)
    qed
  next
    assume r: ?r
    show ?l
    proof (intro allI impI)
      fix k assume "Suc k < length (its @ [it])"
      then consider "Suc k < length its" | "Suc k = length its" by force
      then show "i_match_any ((its @ [it]) ! k) = (i_type ((its @ [it]) ! Suc k) = piSearch)"
      proof cases
        case 1 then show ?thesis using r by (simp add: nth_append)
      next
        case 2
        then have "last its = its ! k" by (metis Suc_neq_Zero diff_Suc_1 last_conv_nth list.size(3))
        then show ?thesis using r 2 by (auto simp: nth_append)
      qed
    qed
  qed
  then show ?thesis unfolding items_ok_def by auto
qed

lemma items_ok_mark:
  assumes "items_ok its" "its \<noteq> []"
  shows "items_ok (butlast its @ [(last its)\<lparr>i_match_any := True\<rparr>])"
  using assms items_ok_snoc [of "butlast its" "last its"]
  by (simp add: items_ok_snoc item_ok_def)

lemma tokens_last:
  "its \<noteq> [] \<Longrightarrow> concat (map item_tokens its) = concat (map item_tokens (butlast its)) @ item_tokens (last its)"
  by (cases its rule: rev_cases) simp_all

lemma item_tokens_mark:
  "\<not> i_match_any it \<Longrightarrow> item_tokens (it\<lparr>i_match_any := True\<rparr>) = item_tokens it @ [Any]"
  by (simp add: item_tokens_def split: PatternItemType.split)

lemma tokens_end_any:
  assumes "its \<noteq> []" "i_match_any (last its)"
  shows "same (concat (map item_tokens its) @ [Any] @ ts) (concat (map item_tokens its) @ ts)"
proof -
  obtain us where "concat (map item_tokens its) = us @ [Any]"
    using assms tokens_last [of its] by (auto simp: item_tokens_def)
  then show ?thesis using same_append [OF same_refl same_Any_Any, of us ts] by simp
qed

definition single_any :: "'c PatternItem list \<Rightarrow> bool" where
  "single_any its \<longleftrightarrow> (\<exists>it. its = [it] \<and> i_type it = piSkipMore \<and> i_count it = 0)"

lemma pass2_ok:
  "parsed k pattern rest ts \<Longrightarrow> items_ok prev \<Longrightarrow> (prev \<noteq> [] \<Longrightarrow> i_match_any (last prev) = (\<not> dm)) \<Longrightarrow>
   (\<not> dm \<Longrightarrow> rest \<noteq> [] \<Longrightarrow> is_string (hd rest)) \<Longrightarrow> (prev = [] \<Longrightarrow> \<not> dm \<Longrightarrow> rest \<noteq> []) \<Longrightarrow>
   (prev = [] \<Longrightarrow> \<not> single_any rest) \<Longrightarrow>
   \<exists>its. pass2 k pattern junk dm prev rest = Some its \<and> items_ok its \<and> (prev \<noteq> [] \<or> rest \<noteq> [] \<longrightarrow> its \<noteq> []) \<and>
     same (concat (map item_tokens its)) (concat (map item_tokens prev) @ (if dm then [] else [Any]) @ ts)"
proof (induction rest arbitrary: ts prev dm)
  case Nil
  have "same (concat (map item_tokens prev)) (concat (map item_tokens prev) @ (if dm then [] else [Any]))"
    using same_sym [OF tokens_end_any, of prev "[]"] Nil.prems(3,5) by auto
  then show ?case using Nil by simp
next
  case (Cons it rest)
  obtain b us vs where it: "ts = us @ vs" "parsed_item k pattern it b us" "parsed k pattern rest vs"
    "rest \<noteq> [] \<longrightarrow> is_string it \<noteq> is_string (hd rest)" using Cons.prems(1) by auto
  show ?case
  proof (cases "is_string it")
    case True
    obtain cs where cs: "string_at k pattern it cs b" "us = map Lit cs" "\<not> i_match_any it"
      using it(2) True by (auto simp: parsed_item_def)
    then obtain a r where r: "pattern = a @ r @ b" "length a = i_pos it" "raw k r cs"
        "int (length cs) = i_count it" "cs \<noteq> []" "i_type it = piSearch \<longrightarrow> r = cs" by (auto simp: string_at_def)
    have drop: "drop (i_pos it) pattern = r @ b" "nat (i_count it) = length cs" using r by (simp_all flip: r(2,4))
    obtain it' where it': "compile_string junk dm cs it = Some it'" "item_ok it'" "\<not> i_match_any it'"
        "(i_type it' = piSearch) = (\<not> dm)" "item_tokens it' = (if dm then [] else [Any]) @ us"
      using compile_ok [OF r(4,5) cs(3)] cs(2) by metis
    have run: "pass2 k pattern junk dm prev (it # rest) = pass2 k pattern junk True (prev @ [it']) rest"
      using True r(6) drop it'(1) unescape_raw [OF r(3), of b] by (auto simp: is_string_def)
    have "items_ok (prev @ [it'])" using Cons.prems(2,3) it' by (simp add: items_ok_snoc)
    from Cons.IH [OF it(3) this] it'(3) show ?thesis unfolding run by (auto simp: it(1) it'(5))
  next
    case False
    then have dm: dm using Cons.prems(4) by auto
    have ty: "\<not> i_match_any it" "i_type it = piSkipFixed \<and> 0 < i_count it \<and> us = replicate (nat (i_count it)) One \<or>
       i_type it = piSkipMore \<and> 0 \<le> i_count it \<and> us = replicate (nat (i_count it)) One @ [Any]"
      using it(2) False by (auto simp: parsed_item_def split: if_splits)
    consider "i_type it = piSkipFixed" | "i_type it = piSkipMore" "i_count it \<noteq> 0"
      | "i_type it = piSkipMore" "i_count it = 0" "prev \<noteq> []" | "i_type it = piSkipMore" "i_count it = 0" "prev = []"
      using ty(2) by blast
    then show ?thesis
    proof cases
      case 1
      have run: "pass2 k pattern junk dm prev (it # rest) = pass2 k pattern junk dm (prev @ [it]) rest" using 1 by simp
      have "items_ok (prev @ [it])" using Cons.prems(2,3) 1 ty dm by (simp add: items_ok_snoc item_ok_def)
      moreover have "item_tokens it = us" using 1 ty by (simp add: item_tokens_def)
      ultimately show ?thesis unfolding run
        using Cons.IH [OF it(3), of "prev @ [it]" dm] ty(1) dm by (auto simp: it(1))
    next
      case 2
      let ?it = "it\<lparr>i_type := piSkipFixed, i_match_any := True\<rparr>"
      have run: "pass2 k pattern junk dm prev (it # rest) = pass2 k pattern junk False (prev @ [?it]) rest" using 2 by simp
      have "items_ok (prev @ [?it])" using Cons.prems(2,3) 2 ty dm by (simp add: items_ok_snoc item_ok_def)
      from Cons.IH [OF it(3) this, of False] it(4) False obtain its where its: "items_ok its" "its \<noteq> []"
        "pass2 k pattern junk False (prev @ [?it]) rest = Some its"
        "same (concat (map item_tokens its)) (concat (map item_tokens (prev @ [?it])) @ [Any] @ vs)" by auto
      have "same (concat (map item_tokens its)) (concat (map item_tokens (prev @ [?it])) @ vs)"
        using same_trans [OF its(4) tokens_end_any] by simp
      moreover have "item_tokens ?it = us" using 2 ty by (simp add: item_tokens_def)
      ultimately show ?thesis unfolding run using its dm by (simp add: it(1))
    next
      case 3
      let ?prev = "butlast prev @ [(last prev)\<lparr>i_match_any := True\<rparr>]"
      have run: "pass2 k pattern junk dm prev (it # rest) = pass2 k pattern junk False ?prev rest" using 3 by simp
      from Cons.IH [OF it(3) items_ok_mark [OF Cons.prems(2) 3(3)], of False] it(4) False obtain its where its:
        "items_ok its" "its \<noteq> []" "pass2 k pattern junk False ?prev rest = Some its"
        "same (concat (map item_tokens its)) (concat (map item_tokens ?prev) @ [Any] @ vs)" by auto
      have end_any: "same (concat (map item_tokens its)) (concat (map item_tokens ?prev) @ vs)"
        using same_trans [OF its(4) tokens_end_any] by simp
      have marked: "concat (map item_tokens ?prev) = concat (map item_tokens prev) @ [Any]"
        using tokens_last [OF 3(3)] item_tokens_mark [of "last prev"] Cons.prems(3) [OF 3(3)] dm by simp
      have "same (concat (map item_tokens its)) (concat (map item_tokens prev) @ [Any] @ vs)"
        using end_any unfolding marked by simp
      moreover have "us = [Any]" using ty 3 by simp
      ultimately show ?thesis unfolding run using its dm by (simp add: it(1))
    next
      case 4
      have rest: "rest \<noteq> []" using Cons.prems(6) 4 by (auto simp: single_any_def)
      then have run: "pass2 k pattern junk dm prev (it # rest) = pass2 k pattern junk False prev rest" using 4 by simp
      have "\<not> single_any rest" using it(4) False rest by (auto simp: single_any_def is_string_def)
      then obtain its where its: "items_ok its" "its \<noteq> []" "pass2 k pattern junk False prev rest = Some its"
        "same (concat (map item_tokens its)) (concat (map item_tokens prev) @ [Any] @ vs)"
        using Cons.IH [OF it(3) Cons.prems(2), of False] it(4) False rest 4 by auto
      moreover have "us = [Any]" using ty 4 by simp
      ultimately show ?thesis unfolding run using dm by (simp add: it(1))
    qed
  qed
qed

section \<open>The constructor\<close>

lemma like_reset_inv:
  assumes "items_ok its" "its \<noteq> []"
  shows "like_inv its [] (like_reset (e\<lparr>l_patternItems := its\<rparr>))"
proof -
  have ok: "item_ok (its ! 0)" "0 < length its" using assms by (simp_all add: items_ok_def)
  have hd: "hd its = its ! 0" using assms(2) by (simp add: hd_conv_nth)
  have "branches_ok its 0 [(0, 0)]"
    using ok by (simp add: branches_ok_def branch_ok_def item_ok_def cuts_def)
  moreover have "accept its v = branch_accept its (0, 0) v" for v using accept_drop [OF ok(2)] by simp
  moreover have "like_reset (e\<lparr>l_patternItems := its\<rparr>)
      = e\<lparr>l_patternItems := its, l_branches := [(0, 0)], l_match_type := MATCH_NONE\<rparr>"
    using ok(1) hd by (auto simp: like_reset_def Let_def item_ok_def)
  ultimately show ?thesis using assms(1) by (auto simp: like_inv_def simp del: branch_accept.simps)
qed

lemma like_none: "i_type it = piNone \<Longrightarrow> accept [it] v \<longleftrightarrow> i_match_any it \<or> v = []"
  by (simp add: item_accept_def rest_accept_def)

lemma like_reset_none:
  "i_type it = piNone \<Longrightarrow> like_inv [it] [] (like_reset (e\<lparr>l_patternItems := [it]\<rparr>))"
proof -
  assume it: "i_type it = piNone"
  have "like_reset (e\<lparr>l_patternItems := [it]\<rparr>)
      = e\<lparr>l_patternItems := [it], l_branches := [], l_match_type := (if i_match_any it then MATCH_ANY else MATCH_FIXED)\<rparr>"
    using it by (simp add: like_reset_def Let_def)
  then show ?thesis using like_none [OF it] by (simp add: like_inv_def del: accept.simps)
qed

lemma like_make_ok:
  "case tokens k pattern of
     None \<Rightarrow> like_make k pattern junk = Some (Inl isc_escape_invalid)
   | Some ts \<Rightarrow> \<exists>its e. like_make k pattern junk = Some (Inr e) \<and> like_inv its [] e \<and> (\<forall>v. accept its v = like ts v)"
proof (cases "tokens k pattern")
  case None
  then show ?thesis using pass1_parses [of pattern "[]" pattern k "([], new_item)" "[]"]
    by (simp add: like_make_def parsing_def)
next
  case (Some ts)
  then obtain prev it where p1: "pass1 k 0 pattern ([], new_item) = Inr (prev, it)"
    and inv: "parsing k pattern (prev, it) [] ts"
    using pass1_parses [of pattern "[]" pattern k "([], new_item)" "[]"] by (auto simp: parsing_def)
  let ?e = "\<lparr>l_patternItems = [], l_branches = [], l_match_type = MATCH_NONE\<rparr>"
  have make: "like_make k pattern junk = Some (Inr (like_reset (?e\<lparr>l_patternItems := its\<rparr>)))"
    if "pass2 k pattern junk True [] (prev @ [it]) = Some its" for its
    using p1 that by (simp add: like_make_def)
  from inv consider "prev = []" "it = new_item" "ts = []"
    | us vs where "same ts (us @ vs)" "parsed k pattern prev us" "parsed_item k pattern it [] vs"
        "prev \<noteq> [] \<longrightarrow> is_string (last prev) \<noteq> is_string it"
    unfolding parsing_def by auto
  then show ?thesis
  proof cases
    case 1
    have "pass2 k pattern junk True [] (prev @ [it]) = Some [new_item]" using 1 by (simp add: new_item_def)
    from make [OF this] have "like_make k pattern junk = Some (Inr (like_reset (?e\<lparr>l_patternItems := [new_item]\<rparr>)))" .
    moreover have "accept [new_item] v = like ts v" for v
      using like_none [of new_item v] 1(3) by (simp add: new_item_def del: accept.simps)
    ultimately show ?thesis using like_reset_none [of new_item ?e] Some by (auto simp: new_item_def simp del: accept.simps)
  next
    case 2
    have items: "parsed k pattern (prev @ [it]) (us @ vs)" using 2 by (intro parsed_snoc) auto
    show ?thesis
    proof (cases "single_any (prev @ [it])")
      case True
      let ?it = "it\<lparr>i_type := piNone, i_match_any := True\<rparr>"
      have p: "prev = []" "i_type it = piSkipMore" "i_count it = 0" using True by (auto simp: single_any_def)
      then have "pass2 k pattern junk True [] (prev @ [it]) = Some [?it]" by simp
      moreover have "like ts v" for v
      proof -
        have "vs = [Any]" "us = []" using 2 p by (auto simp: parsed_item_def is_string_def)
        then show ?thesis using 2(1) by (auto simp: same_def like_Any simp del: like.simps(4))
      qed
      moreover have "accept [?it] v" for v using like_none [of ?it v] by (simp del: accept.simps)
      ultimately show ?thesis using make [of "[?it]"] like_reset_none [of ?it ?e] Some by (auto simp del: accept.simps)
    next
      case False
      from pass2_ok [OF items, of "[]" True junk] False obtain its where its:
        "pass2 k pattern junk True [] (prev @ [it]) = Some its" "items_ok its" "its \<noteq> []"
        "same (concat (map item_tokens its)) (us @ vs)" by (auto simp: items_ok_def)
      have "accept its v = like ts v" for v
        using accept_like [of its v] its(2,4) 2(1) by (simp add: items_ok_def same_def)
      then show ?thesis using make [OF its(1)] like_reset_inv [OF its(2,3), of ?e] Some by auto
    qed
  qed
qed

section \<open>Property\<close>


end
