(* ===== verification/LockLevel.thy ===== *)
theory LockLevel
  imports Prelude
begin

text \<open>
  The lock levels of \<^verbatim>\<open>src/src/lock/lock_proto.h\<close>, and the compatibility matrix and
  \<open>lock_state\<close> of \<^verbatim>\<open>src/src/lock/lock.cpp\<close>.  The levels are the code's constants 0 to 6;
  their order is that of the constants.
\<close>

section \<open>Levels\<close>

datatype lock_level = LCK_none | LCK_null | LCK_SR | LCK_PR | LCK_SW | LCK_PW | LCK_EX

primrec level_no :: "lock_level \<Rightarrow> nat" where
  "level_no LCK_none = 0"
| "level_no LCK_null = 1"
| "level_no LCK_SR = 2"
| "level_no LCK_PR = 3"
| "level_no LCK_SW = 4"
| "level_no LCK_PW = 5"
| "level_no LCK_EX = 6"

lemma level_no_inject [simp]: "level_no a = level_no b \<longleftrightarrow> a = b"
  by (cases a; cases b) simp_all

instantiation lock_level :: linorder
begin

definition less_eq_lock_level :: "lock_level \<Rightarrow> lock_level \<Rightarrow> bool" where
  "less_eq_lock_level a b \<longleftrightarrow> level_no a \<le> level_no b"

definition less_lock_level :: "lock_level \<Rightarrow> lock_level \<Rightarrow> bool" where
  "less_lock_level a b \<longleftrightarrow> level_no a < level_no b"

instance
  by standard (auto simp: less_eq_lock_level_def less_lock_level_def)

end

text \<open>\<open>--state\<close>, for a state above \<open>LCK_none\<close>.\<close>

definition prev_level :: "lock_level \<Rightarrow> lock_level" where
  "prev_level a =
     (case a of LCK_none \<Rightarrow> LCK_none | LCK_null \<Rightarrow> LCK_none | LCK_SR \<Rightarrow> LCK_null | LCK_PR \<Rightarrow> LCK_SR
      | LCK_SW \<Rightarrow> LCK_PR | LCK_PW \<Rightarrow> LCK_SW | LCK_EX \<Rightarrow> LCK_PW)"

section \<open>Compatibility\<close>

definition compat_table :: "bool list list" where
  "compat_table =
     [[True, True, True,  True,  True,  True,  True],
      [True, True, True,  True,  True,  True,  True],
      [True, True, True,  True,  True,  True,  False],
      [True, True, True,  True,  False, False, False],
      [True, True, True,  False, True,  False, False],
      [True, True, True,  False, False, False, False],
      [True, True, False, False, False, False, False]]"

definition compatibility :: "lock_level \<Rightarrow> lock_level \<Rightarrow> bool" where
  "compatibility a b = compat_table ! level_no a ! level_no b"

lemma compatibility_sym: "compatibility a b = compatibility b a"
  by (cases a; cases b) (simp_all add: compatibility_def compat_table_def)

lemma compatibility_none [simp]: "compatibility LCK_none a" "compatibility a LCK_none"
  by (cases a; simp add: compatibility_def compat_table_def)+

lemma compatibility_null [simp]: "compatibility LCK_null a" "compatibility a LCK_null"
  by (cases a; simp add: compatibility_def compat_table_def)+

text \<open>A level below a compatible one is compatible, but for the two middle levels.\<close>

lemma compatibility_down:
  "compatibility t a \<Longrightarrow> compatibility b a \<Longrightarrow> b \<le> a \<Longrightarrow> compatibility t b"
  by (cases t; cases a; cases b) (simp_all add: compatibility_def compat_table_def less_eq_lock_level_def)

section \<open>The state of a lock\<close>

definition lock_state :: "(lock_level \<Rightarrow> USHORT) \<Rightarrow> lock_level" where
  "lock_state counts =
     (if counts LCK_EX \<noteq> 0 then LCK_EX
      else if counts LCK_PW \<noteq> 0 then LCK_PW
      else if counts LCK_SW \<noteq> 0 then LCK_SW
      else if counts LCK_PR \<noteq> 0 then LCK_PR
      else if counts LCK_SR \<noteq> 0 then LCK_SR
      else if counts LCK_null \<noteq> 0 then LCK_null
      else LCK_none)"

lemma lock_state_max:
  "counts l \<noteq> 0 \<Longrightarrow> l \<noteq> LCK_none \<Longrightarrow> l \<le> lock_state counts"
  by (cases l) (auto simp: lock_state_def less_eq_lock_level_def)

lemma lock_state_held: "lock_state counts \<noteq> LCK_none \<Longrightarrow> counts (lock_state counts) \<noteq> 0"
  by (auto simp: lock_state_def split: if_splits)

lemma lock_state_cong: "(\<And>l. l \<noteq> LCK_none \<Longrightarrow> c l = d l) \<Longrightarrow> lock_state c = lock_state d"
  by (simp add: lock_state_def)

end
