(* ===== verification/LockTable.thy ===== *)
theory LockTable
  imports LockLevel
begin

text \<open>
  The lock table of \<^verbatim>\<open>src/src/lock/lock.cpp\<close> and the operations on one lock: granting,
  releasing and posting pending requests.

  A block of the shared memory is named by its offset, a natural number; 0 is no block.  The
  queues that run through the blocks are lists of the offsets of their members in the order
  of the queue, kept in the block that holds the queue's header: \<open>insert_tail\<close> appends,
  \<open>remove_que\<close> of a node that is in no queue changes nothing.  The flag bits of a word are
  one truth value each, a block's type tag is whether it is in use.  \<open>lbl_key\<close> is the first
  \<open>lbl_length\<close> bytes of the key; the bytes \<open>lbl_series\<close>, \<open>lbl_size\<close> and \<open>lbl_length\<close> are natural
  numbers, reduced where the code stores them.
\<close>

section \<open>Blocks\<close>

record lrq =
  lrq_in_use :: bool
  lrq_requested :: lock_level
  lrq_state :: lock_level
  LRQ_blocking :: bool
  LRQ_pending :: bool
  LRQ_rejected :: bool
  LRQ_deadlock :: bool
  LRQ_repost :: bool
  LRQ_scanned :: bool
  LRQ_blocking_seen :: bool
  LRQ_just_granted :: bool
  LRQ_wait_timeout :: bool
  lrq_owner :: nat
  lrq_lock :: nat
  lrq_data :: SINT64
  lrq_ast_routine :: nat
  lrq_ast_argument :: nat

record lbl =
  lbl_in_use :: bool
  lbl_state :: lock_level
  lbl_size :: nat
  lbl_requests :: "nat list"
  lbl_data :: SINT64
  lbl_series :: nat
  lbl_pending_lrq_count :: USHORT
  lbl_counts :: "lock_level \<Rightarrow> USHORT"
  lbl_key :: bytes

record own =
  own_owner_type :: UCHAR
  own_count :: "16 word"
  own_owner_id :: "64 word"
  own_requests :: "nat list"
  own_blocks :: "nat list"
  own_pending :: "nat list"
  own_process :: nat
  own_waits :: USHORT
  own_ast_count :: USHORT
  OWN_scanned :: bool
  OWN_wakeup :: bool
  OWN_signaled :: bool

record prc =
  prc_process_id :: nat
  prc_owners :: "nat list"

definition his_enq :: UCHAR where "his_enq = 1"
definition his_deq :: UCHAR where "his_deq = 2"
definition his_convert :: UCHAR where "his_convert = 3"
definition his_signal :: UCHAR where "his_signal = 4"
definition his_post_ast :: UCHAR where "his_post_ast = 5"
definition his_wait :: UCHAR where "his_wait = 6"
definition his_del_process :: UCHAR where "his_del_process = 7"
definition his_del_lock :: UCHAR where "his_del_lock = 8"
definition his_del_request :: UCHAR where "his_del_request = 9"
definition his_deny :: UCHAR where "his_deny = 10"
definition his_grant :: UCHAR where "his_grant = 11"
definition his_leave_ast :: UCHAR where "his_leave_ast = 12"
definition his_scan :: UCHAR where "his_scan = 13"
definition his_dead :: UCHAR where "his_dead = 14"
definition his_enter :: UCHAR where "his_enter = 15"
definition his_bug :: UCHAR where "his_bug = 16"
definition his_active :: UCHAR where "his_active = 17"
definition his_cleanup :: UCHAR where "his_cleanup = 18"
definition his_del_owner :: UCHAR where "his_del_owner = 19"
definition his_MAX :: UCHAR where "his_MAX = his_del_owner"

record his =
  his_operation :: UCHAR
  his_process :: int
  his_lock :: nat
  his_request :: nat

text \<open>
  The header.  A history ring is the list of its blocks from the one to be written next.
\<close>

record lhb =
  requests :: "nat \<Rightarrow> lrq"
  locks :: "nat \<Rightarrow> lbl"
  owners :: "nat \<Rightarrow> own"
  processes :: "nat \<Rightarrow> prc"
  lhb_owners :: "nat list"
  lhb_processes :: "nat list"
  lhb_free_processes :: "nat list"
  lhb_free_owners :: "nat list"
  lhb_free_locks :: "nat list"
  lhb_free_requests :: "nat list"
  lhb_length :: nat
  lhb_used :: nat
  lhb_hash_slots :: nat
  lhb_history :: "his list"
  shb_history :: "his list"
  lhb_enqs :: "64 word"
  lhb_converts :: "64 word"
  lhb_downgrades :: "64 word"
  lhb_deqs :: "64 word"
  lhb_read_data :: "64 word"
  lhb_write_data :: "64 word"
  lhb_query_data :: "64 word"
  lhb_operations :: "nat \<Rightarrow> 64 word"
  lhb_waits :: "64 word"
  lhb_denies :: "64 word"
  lhb_timeouts :: "64 word"
  lhb_blocks :: "64 word"
  lhb_wakeups :: "64 word"
  lhb_scans :: "64 word"
  lhb_deadlocks :: "64 word"
  lhb_data :: "nat \<Rightarrow> nat list"
  lhb_hash :: "nat \<Rightarrow> nat list"

definition LCK_MAX_SERIES :: nat where "LCK_MAX_SERIES = 7"

definition upd_req :: "nat \<Rightarrow> (lrq \<Rightarrow> lrq) \<Rightarrow> lhb \<Rightarrow> lhb" where
  "upd_req r f s = s\<lparr>requests := (requests s)(r := f (requests s r))\<rparr>"

definition upd_lock :: "nat \<Rightarrow> (lbl \<Rightarrow> lbl) \<Rightarrow> lhb \<Rightarrow> lhb" where
  "upd_lock l f s = s\<lparr>locks := (locks s)(l := f (locks s l))\<rparr>"

definition upd_own :: "nat \<Rightarrow> (own \<Rightarrow> own) \<Rightarrow> lhb \<Rightarrow> lhb" where
  "upd_own w f s = s\<lparr>owners := (owners s)(w := f (owners s w))\<rparr>"

lemma upd_req_simps [simp]:
  "requests (upd_req i f s) = (requests s)(i := f (requests s i))"
  "locks (upd_req i f s) = locks s"
  "owners (upd_req i f s) = owners s"
  "processes (upd_req i f s) = processes s"
  "lhb_owners (upd_req i f s) = lhb_owners s"
  "lhb_processes (upd_req i f s) = lhb_processes s"
  "lhb_free_processes (upd_req i f s) = lhb_free_processes s"
  "lhb_free_owners (upd_req i f s) = lhb_free_owners s"
  "lhb_free_locks (upd_req i f s) = lhb_free_locks s"
  "lhb_free_requests (upd_req i f s) = lhb_free_requests s"
  "lhb_length (upd_req i f s) = lhb_length s"
  "lhb_used (upd_req i f s) = lhb_used s"
  "lhb_hash_slots (upd_req i f s) = lhb_hash_slots s"
  "lhb_history (upd_req i f s) = lhb_history s"
  "lhb_data (upd_req i f s) = lhb_data s"
  "lhb_hash (upd_req i f s) = lhb_hash s"
  by (simp_all add: upd_req_def)

lemma upd_lock_simps [simp]:
  "requests (upd_lock i f s) = requests s"
  "locks (upd_lock i f s) = (locks s)(i := f (locks s i))"
  "owners (upd_lock i f s) = owners s"
  "processes (upd_lock i f s) = processes s"
  "lhb_owners (upd_lock i f s) = lhb_owners s"
  "lhb_processes (upd_lock i f s) = lhb_processes s"
  "lhb_free_processes (upd_lock i f s) = lhb_free_processes s"
  "lhb_free_owners (upd_lock i f s) = lhb_free_owners s"
  "lhb_free_locks (upd_lock i f s) = lhb_free_locks s"
  "lhb_free_requests (upd_lock i f s) = lhb_free_requests s"
  "lhb_length (upd_lock i f s) = lhb_length s"
  "lhb_used (upd_lock i f s) = lhb_used s"
  "lhb_hash_slots (upd_lock i f s) = lhb_hash_slots s"
  "lhb_history (upd_lock i f s) = lhb_history s"
  "lhb_data (upd_lock i f s) = lhb_data s"
  "lhb_hash (upd_lock i f s) = lhb_hash s"
  by (simp_all add: upd_lock_def)

lemma upd_own_simps [simp]:
  "requests (upd_own i f s) = requests s"
  "locks (upd_own i f s) = locks s"
  "owners (upd_own i f s) = (owners s)(i := f (owners s i))"
  "processes (upd_own i f s) = processes s"
  "lhb_owners (upd_own i f s) = lhb_owners s"
  "lhb_processes (upd_own i f s) = lhb_processes s"
  "lhb_free_processes (upd_own i f s) = lhb_free_processes s"
  "lhb_free_owners (upd_own i f s) = lhb_free_owners s"
  "lhb_free_locks (upd_own i f s) = lhb_free_locks s"
  "lhb_free_requests (upd_own i f s) = lhb_free_requests s"
  "lhb_length (upd_own i f s) = lhb_length s"
  "lhb_used (upd_own i f s) = lhb_used s"
  "lhb_hash_slots (upd_own i f s) = lhb_hash_slots s"
  "lhb_history (upd_own i f s) = lhb_history s"
  "lhb_data (upd_own i f s) = lhb_data s"
  "lhb_hash (upd_own i f s) = lhb_hash s"
  by (simp_all add: upd_own_def)

definition post_history :: "UCHAR \<Rightarrow> int \<Rightarrow> nat \<Rightarrow> nat \<Rightarrow> bool \<Rightarrow> lhb \<Rightarrow> lhb" where
  "post_history opn process lock request old_version s =
     (let h = \<lparr>his_operation = opn, his_process = process, his_lock = lock, his_request = request\<rparr>
      in if old_version then s\<lparr>lhb_history := tl (lhb_history s) @ [h]\<rparr>
         else s\<lparr>shb_history := tl (shb_history s) @ [h]\<rparr>)"

section \<open>Allocation\<close>

text \<open>
  \<open>can_remap\<close> tells whether the operating system extends the mapped file, by \<open>m_memorySize\<close>
  bytes.
\<close>

definition FB_ALIGN :: "nat \<Rightarrow> nat \<Rightarrow> nat" where
  "FB_ALIGN n b = (n + b - 1) div b * b"

definition alloc_block :: "nat option \<Rightarrow> nat \<Rightarrow> lhb \<Rightarrow> (nat \<times> lhb) option" where
  "alloc_block can_remap sz s =
     (let sz = FB_ALIGN sz 8 mod 65536; block = lhb_used s
      in if lhb_used s + sz > lhb_length s
         then (case can_remap of
                 None \<Rightarrow> None
               | Some m_memorySize \<Rightarrow>
                   Some (block, s\<lparr>lhb_length := lhb_length s + m_memorySize, lhb_used := lhb_used s + sz\<rparr>))
         else Some (block, s\<lparr>lhb_used := lhb_used s + sz\<rparr>))"

text \<open>The sizes of the blocks on Linux with 64-bit pointers.\<close>

definition sizeof_lrq :: nat where "sizeof_lrq = 72"
definition sizeof_lbl :: nat where "sizeof_lbl = 64"
definition sizeof_own :: nat where "sizeof_own = 184"
definition sizeof_prc :: nat where "sizeof_prc = 128"
definition sizeof_his :: nat where "sizeof_his = 20"
definition sizeof_shb :: nat where "sizeof_shb = 20"
definition sizeof_lhb :: nat where "sizeof_lhb = 432"

fun first_fit :: "nat \<Rightarrow> (nat \<Rightarrow> lbl) \<Rightarrow> nat list \<Rightarrow> nat option" where
  "first_fit len lcks [] = None"
| "first_fit len lcks (l # ls) = (if lbl_size (lcks l) \<ge> len then Some l else first_fit len lcks ls)"

definition alloc_lock :: "nat option \<Rightarrow> nat \<Rightarrow> lhb \<Rightarrow> (nat \<times> lhb) option" where
  "alloc_lock can_remap len s =
     (let len = FB_ALIGN len 8 mod 65536
      in case first_fit len (locks s) (lhb_free_locks s) of
           Some l \<Rightarrow> Some (l, upd_lock l (\<lambda>b. b\<lparr>lbl_in_use := True\<rparr>)
                               (s\<lparr>lhb_free_locks := remove1 l (lhb_free_locks s)\<rparr>))
         | None \<Rightarrow>
             (case alloc_block can_remap (sizeof_lbl + len) s of
                None \<Rightarrow> None
              | Some (l, s) \<Rightarrow> Some (l, upd_lock l (\<lambda>b. b\<lparr>lbl_size := len mod 256, lbl_in_use := True\<rparr>) s)))"

section \<open>Finding a lock\<close>

text \<open>The hash function is a pointer the library sets when it is loaded.\<close>

fun find_in_chain :: "nat \<Rightarrow> bytes \<Rightarrow> (nat \<Rightarrow> lbl) \<Rightarrow> nat list \<Rightarrow> nat option" where
  "find_in_chain series val lcks [] = None"
| "find_in_chain series val lcks (l # ls) =
     (if lbl_series (lcks l) \<noteq> series \<or> length (lbl_key (lcks l)) \<noteq> length val
      then find_in_chain series val lcks ls
      else if val = [] \<or> val = lbl_key (lcks l) then Some l
      else find_in_chain series val lcks ls)"

definition find_lock :: "(bytes \<Rightarrow> nat) \<Rightarrow> nat \<Rightarrow> bytes \<Rightarrow> lhb \<Rightarrow> nat option \<times> nat" where
  "find_lock hash series val s =
     (let slot = hash val mod lhb_hash_slots s
      in (find_in_chain series val (locks s) (lhb_hash s slot), slot))"

text \<open>A request offset of the caller; \<open>None\<close> is the call of \<open>bug\<close>, which ends the process.\<close>

definition get_request :: "nat \<Rightarrow> lhb \<Rightarrow> lrq option" where
  "get_request r s =
     (if \<not> lrq_in_use (requests s r) \<or> \<not> lbl_in_use (locks s (lrq_lock (requests s r))) then None
      else Some (requests s r))"

section \<open>The data queues\<close>

text \<open>The queue of a series is kept in ascending order of the locks' data.\<close>

fun insert_data :: "(nat \<Rightarrow> lbl) \<Rightarrow> nat \<Rightarrow> nat list \<Rightarrow> nat list" where
  "insert_data lcks l [] = [l]"
| "insert_data lcks l (l2 # ls) =
     (if lbl_data (lcks l) \<le>s lbl_data (lcks l2) then l # l2 # ls else l2 # insert_data lcks l ls)"

definition insert_data_que :: "nat \<Rightarrow> lhb \<Rightarrow> lhb" where
  "insert_data_que l s =
     (let lock = locks s l
      in if lbl_series lock < LCK_MAX_SERIES \<and> lbl_data lock \<noteq> 0
         then s\<lparr>lhb_data := (lhb_data s)(lbl_series lock := insert_data (locks s) l (lhb_data s (lbl_series lock)))\<rparr>
         else s)"

definition remove_data_que :: "nat \<Rightarrow> lhb \<Rightarrow> lhb" where
  "remove_data_que l s =
     (let series = lbl_series (locks s l)
      in s\<lparr>lhb_data := (lhb_data s)(series := remove1 l (lhb_data s series))\<rparr>)"

text \<open>\<open>if ((lock->lbl_data = data)) insert_data_que(lock);\<close> after the removal.\<close>

definition set_data :: "nat \<Rightarrow> SINT64 \<Rightarrow> lhb \<Rightarrow> lhb" where
  "set_data l data s =
     (let s = upd_lock l (\<lambda>b. b\<lparr>lbl_data := data\<rparr>) (remove_data_que l s)
      in if data \<noteq> 0 then insert_data_que l s else s)"

section \<open>Granting\<close>

definition post_wakeup :: "nat \<Rightarrow> lhb \<Rightarrow> lhb" where
  "post_wakeup w s =
     (if own_waits (owners s w) \<noteq> 0
      then upd_own w (\<lambda>o'. o'\<lparr>OWN_wakeup := True\<rparr>) (s\<lparr>lhb_wakeups := lhb_wakeups s + 1\<rparr>)
      else s)"

definition grant :: "nat \<Rightarrow> nat \<Rightarrow> lhb \<Rightarrow> lhb" where
  "grant r l s =
     (let req = requests s r;
          s = post_history his_grant (int (lrq_owner req)) (lrq_lock req) r True s;
          s = upd_lock l (\<lambda>b. b\<lparr>lbl_counts := (lbl_counts b)(lrq_requested req := lbl_counts b (lrq_requested req) + 1)\<rparr>) s;
          s = upd_req r (\<lambda>q. q\<lparr>lrq_state := lrq_requested req\<rparr>) s;
          s = (if lrq_data req \<noteq> 0
               then upd_req r (\<lambda>q. q\<lparr>lrq_data := 0\<rparr>) (set_data l (lrq_data req) s)
               else s);
          s = upd_lock l (\<lambda>b. b\<lparr>lbl_state := lock_state (lbl_counts b)\<rparr>) s;
          s = (if LRQ_pending req
               then upd_lock l (\<lambda>b. b\<lparr>lbl_pending_lrq_count := lbl_pending_lrq_count b - 1\<rparr>)
                      (upd_req r (\<lambda>q. q\<lparr>LRQ_pending := False\<rparr>)
                        (upd_own (lrq_owner req) (\<lambda>w. w\<lparr>own_pending := remove1 r (own_pending w)\<rparr>) s))
               else s)
      in post_wakeup (lrq_owner req) s)"

text \<open>\<open>--lock->lbl_counts[level]\<close> and \<open>++lock->lbl_counts[level]\<close>.\<close>

definition dec_count :: "nat \<Rightarrow> lock_level \<Rightarrow> lhb \<Rightarrow> lhb" where
  "dec_count l level = upd_lock l (\<lambda>b. b\<lparr>lbl_counts := (lbl_counts b)(level := lbl_counts b level - 1)\<rparr>)"

definition inc_count :: "nat \<Rightarrow> lock_level \<Rightarrow> lhb \<Rightarrow> lhb" where
  "inc_count l level = upd_lock l (\<lambda>b. b\<lparr>lbl_counts := (lbl_counts b)(level := lbl_counts b level + 1)\<rparr>)"

section \<open>Pending requests\<close>

fun pending_loop :: "nat \<Rightarrow> nat list \<Rightarrow> lhb \<Rightarrow> lhb" where
  "pending_loop l [] s = s"
| "pending_loop l (r # rs) s =
     (let req = requests s r
      in if \<not> LRQ_pending req then pending_loop l rs s
         else if lrq_state req \<noteq> LCK_none
         then (let s1 = dec_count l (lrq_state req) s
               in if compatibility (lrq_requested req) (lock_state (lbl_counts (locks s1 l)))
                  then pending_loop l rs (grant r l s1)
                  else post_wakeup (lrq_owner req) (inc_count l (lrq_state req) s1))
         else if compatibility (lrq_requested req) (lbl_state (locks s l))
         then pending_loop l rs (grant r l s)
         else post_wakeup (lrq_owner req) s)"

fun just_granted_loop :: "nat list \<Rightarrow> lhb \<Rightarrow> lhb" where
  "just_granted_loop [] s = s"
| "just_granted_loop (r # rs) s =
     (let req = requests s r
      in if LRQ_pending req then s
         else just_granted_loop rs
                (if \<not> (LRQ_blocking req \<or> LRQ_blocking_seen req) \<and> lrq_ast_routine req \<noteq> 0
                 then upd_req r (\<lambda>q. q\<lparr>LRQ_just_granted := True\<rparr>) s else s))"

definition post_pending :: "nat \<Rightarrow> lhb \<Rightarrow> lhb" where
  "post_pending l s =
     (if lbl_pending_lrq_count (locks s l) = 0 then s
      else let s = pending_loop l (lbl_requests (locks s l)) s
           in if lbl_pending_lrq_count (locks s l) \<noteq> 0
              then just_granted_loop (lbl_requests (locks s l)) s else s)"

section \<open>Releasing\<close>

definition free_request :: "nat \<Rightarrow> lhb \<Rightarrow> lhb" where
  "free_request r s =
     (upd_req r (\<lambda>q. q\<lparr>lrq_in_use := False\<rparr>) s)\<lparr>lhb_free_requests := lhb_free_requests s @ [r]\<rparr>"

text \<open>The request leaves the queues of its lock and its owner and loses its marks.\<close>

definition unlink_request :: "nat \<Rightarrow> lhb \<Rightarrow> lhb" where
  "unlink_request r s =
     (let req = requests s r; l = lrq_lock req; w = lrq_owner req;
          s = upd_lock l (\<lambda>b. b\<lparr>lbl_requests := remove1 r (lbl_requests b)\<rparr>) s;
          s = upd_own w (\<lambda>o'. o'\<lparr>own_requests := remove1 r (own_requests o')\<rparr>) s;
          s = free_request r s;
          s = (if LRQ_blocking req
               then upd_req r (\<lambda>q. q\<lparr>LRQ_blocking := False\<rparr>)
                      (upd_own w (\<lambda>o'. o'\<lparr>own_blocks := remove1 r (own_blocks o')\<rparr>) s)
               else s);
          s = (if LRQ_pending req
               then upd_lock l (\<lambda>b. b\<lparr>lbl_pending_lrq_count := lbl_pending_lrq_count b - 1\<rparr>)
                      (upd_req r (\<lambda>q. q\<lparr>LRQ_pending := False\<rparr>)
                        (upd_own w (\<lambda>o'. o'\<lparr>own_pending := remove1 r (own_pending o')\<rparr>) s))
               else s)
      in upd_req r (\<lambda>q. q\<lparr>LRQ_blocking_seen := False, LRQ_just_granted := False\<rparr>) s)"

definition free_lock :: "nat \<Rightarrow> lhb \<Rightarrow> lhb" where
  "free_lock l s =
     (let s = s\<lparr>lhb_hash := (\<lambda>slot. remove1 l (lhb_hash s slot))\<rparr>;
          s = remove_data_que l s;
          s = upd_lock l (\<lambda>b. b\<lparr>lbl_in_use := False\<rparr>) s
      in s\<lparr>lhb_free_locks := lhb_free_locks s @ [l]\<rparr>)"

definition drop_state :: "nat \<Rightarrow> lock_level \<Rightarrow> lhb \<Rightarrow> lhb" where
  "drop_state l level s =
     (if level \<noteq> LCK_none
      then (let s = dec_count l level s
            in if lbl_counts (locks s l) level = 0
               then upd_lock l (\<lambda>b. b\<lparr>lbl_state := lock_state (lbl_counts b)\<rparr>) s else s)
      else s)"

text \<open>Both branches of the code's last test end in \<open>post_pending\<close>.\<close>

definition release_request :: "nat \<Rightarrow> lhb \<Rightarrow> lhb" where
  "release_request r s =
     (let req = requests s r; l = lrq_lock req; s = unlink_request r s
      in if lbl_requests (locks s l) = [] then free_lock l s
         else post_pending l (drop_state l (lrq_state req) s))"

definition internal_dequeue :: "nat \<Rightarrow> lhb \<Rightarrow> lhb option" where
  "internal_dequeue r s =
     (case get_request r s of
        None \<Rightarrow> None
      | Some req \<Rightarrow>
          Some (release_request r
            (upd_req r (\<lambda>q. q\<lparr>lrq_ast_routine := 0\<rparr>)
              (post_history his_deq (int (lrq_owner req)) (lrq_lock req) r True s))))"

end
