(* ===== verification/LockOps.thy ===== *)
theory LockOps
  imports LockTable
begin

text \<open>
  The lock manager's operations on the whole table: blocking notices, the death of owners and
  processes, waiting, deadlock detection, and the calls of the engine.

  A call that has to wait gives the table up while it sleeps.  It is cut there: the part
  before the sleep answers \<open>Asleep\<close>, one pass of the waiting loop is \<open>wait_turn\<close>, and the part
  after the loop is a \<open>resume\<close> operation.  Between them other calls run.  In the same way a
  blocking AST runs while the table is given up, between \<open>blocking_step\<close> and
  \<open>blocking_return\<close>.  What the operating system and the process contribute is the environment.
\<close>

record lm_env =
  env_pid :: nat
  env_hash :: "bytes \<Rightarrow> nat"
  env_remap :: "nat option"
  env_post_ok :: "nat \<Rightarrow> bool"
  env_alive :: "nat \<Rightarrow> bool"
  env_event_ok :: bool
  env_prc_event_ok :: bool
  env_process_ok :: bool

section \<open>Death of an owner\<close>

definition drop_block :: "nat \<Rightarrow> nat \<Rightarrow> lhb \<Rightarrow> lhb" where
  "drop_block w r s = free_request r (upd_own w (\<lambda>o'. o'\<lparr>own_blocks := remove1 r (own_blocks o')\<rparr>) s)"

text \<open>Each pass of the two loops removes the head of the queue it runs through.\<close>

definition purge_owner :: "lm_env \<Rightarrow> int \<Rightarrow> nat \<Rightarrow> lhb \<Rightarrow> lhb" where
  "purge_owner env purging w s =
     (let s = post_history his_del_owner purging w 0 False s;
          s = fold release_request (own_requests (owners s w)) s;
          s = fold (drop_block w) (own_blocks (owners s w)) s;
          p = own_process (owners s w);
          s = s\<lparr>processes := (processes s)(p := (processes s p)\<lparr>prc_owners := remove1 w (prc_owners (processes s p))\<rparr>)\<rparr>;
          s = s\<lparr>lhb_owners := remove1 w (lhb_owners s), lhb_free_owners := lhb_free_owners s @ [w]\<rparr>
      in upd_own w (\<lambda>o'. o'\<lparr>own_owner_type := 0, own_owner_id := 0, own_process := 0,
            OWN_scanned := False, OWN_wakeup := False, OWN_signaled := False\<rparr>) s)"

definition purge_process :: "lm_env \<Rightarrow> nat \<Rightarrow> lhb \<Rightarrow> lhb" where
  "purge_process env p s =
     (let s = fold (\<lambda>w. purge_owner env (int w) w) (prc_owners (processes s p)) s;
          s = s\<lparr>lhb_processes := remove1 p (lhb_processes s), lhb_free_processes := lhb_free_processes s @ [p]\<rparr>
      in s\<lparr>processes := (processes s)(p := (processes s p)\<lparr>prc_process_id := 0\<rparr>)\<rparr>)"

fun probe_loop :: "lm_env \<Rightarrow> nat list \<Rightarrow> bool \<Rightarrow> lhb \<Rightarrow> bool \<times> lhb" where
  "probe_loop env [] purged s = (purged, s)"
| "probe_loop env (p # ps) purged s =
     (if prc_process_id (processes s p) \<noteq> env_pid env \<and> \<not> env_alive env (prc_process_id (processes s p))
      then probe_loop env ps True (purge_process env p s)
      else probe_loop env ps purged s)"

definition probe_processes :: "lm_env \<Rightarrow> lhb \<Rightarrow> bool \<times> lhb" where
  "probe_processes env s = probe_loop env (lhb_processes s) False s"

section \<open>Blocking notices\<close>

text \<open>A local owner's notices are delivered by \<open>blocking_step\<close> too.\<close>

definition signal_owner :: "lm_env \<Rightarrow> nat \<Rightarrow> lhb \<Rightarrow> bool \<times> lhb" where
  "signal_owner env w s =
     (let s = upd_own w (\<lambda>o'. o'\<lparr>OWN_signaled := True\<rparr>) s; p = own_process (owners s w)
      in if prc_process_id (processes s p) = env_pid env then (True, s)
         else if env_post_ok env p then (True, s)
         else (False, upd_own w (\<lambda>o'. o'\<lparr>OWN_signaled := False\<rparr>) s))"

fun blockage_loop :: "nat \<Rightarrow> nat list \<Rightarrow> nat list \<Rightarrow> lhb \<Rightarrow> nat list \<times> lhb" where
  "blockage_loop r [] blocking_owners s = (blocking_owners, s)"
| "blockage_loop r (b # bs) blocking_owners s =
     (let req = requests s r; block = requests s b
      in if b = r \<or> lrq_owner block = lrq_owner req \<or> compatibility (lrq_requested req) (lrq_state block) \<or>
            lrq_ast_routine block = 0 \<or> LRQ_blocking_seen block
         then blockage_loop r bs blocking_owners s
         else let s = (if \<not> LRQ_blocking block
                       then upd_req b (\<lambda>q. q\<lparr>LRQ_blocking := True, LRQ_blocking_seen := False, LRQ_just_granted := False\<rparr>)
                              (upd_own (lrq_owner block) (\<lambda>o'. o'\<lparr>own_blocks := own_blocks o' @ [b]\<rparr>) s)
                       else s);
                  blocking_owners = blocking_owners @ [lrq_owner block]
              in if lrq_state block = LCK_EX then (blocking_owners, s)
                 else blockage_loop r bs blocking_owners s)"

fun signal_loop :: "lm_env \<Rightarrow> nat list \<Rightarrow> nat list \<Rightarrow> lhb \<Rightarrow> nat list \<times> lhb" where
  "signal_loop env [] dead s = (dead, s)"
| "signal_loop env (w # ws) dead s =
     (if own_count (owners s w) \<noteq> 0 \<and> \<not> OWN_signaled (owners s w)
      then (case signal_owner env w s of
              (ok, s') \<Rightarrow> signal_loop env ws (if ok then dead else dead @ [own_process (owners s' w)]) s')
      else signal_loop env ws dead s)"

definition purge_dead :: "lm_env \<Rightarrow> nat \<Rightarrow> lhb \<Rightarrow> lhb" where
  "purge_dead env p s = (if prc_process_id (processes s p) \<noteq> 0 then purge_process env p s else s)"

definition post_blockage :: "lm_env \<Rightarrow> nat \<Rightarrow> nat \<Rightarrow> lhb \<Rightarrow> lhb" where
  "post_blockage env r l s =
     (case blockage_loop r (lbl_requests (locks s l)) [] s of
        (blocking_owners, s) \<Rightarrow>
          (case signal_loop env blocking_owners [] s of (dead, s) \<Rightarrow> fold (purge_dead env) dead s))"

text \<open>One pass of the loop of \<open>blocking_action\<close>: up to the call of the AST routine, and after it.\<close>

datatype blocking_result = CallRoutine nat nat | NextBlock | NoBlocks

definition blocking_step :: "nat \<Rightarrow> lhb \<Rightarrow> blocking_result \<times> lhb" where
  "blocking_step w s =
     (if own_count (owners s w) \<noteq> 0 \<and> own_blocks (owners s w) \<noteq> []
      then (let r = hd (own_blocks (owners s w)); req = requests s r;
                s = upd_own w (\<lambda>o'. o'\<lparr>own_blocks := tl (own_blocks o')\<rparr>) s;
                s = (if LRQ_blocking req
                     then post_history his_post_ast (int w) (lrq_lock req) r True
                            (upd_req r (\<lambda>q. q\<lparr>LRQ_blocking := False, LRQ_blocking_seen := True\<rparr>)
                              (s\<lparr>lhb_blocks := lhb_blocks s + 1\<rparr>))
                     else if LRQ_repost req then free_request r s
                     else s)
            in if lrq_ast_routine req \<noteq> 0
               then (CallRoutine (lrq_ast_routine req) (lrq_ast_argument req),
                     upd_own w (\<lambda>o'. o'\<lparr>own_ast_count := own_ast_count o' + 1\<rparr>) s)
               else (NextBlock, s))
      else (NoBlocks, upd_own w (\<lambda>o'. o'\<lparr>OWN_signaled := False\<rparr>) s))"

definition blocking_return :: "nat \<Rightarrow> lhb \<Rightarrow> lhb" where
  "blocking_return w = upd_own w (\<lambda>o'. o'\<lparr>own_ast_count := own_ast_count o' - 1\<rparr>)"

section \<open>Deadlocks\<close>

fun clear_pending :: "nat list \<Rightarrow> lhb \<Rightarrow> lhb" where
  "clear_pending [] s = s"
| "clear_pending (r # rs) s =
     clear_pending rs (upd_req r (\<lambda>q. q\<lparr>LRQ_deadlock := False, LRQ_scanned := False\<rparr>) s)"

definition deadlock_clear :: "lhb \<Rightarrow> lhb" where
  "deadlock_clear s = fold (\<lambda>w s. clear_pending (own_pending (owners s w)) s) (lhb_owners s) s"

text \<open>
  The walk marks requests in the table and notes in a truth value whether there may be a
  deadlock it cannot see yet.  The fuel bounds the depth of its recursion; \<open>None\<close> is a walk that
  ran out of it.
\<close>

type_synonym walk = "nat option \<times> lhb \<times> bool"

function deadlock_walk :: "nat \<Rightarrow> nat \<Rightarrow> lhb \<Rightarrow> bool \<Rightarrow> walk option"
  and walk_queue :: "nat \<Rightarrow> nat \<Rightarrow> bool \<Rightarrow> nat list \<Rightarrow> lhb \<Rightarrow> bool \<Rightarrow> walk option"
  and walk_owner :: "nat \<Rightarrow> nat list \<Rightarrow> lhb \<Rightarrow> bool \<Rightarrow> walk option"
where
  "deadlock_walk 0 r s maybe = None"
| "deadlock_walk (Suc n) r s maybe =
     (if LRQ_scanned (requests s r) then Some (None, s, maybe)
      else if LRQ_deadlock (requests s r) then Some (Some r, s, maybe)
      else let s = upd_req r (\<lambda>q. q\<lparr>LRQ_deadlock := True\<rparr>) s;
               conversion = lrq_state (requests s r) > LCK_null
           in (case walk_queue n r conversion (lbl_requests (locks s (lrq_lock (requests s r)))) s maybe of
                 None \<Rightarrow> None
               | Some (Some t, s, maybe) \<Rightarrow> Some (Some t, s, maybe)
               | Some (None, s, maybe) \<Rightarrow>
                   Some (None, upd_req r (\<lambda>q. q\<lparr>LRQ_deadlock := False, LRQ_scanned := True\<rparr>) s, maybe)))"
| "walk_queue n r conversion [] s maybe = Some (None, s, maybe)"
| "walk_queue n r conversion (b # bs) s maybe =
     (let req = requests s r; block = requests s b; w = owners s (lrq_owner block)
      in if conversion \<and> (r = b \<or> compatibility (lrq_requested req) (lrq_state block))
         then walk_queue n r conversion bs s maybe
         else if \<not> conversion \<and> r = b then Some (None, s, maybe)
         else if \<not> conversion \<and> compatibility (lrq_requested req) (max (lrq_state block) (lrq_requested block))
         then walk_queue n r conversion bs s maybe
         else if OWN_signaled w \<or> OWN_wakeup w \<or> own_blocks w \<noteq> [] \<or> LRQ_just_granted block
         then walk_queue n r conversion bs s True
         else (case walk_owner n (own_pending w) s maybe of
                 None \<Rightarrow> None
               | Some (Some t, s, maybe) \<Rightarrow> Some (Some t, s, maybe)
               | Some (None, s, maybe) \<Rightarrow> walk_queue n r conversion bs s maybe))"
| "walk_owner n [] s maybe = Some (None, s, maybe)"
| "walk_owner n (t # ts) s maybe =
     (if LRQ_wait_timeout (requests s t) then walk_owner n ts s maybe
      else (case deadlock_walk n t s maybe of
              None \<Rightarrow> None
            | Some (Some v, s, maybe) \<Rightarrow> Some (Some v, s, maybe)
            | Some (None, s, maybe) \<Rightarrow> walk_owner n ts s maybe))"
  by pat_completeness auto

termination
  by (relation "inv_image (less_than <*lex*> less_than <*lex*> less_than)
        (\<lambda>x. case x of Inl (n, r, s, m) \<Rightarrow> (n, 0, 0)
          | Inr (Inl (n, r, c, bs, s, m)) \<Rightarrow> (n, 2, length bs)
          | Inr (Inr (n, ts, s, m)) \<Rightarrow> (n, 1, length ts))") auto

text \<open>The fuel is two more than the number of the requests that wait.\<close>

definition waiting_requests :: "lhb \<Rightarrow> nat list" where
  "waiting_requests s = concat (map (\<lambda>w. own_pending (owners s w)) (lhb_owners s))"

definition deadlock_scan :: "nat \<Rightarrow> nat \<Rightarrow> lhb \<Rightarrow> (nat option \<times> lhb) option" where
  "deadlock_scan w r s =
     (let s = s\<lparr>lhb_scans := lhb_scans s + 1\<rparr>;
          s = post_history his_scan (int (lrq_owner (requests s r))) (lrq_lock (requests s r)) r True s;
          s = deadlock_clear s
      in (case deadlock_walk (Suc (Suc (length (waiting_requests s)))) r s False of
            None \<Rightarrow> None
          | Some (victim, s, maybe) \<Rightarrow>
              Some (victim, if victim = None \<and> \<not> maybe then upd_own w (\<lambda>o'. o'\<lparr>OWN_scanned := True\<rparr>) s else s)))"

section \<open>Waiting\<close>

definition clear_wait :: "nat \<Rightarrow> lhb \<Rightarrow> lhb" where
  "clear_wait r s =
     (let req = requests s r
      in upd_lock (lrq_lock req) (\<lambda>b. b\<lparr>lbl_pending_lrq_count := lbl_pending_lrq_count b - 1\<rparr>)
           (upd_req r (\<lambda>q. q\<lparr>LRQ_rejected := True, LRQ_pending := False\<rparr>)
             (upd_own (lrq_owner req) (\<lambda>o'. o'\<lparr>own_pending := remove1 r (own_pending o')\<rparr>) s)))"

definition wait_mark :: "nat \<Rightarrow> int \<Rightarrow> lhb \<Rightarrow> lhb" where
  "wait_mark r lck_wait s =
     (let req = requests s r; w = lrq_owner req; l = lrq_lock req;
          s = s\<lparr>lhb_waits := lhb_waits s + 1\<rparr>;
          s = upd_own w (\<lambda>o'. o'\<lparr>OWN_scanned := False, OWN_wakeup := False, own_waits := own_waits o' + 1,
                own_pending := own_pending o' @ [r]\<rparr>) s;
          s = upd_req r (\<lambda>q. q\<lparr>LRQ_rejected := False, LRQ_pending := True\<rparr>) s;
          s = upd_lock l (\<lambda>b. b\<lparr>lbl_pending_lrq_count := lbl_pending_lrq_count b + 1\<rparr>) s;
          s = (if lrq_state req = LCK_none
               then upd_lock l (\<lambda>b. b\<lparr>lbl_requests := remove1 r (lbl_requests b) @ [r]\<rparr>) s else s)
      in if lck_wait \<le> 0 then upd_req r (\<lambda>q. q\<lparr>LRQ_wait_timeout := True\<rparr>) s else s)"

definition wait_begin :: "lm_env \<Rightarrow> nat \<Rightarrow> int \<Rightarrow> lhb \<Rightarrow> lhb" where
  "wait_begin env r lck_wait s =
     (let w = lrq_owner (requests s r); l = lrq_lock (requests s r)
      in post_history his_wait (int w) l r True (post_blockage env r l (wait_mark r lck_wait s)))"

text \<open>
  A pass of the loop after the sleep, at time \<open>now\<close>: whether the loop ends, and the time of
  the next deadlock scan.
\<close>

definition wait_turn ::
  "lm_env \<Rightarrow> nat \<Rightarrow> int \<Rightarrow> int \<Rightarrow> int \<Rightarrow> int \<Rightarrow> int \<Rightarrow> bool \<Rightarrow> lhb \<Rightarrow> (bool \<times> int \<times> lhb) option" where
  "wait_turn env r lck_wait scan_interval lock_timeout deadlock_timeout now cancelled s =
     (if \<not> LRQ_pending (requests s r) then Some (True, deadlock_timeout, s)
      else
        (let w = lrq_owner (requests s r); l = lrq_lock (requests s r);
             woken = OWN_wakeup (owners s w);
             timeout = (if lck_wait < 0 \<and> lock_timeout < deadlock_timeout then lock_timeout else deadlock_timeout)
         in if \<not> woken \<and> now + 1 < timeout then Some (False, deadlock_timeout, s)
            else
              (let s = upd_own w (\<lambda>o'. o'\<lparr>OWN_wakeup := False\<rparr>) s
               in if cancelled \<or> (lck_wait < 0 \<and> lock_timeout \<le> now)
                  then Some (True, deadlock_timeout, snd (probe_processes env (clear_wait r s)))
                  else if woken then Some (False, now + scan_interval, post_blockage env r l s)
                  else
                    (case probe_processes env s of
                       (purged, s) \<Rightarrow>
                         if purged \<and> \<not> LRQ_pending (requests s r) then Some (True, now + scan_interval, s)
                         else if \<not> OWN_scanned (owners s w) \<and> \<not> LRQ_wait_timeout (requests s r)
                         then (case deadlock_scan w r s of
                                 None \<Rightarrow> None
                               | Some (None, s) \<Rightarrow> Some (False, now + scan_interval, post_blockage env r l s)
                               | Some (Some v, s) \<Rightarrow>
                                   (let s = clear_wait v (s\<lparr>lhb_deadlocks := lhb_deadlocks s + 1\<rparr>);
                                        bw = lrq_owner (requests s v);
                                        s = upd_own bw (\<lambda>o'. o'\<lparr>OWN_scanned := False\<rparr>) s
                                    in Some (False, now + scan_interval, if v \<noteq> r then post_wakeup bw s else s)))
                         else Some (False, now + scan_interval, post_blockage env r l s)))))"

definition wait_end :: "nat \<Rightarrow> lhb \<Rightarrow> lhb" where
  "wait_end r s =
     upd_own (lrq_owner (requests s r)) (\<lambda>o'. o'\<lparr>own_waits := own_waits o' - 1\<rparr>)
       (upd_req r (\<lambda>q. q\<lparr>LRQ_wait_timeout := False\<rparr>) s)"

section \<open>The calls of the engine\<close>

datatype lock_error = isc_deadlock | isc_lock_timeout | isc_lock_conflict | isc_lockmanerr

datatype answer = Request nat | Refused "lock_error option" | Asleep nat

definition wait_error :: "int \<Rightarrow> lock_error" where
  "wait_error lck_wait =
     (if lck_wait > 0 then isc_deadlock else if lck_wait < 0 then isc_lock_timeout else isc_lock_conflict)"

definition count_operation :: "nat \<Rightarrow> lhb \<Rightarrow> lhb" where
  "count_operation series s =
     (let i = (if series < LCK_MAX_SERIES then series else 0)
      in s\<lparr>lhb_operations := (lhb_operations s)(i := lhb_operations s i + 1)\<rparr>)"

definition count_denial :: "int \<Rightarrow> lhb \<Rightarrow> lhb" where
  "count_denial lck_wait s =
     (let s = s\<lparr>lhb_denies := lhb_denies s + 1\<rparr>
      in if lck_wait < 0 then s\<lparr>lhb_timeouts := lhb_timeouts s + 1\<rparr> else s)"

definition deny :: "lm_env \<Rightarrow> nat \<Rightarrow> int \<Rightarrow> lhb \<Rightarrow> answer \<times> lhb" where
  "deny env r lck_wait s =
     (let req = requests s r
      in (Refused (Some (wait_error lck_wait)),
          release_request r
            (count_denial lck_wait (post_history his_deny (int (lrq_owner req)) (lrq_lock req) r True s))))"

definition grant_or_que :: "lm_env \<Rightarrow> nat \<Rightarrow> nat \<Rightarrow> int \<Rightarrow> lhb \<Rightarrow> answer \<times> lhb" where
  "grant_or_que env r l lck_wait s =
     (let s = upd_req r (\<lambda>q. q\<lparr>lrq_lock := l\<rparr>) s; req = requests s r
      in if compatibility (lrq_requested req) (lbl_state (locks s l)) \<and>
            (lrq_requested req = LCK_null \<or> lbl_pending_lrq_count (locks s l) = 0)
         then (Request r, post_pending l (grant r l s))
         else if lck_wait \<noteq> 0 then (Asleep r, wait_begin env r lck_wait s)
         else deny env r lck_wait s)"

definition grant_or_que_resume :: "lm_env \<Rightarrow> nat \<Rightarrow> int \<Rightarrow> lhb \<Rightarrow> answer \<times> lhb" where
  "grant_or_que_resume env r lck_wait s =
     (let s = wait_end r s
      in if \<not> LRQ_rejected (requests s r) then (Request r, s) else deny env r lck_wait s)"

text \<open>A free request block, or a new one.\<close>

definition get_free_request :: "nat option \<Rightarrow> lhb \<Rightarrow> (nat \<times> lhb) option" where
  "get_free_request can_remap s =
     (case lhb_free_requests s of
        [] \<Rightarrow> alloc_block can_remap sizeof_lrq s
      | r # rs \<Rightarrow> Some (r, s\<lparr>lhb_free_requests := rs\<rparr>))"

definition init_request :: "nat \<Rightarrow> nat \<Rightarrow> lock_level \<Rightarrow> nat \<Rightarrow> nat \<Rightarrow> lhb \<Rightarrow> lhb" where
  "init_request r w type ast arg s =
     upd_own w (\<lambda>o'. o'\<lparr>own_requests := own_requests o' @ [r]\<rparr>)
       (upd_req r (\<lambda>q. \<lparr>lrq_in_use = True, lrq_requested = type, lrq_state = LCK_none,
          LRQ_blocking = False, LRQ_pending = False, LRQ_rejected = False, LRQ_deadlock = False,
          LRQ_repost = False, LRQ_scanned = False, LRQ_blocking_seen = False,
          LRQ_just_granted = False, LRQ_wait_timeout = False,
          lrq_owner = w, lrq_lock = lrq_lock q, lrq_data = 0,
          lrq_ast_routine = ast, lrq_ast_argument = arg\<rparr>)
         (post_history his_enq (int w) 0 r True s))"

definition init_lock :: "nat \<Rightarrow> nat \<Rightarrow> bytes \<Rightarrow> lock_level \<Rightarrow> SINT64 \<Rightarrow> lhb \<Rightarrow> lhb" where
  "init_lock l series val type data s =
     (let s = upd_lock l (\<lambda>b. b\<lparr>lbl_state := type, lbl_series := series mod 256, lbl_data := data\<rparr>) s;
          s = (if data \<noteq> 0 then insert_data_que l s else s);
          s = count_operation series s
      in upd_lock l (\<lambda>b. b\<lparr>lbl_pending_lrq_count := 0, lbl_counts := (\<lambda>_. 0), lbl_key := take (length val mod 256) val,
            lbl_requests := []\<rparr>) s)"

definition enqueue ::
  "lm_env \<Rightarrow> nat \<Rightarrow> nat \<Rightarrow> bytes \<Rightarrow> lock_level \<Rightarrow> nat \<Rightarrow> nat \<Rightarrow> SINT64 \<Rightarrow> int \<Rightarrow> nat \<Rightarrow> lhb \<Rightarrow>
     (answer \<times> lhb) option" where
  "enqueue env prior_request series val type ast arg data lck_wait w s =
     (if w = 0 \<or> own_count (owners s w) = 0 then Some (Refused None, s)
      else
        (let s = s\<lparr>lhb_enqs := lhb_enqs s + 1\<rparr>
         in case (if prior_request \<noteq> 0 then internal_dequeue prior_request s else Some s) of
              None \<Rightarrow> None
            | Some s \<Rightarrow>
                (case get_free_request (env_remap env) s of
                   None \<Rightarrow> Some (Refused (Some isc_lockmanerr), s)
                 | Some (r, s) \<Rightarrow>
                     (let s = init_request r w type ast arg s
                      in case find_lock (env_hash env) series val s of
                           (Some l, slot) \<Rightarrow>
                             (let s = count_operation series s;
                                  s = upd_lock l (\<lambda>b. b\<lparr>lbl_requests := lbl_requests b @ [r]\<rparr>) s;
                                  s = upd_req r (\<lambda>q. q\<lparr>lrq_data := data\<rparr>) s
                              in Some (grant_or_que env r l lck_wait s))
                         | (None, slot) \<Rightarrow>
                             (case alloc_lock (env_remap env) (length val) s of
                                None \<Rightarrow>
                                  Some (Refused (Some isc_lockmanerr),
                                    free_request r
                                      (upd_own w (\<lambda>o'. o'\<lparr>own_requests := remove1 r (own_requests o')\<rparr>) s))
                              | Some (l, s) \<Rightarrow>
                                  (let s = init_lock l series val type data s;
                                       s = s\<lparr>lhb_hash := (lhb_hash s)(slot := lhb_hash s slot @ [l])\<rparr>;
                                       s = upd_lock l (\<lambda>b. b\<lparr>lbl_requests := lbl_requests b @ [r]\<rparr>) s;
                                       s = upd_req r (\<lambda>q. q\<lparr>lrq_lock := l\<rparr>) s
                                   in Some (Request r, grant r l s)))))))"

text \<open>
  A conversion that sleeps leaves the new AST to \<open>internal_convert_resume\<close>, which the answer
  \<open>Asleep\<close> hands over to; \<open>new_ast\<close> is whether the AST was a new one when the call began.
\<close>

definition internal_convert ::
  "lm_env \<Rightarrow> nat \<Rightarrow> lock_level \<Rightarrow> int \<Rightarrow> nat \<Rightarrow> nat \<Rightarrow> lhb \<Rightarrow> (answer \<times> lhb) option" where
  "internal_convert env r type lck_wait ast arg s =
     (case get_request r s of
        None \<Rightarrow> None
      | Some req \<Rightarrow>
          (let l = lrq_lock req;
               s = post_history his_convert (int (lrq_owner req)) l r True s;
               s = upd_req r (\<lambda>q. q\<lparr>lrq_requested := type, LRQ_blocking_seen := False\<rparr>) s;
               s = dec_count l (lrq_state req) s
           in if compatibility type (lock_state (lbl_counts (locks s l)))
              then Some (Request r, post_pending l (grant r l
                     (upd_req r (\<lambda>q. q\<lparr>lrq_ast_routine := ast, lrq_ast_argument := arg\<rparr>) s)))
              else
                (let s = inc_count l (lrq_state req) s
                 in if lck_wait \<noteq> 0 then Some (Asleep r, wait_begin env r lck_wait s)
                    else Some (Refused (Some (wait_error lck_wait)), count_denial lck_wait
                           (upd_req r (\<lambda>q. q\<lparr>lrq_requested := lrq_state q\<rparr>) s)))))"

definition internal_convert_resume :: "bool \<Rightarrow> nat \<Rightarrow> int \<Rightarrow> nat \<Rightarrow> nat \<Rightarrow> lhb \<Rightarrow> answer \<times> lhb" where
  "internal_convert_resume new_ast r lck_wait ast arg s =
     (let s = wait_end r s
      in if \<not> LRQ_rejected (requests s r)
         then (Request r, if new_ast then upd_req r (\<lambda>q. q\<lparr>lrq_ast_routine := ast, lrq_ast_argument := arg\<rparr>) s else s)
         else (let s = post_pending (lrq_lock (requests s r)) s
               in (Refused (Some (wait_error lck_wait)), count_denial lck_wait
                     (upd_req r (\<lambda>q. q\<lparr>lrq_requested := lrq_state q\<rparr>) s))))"

definition lock_convert ::
  "lm_env \<Rightarrow> nat \<Rightarrow> lock_level \<Rightarrow> int \<Rightarrow> nat \<Rightarrow> nat \<Rightarrow> lhb \<Rightarrow> (answer \<times> lhb) option" where
  "lock_convert env r type lck_wait ast arg s =
     (case get_request r s of
        None \<Rightarrow> None
      | Some req \<Rightarrow>
          if own_count (owners s (lrq_owner req)) = 0 then Some (Refused None, s)
          else internal_convert env r type lck_wait ast arg
                 (count_operation (lbl_series (locks s (lrq_lock req))) (s\<lparr>lhb_converts := lhb_converts s + 1\<rparr>)))"

fun pending_state :: "nat \<Rightarrow> lock_level \<Rightarrow> nat list \<Rightarrow> lhb \<Rightarrow> lock_level" where
  "pending_state r level [] s = level"
| "pending_state r level (p # ps) s =
     (if LRQ_pending (requests s p) \<and> p \<noteq> r
      then let level = max (lrq_requested (requests s p)) level
           in if level = LCK_EX then level else pending_state r level ps s
      else pending_state r level ps s)"

function lower_state :: "lock_level \<Rightarrow> lock_level \<Rightarrow> lock_level" where
  "lower_state pending state =
     (if state > LCK_none \<and> \<not> compatibility pending state then lower_state pending (prev_level state) else state)"
  by pat_completeness auto

termination
  by (relation "measure (\<lambda>(pending, state). level_no state)")
     (auto simp: less_lock_level_def prev_level_def split: lock_level.splits)

declare lower_state.simps [simp del]

definition downgrade :: "lm_env \<Rightarrow> nat \<Rightarrow> lhb \<Rightarrow> (lock_level \<times> lhb) option" where
  "downgrade env r s =
     (case get_request r s of
        None \<Rightarrow> None
      | Some req \<Rightarrow>
          if own_count (owners s (lrq_owner req)) = 0 then Some (LCK_none, s)
          else
            (let s = s\<lparr>lhb_downgrades := lhb_downgrades s + 1\<rparr>;
                 pending = pending_state r LCK_none (lbl_requests (locks s (lrq_lock req))) s;
                 state = lower_state pending (lrq_state req)
             in if state = LCK_none \<or> state = LCK_null
                then (case internal_dequeue r s of None \<Rightarrow> None | Some s \<Rightarrow> Some (LCK_none, s))
                else (case internal_convert env r state 0 (lrq_ast_routine req) (lrq_ast_argument req) s of
                        None \<Rightarrow> None | Some (_, s) \<Rightarrow> Some (state, s))))"

definition dequeue :: "lm_env \<Rightarrow> nat \<Rightarrow> lhb \<Rightarrow> (bool \<times> lhb) option" where
  "dequeue env r s =
     (case get_request r s of
        None \<Rightarrow> None
      | Some req \<Rightarrow>
          if own_count (owners s (lrq_owner req)) = 0 then Some (False, s)
          else (case internal_dequeue r
                       (count_operation (lbl_series (locks s (lrq_lock req))) (s\<lparr>lhb_deqs := lhb_deqs s + 1\<rparr>)) of
                  None \<Rightarrow> None | Some s \<Rightarrow> Some (True, s)))"

definition repost :: "lm_env \<Rightarrow> nat \<Rightarrow> nat \<Rightarrow> nat \<Rightarrow> lhb \<Rightarrow> lhb" where
  "repost env ast arg w s =
     (if w = 0 then s
      else (case get_free_request (env_remap env) s of
              None \<Rightarrow> s
            | Some (r, s) \<Rightarrow>
                (let s = upd_req r (\<lambda>q. q\<lparr>lrq_in_use := True, LRQ_blocking := False, LRQ_pending := False,
                       LRQ_rejected := False, LRQ_deadlock := False, LRQ_repost := True, LRQ_scanned := False,
                       LRQ_blocking_seen := False, LRQ_just_granted := False, LRQ_wait_timeout := False,
                       lrq_ast_routine := ast, lrq_ast_argument := arg, lrq_requested := LCK_none,
                       lrq_state := LCK_none, lrq_owner := w, lrq_lock := 0\<rparr>) s;
                     s = upd_own w (\<lambda>o'. o'\<lparr>own_blocks := own_blocks o' @ [r]\<rparr>) s
                 in if \<not> OWN_signaled (owners s w) then snd (signal_owner env w s) else s)))"

definition cancelWait :: "nat \<Rightarrow> lhb \<Rightarrow> bool \<times> lhb" where
  "cancelWait w s =
     (if w = 0 \<or> own_count (owners s w) = 0 then (False, s) else (True, post_wakeup w s))"

section \<open>Lock data\<close>

datatype aggregate = LCK_MIN | LCK_MAX | LCK_CNT | LCK_SUM | LCK_AVG | LCK_ANY

definition queryData :: "nat \<Rightarrow> aggregate \<Rightarrow> lhb \<Rightarrow> SINT64 \<times> lhb" where
  "queryData series agg s =
     (if series \<ge> LCK_MAX_SERIES then (0, s)
      else
        (let s = s\<lparr>lhb_query_data := lhb_query_data s + 1\<rparr>;
             q = lhb_data s series;
             sum = foldl (\<lambda>data l. data + lbl_data (locks s l)) 0 q
         in (case agg of
               LCK_CNT \<Rightarrow> of_nat (length q)
             | LCK_SUM \<Rightarrow> sum
             | LCK_AVG \<Rightarrow> (if q = [] then 0 else word_of_int (sint sum sdiv int (length q)))
             | LCK_ANY \<Rightarrow> (if q = [] then 0 else 1)
             | LCK_MIN \<Rightarrow> (if q = [] then 0 else lbl_data (locks s (hd q)))
             | LCK_MAX \<Rightarrow> (if q = [] then 0 else lbl_data (locks s (last q))), s)))"

definition readData :: "nat \<Rightarrow> lhb \<Rightarrow> (SINT64 \<times> lhb) option" where
  "readData r s =
     (case get_request r s of
        None \<Rightarrow> None
      | Some req \<Rightarrow>
          (let lock = locks s (lrq_lock req)
           in Some (lbl_data lock, count_operation (lbl_series lock) (s\<lparr>lhb_read_data := lhb_read_data s + 1\<rparr>))))"

definition readData2 :: "lm_env \<Rightarrow> nat \<Rightarrow> bytes \<Rightarrow> nat \<Rightarrow> lhb \<Rightarrow> SINT64 \<times> lhb" where
  "readData2 env series val w s =
     (if w = 0 then (0, s)
      else (let s = count_operation series (s\<lparr>lhb_read_data := lhb_read_data s + 1\<rparr>)
            in (case fst (find_lock (env_hash env) series val s) of
                  None \<Rightarrow> 0 | Some l \<Rightarrow> lbl_data (locks s l), s)))"

definition writeData :: "nat \<Rightarrow> SINT64 \<Rightarrow> lhb \<Rightarrow> (SINT64 \<times> lhb) option" where
  "writeData r data s =
     (case get_request r s of
        None \<Rightarrow> None
      | Some req \<Rightarrow>
          (let l = lrq_lock req
           in Some (data, count_operation (lbl_series (locks s l))
                      (set_data l data (s\<lparr>lhb_write_data := lhb_write_data s + 1\<rparr>)))))"

end
