(* ===== verification/LockInvariant.thy ===== *)
theory LockInvariant
  imports LockOps "HOL-Library.Multiset"
begin

text \<open>
  The invariants of the lock table, and the proof that every operation keeps them.
\<close>

section \<open>What the operations change\<close>

lemma set_data_simps [simp]:
  "requests (set_data l d s) = requests s"
  "owners (set_data l d s) = owners s"
  "locks (set_data l d s) = (locks s)(l := (locks s l)\<lparr>lbl_data := d\<rparr>)"
  "lhb_free_requests (set_data l d s) = lhb_free_requests s"
  "lhb_free_locks (set_data l d s) = lhb_free_locks s"
  "lhb_used (set_data l d s) = lhb_used s"
  "lhb_hash (set_data l d s) = lhb_hash s"
  "lhb_hash_slots (set_data l d s) = lhb_hash_slots s"
  by (simp_all add: set_data_def remove_data_que_def insert_data_que_def Let_def)

lemma post_history_simps [simp]:
  "requests (post_history p w l r old s) = requests s"
  "owners (post_history p w l r old s) = owners s"
  "locks (post_history p w l r old s) = locks s"
  "lhb_free_requests (post_history p w l r old s) = lhb_free_requests s"
  "lhb_free_locks (post_history p w l r old s) = lhb_free_locks s"
  "lhb_used (post_history p w l r old s) = lhb_used s"
  "lhb_hash (post_history p w l r old s) = lhb_hash s"
  "lhb_hash_slots (post_history p w l r old s) = lhb_hash_slots s"
  "lhb_owners (post_history p w l r old s) = lhb_owners s"
  "processes (post_history p w l r old s) = processes s"
  by (simp_all add: post_history_def Let_def)

lemma post_wakeup_simps [simp]:
  "requests (post_wakeup w s) = requests s"
  "locks (post_wakeup w s) = locks s"
  "own_requests (owners (post_wakeup w s) v) = own_requests (owners s v)"
  "own_blocks (owners (post_wakeup w s) v) = own_blocks (owners s v)"
  "own_pending (owners (post_wakeup w s) v) = own_pending (owners s v)"
  "lhb_free_requests (post_wakeup w s) = lhb_free_requests s"
  "lhb_free_locks (post_wakeup w s) = lhb_free_locks s"
  "lhb_used (post_wakeup w s) = lhb_used s"
  "lhb_hash (post_wakeup w s) = lhb_hash s"
  "lhb_hash_slots (post_wakeup w s) = lhb_hash_slots s"
  by (simp_all add: post_wakeup_def)

lemma grant_requests:
  "requests (grant r l s) = (requests s)(r := (requests s r)
     \<lparr>lrq_state := lrq_requested (requests s r), lrq_data := 0, LRQ_pending := False\<rparr>)"
  by (cases "requests s r"; cases "lrq_data (requests s r) = 0"; cases "LRQ_pending (requests s r)")
     (simp_all add: grant_def Let_def)

lemma grant_locks:
  "locks (grant r l s) = (locks s)(l := (let b = locks s l; req = requests s r;
      c = (lbl_counts b)(lrq_requested req := lbl_counts b (lrq_requested req) + 1) in
     b\<lparr>lbl_counts := c, lbl_state := lock_state c,
       lbl_data := (if lrq_data req \<noteq> 0 then lrq_data req else lbl_data b),
       lbl_pending_lrq_count := (if LRQ_pending req then lbl_pending_lrq_count b - 1 else lbl_pending_lrq_count b)\<rparr>))"
  by (cases "locks s l"; cases "lrq_data (requests s r) = 0"; cases "LRQ_pending (requests s r)")
     (simp_all add: grant_def Let_def)

lemma grant_simps [simp]:
  "own_requests (owners (grant r l s) v) = own_requests (owners s v)"
  "own_blocks (owners (grant r l s) v) = own_blocks (owners s v)"
  "own_pending (owners (grant r l s) v) = (if LRQ_pending (requests s r) \<and> v = lrq_owner (requests s r)
     then remove1 r (own_pending (owners s v)) else own_pending (owners s v))"
  "lhb_free_requests (grant r l s) = lhb_free_requests s"
  "lhb_free_locks (grant r l s) = lhb_free_locks s"
  "lhb_used (grant r l s) = lhb_used s"
  "lhb_hash (grant r l s) = lhb_hash s"
  "lhb_hash_slots (grant r l s) = lhb_hash_slots s"
  by (simp_all add: grant_def Let_def)

lemma count_simps [simp]:
  "requests (dec_count l v s) = requests s" "requests (inc_count l v s) = requests s"
  "owners (dec_count l v s) = owners s" "owners (inc_count l v s) = owners s"
  "lhb_free_requests (dec_count l v s) = lhb_free_requests s" "lhb_free_requests (inc_count l v s) = lhb_free_requests s"
  "lhb_free_locks (dec_count l v s) = lhb_free_locks s" "lhb_free_locks (inc_count l v s) = lhb_free_locks s"
  "lhb_used (dec_count l v s) = lhb_used s" "lhb_used (inc_count l v s) = lhb_used s"
  "lhb_hash (dec_count l v s) = lhb_hash s" "lhb_hash (inc_count l v s) = lhb_hash s"
  "lhb_hash_slots (dec_count l v s) = lhb_hash_slots s" "lhb_hash_slots (inc_count l v s) = lhb_hash_slots s"
  by (simp_all add: dec_count_def inc_count_def)

lemma inc_dec_count [simp]: "inc_count l v (dec_count l v s) = s"
  by (simp add: inc_count_def dec_count_def upd_lock_def)

section \<open>The queue of one lock\<close>

text \<open>
  The state each request of the queue is counted with is \<open>st\<close>: its own state, but
  \<open>LCK_none\<close> for a request in the middle of a conversion.
\<close>

definition queue_ok :: "(nat \<Rightarrow> lrq) \<Rightarrow> lbl \<Rightarrow> nat \<Rightarrow> (nat \<Rightarrow> lock_level) \<Rightarrow> bool" where
  "queue_ok rq b l st \<longleftrightarrow> distinct (lbl_requests b) \<and> length (lbl_requests b) < 65536 \<and>
     (\<forall>r \<in> set (lbl_requests b). lrq_in_use (rq r) \<and> \<not> LRQ_repost (rq r) \<and> lrq_lock (rq r) = l) \<and>
     (\<forall>v. v \<noteq> LCK_none \<longrightarrow> lbl_counts b v = of_nat (count_list (map st (lbl_requests b)) v)) \<and>
     lbl_pending_lrq_count b = of_nat (count_list (map (\<lambda>r. LRQ_pending (rq r)) (lbl_requests b)) True) \<and>
     (\<forall>r \<in> set (lbl_requests b). \<forall>r' \<in> set (lbl_requests b). r \<noteq> r' \<longrightarrow> compatibility (st r) (st r'))"

lemma count_upd:
  "distinct q \<Longrightarrow> r \<in> set q \<Longrightarrow>
     count_list (map (f(r := v)) q) u + (if f r = u then 1 else 0) = count_list (map f q) u + (if v = u then 1 else 0)"
  by (induction q) auto

lemma of_nat_16_zero: "n < 65536 \<Longrightarrow> (of_nat n :: USHORT) = 0 \<longleftrightarrow> n = 0"
proof
  assume "n < 65536" "(of_nat n :: USHORT) = 0"
  then show "n = 0" using unat_of_nat_eq [where 'a = 16, of n] by simp
qed simp

lemma count_upd_word:
  assumes "distinct q" "r \<in> set q"
  shows "(of_nat (count_list (map (f(r := v)) q) u) :: 'a::len word)
    = of_nat (count_list (map f q) u) - (if f r = u then 1 else 0) + (if v = u then 1 else 0)"
  using arg_cong [OF count_upd [OF assms, of f v u], of "of_nat :: nat \<Rightarrow> 'a word"]
  by (simp add: algebra_simps split: if_splits)

lemma count_remove_word:
  assumes "r \<in> set q"
  shows "(of_nat (count_list (map f (remove1 r q)) u) :: 'a::len word)
    = of_nat (count_list (map f q) u) - (if f r = u then 1 else 0)"
proof -
  have "count_list (map f q) u = count_list (map f (remove1 r q)) u + (if f r = u then 1 else 0)"
    using assms by (induction q) auto
  then show ?thesis by simp
qed

text \<open>The state of the lock tells whether a level is compatible with everything that is counted.\<close>

lemma compatible_state:
  assumes ok: "queue_ok rq b l st" and c: "compatibility t (lock_state (lbl_counts b))" and r: "r \<in> set (lbl_requests b)"
  shows "compatibility t (st r)"
proof (cases "st r = LCK_none")
  case False
  let ?q = "lbl_requests b" and ?m = "lock_state (lbl_counts b)"
  have "length ?q < 65536" using ok unfolding queue_ok_def by blast
  then have bound: "count_list (map st ?q) v < 65536" for v
    using count_le_length [of "map st ?q" v] by (metis le_less_trans length_map)
  have "lbl_counts b v = of_nat (count_list (map st ?q) v)" if "v \<noteq> LCK_none" for v
    using ok that unfolding queue_ok_def by blast
  then have counted: "lbl_counts b v \<noteq> 0 \<longleftrightarrow> (\<exists>r \<in> set ?q. st r = v)" if "v \<noteq> LCK_none" for v
    using that bound [of v] by (auto simp: of_nat_16_zero count_list_0_iff)
  have pairs: "compatibility (st a) (st b')" if "a \<in> set ?q" "b' \<in> set ?q" "a \<noteq> b'" for a b'
    using ok that unfolding queue_ok_def by blast
  have le: "st r \<le> ?m" using counted [OF False] r False by (intro lock_state_max) auto
  then have "?m \<noteq> LCK_none" using False by (cases "st r") (auto simp: less_eq_lock_level_def)
  then obtain r' where r': "r' \<in> set ?q" "st r' = ?m" using counted lock_state_held by blast
  show ?thesis
  proof (cases "r = r'")
    case True
    then show ?thesis using c r' by simp
  next
    case False
    then have "compatibility (st r) ?m" using pairs [OF r r'(1)] r'(2) by simp
    then show ?thesis using compatibility_down [OF c _ le] by simp
  qed
qed simp

lemma queue_okD:
  assumes "queue_ok rq b l st"
  shows "distinct (lbl_requests b)" "length (lbl_requests b) < 65536"
    "r \<in> set (lbl_requests b) \<Longrightarrow> lrq_in_use (rq r)" "r \<in> set (lbl_requests b) \<Longrightarrow> \<not> LRQ_repost (rq r)"
    "r \<in> set (lbl_requests b) \<Longrightarrow> lrq_lock (rq r) = l"
    "v \<noteq> LCK_none \<Longrightarrow> lbl_counts b v = of_nat (count_list (map st (lbl_requests b)) v)"
    "lbl_pending_lrq_count b = of_nat (count_list (map (\<lambda>r. LRQ_pending (rq r)) (lbl_requests b)) True)"
    "r \<in> set (lbl_requests b) \<Longrightarrow> r' \<in> set (lbl_requests b) \<Longrightarrow> r \<noteq> r' \<Longrightarrow> compatibility (st r) (st r')"
  using assms unfolding queue_ok_def by blast+

lemma queue_okI:
  assumes "distinct (lbl_requests b)" "length (lbl_requests b) < 65536"
    "\<And>r. r \<in> set (lbl_requests b) \<Longrightarrow> lrq_in_use (rq r) \<and> \<not> LRQ_repost (rq r) \<and> lrq_lock (rq r) = l"
    "\<And>v. v \<noteq> LCK_none \<Longrightarrow> lbl_counts b v = of_nat (count_list (map st (lbl_requests b)) v)"
    "lbl_pending_lrq_count b = of_nat (count_list (map (\<lambda>r. LRQ_pending (rq r)) (lbl_requests b)) True)"
    "\<And>r r'. r \<in> set (lbl_requests b) \<Longrightarrow> r' \<in> set (lbl_requests b) \<Longrightarrow> r \<noteq> r' \<Longrightarrow> compatibility (st r) (st r')"
  shows "queue_ok rq b l st"
  using assms unfolding queue_ok_def by blast

lemma queue_ok_cong:
  assumes ok: "queue_ok rq b l st" and b': "lbl_requests b' = lbl_requests b"
    "\<And>v. v \<noteq> LCK_none \<Longrightarrow> lbl_counts b' v = lbl_counts b v" "lbl_pending_lrq_count b' = lbl_pending_lrq_count b"
    and same: "\<And>x. x \<in> set (lbl_requests b) \<Longrightarrow> lrq_in_use (rq' x) = lrq_in_use (rq x) \<and> LRQ_repost (rq' x) = LRQ_repost (rq x) \<and>
       lrq_lock (rq' x) = lrq_lock (rq x) \<and> LRQ_pending (rq' x) = LRQ_pending (rq x) \<and> st' x = st x"
  shows "queue_ok rq' b' l st'"
proof -
  have st: "map st' (lbl_requests b') = map st (lbl_requests b)" using same b'(1) by simp
  have p: "map (\<lambda>r. LRQ_pending (rq' r)) (lbl_requests b') = map (\<lambda>r. LRQ_pending (rq r)) (lbl_requests b)"
    using same b'(1) by simp
  note D = queue_okD [OF ok]
  show ?thesis
  proof (rule queue_okI)
    show "lbl_counts b' v = of_nat (count_list (map st' (lbl_requests b')) v)" if "v \<noteq> LCK_none" for v
      unfolding st using D(6) [OF that] b'(2) [OF that] by simp
    show "lbl_pending_lrq_count b' = of_nat (count_list (map (\<lambda>r. LRQ_pending (rq' r)) (lbl_requests b')) True)"
      unfolding p using D(7) b'(3) by simp
  qed (use D b'(1) same in auto)
qed

lemma queue_ok_uncount:
  assumes "queue_ok rq b l st" "r \<in> set (lbl_requests b)"
  shows "queue_ok rq (b\<lparr>lbl_counts := (lbl_counts b)(st r := lbl_counts b (st r) - 1)\<rparr>) l (st(r := LCK_none))"
proof -
  note ok = queue_okD [OF assms(1)]
  have "((lbl_counts b)(st r := lbl_counts b (st r) - 1)) v = of_nat (count_list (map (st(r := LCK_none)) (lbl_requests b)) v)"
    if v: "v \<noteq> LCK_none" for v
    using count_upd_word [OF ok(1) assms(2), of st LCK_none v, where 'a = 16] v ok(6) [OF v] by auto
  then show ?thesis using ok unfolding queue_ok_def by auto
qed

lemma queue_ok_grant:
  assumes ok: "queue_ok rq b l st" and r: "r \<in> set (lbl_requests b)" "st r = LCK_none"
    and c: "compatibility t (lock_state (lbl_counts b))"
    and b': "lbl_requests b' = lbl_requests b" "lbl_counts b' = (lbl_counts b)(t := lbl_counts b t + 1)"
      "lbl_pending_lrq_count b' = (if LRQ_pending (rq r) then lbl_pending_lrq_count b - 1 else lbl_pending_lrq_count b)"
    and q': "lrq_in_use q' = lrq_in_use (rq r)" "LRQ_repost q' = LRQ_repost (rq r)" "lrq_lock q' = lrq_lock (rq r)"
      "\<not> LRQ_pending q'"
  shows "queue_ok (rq(r := q')) b' l (st(r := t))"
proof -
  note D = queue_okD [OF ok]
  have "((lbl_counts b)(t := lbl_counts b t + 1)) v = of_nat (count_list (map (st(r := t)) (lbl_requests b)) v)"
    if v: "v \<noteq> LCK_none" for v
    using count_upd_word [OF D(1) r(1), of st t v, where 'a = 16] v D(6) [OF v] r(2) by auto
  moreover have "(\<lambda>x. LRQ_pending ((rq(r := q')) x)) = (\<lambda>x. LRQ_pending (rq x))(r := False)" using q' by auto
  then have "lbl_pending_lrq_count b' = of_nat (count_list (map (\<lambda>x. LRQ_pending ((rq(r := q')) x)) (lbl_requests b)) True)"
    using count_upd_word [OF D(1) r(1), of "\<lambda>x. LRQ_pending (rq x)" False True, where 'a = 16] b'(3) D(7) by simp
  moreover have "compatibility ((st(r := t)) x) ((st(r := t)) y)"
    if "x \<in> set (lbl_requests b)" "y \<in> set (lbl_requests b)" "x \<noteq> y" for x y
    using that D(8) compatible_state [OF ok c] by (auto simp: compatibility_sym [of _ t])
  ultimately show ?thesis using D b' q' unfolding queue_ok_def by auto
qed

lemma pending_upd: "(\<lambda>x. LRQ_pending ((rq(r := q')) x)) = (\<lambda>x. LRQ_pending (rq x))(r := LRQ_pending q')"
  by auto

lemma queue_ok_remove:
  assumes ok: "queue_ok rq b l st" and r: "r \<in> set (lbl_requests b)"
    and b': "lbl_requests b' = remove1 r (lbl_requests b)"
      "\<And>v. v \<noteq> LCK_none \<Longrightarrow> lbl_counts b' v = (if v = st r then lbl_counts b v - 1 else lbl_counts b v)"
      "lbl_pending_lrq_count b' = (if LRQ_pending (rq r) then lbl_pending_lrq_count b - 1 else lbl_pending_lrq_count b)"
  shows "queue_ok (rq(r := q')) b' l (st(r := v'))"
proof -
  note D = queue_okD [OF ok]
  have d: "r \<notin> set (remove1 r (lbl_requests b))" using D(1) by (simp add: set_remove1_eq)
  show ?thesis
  proof (rule queue_okI)
    show "lbl_pending_lrq_count b' = of_nat (count_list (map (\<lambda>x. LRQ_pending ((rq(r := q')) x)) (lbl_requests b')) True)"
      using count_remove_word [OF r, of "\<lambda>x. LRQ_pending (rq x)" True, where 'a = 16] D(7) d
      unfolding pending_upd b'(1,3) by simp
    show "lbl_counts b' v = of_nat (count_list (map (st(r := v')) (lbl_requests b')) v)" if "v \<noteq> LCK_none" for v
      using count_remove_word [OF r, of st v, where 'a = 16] D(6) [OF that] d
      unfolding b'(1) b'(2) [OF that] by auto
    show "length (lbl_requests b') < 65536" using D(2) b'(1) by (auto simp: length_remove1)
  qed (use D b'(1) in \<open>auto simp: set_remove1_eq\<close>)
qed

lemma queue_ok_append:
  assumes ok: "queue_ok rq b l st" and r: "r \<notin> set (lbl_requests b)" "length (lbl_requests b) < 65535"
    and b': "lbl_requests b' = lbl_requests b @ [r]" "lbl_counts b' = lbl_counts b" "lbl_pending_lrq_count b' = lbl_pending_lrq_count b"
    and q': "lrq_in_use q'" "\<not> LRQ_repost q'" "lrq_lock q' = l" "\<not> LRQ_pending q'"
  shows "queue_ok (rq(r := q')) b' l (st(r := LCK_none))"
proof -
  note D = queue_okD [OF ok]
  show ?thesis
  proof (rule queue_okI)
    show "lbl_pending_lrq_count b' = of_nat (count_list (map (\<lambda>x. LRQ_pending ((rq(r := q')) x)) (lbl_requests b')) True)"
      unfolding pending_upd b' using D(7) r(1) q'(4) by simp
    show "lbl_counts b' v = of_nat (count_list (map (st(r := LCK_none)) (lbl_requests b')) v)" if "v \<noteq> LCK_none" for v
      unfolding b' using D(6) [OF that] r(1) that by simp
  qed (use D b'(1) r q' in auto)
qed

lemma count_map_mset: "mset xs = mset ys \<Longrightarrow> count_list (map f xs) v = count_list (map f ys) v"
  by (metis count_mset mset_map)

lemma queue_ok_perm:
  assumes ok: "queue_ok rq b l st" and b': "mset (lbl_requests b') = mset (lbl_requests b)"
    "lbl_counts b' = lbl_counts b" "lbl_pending_lrq_count b' = lbl_pending_lrq_count b"
  shows "queue_ok rq b' l st"
proof -
  have q: "distinct (lbl_requests b') = distinct (lbl_requests b)" "length (lbl_requests b') = length (lbl_requests b)"
    "set (lbl_requests b') = set (lbl_requests b)"
    using mset_eq_imp_distinct_iff [OF b'(1)] mset_eq_length [OF b'(1)] mset_eq_setD [OF b'(1)] by simp_all
  show ?thesis unfolding queue_ok_def q b' count_map_mset [OF b'(1)]
    using ok unfolding queue_ok_def .
qed

section \<open>The table\<close>

definition lock_ok :: "lhb \<Rightarrow> nat \<Rightarrow> bool" where
  "lock_ok s l \<longleftrightarrow> queue_ok (requests s) (locks s l) l (\<lambda>r. lrq_state (requests s r)) \<and>
     lbl_state (locks s l) = lock_state (lbl_counts (locks s l)) \<and> lbl_requests (locks s l) \<noteq> []"

definition free_ok :: "lhb \<Rightarrow> bool" where
  "free_ok s \<longleftrightarrow> (\<forall>r \<in> set (lhb_free_requests s). \<not> lrq_in_use (requests s r)) \<and> distinct (lhb_free_requests s) \<and>
     (\<forall>r. lhb_used s \<le> r \<longrightarrow> \<not> lrq_in_use (requests s r) \<and> r \<notin> set (lhb_free_requests s)) \<and>
     (\<forall>l \<in> set (lhb_free_locks s). \<not> lbl_in_use (locks s l)) \<and> distinct (lhb_free_locks s) \<and>
     (\<forall>l. lhb_used s \<le> l \<longrightarrow> \<not> lbl_in_use (locks s l) \<and> l \<notin> set (lhb_free_locks s)) \<and>
     \<not> lbl_in_use (locks s 0) \<and> 0 \<notin> set (lhb_free_locks s) \<and> 0 < lhb_used s"

definition table_ok :: "lhb \<Rightarrow> bool" where
  "table_ok s \<longleftrightarrow> (\<forall>l. lbl_in_use (locks s l) \<longrightarrow> lock_ok s l) \<and>
     (\<forall>r. lrq_in_use (requests s r) \<longrightarrow> \<not> LRQ_repost (requests s r) \<longrightarrow>
        lbl_in_use (locks s (lrq_lock (requests s r))) \<and> r \<in> set (lbl_requests (locks s (lrq_lock (requests s r))))) \<and>
     free_ok s"

lemma table_okD:
  assumes "table_ok s"
  shows "lbl_in_use (locks s l) \<Longrightarrow> lock_ok s l"
    "lrq_in_use (requests s r) \<Longrightarrow> \<not> LRQ_repost (requests s r) \<Longrightarrow> lbl_in_use (locks s (lrq_lock (requests s r)))"
    "lrq_in_use (requests s r) \<Longrightarrow> \<not> LRQ_repost (requests s r) \<Longrightarrow> r \<in> set (lbl_requests (locks s (lrq_lock (requests s r))))"
    "free_ok s"
  using assms unfolding table_ok_def by blast+

lemma used_request:
  assumes "free_ok s" "lrq_in_use (requests s r)"
  shows "r < lhb_used s" "r \<notin> set (lhb_free_requests s)"
  using assms unfolding free_ok_def by (meson not_le)+

lemma used_lock:
  assumes "free_ok s" "lbl_in_use (locks s l)"
  shows "l \<noteq> 0" "l < lhb_used s" "l \<notin> set (lhb_free_locks s)"
  using assms unfolding free_ok_def by (metis, metis not_le, metis)

lemma free_ok_mono:
  assumes "free_ok s" "\<And>x. lrq_in_use (requests s' x) \<Longrightarrow> lrq_in_use (requests s x)"
    "\<And>x. lbl_in_use (locks s' x) \<Longrightarrow> lbl_in_use (locks s x)"
    "lhb_free_requests s' = lhb_free_requests s" "lhb_free_locks s' = lhb_free_locks s" "lhb_used s' = lhb_used s"
  shows "free_ok s'"
  using assms unfolding free_ok_def by metis

lemma lock_okD:
  assumes "lock_ok s l"
  shows "queue_ok (requests s) (locks s l) l (\<lambda>r. lrq_state (requests s r))"
    "lbl_state (locks s l) = lock_state (lbl_counts (locks s l))" "lbl_requests (locks s l) \<noteq> []"
  using assms unfolding lock_ok_def by blast+

lemma queue_member:
  assumes "table_ok s" "lbl_in_use (locks s l)" "r \<in> set (lbl_requests (locks s l))"
  shows "lrq_in_use (requests s r)" "\<not> LRQ_repost (requests s r)" "lrq_lock (requests s r) = l"
  using queue_okD(3-5) [OF lock_okD(1) [OF table_okD(1) [OF assms(1,2)]] assms(3)] by simp_all

text \<open>Two tables that agree on what the invariant reads.\<close>

definition same_table :: "lhb \<Rightarrow> lhb \<Rightarrow> bool" where
  "same_table s s' \<longleftrightarrow>
     (\<forall>r. lrq_in_use (requests s' r) = lrq_in_use (requests s r) \<and> LRQ_repost (requests s' r) = LRQ_repost (requests s r) \<and>
        lrq_lock (requests s' r) = lrq_lock (requests s r) \<and> lrq_state (requests s' r) = lrq_state (requests s r) \<and>
        LRQ_pending (requests s' r) = LRQ_pending (requests s r)) \<and>
     (\<forall>l. lbl_in_use (locks s' l) = lbl_in_use (locks s l) \<and> lbl_state (locks s' l) = lbl_state (locks s l) \<and>
        lbl_requests (locks s' l) = lbl_requests (locks s l) \<and> lbl_counts (locks s' l) = lbl_counts (locks s l) \<and>
        lbl_pending_lrq_count (locks s' l) = lbl_pending_lrq_count (locks s l)) \<and>
     lhb_free_requests s' = lhb_free_requests s \<and> lhb_free_locks s' = lhb_free_locks s \<and> lhb_used s' = lhb_used s"

lemma same_table_refl [simp]: "same_table s s" by (simp add: same_table_def)

lemma same_table_trans: "same_table s t \<Longrightarrow> same_table t u \<Longrightarrow> same_table s u" by (simp add: same_table_def)

lemma table_ok_same: "table_ok s \<Longrightarrow> same_table s s' \<Longrightarrow> table_ok s'"
proof -
  assume ok: "table_ok s" and same: "same_table s s'"
  have "lock_ok s' l" if "lbl_in_use (locks s' l)" for l
  proof -
    have "lock_ok s l" using table_okD(1) [OF ok] that same by (simp add: same_table_def)
    note D = lock_okD [OF this]
    have "queue_ok (requests s') (locks s' l) l (\<lambda>r. lrq_state (requests s' r))"
      by (rule queue_ok_cong [OF D(1)]) (use same in \<open>auto simp: same_table_def\<close>)
    then show ?thesis using D same by (simp add: lock_ok_def same_table_def)
  qed
  moreover have "free_ok s'" using table_okD(4) [OF ok] same by (simp add: free_ok_def same_table_def)
  ultimately show ?thesis using table_okD(2,3) [OF ok] same by (simp add: table_ok_def same_table_def)
qed

named_theorems same_table

lemma same_table_history [same_table]: "same_table s (post_history p w l r old s)"
  by (simp add: same_table_def)

lemma same_table_wakeup [same_table]: "same_table s (post_wakeup w s)"
  by (simp add: same_table_def)

lemma same_table_set_data [same_table]: "same_table s (set_data l d s)"
  by (simp add: same_table_def)

section \<open>Granting\<close>

text \<open>A change of one request and its lock.\<close>

lemma table_ok_request:
  assumes ok: "table_ok s" and l: "lbl_in_use (locks s l)" "r \<in> set (lbl_requests (locks s l))"
    and rq: "requests s' = (requests s)(r := q')" "lrq_in_use q'" "\<not> LRQ_repost q'" "lrq_lock q' = l"
    and lk: "locks s' = (locks s)(l := b')" "lbl_in_use b'" "set (lbl_requests b') = set (lbl_requests (locks s l))"
      "lbl_state b' = lock_state (lbl_counts b')" "queue_ok (requests s') b' l (\<lambda>x. lrq_state (requests s' x))"
    and free: "lhb_free_requests s' = lhb_free_requests s" "lhb_free_locks s' = lhb_free_locks s" "lhb_used s' = lhb_used s"
  shows "table_ok s'"
proof -
  note mem = queue_member [OF ok l]
  have "lock_ok s' l'" if "lbl_in_use (locks s' l')" for l'
  proof (cases "l' = l")
    case True
    have "lbl_requests b' \<noteq> []" using lk(3) l(2) by auto
    then show ?thesis using True lk by (simp add: lock_ok_def)
  next
    case False
    then have lk': "locks s' l' = locks s l'" "lbl_in_use (locks s l')" using that lk(1) by simp_all
    note D = lock_okD [OF table_okD(1) [OF ok lk'(2)]]
    have "r \<notin> set (lbl_requests (locks s l'))" using queue_member(3) [OF ok lk'(2), of r] mem(3) False by auto
    then have "queue_ok (requests s') (locks s l') l' (\<lambda>x. lrq_state (requests s' x))"
      by (intro queue_ok_cong [OF D(1)]) (auto simp: rq(1))
    then show ?thesis using D lk' by (simp add: lock_ok_def)
  qed
  moreover have "free_ok s'"
    by (rule free_ok_mono [OF table_okD(4) [OF ok]])
       (simp_all add: rq(1,2) lk(1,2) free mem(1) l(1) fun_upd_apply split: if_splits)
  moreover have "lbl_in_use (locks s' (lrq_lock (requests s' x))) \<and> x \<in> set (lbl_requests (locks s' (lrq_lock (requests s' x))))"
    if x: "lrq_in_use (requests s' x)" "\<not> LRQ_repost (requests s' x)" for x
  proof (cases "x = r")
    case True
    then show ?thesis using lk(2,3) l(2) by (simp add: rq(1,4) lk(1))
  next
    case False
    then show ?thesis using x table_okD(2,3) [OF ok, of x] lk(2,3) l
      by (cases "lrq_lock (requests s x) = l") (simp_all add: rq(1) lk(1))
  qed
  ultimately show ?thesis unfolding table_ok_def by blast
qed

lemma grant_ok:
  assumes ok: "table_ok s" and l: "lbl_in_use (locks s l)" "r \<in> set (lbl_requests (locks s l))"
    and rq: "requests s1 = requests s" and lk: "locks s1 = (locks s)(l := b)" "lbl_in_use b"
      "lbl_requests b = lbl_requests (locks s l)"
    and q: "queue_ok (requests s) b l ((\<lambda>x. lrq_state (requests s x))(r := LCK_none))"
    and c: "compatibility (lrq_requested (requests s r)) (lock_state (lbl_counts b))"
    and free: "lhb_free_requests s1 = lhb_free_requests s" "lhb_free_locks s1 = lhb_free_locks s" "lhb_used s1 = lhb_used s"
  shows "table_ok (grant r l s1)"
proof -
  let ?req = "requests s r"
  let ?q' = "?req\<lparr>lrq_state := lrq_requested ?req, lrq_data := 0, LRQ_pending := False\<rparr>"
  let ?c = "(lbl_counts b)(lrq_requested ?req := lbl_counts b (lrq_requested ?req) + 1)"
  let ?b' = "b\<lparr>lbl_counts := ?c, lbl_state := lock_state ?c,
       lbl_data := (if lrq_data ?req \<noteq> 0 then lrq_data ?req else lbl_data b),
       lbl_pending_lrq_count := (if LRQ_pending ?req then lbl_pending_lrq_count b - 1 else lbl_pending_lrq_count b)\<rparr>"
  note mem = queue_member [OF ok l]
  have rq': "requests (grant r l s1) = (requests s)(r := ?q')" by (simp add: grant_requests rq)
  have lk': "locks (grant r l s1) = (locks s)(l := ?b')" by (simp add: grant_locks rq lk(1) Let_def)
  have r: "r \<in> set (lbl_requests b)" using l(2) lk(3) by simp
  have "queue_ok ((requests s)(r := ?q')) ?b' l (((\<lambda>x. lrq_state (requests s x))(r := LCK_none))(r := lrq_requested ?req))"
    by (rule queue_ok_grant [OF q r _ c]) simp_all
  moreover have "((\<lambda>x. lrq_state (requests s x))(r := LCK_none))(r := lrq_requested ?req)
      = (\<lambda>x. lrq_state (((requests s)(r := ?q')) x))" by auto
  ultimately have "queue_ok (requests (grant r l s1)) ?b' l (\<lambda>x. lrq_state (requests (grant r l s1) x))"
    unfolding rq' by simp
  then show ?thesis
    by (intro table_ok_request [OF ok l rq' _ _ _ lk']) (use mem lk(2,3) free in simp_all)
qed

text \<open>A request that holds nothing is granted next to what is held.\<close>

lemma grant_new_ok:
  assumes ok: "table_ok s" and l: "lbl_in_use (locks s l)" "r \<in> set (lbl_requests (locks s l))"
    and r: "lrq_state (requests s r) = LCK_none"
    and c: "compatibility (lrq_requested (requests s r)) (lbl_state (locks s l))"
  shows "table_ok (grant r l s)"
proof -
  note D = lock_okD [OF table_okD(1) [OF ok l(1)]]
  have "(\<lambda>x. lrq_state (requests s x))(r := LCK_none) = (\<lambda>x. lrq_state (requests s x))" using r by auto
  then show ?thesis using D c by (intro grant_ok [OF ok l]) (simp_all add: l(1))
qed

text \<open>A conversion is granted next to what the others hold.\<close>

lemma grant_conversion_ok:
  assumes ok: "table_ok s" and l: "lbl_in_use (locks s l)" "r \<in> set (lbl_requests (locks s l))"
    and s1: "s1 = dec_count l (lrq_state (requests s r)) s"
    and c: "compatibility (lrq_requested (requests s r)) (lock_state (lbl_counts (locks s1 l)))"
  shows "table_ok (grant r l s1)"
proof -
  note D = lock_okD [OF table_okD(1) [OF ok l(1)]]
  have lk: "locks s1 = (locks s)(l := (locks s l)\<lparr>lbl_counts := (lbl_counts (locks s l))
      (lrq_state (requests s r) := lbl_counts (locks s l) (lrq_state (requests s r)) - 1)\<rparr>)"
    by (simp add: s1 dec_count_def)
  have q: "queue_ok (requests s) ((locks s l)\<lparr>lbl_counts := (lbl_counts (locks s l))
      (lrq_state (requests s r) := lbl_counts (locks s l) (lrq_state (requests s r)) - 1)\<rparr>) l
      ((\<lambda>x. lrq_state (requests s x))(r := LCK_none))"
    using queue_ok_uncount [OF D(1) l(2)] by simp
  show ?thesis
    by (rule grant_ok [OF ok l _ lk _ _ q]) (use c lk l(1) in \<open>simp_all add: s1\<close>)
qed

section \<open>Pending requests\<close>

lemma grant_keeps:
  "lbl_requests (locks (grant r l s) l') = lbl_requests (locks s l')"
  "lbl_in_use (locks (grant r l s) l') = lbl_in_use (locks s l')"
  "lbl_key (locks (grant r l s) l') = lbl_key (locks s l')"
  "lbl_series (locks (grant r l s) l') = lbl_series (locks s l')"
  by (simp_all add: grant_locks Let_def)

lemma dec_count_keeps [simp]:
  "lbl_requests (locks (dec_count l v s) l') = lbl_requests (locks s l')"
  "lbl_in_use (locks (dec_count l v s) l') = lbl_in_use (locks s l')"
  by (simp_all add: dec_count_def)

lemma pending_loop_keeps:
  "lbl_requests (locks (pending_loop l rs s) l') = lbl_requests (locks s l')"
  "lbl_in_use (locks (pending_loop l rs s) l') = lbl_in_use (locks s l')"
  by (induction l rs s rule: pending_loop.induct) (simp_all add: Let_def grant_keeps)

lemma pending_loop_ok:
  "table_ok s \<Longrightarrow> lbl_in_use (locks s l) \<Longrightarrow> set rs \<subseteq> set (lbl_requests (locks s l)) \<Longrightarrow> table_ok (pending_loop l rs s)"
proof (induction l rs s rule: pending_loop.induct)
  case (1 l s)
  then show ?case by simp
next
  case (2 l r rs s)
  let ?s1 = "dec_count l (lrq_state (requests s r)) s"
  have r: "r \<in> set (lbl_requests (locks s l))" and rs: "set rs \<subseteq> set (lbl_requests (locks s l))" using "2.prems"(3) by simp_all
  note ok = "2.prems"(1,2)
  consider "\<not> LRQ_pending (requests s r)"
    | "LRQ_pending (requests s r)" "lrq_state (requests s r) \<noteq> LCK_none"
        "compatibility (lrq_requested (requests s r)) (lock_state (lbl_counts (locks ?s1 l)))"
    | "LRQ_pending (requests s r)" "lrq_state (requests s r) \<noteq> LCK_none"
        "\<not> compatibility (lrq_requested (requests s r)) (lock_state (lbl_counts (locks ?s1 l)))"
    | "LRQ_pending (requests s r)" "lrq_state (requests s r) = LCK_none"
        "compatibility (lrq_requested (requests s r)) (lbl_state (locks s l))"
    | "LRQ_pending (requests s r)" "lrq_state (requests s r) = LCK_none"
        "\<not> compatibility (lrq_requested (requests s r)) (lbl_state (locks s l))" by blast
  then show ?case
  proof cases
    case 1
    then show ?thesis using "2.IH"(1) [OF refl] ok rs by simp
  next
    case 2
    have "table_ok (grant r l ?s1)" by (rule grant_conversion_ok [OF ok r refl 2(3)])
    then show ?thesis using "2.IH"(2) [OF refl _ _ refl] 2 ok(2) rs by (simp add: grant_keeps)
  next
    case 3
    then show ?thesis using table_ok_same [OF ok(1) same_table_wakeup] by simp
  next
    case 4
    have "table_ok (grant r l s)" by (rule grant_new_ok [OF ok r 4(2,3)])
    then show ?thesis using "2.IH"(3) [OF refl] 4 ok(2) rs by (simp add: grant_keeps)
  next
    case 5
    then show ?thesis using table_ok_same [OF ok(1) same_table_wakeup] by simp
  qed
qed

lemma same_table_just_granted: "same_table s (just_granted_loop rs s)"
proof (induction rs s rule: just_granted_loop.induct)
  case (2 r rs s)
  have "same_table s (upd_req r (\<lambda>q. q\<lparr>LRQ_just_granted := True\<rparr>) s)" by (simp add: same_table_def)
  then show ?case using 2 [OF refl] by (auto simp: Let_def intro: same_table_trans)
qed simp

lemma post_pending_ok:
  assumes "table_ok s" "lbl_in_use (locks s l)"
  shows "table_ok (post_pending l s)"
proof -
  have "table_ok (pending_loop l (lbl_requests (locks s l)) s)" by (rule pending_loop_ok [OF assms order_refl])
  then show ?thesis using assms(1) table_ok_same [OF _ same_table_just_granted]
    by (simp add: post_pending_def Let_def)
qed

section \<open>Releasing\<close>

lemma unlink_requests:
  "requests (unlink_request r s) = (requests s)(r := (requests s r)\<lparr>lrq_in_use := False, LRQ_blocking := False,
     LRQ_pending := False, LRQ_blocking_seen := False, LRQ_just_granted := False\<rparr>)"
  by (cases "requests s r"; cases "LRQ_pending (requests s r)"; cases "LRQ_blocking (requests s r)")
     (simp_all add: unlink_request_def free_request_def Let_def)

lemma unlink_locks:
  "locks (unlink_request r s) = (locks s)(lrq_lock (requests s r) := (let b = locks s (lrq_lock (requests s r)) in
     b\<lparr>lbl_requests := remove1 r (lbl_requests b), lbl_pending_lrq_count :=
       (if LRQ_pending (requests s r) then lbl_pending_lrq_count b - 1 else lbl_pending_lrq_count b)\<rparr>))"
  by (cases "LRQ_pending (requests s r)"; cases "LRQ_blocking (requests s r)")
     (simp_all add: unlink_request_def free_request_def Let_def)

lemma unlink_simps [simp]:
  "lhb_free_requests (unlink_request r s) = lhb_free_requests s @ [r]"
  "lhb_free_locks (unlink_request r s) = lhb_free_locks s"
  "lhb_used (unlink_request r s) = lhb_used s"
  "lhb_hash (unlink_request r s) = lhb_hash s"
  "lhb_hash_slots (unlink_request r s) = lhb_hash_slots s"
  by (simp_all add: unlink_request_def free_request_def Let_def)

lemma drop_state_simps [simp]:
  "requests (drop_state l v s) = requests s"
  "owners (drop_state l v s) = owners s"
  "lhb_free_requests (drop_state l v s) = lhb_free_requests s"
  "lhb_free_locks (drop_state l v s) = lhb_free_locks s"
  "lhb_used (drop_state l v s) = lhb_used s"
  "lhb_hash (drop_state l v s) = lhb_hash s"
  "lhb_hash_slots (drop_state l v s) = lhb_hash_slots s"
  by (simp_all add: drop_state_def Let_def)

lemma drop_state_locks:
  "locks (drop_state l v s) = (locks s)(l := (let b = locks s l; c = (lbl_counts b)(v := lbl_counts b v - 1) in
     if v = LCK_none then b
     else b\<lparr>lbl_counts := c, lbl_state := (if c v = 0 then lock_state c else lbl_state b)\<rparr>))"
  by (cases "v = LCK_none") (simp_all add: drop_state_def dec_count_def Let_def)

text \<open>A request disappears from a lock that keeps others.\<close>

lemma table_ok_remove:
  assumes ok: "table_ok s" and l: "lbl_in_use (locks s l)" "r \<in> set (lbl_requests (locks s l))"
    and rq: "requests s' = (requests s)(r := q')" "\<not> lrq_in_use q'"
    and lk: "locks s' = (locks s)(l := b')" "lbl_in_use b'" "lbl_requests b' = remove1 r (lbl_requests (locks s l))"
      "lbl_requests b' \<noteq> []" "lbl_state b' = lock_state (lbl_counts b')"
      "queue_ok (requests s') b' l (\<lambda>x. lrq_state (requests s' x))"
    and free: "lhb_free_requests s' = lhb_free_requests s @ [r]" "lhb_free_locks s' = lhb_free_locks s" "lhb_used s' = lhb_used s"
  shows "table_ok s'"
proof -
  note mem = queue_member [OF ok l]
  have "lock_ok s' l'" if "lbl_in_use (locks s' l')" for l'
  proof (cases "l' = l")
    case True
    then show ?thesis using lk by (simp add: lock_ok_def)
  next
    case False
    then have lk': "locks s' l' = locks s l'" "lbl_in_use (locks s l')" using that lk(1) by simp_all
    note D = lock_okD [OF table_okD(1) [OF ok lk'(2)]]
    have "r \<notin> set (lbl_requests (locks s l'))" using queue_member(3) [OF ok lk'(2), of r] mem(3) False by auto
    then have "queue_ok (requests s') (locks s l') l' (\<lambda>x. lrq_state (requests s' x))"
      by (intro queue_ok_cong [OF D(1)]) (auto simp: rq(1))
    then show ?thesis using D lk' by (simp add: lock_ok_def)
  qed
  moreover have "free_ok s'"
    using table_okD(4) [OF ok] used_lock [OF table_okD(4) [OF ok] l(1)] used_request [OF table_okD(4) [OF ok] mem(1)]
      rq lk(1,2) free l(1) by (auto simp: free_ok_def)
  moreover have "lbl_in_use (locks s' (lrq_lock (requests s' x))) \<and> x \<in> set (lbl_requests (locks s' (lrq_lock (requests s' x))))"
    if x: "lrq_in_use (requests s' x)" "\<not> LRQ_repost (requests s' x)" for x
  proof -
    have "x \<noteq> r" using x rq by auto
    then show ?thesis using x table_okD(2,3) [OF ok, of x] rq(1) lk(1-3) by (auto simp: in_set_remove1)
  qed
  ultimately show ?thesis unfolding table_ok_def by blast
qed

text \<open>The last request of a lock disappears with the lock.\<close>

lemma table_ok_free_lock:
  assumes ok: "table_ok s" and l: "lbl_in_use (locks s l)" "lbl_requests (locks s l) = [r]"
    and rq: "requests s' = (requests s)(r := q')" "\<not> lrq_in_use q'"
    and lk: "locks s' = (locks s)(l := b')" "\<not> lbl_in_use b'"
    and free: "lhb_free_requests s' = lhb_free_requests s @ [r]" "lhb_free_locks s' = lhb_free_locks s @ [l]"
      "lhb_used s' = lhb_used s"
  shows "table_ok s'"
proof -
  have r: "r \<in> set (lbl_requests (locks s l))" using l(2) by simp
  note mem = queue_member [OF ok l(1) r]
  have other: "lrq_lock (requests s x) \<noteq> l" if "x \<noteq> r" "lrq_in_use (requests s x)" "\<not> LRQ_repost (requests s x)" for x
    using table_okD(3) [OF ok that(2,3)] that(1) l(2) by auto
  have "lock_ok s' l'" if "lbl_in_use (locks s' l')" for l'
  proof -
    have "l' \<noteq> l" using that lk by auto
    then have lk': "locks s' l' = locks s l'" "lbl_in_use (locks s l')" using that lk(1) by simp_all
    note D = lock_okD [OF table_okD(1) [OF ok lk'(2)]]
    have "r \<notin> set (lbl_requests (locks s l'))" using queue_member(3) [OF ok lk'(2), of r] mem(3) \<open>l' \<noteq> l\<close> by auto
    then have "queue_ok (requests s') (locks s l') l' (\<lambda>x. lrq_state (requests s' x))"
      by (intro queue_ok_cong [OF D(1)]) (auto simp: rq(1))
    then show ?thesis using D lk' by (simp add: lock_ok_def)
  qed
  moreover have "free_ok s'"
    using table_okD(4) [OF ok] used_lock [OF table_okD(4) [OF ok] l(1)] used_request [OF table_okD(4) [OF ok] mem(1)]
      rq lk free by (auto simp: free_ok_def)
  moreover have "lbl_in_use (locks s' (lrq_lock (requests s' x))) \<and> x \<in> set (lbl_requests (locks s' (lrq_lock (requests s' x))))"
    if x: "lrq_in_use (requests s' x)" "\<not> LRQ_repost (requests s' x)" for x
  proof -
    have "x \<noteq> r" using x rq by auto
    then show ?thesis using x table_okD(2,3) [OF ok, of x] other [of x] rq(1) lk(1) by simp
  qed
  ultimately show ?thesis unfolding table_ok_def by blast
qed

lemma lock_state_pattern: "(\<And>v. v \<noteq> LCK_none \<Longrightarrow> (c v = 0) = (d v = 0)) \<Longrightarrow> lock_state c = lock_state d"
  by (simp add: lock_state_def)

lemma count_nonzero:
  assumes "queue_ok rq b l st" "r \<in> set (lbl_requests b)" "st r \<noteq> LCK_none"
  shows "lbl_counts b (st r) \<noteq> 0"
proof -
  note D = queue_okD [OF assms(1)]
  have "count_list (map st (lbl_requests b)) (st r) < 65536"
    using count_le_length [of "map st (lbl_requests b)" "st r"] D(2) by (metis le_less_trans length_map)
  then show ?thesis using D(6) [OF assms(3)] assms(2) of_nat_16_zero by (auto simp: count_list_0_iff)
qed

lemma drop_unlink_ok:
  assumes ok: "table_ok s" and r: "lrq_in_use (requests s r)" "\<not> LRQ_repost (requests s r)"
    and ne: "lbl_requests (locks (unlink_request r s) (lrq_lock (requests s r))) \<noteq> []"
  shows "table_ok (drop_state (lrq_lock (requests s r)) (lrq_state (requests s r)) (unlink_request r s))"
    "lbl_in_use (locks (drop_state (lrq_lock (requests s r)) (lrq_state (requests s r)) (unlink_request r s)) (lrq_lock (requests s r)))"
proof -
  let ?req = "requests s r"
  let ?l = "lrq_lock ?req" and ?v = "lrq_state ?req"
  let ?s1 = "unlink_request r s"
  let ?s2 = "drop_state ?l ?v ?s1"
  let ?b' = "locks ?s2 ?l"
  have l: "lbl_in_use (locks s ?l)" "r \<in> set (lbl_requests (locks s ?l))" using table_okD(2,3) [OF ok r] by simp_all
  note D = lock_okD [OF table_okD(1) [OF ok l(1)]]
  have b': "lbl_requests ?b' = remove1 r (lbl_requests (locks s ?l))" "lbl_in_use ?b'"
    "lbl_pending_lrq_count ?b' = (if LRQ_pending ?req then lbl_pending_lrq_count (locks s ?l) - 1 else lbl_pending_lrq_count (locks s ?l))"
    "lbl_counts ?b' = (if ?v = LCK_none then lbl_counts (locks s ?l)
       else (lbl_counts (locks s ?l))(?v := lbl_counts (locks s ?l) ?v - 1))"
    using l(1) by (simp_all add: drop_state_locks unlink_locks Let_def)
  have "queue_ok ((requests s)(r := requests ?s1 r)) ?b' ?l ((\<lambda>x. lrq_state (requests s x))(r := lrq_state (requests ?s1 r)))"
    by (rule queue_ok_remove [OF D(1) l(2)]) (auto simp: b')
  then have q: "queue_ok (requests ?s2) ?b' ?l (\<lambda>x. lrq_state (requests ?s2 x))"
    by (rule queue_ok_cong) (auto simp: unlink_requests)
  have state: "lbl_state ?b' = lock_state (lbl_counts ?b')"
  proof (cases "?v = LCK_none \<or> lbl_counts ?b' ?v = 0")
    case True
    then show ?thesis using D(2) by (auto simp: drop_state_locks unlink_locks Let_def)
  next
    case False
    have "lbl_counts (locks s ?l) ?v \<noteq> 0" using count_nonzero [OF D(1) l(2)] False by simp
    then have "lock_state (lbl_counts ?b') = lock_state (lbl_counts (locks s ?l))"
      using False b'(4) by (intro lock_state_pattern) auto
    then show ?thesis using False D(2) b'(4) by (auto simp: drop_state_locks unlink_locks Let_def)
  qed
  have ne': "lbl_requests ?b' \<noteq> []" using ne unfolding b'(1) by (simp add: unlink_locks Let_def)
  have lk: "locks ?s2 = (locks s)(?l := ?b')" by (simp add: drop_state_locks unlink_locks)
  have rq: "requests ?s2 = (requests s)(r := requests ?s1 r)" by (simp add: unlink_requests)
  show "table_ok ?s2"
    by (rule table_ok_remove [OF ok l rq _ lk b'(2,1) ne' state q]) (simp_all add: unlink_requests)
  show "lbl_in_use ?b'" by (rule b'(2))
qed

lemma release_request_ok:
  assumes ok: "table_ok s" and r: "lrq_in_use (requests s r)" "\<not> LRQ_repost (requests s r)"
  shows "table_ok (release_request r s)"
proof (cases "lbl_requests (locks (unlink_request r s) (lrq_lock (requests s r))) = []")
  case True
  let ?l = "lrq_lock (requests s r)" and ?s1 = "unlink_request r s"
  have l: "lbl_in_use (locks s ?l)" "r \<in> set (lbl_requests (locks s ?l))" using table_okD(2,3) [OF ok r] by simp_all
  have "remove1 r (lbl_requests (locks s ?l)) = []" using True by (simp add: unlink_locks Let_def)
  then have single: "lbl_requests (locks s ?l) = [r]" using l(2) by (cases "lbl_requests (locks s ?l)") (auto split: if_splits)
  have run: "release_request r s = free_lock ?l ?s1" using True by (simp add: release_request_def Let_def)
  show ?thesis unfolding run
    by (rule table_ok_free_lock [OF ok l(1) single, where
          b' = "(locks ?s1 ?l)\<lparr>lbl_in_use := False\<rparr>" and q' = "requests ?s1 r"])
       (simp_all add: free_lock_def remove_data_que_def Let_def unlink_requests unlink_locks)
next
  case False
  then show ?thesis using post_pending_ok [OF drop_unlink_ok [OF ok r False]] by (simp add: release_request_def Let_def)
qed

end
