(* ===== verification/LockOwners.thy ===== *)
theory LockOwners
  imports LockInvariant
begin

section \<open>The queues of the owners\<close>

definition owners_ok :: "lhb \<Rightarrow> bool" where
  "owners_ok s \<longleftrightarrow>
     (\<forall>w r. r \<in> set (own_requests (owners s w)) \<longleftrightarrow>
        lrq_in_use (requests s r) \<and> \<not> LRQ_repost (requests s r) \<and> lrq_owner (requests s r) = w) \<and>
     (\<forall>w r. r \<in> set (own_blocks (owners s w)) \<longleftrightarrow>
        lrq_in_use (requests s r) \<and> (LRQ_blocking (requests s r) \<or> LRQ_repost (requests s r)) \<and> lrq_owner (requests s r) = w) \<and>
     (\<forall>w r. r \<in> set (own_pending (owners s w)) \<longleftrightarrow> LRQ_pending (requests s r) \<and> lrq_owner (requests s r) = w) \<and>
     (\<forall>r. LRQ_pending (requests s r) \<longrightarrow> lrq_in_use (requests s r) \<and> \<not> LRQ_repost (requests s r)) \<and>
     (\<forall>r. LRQ_repost (requests s r) \<longrightarrow> \<not> LRQ_blocking (requests s r)) \<and>
     (\<forall>w. distinct (own_requests (owners s w)) \<and> distinct (own_blocks (owners s w)) \<and> distinct (own_pending (owners s w)))"

lemma owners_okD:
  assumes "owners_ok s"
  shows "r \<in> set (own_requests (owners s w)) \<longleftrightarrow>
      lrq_in_use (requests s r) \<and> \<not> LRQ_repost (requests s r) \<and> lrq_owner (requests s r) = w"
    "r \<in> set (own_blocks (owners s w)) \<longleftrightarrow>
      lrq_in_use (requests s r) \<and> (LRQ_blocking (requests s r) \<or> LRQ_repost (requests s r)) \<and> lrq_owner (requests s r) = w"
    "r \<in> set (own_pending (owners s w)) \<longleftrightarrow> LRQ_pending (requests s r) \<and> lrq_owner (requests s r) = w"
    "LRQ_pending (requests s r) \<Longrightarrow> lrq_in_use (requests s r)" "LRQ_pending (requests s r) \<Longrightarrow> \<not> LRQ_repost (requests s r)"
    "LRQ_repost (requests s r) \<Longrightarrow> \<not> LRQ_blocking (requests s r)"
    "distinct (own_requests (owners s w))" "distinct (own_blocks (owners s w))" "distinct (own_pending (owners s w))"
  using assms unfolding owners_ok_def by blast+

definition same_owners :: "lhb \<Rightarrow> lhb \<Rightarrow> bool" where
  "same_owners s s' \<longleftrightarrow>
     (\<forall>r. lrq_in_use (requests s' r) = lrq_in_use (requests s r) \<and> LRQ_repost (requests s' r) = LRQ_repost (requests s r) \<and>
        lrq_owner (requests s' r) = lrq_owner (requests s r) \<and> LRQ_blocking (requests s' r) = LRQ_blocking (requests s r) \<and>
        LRQ_pending (requests s' r) = LRQ_pending (requests s r)) \<and>
     (\<forall>w. own_requests (owners s' w) = own_requests (owners s w) \<and> own_blocks (owners s' w) = own_blocks (owners s w) \<and>
        own_pending (owners s' w) = own_pending (owners s w))"

lemma owners_ok_same: "owners_ok s \<Longrightarrow> same_owners s s' \<Longrightarrow> owners_ok s'"
  by (simp add: owners_ok_def same_owners_def)

lemma same_owners_refl [simp]: "same_owners s s" by (simp add: same_owners_def)

text \<open>A request and the queues of its owner change together.\<close>

lemma owners_ok_request:
  assumes ok: "owners_ok s"
    and rq: "requests s' = (requests s)(r := q')" "lrq_owner q' = w"
      "\<And>v. v \<noteq> w \<Longrightarrow> r \<notin> set (own_requests (owners s v)) \<and> r \<notin> set (own_blocks (owners s v)) \<and> r \<notin> set (own_pending (owners s v))"
    and ow: "\<And>v. v \<noteq> w \<Longrightarrow> own_requests (owners s' v) = own_requests (owners s v) \<and>
        own_blocks (owners s' v) = own_blocks (owners s v) \<and> own_pending (owners s' v) = own_pending (owners s v)"
    and w: "set (own_requests (owners s' w)) = (if lrq_in_use q' \<and> \<not> LRQ_repost q'
        then insert r (set (own_requests (owners s w))) else set (own_requests (owners s w)) - {r})"
      "set (own_blocks (owners s' w)) = (if lrq_in_use q' \<and> (LRQ_blocking q' \<or> LRQ_repost q')
        then insert r (set (own_blocks (owners s w))) else set (own_blocks (owners s w)) - {r})"
      "set (own_pending (owners s' w)) = (if LRQ_pending q'
        then insert r (set (own_pending (owners s w))) else set (own_pending (owners s w)) - {r})"
      "distinct (own_requests (owners s' w))" "distinct (own_blocks (owners s' w))" "distinct (own_pending (owners s' w))"
    and q': "LRQ_pending q' \<Longrightarrow> lrq_in_use q' \<and> \<not> LRQ_repost q'" "LRQ_repost q' \<Longrightarrow> \<not> LRQ_blocking q'"
  shows "owners_ok s'"
proof -
  note D = owners_okD [OF ok]
  have "x \<in> set (own_requests (owners s' v)) \<longleftrightarrow>
      lrq_in_use (requests s' x) \<and> \<not> LRQ_repost (requests s' x) \<and> lrq_owner (requests s' x) = v" for v x
  proof (cases "v = w")
    case True
    then show ?thesis using D(1) [of x w] w(1) rq(2) by (cases "x = r") (simp_all add: rq(1))
  next
    case False
    then show ?thesis using D(1) [of x v] ow [OF False] rq(2) rq(3) [OF False] by (cases "x = r") (simp_all add: rq(1))
  qed
  moreover have "x \<in> set (own_blocks (owners s' v)) \<longleftrightarrow>
      lrq_in_use (requests s' x) \<and> (LRQ_blocking (requests s' x) \<or> LRQ_repost (requests s' x)) \<and> lrq_owner (requests s' x) = v" for v x
  proof (cases "v = w")
    case True
    then show ?thesis using D(2) [of x w] w(2) rq(2) by (cases "x = r") (simp_all add: rq(1))
  next
    case False
    then show ?thesis using D(2) [of x v] ow [OF False] rq(2) rq(3) [OF False] by (cases "x = r") (simp_all add: rq(1))
  qed
  moreover have "x \<in> set (own_pending (owners s' v)) \<longleftrightarrow> LRQ_pending (requests s' x) \<and> lrq_owner (requests s' x) = v" for v x
  proof (cases "v = w")
    case True
    then show ?thesis using D(3) [of x w] w(3) rq(2) by (cases "x = r") (simp_all add: rq(1))
  next
    case False
    then show ?thesis using D(3) [of x v] ow [OF False] rq(2) rq(3) [OF False] by (cases "x = r") (simp_all add: rq(1))
  qed
  moreover have "LRQ_pending (requests s' x) \<longrightarrow> lrq_in_use (requests s' x) \<and> \<not> LRQ_repost (requests s' x)" for x
    using D(4,5) [of x] q'(1) by (cases "x = r") (simp_all add: rq(1))
  moreover have "LRQ_repost (requests s' x) \<longrightarrow> \<not> LRQ_blocking (requests s' x)" for x
    using D(6) [of x] q'(2) by (cases "x = r") (simp_all add: rq(1))
  moreover have "distinct (own_requests (owners s' v)) \<and> distinct (own_blocks (owners s' v)) \<and> distinct (own_pending (owners s' v))" for v
    using D(7-9) [of v] w(4-6) ow [of v] by (cases "v = w") simp_all
  ultimately show ?thesis unfolding owners_ok_def by blast
qed

lemma owner_queues:
  assumes "owners_ok s" "v \<noteq> lrq_owner (requests s r)"
  shows "r \<notin> set (own_requests (owners s v)) \<and> r \<notin> set (own_blocks (owners s v)) \<and> r \<notin> set (own_pending (owners s v))"
  using owners_okD(1-3) [OF assms(1), of r v] assms(2) by blast

lemma owners_ok_grant: "owners_ok s \<Longrightarrow> owners_ok (grant r l s)"
proof (cases "LRQ_pending (requests s r)")
  case True
  assume ok: "owners_ok s"
  note D = owners_okD(1-3) [OF ok, of r "lrq_owner (requests s r)"] owners_okD(4-6) [OF ok, of r]
    owners_okD(7-9) [OF ok, of "lrq_owner (requests s r)"]
  show ?thesis
    by (rule owners_ok_request [OF ok grant_requests refl])
       (use True D owner_queues [OF ok, of _ r] in \<open>simp_all add: set_remove1_eq insert_absorb\<close>)
next
  case False
  assume ok: "owners_ok s"
  show ?thesis by (rule owners_ok_same [OF ok]) (use False in \<open>simp add: same_owners_def grant_requests\<close>)
qed

lemma owners_ok_count: "owners_ok s \<Longrightarrow> owners_ok (dec_count l v s)"
  by (erule owners_ok_same) (simp add: same_owners_def)

lemma same_owners_wakeup: "same_owners s (post_wakeup w s)"
  by (simp add: same_owners_def)

lemma owners_ok_pending_loop: "owners_ok s \<Longrightarrow> owners_ok (pending_loop l rs s)"
proof (induction l rs s rule: pending_loop.induct)
  case (2 l r rs s)
  then show ?case
    by (auto simp: Let_def owners_ok_grant owners_ok_count intro: owners_ok_same [OF _ same_owners_wakeup])
qed simp

lemma owners_ok_just_granted: "owners_ok s \<Longrightarrow> owners_ok (just_granted_loop rs s)"
proof (induction rs s rule: just_granted_loop.induct)
  case (2 r rs s)
  have "owners_ok (upd_req r (\<lambda>q. q\<lparr>LRQ_just_granted := True\<rparr>) s)"
    by (rule owners_ok_same [OF 2(2)]) (simp add: same_owners_def)
  then show ?case using 2 by (simp add: Let_def)
qed simp

lemma owners_ok_post_pending: "owners_ok s \<Longrightarrow> owners_ok (post_pending l s)"
  by (simp add: post_pending_def Let_def owners_ok_pending_loop owners_ok_just_granted)

lemma post_pending_keeps:
  "own_requests (owners (post_pending l s) w) = own_requests (owners s w)"
  "own_blocks (owners (post_pending l s) w) = own_blocks (owners s w)"
proof -
  have "own_requests (owners (pending_loop l rs s) w) = own_requests (owners s w) \<and>
      own_blocks (owners (pending_loop l rs s) w) = own_blocks (owners s w)" for rs
    by (induction l rs s rule: pending_loop.induct) (simp_all add: Let_def)
  moreover have "owners (just_granted_loop rs s) = owners s" for rs s
    by (induction rs s rule: just_granted_loop.induct) (simp_all add: Let_def)
  ultimately show "own_requests (owners (post_pending l s) w) = own_requests (owners s w)"
    "own_blocks (owners (post_pending l s) w) = own_blocks (owners s w)"
    by (simp_all add: post_pending_def Let_def)
qed

lemma unlink_owners [simp]:
  "own_requests (owners (unlink_request r s) v) = (if v = lrq_owner (requests s r)
     then remove1 r (own_requests (owners s v)) else own_requests (owners s v))"
  "own_blocks (owners (unlink_request r s) v) = (if v = lrq_owner (requests s r) \<and> LRQ_blocking (requests s r)
     then remove1 r (own_blocks (owners s v)) else own_blocks (owners s v))"
  "own_pending (owners (unlink_request r s) v) = (if v = lrq_owner (requests s r) \<and> LRQ_pending (requests s r)
     then remove1 r (own_pending (owners s v)) else own_pending (owners s v))"
  by (simp_all add: unlink_request_def free_request_def Let_def)

lemma owners_ok_unlink:
  assumes ok: "owners_ok s" and r: "lrq_in_use (requests s r)" "\<not> LRQ_repost (requests s r)"
  shows "owners_ok (unlink_request r s)"
proof -
  note D = owners_okD(1-3) [OF ok, of r "lrq_owner (requests s r)"] owners_okD(4-6) [OF ok, of r]
    owners_okD(7-9) [OF ok, of "lrq_owner (requests s r)"]
  show ?thesis
    by (rule owners_ok_request [OF ok unlink_requests refl])
       (use r D owner_queues [OF ok, of _ r] in \<open>auto simp: set_remove1_eq\<close>)
qed

lemma owners_ok_release:
  assumes ok: "owners_ok s" and r: "lrq_in_use (requests s r)" "\<not> LRQ_repost (requests s r)"
  shows "owners_ok (release_request r s)"
proof -
  note u = owners_ok_unlink [OF assms]
  have "owners_ok (free_lock l (unlink_request r s))" for l
    by (rule owners_ok_same [OF u]) (simp add: same_owners_def free_lock_def remove_data_que_def Let_def)
  moreover have "owners_ok (drop_state l v (unlink_request r s))" for l v
    by (rule owners_ok_same [OF u]) (simp add: same_owners_def)
  ultimately show ?thesis by (simp add: release_request_def Let_def owners_ok_post_pending)
qed

lemma release_owners:
  "own_requests (owners (release_request r s) v) = (if v = lrq_owner (requests s r)
     then remove1 r (own_requests (owners s v)) else own_requests (owners s v))"
  by (simp add: release_request_def Let_def post_pending_keeps free_lock_def remove_data_que_def)

end
