(* ===== verification/LockNames.thy ===== *)
theory LockNames
  imports LockInvariant
begin

section \<open>The names and the data of the locks\<close>

definition hash_ok :: "(bytes \<Rightarrow> nat) \<Rightarrow> lhb \<Rightarrow> bool" where
  "hash_ok h s \<longleftrightarrow>
     (\<forall>slot l. l \<in> set (lhb_hash s slot) \<longleftrightarrow>
        lbl_in_use (locks s l) \<and> h (lbl_key (locks s l)) mod lhb_hash_slots s = slot) \<and>
     (\<forall>slot. distinct (lhb_hash s slot)) \<and>
     (\<forall>l l'. lbl_in_use (locks s l) \<longrightarrow> lbl_in_use (locks s l') \<longrightarrow> lbl_series (locks s l) = lbl_series (locks s l') \<longrightarrow>
        lbl_key (locks s l) = lbl_key (locks s l') \<longrightarrow> l = l')"

definition data_ok :: "lhb \<Rightarrow> bool" where
  "data_ok s \<longleftrightarrow>
     (\<forall>i l. l \<in> set (lhb_data s i) \<longleftrightarrow> lbl_in_use (locks s l) \<and> lbl_series (locks s l) = i \<and> i < LCK_MAX_SERIES \<and>
        lbl_data (locks s l) \<noteq> 0) \<and>
     (\<forall>i. distinct (lhb_data s i)) \<and>
     (\<forall>i. sorted_wrt (\<lambda>l l'. lbl_data (locks s l) \<le>s lbl_data (locks s l')) (lhb_data s i))"

lemma hash_okD:
  assumes "hash_ok h s"
  shows "l \<in> set (lhb_hash s slot) \<longleftrightarrow> lbl_in_use (locks s l) \<and> h (lbl_key (locks s l)) mod lhb_hash_slots s = slot"
    "distinct (lhb_hash s slot)"
    "lbl_in_use (locks s l) \<Longrightarrow> lbl_in_use (locks s l') \<Longrightarrow> lbl_series (locks s l) = lbl_series (locks s l') \<Longrightarrow>
       lbl_key (locks s l) = lbl_key (locks s l') \<Longrightarrow> l = l'"
  using assms unfolding hash_ok_def by blast+

lemma data_okD:
  assumes "data_ok s"
  shows "l \<in> set (lhb_data s i) \<longleftrightarrow> lbl_in_use (locks s l) \<and> lbl_series (locks s l) = i \<and> i < LCK_MAX_SERIES \<and>
        lbl_data (locks s l) \<noteq> 0"
    "distinct (lhb_data s i)"
    "sorted_wrt (\<lambda>l l'. lbl_data (locks s l) \<le>s lbl_data (locks s l')) (lhb_data s i)"
  using assms unfolding data_ok_def by blast+

text \<open>What the two read.\<close>

definition same_names :: "lhb \<Rightarrow> lhb \<Rightarrow> bool" where
  "same_names s s' \<longleftrightarrow>
     (\<forall>l. lbl_in_use (locks s' l) = lbl_in_use (locks s l) \<and> lbl_key (locks s' l) = lbl_key (locks s l) \<and>
        lbl_series (locks s' l) = lbl_series (locks s l)) \<and>
     lhb_hash s' = lhb_hash s \<and> lhb_hash_slots s' = lhb_hash_slots s"

definition same_data :: "lhb \<Rightarrow> lhb \<Rightarrow> bool" where
  "same_data s s' \<longleftrightarrow>
     (\<forall>l. lbl_in_use (locks s' l) = lbl_in_use (locks s l) \<and> lbl_data (locks s' l) = lbl_data (locks s l) \<and>
        lbl_series (locks s' l) = lbl_series (locks s l)) \<and>
     lhb_data s' = lhb_data s"

lemma hash_ok_same: "hash_ok h s \<Longrightarrow> same_names s s' \<Longrightarrow> hash_ok h s'"
  by (simp add: hash_ok_def same_names_def)

lemma data_ok_same: "data_ok s \<Longrightarrow> same_data s s' \<Longrightarrow> data_ok s'"
  by (simp add: data_ok_def same_data_def)

lemma data_simps [simp]:
  "lhb_data (post_history p c l r old s) = lhb_data s"
  "lhb_data (post_wakeup w s) = lhb_data s"
  "lhb_data (dec_count l v s) = lhb_data s"
  "lhb_data (inc_count l v s) = lhb_data s"
  "lhb_data (drop_state l v s) = lhb_data s"
  "lhb_data (unlink_request r s) = lhb_data s"
  by (simp_all add: post_history_def post_wakeup_def dec_count_def inc_count_def drop_state_def
      unlink_request_def free_request_def Let_def)

section \<open>The data queue of a series\<close>

lemma insert_data_set [simp]: "set (insert_data lcks l q) = insert l (set q)"
  by (induction q) auto

lemma insert_data_distinct: "distinct q \<Longrightarrow> l \<notin> set q \<Longrightarrow> distinct (insert_data lcks l q)"
  by (induction q) auto

lemma insert_data_sorted:
  "sorted_wrt (\<lambda>a b. lbl_data (lcks a) \<le>s lbl_data (lcks b)) q \<Longrightarrow>
     sorted_wrt (\<lambda>a b. lbl_data (lcks a) \<le>s lbl_data (lcks b)) (insert_data lcks l q)"
proof (induction q)
  case (Cons a q)
  then show ?case by (auto simp: word_sle_eq intro: order_trans)
qed simp

lemma sorted_wrt_remove1: "sorted_wrt P q \<Longrightarrow> sorted_wrt P (remove1 l q)"
  by (induction q) (auto dest: notin_set_remove1 set_remove1_subset [THEN subsetD])

lemma set_data_queue:
  "lhb_data (set_data l d s) = (lhb_data s)(lbl_series (locks s l) :=
     (let q = remove1 l (lhb_data s (lbl_series (locks s l))) in
      if d \<noteq> 0 \<and> lbl_series (locks s l) < LCK_MAX_SERIES
      then insert_data ((locks s)(l := (locks s l)\<lparr>lbl_data := d\<rparr>)) l q else q))"
  by (simp add: set_data_def remove_data_que_def insert_data_que_def Let_def)

lemma data_ok_set_data:
  assumes ok: "data_ok s" and l: "lbl_in_use (locks s l)"
  shows "data_ok (set_data l d s)"
proof -
  let ?i = "lbl_series (locks s l)" and ?lcks = "(locks s)(l := (locks s l)\<lparr>lbl_data := d\<rparr>)"
  let ?q = "remove1 l (lhb_data s ?i)"
  note D = data_okD [OF ok]
  have set_q: "set ?q = set (lhb_data s ?i) - {l}" using D(2) by (rule set_remove1_eq)
  have other: "l \<notin> set (lhb_data s i)" if "i \<noteq> ?i" for i using D(1) [of l i] that by auto
  have same: "sorted_wrt (\<lambda>a b. lbl_data (?lcks a) \<le>s lbl_data (?lcks b)) q"
    if "sorted_wrt (\<lambda>a b. lbl_data (locks s a) \<le>s lbl_data (locks s b)) q" "l \<notin> set q" for q
    using that(1) by (rule sorted_wrt_mono_rel [rotated]) (use that(2) in auto)
  have q: "sorted_wrt (\<lambda>a b. lbl_data (?lcks a) \<le>s lbl_data (?lcks b)) ?q"
    by (rule same [OF sorted_wrt_remove1 [OF D(3)]]) (simp add: set_q)
  have "x \<in> set (lhb_data (set_data l d s) i) \<longleftrightarrow> lbl_in_use (?lcks x) \<and> lbl_series (?lcks x) = i \<and> i < LCK_MAX_SERIES \<and>
      lbl_data (?lcks x) \<noteq> 0" for x i
    using D(1) [of x i] set_q l by (cases "x = l"; cases "i = ?i") (auto simp: set_data_queue Let_def)
  moreover have "distinct (lhb_data (set_data l d s) i)" for i
    using D(2) [of i] set_q by (cases "i = ?i") (auto simp: set_data_queue Let_def intro: insert_data_distinct)
  moreover have "sorted_wrt (\<lambda>a b. lbl_data (?lcks a) \<le>s lbl_data (?lcks b)) (lhb_data (set_data l d s) i)" for i
  proof (cases "i = ?i")
    case True
    then have "lhb_data (set_data l d s) i = ?q \<or> lhb_data (set_data l d s) i = insert_data ?lcks l ?q"
      by (simp add: set_data_queue Let_def)
    then show ?thesis using q insert_data_sorted [of ?lcks ?q l] by metis
  next
    case False
    then have "lhb_data (set_data l d s) i = lhb_data s i" by (simp add: set_data_queue Let_def)
    then show ?thesis using same [OF D(3) other [OF False]] by metis
  qed
  ultimately show ?thesis unfolding data_ok_def by simp
qed

lemma hash_ok_set_data: "hash_ok h s \<Longrightarrow> hash_ok h (set_data l d s)"
  by (erule hash_ok_same) (simp add: same_names_def)

section \<open>Operations\<close>

lemma hash_ok_grant: "hash_ok h s \<Longrightarrow> hash_ok h (grant r l s)"
  by (erule hash_ok_same) (simp add: same_names_def grant_locks Let_def)

lemma insert_data_cong: "(\<And>x. lbl_data (f x) = lbl_data (g x)) \<Longrightarrow> insert_data f l q = insert_data g l q"
  by (induction q) simp_all

lemma grant_data:
  "lhb_data (grant r l s) = (if lrq_data (requests s r) \<noteq> 0 then lhb_data (set_data l (lrq_data (requests s r)) s)
     else lhb_data s)"
  by (auto simp: grant_def Let_def set_data_queue intro!: arg_cong [of _ _ "fun_upd (lhb_data s) _"] insert_data_cong)

lemma data_ok_grant:
  assumes "data_ok s" "lbl_in_use (locks s l)"
  shows "data_ok (grant r l s)"
proof (cases "lrq_data (requests s r) = 0")
  case True
  then show ?thesis by (intro data_ok_same [OF assms(1)]) (simp add: same_data_def grant_locks grant_data Let_def)
next
  case False
  then show ?thesis by (intro data_ok_same [OF data_ok_set_data [OF assms, of "lrq_data (requests s r)"]])
    (simp add: same_data_def grant_locks grant_data Let_def)
qed

definition names_ok :: "(bytes \<Rightarrow> nat) \<Rightarrow> lhb \<Rightarrow> bool" where
  "names_ok h s \<longleftrightarrow> hash_ok h s \<and> data_ok s"

lemma names_okD: "names_ok h s \<Longrightarrow> hash_ok h s" "names_ok h s \<Longrightarrow> data_ok s"
  by (simp_all add: names_ok_def)

lemma names_ok_same: "names_ok h s \<Longrightarrow> same_names s s' \<Longrightarrow> same_data s s' \<Longrightarrow> names_ok h s'"
  by (auto simp: names_ok_def intro: hash_ok_same data_ok_same)

lemma names_ok_grant: "names_ok h s \<Longrightarrow> lbl_in_use (locks s l) \<Longrightarrow> names_ok h (grant r l s)"
  by (simp add: names_ok_def hash_ok_grant data_ok_grant)

lemma names_ok_count: "names_ok h s \<Longrightarrow> names_ok h (dec_count l v s)"
  by (erule names_ok_same) (simp_all add: same_names_def same_data_def dec_count_def)

lemma names_ok_wakeup: "names_ok h s \<Longrightarrow> names_ok h (post_wakeup w s)"
  by (erule names_ok_same) (simp_all add: same_names_def same_data_def)

lemma names_ok_pending_loop:
  "names_ok h s \<Longrightarrow> lbl_in_use (locks s l) \<Longrightarrow> names_ok h (pending_loop l rs s)"
proof (induction l rs s rule: pending_loop.induct)
  case (2 l r rs s)
  then show ?case by (simp add: Let_def names_ok_grant names_ok_count names_ok_wakeup grant_keeps)
qed simp

lemma names_ok_upd_req: "names_ok h s \<Longrightarrow> names_ok h (upd_req r f s)"
  by (erule names_ok_same) (simp_all add: same_names_def same_data_def)

lemma names_ok_just_granted: "names_ok h s \<Longrightarrow> names_ok h (just_granted_loop rs s)"
  by (induction rs s rule: just_granted_loop.induct) (simp_all add: Let_def names_ok_upd_req)

lemma names_ok_post_pending: "names_ok h s \<Longrightarrow> lbl_in_use (locks s l) \<Longrightarrow> names_ok h (post_pending l s)"
  by (simp add: post_pending_def Let_def names_ok_pending_loop names_ok_just_granted)

text \<open>A lock that is freed leaves its chain and its data queue.\<close>

lemma names_ok_free_lock:
  assumes ok: "names_ok h s" and l: "lbl_in_use (locks s l)"
  shows "names_ok h (free_lock l s)"
proof -
  note H = hash_okD [OF names_okD(1) [OF ok]] and D = data_okD [OF names_okD(2) [OF ok]]
  let ?s = "free_lock l s"
  have lk: "locks ?s = (locks s)(l := (locks s l)\<lparr>lbl_in_use := False\<rparr>)"
    "lhb_hash ?s = (\<lambda>slot. remove1 l (lhb_hash s slot))" "lhb_hash_slots ?s = lhb_hash_slots s"
    "lhb_data ?s = (lhb_data s)(lbl_series (locks s l) := remove1 l (lhb_data s (lbl_series (locks s l))))"
    by (simp_all add: free_lock_def remove_data_que_def Let_def)
  have "x \<in> set (lhb_hash ?s slot) \<longleftrightarrow> lbl_in_use (locks ?s x) \<and> h (lbl_key (locks ?s x)) mod lhb_hash_slots ?s = slot" for x slot
    using H(1) [of x slot] H(2) by (cases "x = l") (auto simp: lk set_remove1_eq)
  moreover have "distinct (lhb_hash ?s slot)" for slot using H(2) by (simp add: lk distinct_remove1)
  moreover have "lbl_in_use (locks ?s a) \<longrightarrow> lbl_in_use (locks ?s b) \<longrightarrow> lbl_series (locks ?s a) = lbl_series (locks ?s b) \<longrightarrow>
        lbl_key (locks ?s a) = lbl_key (locks ?s b) \<longrightarrow> a = b" for a b
    using H(3) [of a b] by (simp add: lk)
  ultimately have "hash_ok h ?s" unfolding hash_ok_def by blast
  moreover have "x \<in> set (lhb_data ?s i) \<longleftrightarrow> lbl_in_use (locks ?s x) \<and> lbl_series (locks ?s x) = i \<and> i < LCK_MAX_SERIES \<and>
      lbl_data (locks ?s x) \<noteq> 0" for x i
    using D(1) [of x i] D(2) by (cases "x = l"; cases "i = lbl_series (locks s l)") (auto simp: lk set_remove1_eq)
  moreover have "distinct (lhb_data ?s i)" for i using D(2) by (simp add: lk distinct_remove1)
  moreover have "lbl_data (locks ?s x) = lbl_data (locks s x)" for x by (simp add: lk)
  then have "sorted_wrt (\<lambda>a b. lbl_data (locks ?s a) \<le>s lbl_data (locks ?s b)) (lhb_data ?s i)" for i
    using D(3) [of i] sorted_wrt_remove1 [OF D(3), of l] by (simp add: lk(4))
  ultimately show ?thesis unfolding names_ok_def data_ok_def by blast
qed

lemma names_ok_release:
  assumes ok: "names_ok h s" and l: "lbl_in_use (locks s (lrq_lock (requests s r)))"
  shows "names_ok h (release_request r s)"
proof -
  let ?s1 = "unlink_request r s"
  have u: "names_ok h ?s1"
    by (rule names_ok_same [OF ok]) (simp_all add: same_names_def same_data_def unlink_locks Let_def)
  have l1: "lbl_in_use (locks ?s1 (lrq_lock (requests s r)))" using l by (simp add: unlink_locks Let_def)
  have "names_ok h (drop_state (lrq_lock (requests s r)) v ?s1)" for v
    by (rule names_ok_same [OF u]) (simp_all add: same_names_def same_data_def drop_state_locks Let_def)
  then show ?thesis
    using names_ok_free_lock [OF u l1] l1 by (simp add: release_request_def Let_def names_ok_post_pending drop_state_locks)
qed

end
