(* ===== verification/LockSystem.thy ===== *)
theory LockSystem
  imports LockOwners LockNames
begin

section \<open>The owners of the table\<close>

definition members_ok :: "lhb \<Rightarrow> bool" where
  "members_ok s \<longleftrightarrow>
     (\<forall>r. lrq_in_use (requests s r) \<longrightarrow> lrq_owner (requests s r) \<in> set (lhb_owners s)) \<and>
     distinct (lhb_owners s @ lhb_free_owners s) \<and>
     (\<forall>w \<in> set (lhb_owners s @ lhb_free_owners s). 0 < w \<and> w < lhb_used s) \<and>
     (\<forall>p w. w \<in> set (prc_owners (processes s p)) \<longleftrightarrow> w \<in> set (lhb_owners s) \<and> own_process (owners s w) = p) \<and>
     (\<forall>p. distinct (prc_owners (processes s p))) \<and>
     distinct (lhb_processes s @ lhb_free_processes s) \<and>
     (\<forall>p \<in> set (lhb_processes s @ lhb_free_processes s). 0 < p \<and> p < lhb_used s) \<and>
     (\<forall>p. prc_process_id (processes s p) \<noteq> 0 \<or> prc_owners (processes s p) \<noteq> [] \<longrightarrow> p \<in> set (lhb_processes s))"

lemma members_okD:
  assumes "members_ok s"
  shows "lrq_in_use (requests s r) \<Longrightarrow> lrq_owner (requests s r) \<in> set (lhb_owners s)"
    "distinct (lhb_owners s @ lhb_free_owners s)"
    "w \<in> set (lhb_owners s @ lhb_free_owners s) \<Longrightarrow> 0 < w \<and> w < lhb_used s"
    "w \<in> set (prc_owners (processes s p)) \<longleftrightarrow> w \<in> set (lhb_owners s) \<and> own_process (owners s w) = p"
    "distinct (prc_owners (processes s p))"
    "distinct (lhb_processes s @ lhb_free_processes s)"
    "p \<in> set (lhb_processes s @ lhb_free_processes s) \<Longrightarrow> 0 < p \<and> p < lhb_used s"
    "prc_process_id (processes s p) \<noteq> 0 \<or> prc_owners (processes s p) \<noteq> [] \<Longrightarrow> p \<in> set (lhb_processes s)"
  using assms unfolding members_ok_def by blast+

definition keeps_members :: "lhb \<Rightarrow> lhb \<Rightarrow> bool" where
  "keeps_members s s' \<longleftrightarrow>
     (\<forall>r. lrq_in_use (requests s' r) \<longrightarrow> lrq_in_use (requests s r) \<and> lrq_owner (requests s' r) = lrq_owner (requests s r)) \<and>
     lhb_owners s' = lhb_owners s \<and> lhb_free_owners s' = lhb_free_owners s \<and> lhb_used s \<le> lhb_used s' \<and>
     (\<forall>p. prc_owners (processes s' p) = prc_owners (processes s p) \<and>
        prc_process_id (processes s' p) = prc_process_id (processes s p)) \<and>
     lhb_processes s' = lhb_processes s \<and> lhb_free_processes s' = lhb_free_processes s \<and>
     (\<forall>w. own_process (owners s' w) = own_process (owners s w))"

lemma members_ok_keeps: "members_ok s \<Longrightarrow> keeps_members s s' \<Longrightarrow> members_ok s'"
proof -
  assume ok: "members_ok s" and k: "keeps_members s s'"
  note M = members_okD [OF ok]
  have 1: "lhb_owners s' = lhb_owners s" "lhb_free_owners s' = lhb_free_owners s" "lhb_used s \<le> lhb_used s'"
    "lhb_processes s' = lhb_processes s" "lhb_free_processes s' = lhb_free_processes s"
    "prc_owners (processes s' p) = prc_owners (processes s p)" "prc_process_id (processes s' p) = prc_process_id (processes s p)"
    "own_process (owners s' w) = own_process (owners s w)" for p w
    using k unfolding keeps_members_def by blast+
  have "lrq_owner (requests s' r) \<in> set (lhb_owners s')" if "lrq_in_use (requests s' r)" for r
    using k that M(1) [of r] unfolding keeps_members_def by metis
  moreover have "0 < w \<and> w < lhb_used s'" if "w \<in> set (lhb_owners s' @ lhb_free_owners s')" for w
    using M(3) [of w] that 1(3) unfolding 1(1,2) by auto
  moreover have "0 < w \<and> w < lhb_used s'" if "w \<in> set (lhb_processes s' @ lhb_free_processes s')" for w
    using M(7) [of w] that 1(3) unfolding 1(4,5) by auto
  ultimately show "members_ok s'" unfolding members_ok_def using M(2,4-6,8) unfolding 1 by blast
qed

lemma keeps_members_refl [simp]: "keeps_members s s" by (simp add: keeps_members_def)

lemma keeps_members_trans: "keeps_members s t \<Longrightarrow> keeps_members t u \<Longrightarrow> keeps_members s u"
  unfolding keeps_members_def by (metis order_trans)

lemma keeps_members_upd_req:
  "(\<And>q. lrq_in_use (f q) \<Longrightarrow> lrq_in_use q \<and> lrq_owner (f q) = lrq_owner q) \<Longrightarrow> keeps_members s (upd_req r f s)"
  by (simp add: keeps_members_def)

lemma keeps_members_upd_lock: "keeps_members s (upd_lock l f s)"
  by (simp add: keeps_members_def)

lemma keeps_members_upd_own: "(\<And>o'. own_process (f o') = own_process o') \<Longrightarrow> keeps_members s (upd_own w f s)"
  by (simp add: keeps_members_def)

lemma list_members [simp]:
  "lhb_owners (post_wakeup w s) = lhb_owners s" "lhb_free_owners (post_wakeup w s) = lhb_free_owners s"
  "processes (post_wakeup w s) = processes s" "lhb_processes (post_wakeup w s) = lhb_processes s" "lhb_free_processes (post_wakeup w s) = lhb_free_processes s" "own_process (owners (post_wakeup w s) v) = own_process (owners s v)"
  "lhb_owners (set_data l d s) = lhb_owners s" "lhb_free_owners (set_data l d s) = lhb_free_owners s"
  "processes (set_data l d s) = processes s" "lhb_processes (set_data l d s) = lhb_processes s" "lhb_free_processes (set_data l d s) = lhb_free_processes s"
  "lhb_owners (dec_count l lv s) = lhb_owners s" "lhb_free_owners (dec_count l lv s) = lhb_free_owners s"
  "processes (dec_count l lv s) = processes s" "lhb_processes (dec_count l lv s) = lhb_processes s" "lhb_free_processes (dec_count l lv s) = lhb_free_processes s"
  "lhb_owners (inc_count l lv s) = lhb_owners s" "lhb_free_owners (inc_count l lv s) = lhb_free_owners s"
  "processes (inc_count l lv s) = processes s" "lhb_processes (inc_count l lv s) = lhb_processes s" "lhb_free_processes (inc_count l lv s) = lhb_free_processes s"
  "lhb_owners (drop_state l lv s) = lhb_owners s" "lhb_free_owners (drop_state l lv s) = lhb_free_owners s"
  "processes (drop_state l lv s) = processes s" "lhb_processes (drop_state l lv s) = lhb_processes s" "lhb_free_processes (drop_state l lv s) = lhb_free_processes s"
  "lhb_free_owners (post_history h i l r old s) = lhb_free_owners s"
  "lhb_processes (post_history h i l r old s) = lhb_processes s"
  "lhb_free_processes (post_history h i l r old s) = lhb_free_processes s"
  by (simp_all add: post_wakeup_def set_data_def remove_data_que_def insert_data_que_def dec_count_def inc_count_def
      drop_state_def post_history_def Let_def)

lemma grant_members [simp]:
  "lhb_owners (grant r l s) = lhb_owners s" "lhb_free_owners (grant r l s) = lhb_free_owners s"
  "processes (grant r l s) = processes s" "lhb_processes (grant r l s) = lhb_processes s"
  "lhb_free_processes (grant r l s) = lhb_free_processes s" "own_process (owners (grant r l s) v) = own_process (owners s v)"
  by (simp_all add: grant_def Let_def)

text \<open>The operations one after the other.\<close>

named_theorems keeps

lemma keeps_members_grant [keeps]: "keeps_members s0 s \<Longrightarrow> keeps_members s0 (grant r l s)"
  by (erule keeps_members_trans) (simp add: keeps_members_def grant_requests)

lemma keeps_members_small [keeps]:
  "keeps_members s0 s \<Longrightarrow> keeps_members s0 (dec_count l v s)"
  "keeps_members s0 s \<Longrightarrow> keeps_members s0 (post_wakeup w s)"
  "keeps_members s0 s \<Longrightarrow> keeps_members s0 (drop_state l v s)"
  "keeps_members s0 s \<Longrightarrow> keeps_members s0 (upd_lock l f s)"
  by (simp_all add: keeps_members_def)

lemma keeps_members_just [keeps]:
  "keeps_members s0 s \<Longrightarrow> keeps_members s0 (upd_req r (\<lambda>q. q\<lparr>LRQ_just_granted := b\<rparr>) s)"
  by (simp add: keeps_members_def)

lemma keeps_members_pending_loop [keeps]: "keeps_members s0 s \<Longrightarrow> keeps_members s0 (pending_loop l rs s)"
  by (induction l rs s rule: pending_loop.induct) (simp_all add: Let_def keeps)

lemma keeps_members_just_granted [keeps]: "keeps_members s0 s \<Longrightarrow> keeps_members s0 (just_granted_loop rs s)"
  by (induction rs s rule: just_granted_loop.induct) (simp_all add: Let_def keeps)

lemma keeps_members_post_pending [keeps]: "keeps_members s0 s \<Longrightarrow> keeps_members s0 (post_pending l s)"
  by (simp add: post_pending_def Let_def keeps)

lemma keeps_members_unlink [keeps]: "keeps_members s0 s \<Longrightarrow> keeps_members s0 (unlink_request r s)"
  by (erule keeps_members_trans, simp add: keeps_members_def unlink_requests)
     (simp add: unlink_request_def free_request_def Let_def)

lemma keeps_members_free_lock [keeps]: "keeps_members s0 s \<Longrightarrow> keeps_members s0 (free_lock l s)"
  by (simp add: keeps_members_def free_lock_def remove_data_que_def Let_def)

lemma keeps_members_release [keeps]: "keeps_members s0 s \<Longrightarrow> keeps_members s0 (release_request r s)"
  by (simp add: release_request_def Let_def keeps)

section \<open>The invariant\<close>

definition lm_inv :: "(bytes \<Rightarrow> nat) \<Rightarrow> lhb \<Rightarrow> bool" where
  "lm_inv h s \<longleftrightarrow> table_ok s \<and> owners_ok s \<and> names_ok h s \<and> members_ok s"

lemma lm_invD:
  assumes "lm_inv h s"
  shows "table_ok s" "owners_ok s" "names_ok h s" "members_ok s"
  using assms by (simp_all add: lm_inv_def)

text \<open>A change none of the four sees.\<close>

definition same_state :: "lhb \<Rightarrow> lhb \<Rightarrow> bool" where
  "same_state s s' \<longleftrightarrow> same_table s s' \<and> same_owners s s' \<and> same_names s s' \<and> same_data s s' \<and> keeps_members s s'"

lemmas same_state_defs = same_state_def same_table_def same_owners_def same_names_def same_data_def keeps_members_def

lemma lm_inv_same: "lm_inv h s \<Longrightarrow> same_state s s' \<Longrightarrow> lm_inv h s'"
  by (auto simp: lm_inv_def same_state_def intro: table_ok_same owners_ok_same names_ok_same members_ok_keeps)

definition live_request :: "lhb \<Rightarrow> nat \<Rightarrow> bool" where
  "live_request s r \<longleftrightarrow> lrq_in_use (requests s r) \<and> \<not> LRQ_repost (requests s r)"

lemma live_lock:
  assumes "lm_inv h s" "live_request s r"
  shows "lbl_in_use (locks s (lrq_lock (requests s r)))" "r \<in> set (lbl_requests (locks s (lrq_lock (requests s r))))"
  using table_okD(2,3) [OF lm_invD(1) [OF assms(1)], of r] assms(2) by (simp_all add: live_request_def)

lemma lm_inv_post_pending: "lm_inv h s \<Longrightarrow> lbl_in_use (locks s l) \<Longrightarrow> lm_inv h (post_pending l s)"
  unfolding lm_inv_def
  by (blast intro: post_pending_ok owners_ok_post_pending names_ok_post_pending members_ok_keeps keeps_members_post_pending keeps_members_refl)

lemma lm_inv_release: "lm_inv h s \<Longrightarrow> live_request s r \<Longrightarrow> lm_inv h (release_request r s)"
  unfolding lm_inv_def live_request_def
  by (blast intro: release_request_ok owners_ok_release names_ok_release members_ok_keeps keeps_members_release keeps_members_refl
      dest: table_okD(2))

lemma lm_inv_grant:
  assumes ok: "lm_inv h s" and l: "lbl_in_use (locks s l)" and t: "table_ok (grant r l s)"
  shows "lm_inv h (grant r l s)"
  unfolding lm_inv_def
  using t owners_ok_grant [OF lm_invD(2) [OF ok]] names_ok_grant [OF lm_invD(3) [OF ok] l]
    members_ok_keeps [OF lm_invD(4) [OF ok] keeps_members_grant [OF keeps_members_refl]] by blast

section \<open>Death of an owner\<close>

lemma drop_block_requests:
  "requests (drop_block w r s) = (requests s)(r := (requests s r)\<lparr>lrq_in_use := False\<rparr>)"
  "locks (drop_block w r s) = locks s"
  "lhb_free_requests (drop_block w r s) = lhb_free_requests s @ [r]"
  "lhb_free_locks (drop_block w r s) = lhb_free_locks s"
  "lhb_used (drop_block w r s) = lhb_used s"
  "lhb_hash (drop_block w r s) = lhb_hash s"
  "lhb_hash_slots (drop_block w r s) = lhb_hash_slots s"
  "lhb_data (drop_block w r s) = lhb_data s"
  "own_requests (owners (drop_block w r s) v) = own_requests (owners s v)"
  "own_pending (owners (drop_block w r s) v) = own_pending (owners s v)"
  "own_blocks (owners (drop_block w r s) v) = (if v = w then remove1 r (own_blocks (owners s v)) else own_blocks (owners s v))"
  by (simp_all add: drop_block_def free_request_def)

lemma keeps_members_drop [keeps]: "keeps_members s0 s \<Longrightarrow> keeps_members s0 (drop_block w r s)"
  by (simp add: keeps_members_def drop_block_def free_request_def)

lemma table_ok_drop:
  assumes ok: "table_ok s" and r: "lrq_in_use (requests s r)" "LRQ_repost (requests s r)"
    and rq: "requests s' = (requests s)(r := q')" "\<not> lrq_in_use q'" and lk: "locks s' = locks s"
    and free: "lhb_free_requests s' = lhb_free_requests s @ [r]" "lhb_free_locks s' = lhb_free_locks s" "lhb_used s' = lhb_used s"
  shows "table_ok s'"
proof -
  have "lock_ok s' l" if l: "lbl_in_use (locks s' l)" for l
  proof -
    have l': "lbl_in_use (locks s l)" using l lk by simp
    note D = lock_okD [OF table_okD(1) [OF ok l']]
    have "r \<notin> set (lbl_requests (locks s l))" using queue_member(2) [OF ok l', of r] r(2) by auto
    then have "queue_ok (requests s') (locks s l) l (\<lambda>x. lrq_state (requests s' x))"
      by (intro queue_ok_cong [OF D(1)]) (auto simp: rq(1))
    then show ?thesis using D lk by (simp add: lock_ok_def)
  qed
  moreover have "free_ok s'"
    using table_okD(4) [OF ok] used_request [OF table_okD(4) [OF ok] r(1)] rq lk free by (auto simp: free_ok_def)
  moreover have "lbl_in_use (locks s' (lrq_lock (requests s' x))) \<and> x \<in> set (lbl_requests (locks s' (lrq_lock (requests s' x))))"
    if x: "lrq_in_use (requests s' x)" "\<not> LRQ_repost (requests s' x)" for x
  proof -
    have "x \<noteq> r" using x rq by auto
    then show ?thesis using x table_okD(2,3) [OF ok, of x] by (simp add: rq(1) lk)
  qed
  ultimately show ?thesis unfolding table_ok_def by blast
qed

lemma lm_inv_drop:
  assumes ok: "lm_inv h s" and r: "r \<in> set (own_blocks (owners s w))" "LRQ_repost (requests s r)"
  shows "lm_inv h (drop_block w r s)"
proof -
  note I = lm_invD [OF ok] and O = owners_okD [OF lm_invD(2) [OF ok]]
  have use: "lrq_in_use (requests s r)" "lrq_owner (requests s r) = w" using r O(2) by blast+
  have "table_ok (drop_block w r s)"
    by (rule table_ok_drop [OF I(1) use(1) r(2) drop_block_requests(1) _ drop_block_requests(2-5)]) simp
  moreover have "owners_ok (drop_block w r s)"
    by (rule owners_ok_request [OF I(2) drop_block_requests(1), where w = w])
       (use use r(2) O(1) [of r w] O(3) [of r w] O(5) [of r] O(6) [of r] O(7-9) [of w] owner_queues [OF I(2), of _ r] in
         \<open>auto simp: drop_block_requests set_remove1_eq\<close>)
  moreover have "names_ok h (drop_block w r s)"
    by (rule names_ok_same [OF I(3)]) (simp_all add: same_names_def same_data_def drop_block_requests)
  moreover have "members_ok (drop_block w r s)" by (rule members_ok_keeps [OF I(4)]) (simp add: keeps)
  ultimately show ?thesis unfolding lm_inv_def by blast
qed

lemma fold_release:
  assumes "lm_inv h s" "distinct rs" "set rs \<subseteq> set (own_requests (owners s w))"
  shows "lm_inv h (fold release_request rs s) \<and> keeps_members s (fold release_request rs s) \<and>
    set (own_requests (owners (fold release_request rs s) w)) = set (own_requests (owners s w)) - set rs"
  using assms
proof (induction rs arbitrary: s)
  case (Cons r rs)
  have r: "live_request s r" "lrq_owner (requests s r) = w"
    using owners_okD(1) [OF lm_invD(2) [OF Cons.prems(1)], of r w] Cons.prems(3) by (auto simp: live_request_def)
  let ?s1 = "release_request r s"
  have ok: "lm_inv h ?s1" by (rule lm_inv_release [OF Cons.prems(1) r(1)])
  have "set (own_requests (owners ?s1 w)) = set (own_requests (owners s w)) - {r}"
    using owners_okD(7) [OF lm_invD(2) [OF Cons.prems(1)]] r(2) by (simp add: release_owners set_remove1_eq)
  moreover from this have "set rs \<subseteq> set (own_requests (owners ?s1 w))" using Cons.prems(2,3) by auto
  moreover have "keeps_members s ?s1" by (simp add: keeps)
  ultimately show ?case using Cons.IH [OF ok] Cons.prems(2) by (auto intro: keeps_members_trans)
qed simp

lemma fold_drop:
  assumes "lm_inv h s" "distinct rs" "set rs \<subseteq> set (own_blocks (owners s w))" "own_requests (owners s w) = []"
  shows "lm_inv h (fold (drop_block w) rs s) \<and> keeps_members s (fold (drop_block w) rs s) \<and>
    set (own_blocks (owners (fold (drop_block w) rs s) w)) = set (own_blocks (owners s w)) - set rs \<and>
    own_requests (owners (fold (drop_block w) rs s) w) = []"
  using assms
proof (induction rs arbitrary: s)
  case (Cons r rs)
  note O = owners_okD [OF lm_invD(2) [OF Cons.prems(1)]]
  have r: "r \<in> set (own_blocks (owners s w))" "LRQ_repost (requests s r)"
    using O(1) [of r w] O(2) [of r w] Cons.prems(3,4) by auto
  let ?s1 = "drop_block w r s"
  have ok: "lm_inv h ?s1" by (rule lm_inv_drop [OF Cons.prems(1) r])
  have "set (own_blocks (owners ?s1 w)) = set (own_blocks (owners s w)) - {r}"
    using O(8) by (simp add: drop_block_requests set_remove1_eq)
  moreover from this have "set rs \<subseteq> set (own_blocks (owners ?s1 w))" using Cons.prems(2,3) by auto
  moreover have "own_requests (owners ?s1 w) = []" using Cons.prems(4) by (simp add: drop_block_requests)
  moreover have "keeps_members s ?s1" by (simp add: keeps)
  ultimately show ?case using Cons.IH [OF ok] Cons.prems(2) by (auto intro: keeps_members_trans)
qed simp

text \<open>What is left of an owner that is purged.\<close>

lemma lm_inv_remove_owner:
  assumes ok: "lm_inv h s" and w: "w \<in> set (lhb_owners s)"
    and empty: "own_requests (owners s w) = []" "own_blocks (owners s w) = []"
    and s': "requests s' = requests s" "locks s' = locks s" "lhb_free_requests s' = lhb_free_requests s"
      "lhb_free_locks s' = lhb_free_locks s" "lhb_used s' = lhb_used s" "lhb_hash s' = lhb_hash s"
      "lhb_hash_slots s' = lhb_hash_slots s" "lhb_data s' = lhb_data s"
      "lhb_owners s' = remove1 w (lhb_owners s)" "lhb_free_owners s' = lhb_free_owners s @ [w]"
      "\<And>p. prc_owners (processes s' p) = (if p = own_process (owners s w)
         then remove1 w (prc_owners (processes s p)) else prc_owners (processes s p))"
      "\<And>v. v \<noteq> w \<Longrightarrow> owners s' v = owners s v"
      "own_requests (owners s' w) = own_requests (owners s w)" "own_blocks (owners s' w) = own_blocks (owners s w)"
      "own_pending (owners s' w) = own_pending (owners s w)"
      "\<And>p. prc_process_id (processes s' p) = prc_process_id (processes s p)"
      "lhb_processes s' = lhb_processes s" "lhb_free_processes s' = lhb_free_processes s"
  shows "lm_inv h s'"
proof -
  note I = lm_invD [OF ok] and M = members_okD [OF lm_invD(4) [OF ok]]
  have "table_ok s'" by (rule table_ok_same [OF I(1)]) (simp add: same_table_def s')
  moreover have ow: "own_requests (owners s' v) = own_requests (owners s v) \<and> own_blocks (owners s' v) = own_blocks (owners s v) \<and>
      own_pending (owners s' v) = own_pending (owners s v)" for v using s' by (cases "v = w") auto
  then have "owners_ok s'" by (intro owners_ok_same [OF I(2)]) (simp add: same_owners_def s'(1))
  moreover have "names_ok h s'" by (rule names_ok_same [OF I(3)]) (simp_all add: same_names_def same_data_def s')
  moreover have "members_ok s'"
  proof -
    have d: "distinct (lhb_owners s)" "w \<notin> set (lhb_free_owners s)" "distinct (lhb_free_owners s)" using M(2) w by auto
    have set: "set (lhb_owners s') = set (lhb_owners s) - {w}" using d(1) s'(9) by (simp add: set_remove1_eq)
    have "lrq_owner (requests s r) \<noteq> w" if "lrq_in_use (requests s r)" for r
      using owners_okD(1,2) [OF I(2), of r w] empty that by auto
    then have "lrq_owner (requests s' r) \<in> set (lhb_owners s')" if "lrq_in_use (requests s' r)" for r
      using M(1) [of r] that by (simp add: set s'(1))
    moreover have "distinct (lhb_owners s' @ lhb_free_owners s')"
      using M(2) d set s'(9,10) by (auto simp: distinct_remove1)
    moreover have "0 < v \<and> v < lhb_used s'" if "v \<in> set (lhb_owners s' @ lhb_free_owners s')" for v
    proof -
      have "v \<in> set (lhb_owners s @ lhb_free_owners s)" using that w set s'(10) by auto
      then show ?thesis using M(3) s'(5) by simp
    qed
    moreover have "v \<in> set (prc_owners (processes s' p)) \<longleftrightarrow> v \<in> set (lhb_owners s') \<and> own_process (owners s' v) = p" for v p
    proof (cases "v = w")
      case True
      then show ?thesis using M(4) [of v p] M(5) [of p] set
        by (cases "p = own_process (owners s w)") (simp_all add: s'(11) set_remove1_eq)
    next
      case False
      then show ?thesis using M(4) [of v p] M(5) [of p] s'(12) [OF False] set
        by (cases "p = own_process (owners s w)") (simp_all add: s'(11) set_remove1_eq)
    qed
    moreover have "distinct (prc_owners (processes s' p))" for p using M(5) by (simp add: s'(11) distinct_remove1)
    moreover have "distinct (lhb_processes s' @ lhb_free_processes s')" using M(6) s'(17,18) by simp
    moreover have "0 < p \<and> p < lhb_used s'" if "p \<in> set (lhb_processes s' @ lhb_free_processes s')" for p
      using M(7) [of p] that s'(5,17,18) by simp
    moreover have "p \<in> set (lhb_processes s')" if "prc_process_id (processes s' p) \<noteq> 0 \<or> prc_owners (processes s' p) \<noteq> []" for p
      using M(8) [of p] that s'(11) [of p] s'(16,17) by (cases "prc_owners (processes s p) = []") (auto split: if_splits)
    ultimately show ?thesis unfolding members_ok_def by blast
  qed
  ultimately show ?thesis unfolding lm_inv_def by blast
qed

lemma purge_owner_inv:
  assumes ok: "lm_inv (env_hash env) s" and w: "w \<in> set (lhb_owners s)"
  shows "lm_inv (env_hash env) (purge_owner env i w s)" "set (lhb_owners (purge_owner env i w s)) = set (lhb_owners s) - {w}"
    "lhb_processes (purge_owner env i w s) = lhb_processes s" "lhb_free_processes (purge_owner env i w s) = lhb_free_processes s"
    "v \<noteq> w \<Longrightarrow> own_process (owners (purge_owner env i w s) v) = own_process (owners s v)"
    "prc_process_id (processes (purge_owner env i w s) q) = prc_process_id (processes s q)"
proof -
  let ?h = "env_hash env"
  define s1 where "s1 = post_history his_del_owner i w 0 False s"
  define s2 where "s2 = fold release_request (own_requests (owners s1 w)) s1"
  define s3 where "s3 = fold (drop_block w) (own_blocks (owners s2 w)) s2"
  let ?s' = "purge_owner env i w s"
  have run: "?s' = (let p = own_process (owners s3 w);
          s = s3\<lparr>processes := (processes s3)(p := (processes s3 p)\<lparr>prc_owners := remove1 w (prc_owners (processes s3 p))\<rparr>)\<rparr>;
          s = s\<lparr>lhb_owners := remove1 w (lhb_owners s), lhb_free_owners := lhb_free_owners s @ [w]\<rparr>
      in upd_own w (\<lambda>o'. o'\<lparr>own_owner_type := 0, own_owner_id := 0, own_process := 0,
            OWN_scanned := False, OWN_wakeup := False, OWN_signaled := False\<rparr>) s)"
    unfolding purge_owner_def s1_def s2_def s3_def by (simp only: Let_def)
  have 1: "lm_inv ?h s1" "keeps_members s s1"
    by (rule lm_inv_same [OF ok]) (simp_all add: same_state_defs s1_def)
  have 2: "lm_inv ?h s2 \<and> keeps_members s1 s2 \<and> set (own_requests (owners s2 w)) = {}"
    using fold_release [OF 1(1) owners_okD(7) [OF lm_invD(2) [OF 1(1)]] order_refl, of w] unfolding s2_def by simp
  then have "own_requests (owners s2 w) = []" by simp
  then have 3: "lm_inv ?h s3 \<and> keeps_members s2 s3 \<and> set (own_blocks (owners s3 w)) = {} \<and> own_requests (owners s3 w) = []"
    using fold_drop [OF conjunct1 [OF 2] owners_okD(8) [OF lm_invD(2) [OF conjunct1 [OF 2]]] order_refl] unfolding s3_def by simp
  have keep: "keeps_members s s3" using 1 2 3 by (blast intro: keeps_members_trans)
  then have ow: "lhb_owners s3 = lhb_owners s" and prc: "lhb_processes s3 = lhb_processes s"
      "lhb_free_processes s3 = lhb_free_processes s" "own_process (owners s3 v) = own_process (owners s v)"
      "\<And>q. prc_process_id (processes s3 q) = prc_process_id (processes s q)"
    by (simp_all add: keeps_members_def)
  show "lm_inv ?h ?s'"
    by (rule lm_inv_remove_owner [of ?h s3 w]) (use 3 w ow in \<open>simp_all add: run Let_def\<close>)
  have "distinct (lhb_owners s)" using members_okD(2) [OF lm_invD(4) [OF ok]] by simp
  then show "set (lhb_owners ?s') = set (lhb_owners s) - {w}" by (simp add: run Let_def ow set_remove1_eq)
  show "lhb_processes ?s' = lhb_processes s" "lhb_free_processes ?s' = lhb_free_processes s"
    "v \<noteq> w \<Longrightarrow> own_process (owners ?s' v) = own_process (owners s v)"
    "prc_process_id (processes ?s' q) = prc_process_id (processes s q)"
    by (simp_all add: run Let_def prc)
qed

lemma fold_purge:
  assumes "lm_inv (env_hash env) s" "distinct ws" "set ws \<subseteq> set (lhb_owners s)"
  shows "lm_inv (env_hash env) (fold (\<lambda>w. purge_owner env (int w) w) ws s) \<and>
    set (lhb_owners (fold (\<lambda>w. purge_owner env (int w) w) ws s)) = set (lhb_owners s) - set ws \<and>
    lhb_processes (fold (\<lambda>w. purge_owner env (int w) w) ws s) = lhb_processes s \<and>
    lhb_free_processes (fold (\<lambda>w. purge_owner env (int w) w) ws s) = lhb_free_processes s \<and>
    (\<forall>v. v \<notin> set ws \<longrightarrow> own_process (owners (fold (\<lambda>w. purge_owner env (int w) w) ws s) v) = own_process (owners s v)) \<and>
    (\<forall>q. prc_process_id (processes (fold (\<lambda>w. purge_owner env (int w) w) ws s) q) = prc_process_id (processes s q))"
  using assms
proof (induction ws arbitrary: s)
  case (Cons w ws)
  have w: "w \<in> set (lhb_owners s)" using Cons.prems(3) by simp
  note P = purge_owner_inv [OF Cons.prems(1) w, where i = "int w"]
  have "set ws \<subseteq> set (lhb_owners (purge_owner env (int w) w s))" using P(2) Cons.prems(2,3) by auto
  note IH = Cons.IH [OF P(1) _ this]
  show ?case using IH P(2-6) Cons.prems(2) by auto
qed simp

text \<open>A process block that is given back.\<close>

lemma lm_inv_remove_process:
  assumes ok: "lm_inv h s" and p: "p \<in> set (lhb_processes s)" and empty: "prc_owners (processes s p) = []"
  shows "lm_inv h (s\<lparr>lhb_processes := remove1 p (lhb_processes s), lhb_free_processes := lhb_free_processes s @ [p],
    processes := (processes s)(p := (processes s p)\<lparr>prc_process_id := 0\<rparr>)\<rparr>)" (is "lm_inv h ?s'")
proof -
  note I = lm_invD [OF ok] and M = members_okD [OF lm_invD(4) [OF ok]]
  have "table_ok ?s'" by (rule table_ok_same [OF I(1)]) (simp add: same_table_def)
  moreover have "owners_ok ?s'" by (rule owners_ok_same [OF I(2)]) (simp add: same_owners_def)
  moreover have "names_ok h ?s'" by (rule names_ok_same [OF I(3)]) (simp_all add: same_names_def same_data_def)
  moreover have "members_ok ?s'"
  proof -
    have d: "distinct (lhb_processes s)" "p \<notin> set (lhb_free_processes s)" "distinct (lhb_free_processes s)" using M(6) p by auto
    have set: "set (remove1 p (lhb_processes s)) = set (lhb_processes s) - {p}" using d(1) by (rule set_remove1_eq)
    have "distinct (lhb_processes ?s' @ lhb_free_processes ?s')" using M(6) d set by (auto simp: distinct_remove1)
    moreover have "0 < q \<and> q < lhb_used ?s'" if "q \<in> set (lhb_processes ?s' @ lhb_free_processes ?s')" for q
      using M(7) [of q] M(7) [of p] that p set by auto
    moreover have "q \<in> set (lhb_processes ?s')"
      if "prc_process_id (processes ?s' q) \<noteq> 0 \<or> prc_owners (processes ?s' q) \<noteq> []" for q
      using M(8) [of q] that empty set by (cases "q = p") auto
    moreover have "v \<in> set (prc_owners (processes ?s' q)) \<longleftrightarrow> v \<in> set (lhb_owners ?s') \<and> own_process (owners ?s' v) = q" for v q
      using M(4) [of v q] by (cases "q = p") simp_all
    moreover have "distinct (prc_owners (processes ?s' q))" for q using M(5) [of q] M(5) [of p] by simp
    moreover have "lrq_owner (requests ?s' r) \<in> set (lhb_owners ?s')" if "lrq_in_use (requests ?s' r)" for r
      using M(1) [of r] that by simp
    moreover have "distinct (lhb_owners ?s' @ lhb_free_owners ?s')" using M(2) by simp
    moreover have "0 < v \<and> v < lhb_used ?s'" if "v \<in> set (lhb_owners ?s' @ lhb_free_owners ?s')" for v
      using M(3) [of v] that by simp
    ultimately show ?thesis unfolding members_ok_def by blast
  qed
  ultimately show ?thesis unfolding lm_inv_def by blast
qed

lemma purge_process_inv:
  assumes ok: "lm_inv (env_hash env) s" and p: "p \<in> set (lhb_processes s)"
  shows "lm_inv (env_hash env) (purge_process env p s)"
    "lhb_processes (purge_process env p s) = remove1 p (lhb_processes s)"
proof -
  note M = members_okD [OF lm_invD(4) [OF ok]]
  let ?s1 = "fold (\<lambda>w. purge_owner env (int w) w) (prc_owners (processes s p)) s"
  have "set (prc_owners (processes s p)) \<subseteq> set (lhb_owners s)" using M(4) [of _ p] by auto
  note F = fold_purge [OF ok M(5) this]
  have "v \<notin> set (prc_owners (processes ?s1 p))" for v
    using members_okD(4) [of ?s1 v p] lm_invD(4) [of "env_hash env" ?s1] F M(4) [of v p] by auto
  then have "prc_owners (processes ?s1 p) = []" by (metis last_in_set)
  then show "lm_inv (env_hash env) (purge_process env p s)"
    using lm_inv_remove_process [of "env_hash env" ?s1 p] F p by (simp add: purge_process_def Let_def)
  show "lhb_processes (purge_process env p s) = remove1 p (lhb_processes s)" using F by (simp add: purge_process_def Let_def)
qed

lemma probe_processes_inv:
  assumes "lm_inv (env_hash env) s"
  shows "lm_inv (env_hash env) (snd (probe_processes env s))"
proof -
  have "lm_inv (env_hash env) (snd (probe_loop env ps b s))"
    if "lm_inv (env_hash env) s" "distinct ps" "set ps \<subseteq> set (lhb_processes s)" for ps b s
    using that
  proof (induction ps arbitrary: b s)
    case (Cons p ps)
    have p: "p \<in> set (lhb_processes s)" using Cons.prems(3) by simp
    note P = purge_process_inv [OF Cons.prems(1) p]
    have "distinct (lhb_processes s)" using members_okD(6) [OF lm_invD(4) [OF Cons.prems(1)]] by simp
    then have "set ps \<subseteq> set (lhb_processes (purge_process env p s))"
      using Cons.prems(2,3) P(2) by (auto simp: set_remove1_eq)
    then show ?case using Cons.IH [OF P(1)] Cons.IH [OF Cons.prems(1)] Cons.prems(2,3) by simp
  qed simp
  moreover have "distinct (lhb_processes s)" using members_okD(6) [OF lm_invD(4) [OF assms]] by simp
  ultimately show ?thesis using assms by (simp add: probe_processes_def)
qed

end
