(* ===== verification/LockWait.thy ===== *)
theory LockWait
  imports LockSystem
begin

section \<open>Blocking notices\<close>

lemma same_state_signal: "same_state s (snd (signal_owner env w s))"
  by (simp add: signal_owner_def Let_def same_state_defs)

lemma lm_inv_signal_loop: "lm_inv h s \<Longrightarrow> lm_inv h (snd (signal_loop env ws dead s))"
proof (induction env ws dead s rule: signal_loop.induct)
  case (2 env w ws dead s)
  have "lm_inv h (snd (signal_owner env w s))" by (rule lm_inv_same [OF "2.prems" same_state_signal])
  then show ?case using 2 by (auto split: prod.splits)
qed simp

lemma purge_dead_inv:
  assumes "lm_inv (env_hash env) s"
  shows "lm_inv (env_hash env) (fold (purge_dead env) ps s)"
  using assms
proof (induction ps arbitrary: s)
  case (Cons p ps)
  have "lm_inv (env_hash env) (purge_dead env p s)"
    using Cons.prems purge_process_inv(1) [OF Cons.prems] members_okD(8) [OF lm_invD(4) [OF Cons.prems]]
    by (simp add: purge_dead_def)
  then show ?case using Cons.IH by simp
qed simp

text \<open>A request that is not blocking yet enters its owner's queue of notices.\<close>

definition mark_blocking :: "nat \<Rightarrow> lhb \<Rightarrow> lhb" where
  "mark_blocking b s =
     upd_req b (\<lambda>q. q\<lparr>LRQ_blocking := True, LRQ_blocking_seen := False, LRQ_just_granted := False\<rparr>)
       (upd_own (lrq_owner (requests s b)) (\<lambda>o'. o'\<lparr>own_blocks := own_blocks o' @ [b]\<rparr>) s)"

lemma mark_blocking_inv:
  assumes ok: "lm_inv h s" and b: "live_request s b" "\<not> LRQ_blocking (requests s b)"
  shows "lm_inv h (mark_blocking b s)"
proof -
  note I = lm_invD [OF ok] and O = owners_okD [OF lm_invD(2) [OF ok]]
  let ?w = "lrq_owner (requests s b)"
  have rq: "requests (mark_blocking b s) = (requests s)(b := (requests s b)
      \<lparr>LRQ_blocking := True, LRQ_blocking_seen := False, LRQ_just_granted := False\<rparr>)" by (simp add: mark_blocking_def)
  have "owners_ok (mark_blocking b s)"
    by (rule owners_ok_request [OF I(2) rq, where w = ?w])
       (use b O(1) [of b ?w] O(2) [of b ?w] O(3) [of b ?w] O(5) [of b] O(7-9) [of ?w] owner_queues [OF I(2), of _ b] in
         \<open>auto simp: mark_blocking_def live_request_def\<close>)
  moreover have "table_ok (mark_blocking b s)"
    by (rule table_ok_same [OF I(1)]) (simp add: same_table_def mark_blocking_def)
  moreover have "names_ok h (mark_blocking b s)"
    by (rule names_ok_same [OF I(3)]) (simp_all add: same_names_def same_data_def mark_blocking_def)
  moreover have "members_ok (mark_blocking b s)"
    by (rule members_ok_keeps [OF I(4)]) (simp add: keeps_members_def mark_blocking_def)
  ultimately show ?thesis unfolding lm_inv_def by blast
qed

lemma mark_blocking_live [simp]: "live_request (mark_blocking b s) r = live_request s r"
  by (simp add: live_request_def mark_blocking_def)

lemma blockage_loop_step:
  "blockage_loop r (b # bs) ws s =
     (if b = r \<or> lrq_owner (requests s b) = lrq_owner (requests s r) \<or>
         compatibility (lrq_requested (requests s r)) (lrq_state (requests s b)) \<or>
         lrq_ast_routine (requests s b) = 0 \<or> LRQ_blocking_seen (requests s b)
      then blockage_loop r bs ws s
      else let s' = (if \<not> LRQ_blocking (requests s b) then mark_blocking b s else s);
               ws = ws @ [lrq_owner (requests s b)]
           in if lrq_state (requests s b) = LCK_EX then (ws, s') else blockage_loop r bs ws s')"
  by (simp only: blockage_loop.simps mark_blocking_def Let_def)

lemma blockage_loop_inv:
  "lm_inv h s \<Longrightarrow> \<forall>b \<in> set bs. live_request s b \<Longrightarrow> lm_inv h (snd (blockage_loop r bs ws s))"
proof (induction bs arbitrary: ws s)
  case (Cons b bs)
  let ?s' = "if \<not> LRQ_blocking (requests s b) then mark_blocking b s else s"
  have "lm_inv h ?s'" "\<forall>b \<in> set bs. live_request ?s' b"
    using Cons.prems mark_blocking_inv [OF Cons.prems(1), of b] by simp_all
  note IH = Cons.IH [OF this]
  show ?case
    unfolding blockage_loop_step Let_def
    using Cons.IH [OF Cons.prems(1)] IH \<open>lm_inv h ?s'\<close> Cons.prems(2) by (simp del: blockage_loop.simps)
qed simp

lemma queue_live:
  assumes "lm_inv h s" "lbl_in_use (locks s l)" "r \<in> set (lbl_requests (locks s l))"
  shows "live_request s r"
  using queue_member [OF lm_invD(1) [OF assms(1)] assms(2,3)] by (simp add: live_request_def)

lemma post_blockage_inv:
  assumes ok: "lm_inv (env_hash env) s" and l: "lbl_in_use (locks s l)"
  shows "lm_inv (env_hash env) (post_blockage env r l s)"
proof -
  have "lm_inv (env_hash env) (snd (blockage_loop r (lbl_requests (locks s l)) [] s))"
    by (rule blockage_loop_inv [OF ok]) (use queue_live [OF ok l] in blast)
  then show ?thesis
    unfolding post_blockage_def
    by (auto split: prod.splits intro!: purge_dead_inv dest: lm_inv_signal_loop)
      (metis lm_inv_signal_loop snd_conv)
qed

lemma blocking_step_inv:
  assumes ok: "lm_inv h s"
  shows "lm_inv h (snd (blocking_step w s))"
proof (cases "own_count (owners s w) \<noteq> 0 \<and> own_blocks (owners s w) \<noteq> []")
  case False
  then have "snd (blocking_step w s) = upd_own w (\<lambda>o'. o'\<lparr>OWN_signaled := False\<rparr>) s"
    unfolding blocking_step_def by auto
  then show ?thesis using lm_inv_same [OF ok, of "upd_own w (\<lambda>o'. o'\<lparr>OWN_signaled := False\<rparr>) s"]
    by (simp add: same_state_defs)
next
  case True
  then obtain r bs where blocks: "own_blocks (owners s w) = r # bs" by (cases "own_blocks (owners s w)") auto
  note I = lm_invD [OF ok] and O = owners_okD [OF lm_invD(2) [OF ok]]
  have r: "lrq_in_use (requests s r)" "lrq_owner (requests s r) = w" "LRQ_blocking (requests s r) \<or> LRQ_repost (requests s r)"
    using O(2) [of r w] blocks by auto
  let ?s1 = "upd_own w (\<lambda>o'. o'\<lparr>own_blocks := tl (own_blocks o')\<rparr>) s"
  let ?s2 = "if LRQ_blocking (requests s r)
     then post_history his_post_ast (int w) (lrq_lock (requests s r)) r True
            (upd_req r (\<lambda>q. q\<lparr>LRQ_blocking := False, LRQ_blocking_seen := True\<rparr>) (?s1\<lparr>lhb_blocks := lhb_blocks ?s1 + 1\<rparr>))
     else if LRQ_repost (requests s r) then free_request r ?s1 else ?s1"
  have 2: "lm_inv h ?s2"
  proof (cases "LRQ_blocking (requests s r)")
    case True
    have live: "\<not> LRQ_repost (requests s r)" using O(6) [of r] True by blast
    have rq: "requests ?s2 = (requests s)(r := (requests s r)\<lparr>LRQ_blocking := False, LRQ_blocking_seen := True\<rparr>)"
      using True by simp
    have ow: "own_requests (owners ?s2 v) = own_requests (owners s v)" "own_pending (owners ?s2 v) = own_pending (owners s v)"
      "own_blocks (owners ?s2 v) = (if v = w then bs else own_blocks (owners s v))" for v
      using True blocks by simp_all
    have "owners_ok ?s2"
      by (rule owners_ok_request [OF I(2) rq, where w = w])
         (use r live O(1) [of r w] O(3) [of r w] O(5) [of r] O(7-9) [of w] owner_queues [OF I(2), of _ r] blocks in
           \<open>auto simp: ow\<close>)
    moreover have "table_ok ?s2" by (rule table_ok_same [OF I(1)]) (use True in \<open>simp add: same_table_def\<close>)
    moreover have "names_ok h ?s2"
      by (rule names_ok_same [OF I(3)]) (use True in \<open>simp_all add: same_names_def same_data_def\<close>)
    moreover have "members_ok ?s2" by (rule members_ok_keeps [OF I(4)]) (use True in \<open>simp add: keeps_members_def\<close>)
    ultimately show ?thesis unfolding lm_inv_def by blast
  next
    case False
    then have rp: "LRQ_repost (requests s r)" using r(3) by simp
    have "?s2 = drop_block w r s" using False rp blocks by (simp add: drop_block_def upd_own_def)
    then show ?thesis using lm_inv_drop [OF ok _ rp, of w] blocks by simp
  qed
  let ?s3 = "upd_own w (\<lambda>o'. o'\<lparr>own_ast_count := own_ast_count o' + 1\<rparr>) ?s2"
  have 3: "lm_inv h ?s3" by (rule lm_inv_same [OF 2]) (simp add: same_state_defs)
  have "snd (blocking_step w s) = ?s2 \<or> snd (blocking_step w s) = ?s3"
    unfolding blocking_step_def Let_def blocks list.sel using conjunct1 [OF True]
    by (cases "lrq_ast_routine (requests s r) = 0")
       (simp_all only: if_True if_False snd_conv simp_thms not_False_eq_True list.distinct)
  then show ?thesis
  proof
    assume run: "snd (blocking_step w s) = ?s2"
    show ?thesis unfolding run by (rule 2)
  next
    assume run: "snd (blocking_step w s) = ?s3"
    show ?thesis unfolding run by (rule 3)
  qed
qed

lemma lm_inv_blocking_return: "lm_inv h s \<Longrightarrow> lm_inv h (blocking_return w s)"
  by (erule lm_inv_same) (simp add: same_state_defs blocking_return_def)

section \<open>Waiting\<close>

lemma queue_ok_pending:
  assumes ok: "queue_ok rq b l st" and r: "r \<in> set (lbl_requests b)"
    and b': "mset (lbl_requests b') = mset (lbl_requests b)" "lbl_counts b' = lbl_counts b"
      "lbl_pending_lrq_count b' = lbl_pending_lrq_count b - (if LRQ_pending (rq r) then 1 else 0) + (if LRQ_pending q' then 1 else 0)"
    and q': "lrq_in_use q'" "\<not> LRQ_repost q'" "lrq_lock q' = l"
  shows "queue_ok (rq(r := q')) b' l st"
proof -
  note D = queue_okD [OF ok]
  have q: "distinct (lbl_requests b') = distinct (lbl_requests b)" "length (lbl_requests b') = length (lbl_requests b)"
    "set (lbl_requests b') = set (lbl_requests b)"
    using mset_eq_imp_distinct_iff [OF b'(1)] mset_eq_length [OF b'(1)] mset_eq_setD [OF b'(1)] by simp_all
  show ?thesis
  proof (rule queue_okI)
    show "lbl_pending_lrq_count b' = of_nat (count_list (map (\<lambda>x. LRQ_pending ((rq(r := q')) x)) (lbl_requests b')) True)"
      unfolding pending_upd count_map_mset [OF b'(1)] b'(3)
      using count_upd_word [OF D(1) r, of "\<lambda>x. LRQ_pending (rq x)" "LRQ_pending q'" True, where 'a = 16] D(7) by simp
    show "lbl_counts b' v = of_nat (count_list (map st (lbl_requests b')) v)" if "v \<noteq> LCK_none" for v
      unfolding b'(2) count_map_mset [OF b'(1)] using D(6) [OF that] .
  qed (use D q q' in auto)
qed

lemma lm_inv_pending:
  assumes ok: "lm_inv h s" and r: "live_request s r"
    and rq: "requests s' = (requests s)(r := q')" "lrq_in_use q'" "\<not> LRQ_repost q'" "lrq_lock q' = lrq_lock (requests s r)"
      "lrq_state q' = lrq_state (requests s r)" "lrq_owner q' = lrq_owner (requests s r)" "LRQ_blocking q' = LRQ_blocking (requests s r)"
    and lk: "locks s' = (locks s)(lrq_lock (requests s r) := b')" "lbl_in_use b'"
      "mset (lbl_requests b') = mset (lbl_requests (locks s (lrq_lock (requests s r))))"
      "lbl_counts b' = lbl_counts (locks s (lrq_lock (requests s r)))" "lbl_state b' = lbl_state (locks s (lrq_lock (requests s r)))"
      "lbl_pending_lrq_count b' = lbl_pending_lrq_count (locks s (lrq_lock (requests s r)))
         - (if LRQ_pending (requests s r) then 1 else 0) + (if LRQ_pending q' then 1 else 0)"
      "lbl_key b' = lbl_key (locks s (lrq_lock (requests s r)))" "lbl_series b' = lbl_series (locks s (lrq_lock (requests s r)))"
      "lbl_data b' = lbl_data (locks s (lrq_lock (requests s r)))"
    and ow: "\<And>v. own_requests (owners s' v) = own_requests (owners s v) \<and> own_blocks (owners s' v) = own_blocks (owners s v) \<and>
        own_process (owners s' v) = own_process (owners s v)"
      "\<And>v. v \<noteq> lrq_owner (requests s r) \<Longrightarrow> own_pending (owners s' v) = own_pending (owners s v)"
      "set (own_pending (owners s' (lrq_owner (requests s r)))) = (if LRQ_pending q'
         then insert r (set (own_pending (owners s (lrq_owner (requests s r)))))
         else set (own_pending (owners s (lrq_owner (requests s r)))) - {r})"
      "distinct (own_pending (owners s' (lrq_owner (requests s r))))"
    and free: "lhb_free_requests s' = lhb_free_requests s" "lhb_free_locks s' = lhb_free_locks s" "lhb_used s' = lhb_used s"
      "lhb_hash s' = lhb_hash s" "lhb_hash_slots s' = lhb_hash_slots s" "lhb_data s' = lhb_data s" "processes s' = processes s"
      "lhb_owners s' = lhb_owners s" "lhb_free_owners s' = lhb_free_owners s"
      "lhb_processes s' = lhb_processes s" "lhb_free_processes s' = lhb_free_processes s"
  shows "lm_inv h s'"
proof -
  let ?l = "lrq_lock (requests s r)" and ?w = "lrq_owner (requests s r)"
  note I = lm_invD [OF ok] and O = owners_okD [OF lm_invD(2) [OF ok]] and l = live_lock [OF ok r]
  note D = lock_okD [OF table_okD(1) [OF I(1) l(1)]]
  have st: "(\<lambda>x. lrq_state (requests s' x)) = (\<lambda>x. lrq_state (requests s x))" using rq(1,5) by auto
  have "queue_ok ((requests s)(r := q')) b' ?l (\<lambda>x. lrq_state (requests s x))"
    by (rule queue_ok_pending [OF D(1) l(2) lk(3,4,6) rq(2-4)])
  then have "queue_ok (requests s') b' ?l (\<lambda>x. lrq_state (requests s' x))"
    unfolding st by (simp only: rq(1))
  then have "table_ok s'"
    by (intro table_ok_request [OF I(1) l rq(1-4) lk(1,2) mset_eq_setD [OF lk(3)] _ _ free(1-3)]) (use D(2) lk(4,5) in simp)
  moreover have "owners_ok s'"
    by (rule owners_ok_request [OF I(2) rq(1), where w = ?w])
       (use r rq ow O(1) [of r ?w] O(2) [of r ?w] O(7-9) [of ?w] owner_queues [OF I(2), of _ r] in
         \<open>auto simp: live_request_def\<close>)
  moreover have "names_ok h s'"
    by (rule names_ok_same [OF I(3)]) (use l lk free in \<open>simp_all add: same_names_def same_data_def\<close>)
  moreover have "members_ok s'"
    by (rule members_ok_keeps [OF I(4)]) (use r rq ow free in \<open>simp add: keeps_members_def live_request_def\<close>)
  ultimately show ?thesis unfolding lm_inv_def by blast
qed

lemma wait_mark_inv:
  assumes ok: "lm_inv h s" and r: "live_request s r" "\<not> LRQ_pending (requests s r)"
  shows "lm_inv h (wait_mark r lck_wait s)"
proof -
  let ?req = "requests s r" and ?s = "wait_mark r lck_wait s"
  let ?l = "lrq_lock ?req" and ?w = "lrq_owner ?req"
  note l = live_lock [OF ok r(1)] and O = owners_okD [OF lm_invD(2) [OF ok]]
  have rq: "requests ?s = (requests s)(r := ?req\<lparr>LRQ_rejected := False, LRQ_pending := True,
      LRQ_wait_timeout := (lck_wait \<le> 0 \<or> LRQ_wait_timeout ?req)\<rparr>)"
    by (cases ?req; cases "lck_wait \<le> 0") (auto simp: wait_mark_def Let_def)
  have lk: "locks ?s = (locks s)(?l := (locks s ?l)\<lparr>lbl_pending_lrq_count := lbl_pending_lrq_count (locks s ?l) + 1,
      lbl_requests := (if lrq_state ?req = LCK_none then remove1 r (lbl_requests (locks s ?l)) @ [r] else lbl_requests (locks s ?l))\<rparr>)"
    by (cases "locks s ?l"; cases "lck_wait \<le> 0") (auto simp: wait_mark_def Let_def)
  have ow: "own_requests (owners ?s v) = own_requests (owners s v)" "own_blocks (owners ?s v) = own_blocks (owners s v)"
    "own_process (owners ?s v) = own_process (owners s v)"
    "own_pending (owners ?s v) = (if v = ?w then own_pending (owners s v) @ [r] else own_pending (owners s v))" for v
    by (simp_all add: wait_mark_def Let_def)
  have rest: "lhb_free_requests ?s = lhb_free_requests s" "lhb_free_locks ?s = lhb_free_locks s" "lhb_used ?s = lhb_used s"
      "lhb_hash ?s = lhb_hash s" "lhb_hash_slots ?s = lhb_hash_slots s" "lhb_data ?s = lhb_data s" "processes ?s = processes s"
      "lhb_owners ?s = lhb_owners s" "lhb_free_owners ?s = lhb_free_owners s"
      "lhb_processes ?s = lhb_processes s" "lhb_free_processes ?s = lhb_free_processes s"
    by (simp_all add: wait_mark_def Let_def)
  have "mset (remove1 r (lbl_requests (locks s ?l)) @ [r]) = mset (lbl_requests (locks s ?l))" using l(2) by simp
  then show ?thesis
    by (intro lm_inv_pending [OF ok r(1) rq _ _ _ _ _ _ lk])
       (use r l O(3) [of r ?w] O(9) [of ?w] in \<open>simp_all add: live_request_def ow rest\<close>)
qed

lemma clear_wait_inv:
  assumes ok: "lm_inv h s" and r: "LRQ_pending (requests s r)"
  shows "lm_inv h (clear_wait r s)"
proof -
  let ?req = "requests s r" and ?s = "clear_wait r s"
  let ?l = "lrq_lock ?req" and ?w = "lrq_owner ?req"
  note O = owners_okD [OF lm_invD(2) [OF ok]]
  have live: "live_request s r" using r O(4,5) [of r] by (simp add: live_request_def)
  note l = live_lock [OF ok live]
  have rq: "requests ?s = (requests s)(r := ?req\<lparr>LRQ_rejected := True, LRQ_pending := False\<rparr>)"
    by (simp add: clear_wait_def Let_def)
  have lk: "locks ?s = (locks s)(?l := (locks s ?l)\<lparr>lbl_pending_lrq_count := lbl_pending_lrq_count (locks s ?l) - 1\<rparr>)"
    by (simp add: clear_wait_def Let_def)
  show ?thesis
    by (rule lm_inv_pending [OF ok live rq _ _ _ _ _ _ lk])
       (use live r l O(9) [of ?w] in \<open>simp_all add: live_request_def clear_wait_def Let_def set_remove1_eq distinct_remove1\<close>)
qed

lemma wait_begin_inv:
  assumes "lm_inv (env_hash env) s" "live_request s r" "\<not> LRQ_pending (requests s r)"
  shows "lm_inv (env_hash env) (wait_begin env r lck_wait s)"
proof -
  have "lbl_in_use (locks (wait_mark r lck_wait s) (lrq_lock (requests s r)))"
    using live_lock [OF assms(1,2)] by (simp add: wait_mark_def Let_def)
  note post_blockage_inv [OF wait_mark_inv [OF assms] this, of r]
  then show ?thesis unfolding wait_begin_def Let_def by (rule lm_inv_same) (simp add: same_state_defs)
qed

lemma lm_inv_wait_end: "lm_inv h s \<Longrightarrow> lm_inv h (wait_end r s)"
  by (erule lm_inv_same) (simp add: same_state_defs wait_end_def)

end
