(* ===== verification/LockDeadlock.thy ===== *)
theory LockDeadlock
  imports LockWait
begin

text \<open>
  The deadlock scan of \<^verbatim>\<open>src/src/lock/lock.cpp\<close> is a depth-first search of the graph of
  waits.  The requests on its path are marked \<open>LRQ_deadlock\<close>, those it is done with
  \<open>LRQ_scanned\<close>.
\<close>

section \<open>The graph of waits\<close>

text \<open>The requests of the lock's queue that stand before the request \<open>r\<close>.\<close>

definition blockers_in :: "lhb \<Rightarrow> nat \<Rightarrow> nat list \<Rightarrow> nat list" where
  "blockers_in s r bs =
     (if lrq_state (requests s r) > LCK_null
      then filter (\<lambda>b. b \<noteq> r \<and> \<not> compatibility (lrq_requested (requests s r)) (lrq_state (requests s b))) bs
      else filter (\<lambda>b. \<not> compatibility (lrq_requested (requests s r))
             (max (lrq_state (requests s b)) (lrq_requested (requests s b)))) (takeWhile (\<lambda>b. b \<noteq> r) bs))"

definition blockers :: "lhb \<Rightarrow> nat \<Rightarrow> nat list" where
  "blockers s r = blockers_in s r (lbl_requests (locks s (lrq_lock (requests s r))))"

text \<open>An owner with a notice or a wakeup under way may be about to release what it holds.\<close>

definition settled :: "lhb \<Rightarrow> nat \<Rightarrow> bool" where
  "settled s b \<longleftrightarrow>
     (let w = owners s (lrq_owner (requests s b))
      in \<not> (OWN_signaled w \<or> OWN_wakeup w \<or> own_blocks w \<noteq> [] \<or> LRQ_just_granted (requests s b)))"

definition waits_of :: "lhb \<Rightarrow> nat \<Rightarrow> nat list" where
  "waits_of s b = filter (\<lambda>t. \<not> LRQ_wait_timeout (requests s t)) (own_pending (owners s (lrq_owner (requests s b))))"

text \<open>A request waits for the pending requests of the owners that block it.\<close>

definition waits_for :: "lhb \<Rightarrow> nat \<Rightarrow> nat \<Rightarrow> bool" where
  "waits_for s r t \<longleftrightarrow> (\<exists>b \<in> set (blockers s r). t \<in> set (waits_of s b))"

definition settled_waits :: "lhb \<Rightarrow> nat \<Rightarrow> nat \<Rightarrow> bool" where
  "settled_waits s r t \<longleftrightarrow> (\<exists>b \<in> set (blockers s r). settled s b \<and> t \<in> set (waits_of s b))"

section \<open>The marks\<close>

definition unmarked :: "lrq \<Rightarrow> lrq" where
  "unmarked q = q\<lparr>LRQ_deadlock := False, LRQ_scanned := False\<rparr>"

definition walk_marks :: "lhb \<Rightarrow> lhb \<Rightarrow> bool" where
  "walk_marks s s' \<longleftrightarrow> s' = s\<lparr>requests := requests s'\<rparr> \<and> (\<forall>r. unmarked (requests s' r) = unmarked (requests s r))"

lemma unmarked_fields:
  assumes "unmarked a = unmarked b"
  shows "lrq_in_use a = lrq_in_use b" "lrq_requested a = lrq_requested b" "lrq_state a = lrq_state b"
    "LRQ_blocking a = LRQ_blocking b" "LRQ_pending a = LRQ_pending b" "LRQ_repost a = LRQ_repost b"
    "LRQ_just_granted a = LRQ_just_granted b" "LRQ_wait_timeout a = LRQ_wait_timeout b" "lrq_owner a = lrq_owner b"
    "lrq_lock a = lrq_lock b"
  using assms by (cases a; cases b; simp add: unmarked_def)+

lemma walk_marksD:
  assumes "walk_marks s s'"
  shows "lrq_in_use (requests s' r) = lrq_in_use (requests s r)" "lrq_requested (requests s' r) = lrq_requested (requests s r)"
    "lrq_state (requests s' r) = lrq_state (requests s r)" "LRQ_blocking (requests s' r) = LRQ_blocking (requests s r)"
    "LRQ_pending (requests s' r) = LRQ_pending (requests s r)" "LRQ_repost (requests s' r) = LRQ_repost (requests s r)"
    "LRQ_just_granted (requests s' r) = LRQ_just_granted (requests s r)"
    "LRQ_wait_timeout (requests s' r) = LRQ_wait_timeout (requests s r)"
    "lrq_owner (requests s' r) = lrq_owner (requests s r)" "lrq_lock (requests s' r) = lrq_lock (requests s r)"
    "locks s' = locks s" "owners s' = owners s" "processes s' = processes s" "lhb_owners s' = lhb_owners s"
    "lhb_free_owners s' = lhb_free_owners s" "lhb_free_requests s' = lhb_free_requests s"
    "lhb_free_locks s' = lhb_free_locks s" "lhb_used s' = lhb_used s" "lhb_hash s' = lhb_hash s"
    "lhb_hash_slots s' = lhb_hash_slots s" "lhb_data s' = lhb_data s"
    "lhb_processes s' = lhb_processes s" "lhb_free_processes s' = lhb_free_processes s"
proof -
  have "unmarked (requests s' r) = unmarked (requests s r)" using assms by (simp add: walk_marks_def)
  note F = unmarked_fields [OF this]
  show "lrq_in_use (requests s' r) = lrq_in_use (requests s r)" "lrq_requested (requests s' r) = lrq_requested (requests s r)"
    "lrq_state (requests s' r) = lrq_state (requests s r)" "LRQ_blocking (requests s' r) = LRQ_blocking (requests s r)"
    "LRQ_pending (requests s' r) = LRQ_pending (requests s r)" "LRQ_repost (requests s' r) = LRQ_repost (requests s r)"
    "LRQ_just_granted (requests s' r) = LRQ_just_granted (requests s r)"
    "LRQ_wait_timeout (requests s' r) = LRQ_wait_timeout (requests s r)"
    "lrq_owner (requests s' r) = lrq_owner (requests s r)" "lrq_lock (requests s' r) = lrq_lock (requests s r)"
    using F by simp_all
  obtain q where "s' = s\<lparr>requests := q\<rparr>" using assms unfolding walk_marks_def by blast
  then show "locks s' = locks s" "owners s' = owners s" "processes s' = processes s" "lhb_owners s' = lhb_owners s"
    "lhb_free_owners s' = lhb_free_owners s" "lhb_free_requests s' = lhb_free_requests s"
    "lhb_free_locks s' = lhb_free_locks s" "lhb_used s' = lhb_used s" "lhb_hash s' = lhb_hash s"
    "lhb_hash_slots s' = lhb_hash_slots s" "lhb_data s' = lhb_data s"
    "lhb_processes s' = lhb_processes s" "lhb_free_processes s' = lhb_free_processes s" by simp_all
qed

lemma walk_marks_same: "walk_marks s s' \<Longrightarrow> same_state s s'"
  by (simp add: same_state_defs walk_marksD)

lemma walk_marks_refl [simp]: "walk_marks s s"
  by (simp add: walk_marks_def)

lemma walk_marks_upd:
  assumes "walk_marks s0 s" "\<And>q. unmarked (f q) = unmarked q"
  shows "walk_marks s0 (upd_req r f s)"
proof -
  obtain q where q: "s = s0\<lparr>requests := q\<rparr>" using assms(1) unfolding walk_marks_def by blast
  have "unmarked (requests s r') = unmarked (requests s0 r')" for r' using assms(1) by (simp add: walk_marks_def)
  then show ?thesis using assms(2) q by (simp add: walk_marks_def upd_req_def)
qed

section \<open>Correctness of the walk\<close>

definition deadlock_marked :: "lhb \<Rightarrow> nat set" where
  "deadlock_marked s = {r. LRQ_pending (requests s r) \<and> LRQ_deadlock (requests s r)}"

definition scanned_marked :: "lhb \<Rightarrow> nat set" where
  "scanned_marked s = {r. LRQ_pending (requests s r) \<and> LRQ_scanned (requests s r)}"

lemma marked [simp]:
  "r \<in> deadlock_marked s \<longleftrightarrow> LRQ_pending (requests s r) \<and> LRQ_deadlock (requests s r)"
  "r \<in> scanned_marked s \<longleftrightarrow> LRQ_pending (requests s r) \<and> LRQ_scanned (requests s r)"
  by (simp_all add: deadlock_marked_def scanned_marked_def)

lemma mark_entered:
  assumes "LRQ_pending (requests s r)"
  shows "deadlock_marked (upd_req r (\<lambda>q. q\<lparr>LRQ_deadlock := True\<rparr>) s) = insert r (deadlock_marked s)"
    "scanned_marked (upd_req r (\<lambda>q. q\<lparr>LRQ_deadlock := True\<rparr>) s) = scanned_marked s"
  using assms by (auto simp: deadlock_marked_def scanned_marked_def)

lemma mark_scanned:
  assumes "LRQ_pending (requests s r)"
  shows "deadlock_marked (upd_req r (\<lambda>q. q\<lparr>LRQ_deadlock := False, LRQ_scanned := True\<rparr>) s) = deadlock_marked s - {r}"
    "scanned_marked (upd_req r (\<lambda>q. q\<lparr>LRQ_deadlock := False, LRQ_scanned := True\<rparr>) s) = insert r (scanned_marked s)"
  using assms by (auto simp: deadlock_marked_def scanned_marked_def)

declare marked [simp del]

text \<open>
  The requests done with have all they wait for done with and lie on no cycle, and while no
  deadlock is suspected all that block them are settled.
\<close>

definition walk_inv :: "lhb \<Rightarrow> lhb \<Rightarrow> bool \<Rightarrow> bool" where
  "walk_inv s0 s maybe \<longleftrightarrow> walk_marks s0 s \<and> deadlock_marked s \<inter> scanned_marked s = {} \<and>
     (\<forall>x \<in> scanned_marked s. \<forall>y. settled_waits s0 x y \<longrightarrow> y \<in> scanned_marked s) \<and>
     (\<forall>x \<in> scanned_marked s. \<not> (settled_waits s0)\<^sup>+\<^sup>+ x x) \<and>
     (maybe \<or> (\<forall>x \<in> scanned_marked s. \<forall>b \<in> set (blockers s0 x). settled s0 b))"

text \<open>The requests the walk has not met.\<close>

definition unmet :: "lhb \<Rightarrow> lhb \<Rightarrow> nat set" where
  "unmet s0 s = {r. LRQ_pending (requests s0 r)} - deadlock_marked s - scanned_marked s"

definition walk_post :: "lhb \<Rightarrow> nat \<Rightarrow> lhb \<Rightarrow> bool \<Rightarrow> walk option \<Rightarrow> (nat \<Rightarrow> bool) \<Rightarrow> (lhb \<Rightarrow> bool \<Rightarrow> bool) \<Rightarrow> bool" where
  "walk_post s0 n s maybe res found goal \<longleftrightarrow>
     (case res of
        None \<Rightarrow> n \<le> card (unmet s0 s)
      | Some (Some v, s', maybe') \<Rightarrow> walk_marks s0 s' \<and> (settled_waits s0)\<^sup>+\<^sup>+ v v \<and> found v
      | Some (None, s', maybe') \<Rightarrow> walk_inv s0 s' maybe' \<and> scanned_marked s \<subseteq> scanned_marked s' \<and>
          deadlock_marked s' = deadlock_marked s \<and> (maybe \<longrightarrow> maybe') \<and> goal s' maybe')"

lemma unmet_mono:
  "finite (unmet s0 s) \<Longrightarrow> scanned_marked s \<subseteq> scanned_marked s' \<Longrightarrow> deadlock_marked s' = deadlock_marked s \<Longrightarrow>
     card (unmet s0 s') \<le> card (unmet s0 s)"
  by (rule card_mono) (auto simp: unmet_def)

text \<open>One part of the walk after another.\<close>

lemma walk_post_bind:
  assumes 1: "walk_post s0 n s maybe res found1 goal1" and fin: "finite (unmet s0 s)"
    and f: "\<And>v. found1 v \<Longrightarrow> found v"
    and 2: "\<And>s' maybe'. walk_inv s0 s' maybe' \<Longrightarrow> scanned_marked s \<subseteq> scanned_marked s' \<Longrightarrow>
        deadlock_marked s' = deadlock_marked s \<Longrightarrow> (maybe \<longrightarrow> maybe') \<Longrightarrow> goal1 s' maybe' \<Longrightarrow> finite (unmet s0 s') \<Longrightarrow>
        walk_post s0 n s' maybe' (k s' maybe') found (\<lambda>s'' maybe''. scanned_marked s' \<subseteq> scanned_marked s'' \<longrightarrow>
          (maybe' \<longrightarrow> maybe'') \<longrightarrow> goal s'' maybe'')"
  shows "walk_post s0 n s maybe
     (case res of None \<Rightarrow> None | Some (Some v, s, m) \<Rightarrow> Some (Some v, s, m) | Some (None, s, m) \<Rightarrow> k s m) found goal"
proof (cases res)
  case None
  then show ?thesis using 1 by (simp add: walk_post_def)
next
  case (Some a)
  obtain v s' m' where a: "a = (v, s', m')" by (cases a) auto
  show ?thesis
  proof (cases v)
    case v: None
    have post: "walk_inv s0 s' m'" "scanned_marked s \<subseteq> scanned_marked s'" "deadlock_marked s' = deadlock_marked s"
      "maybe \<longrightarrow> m'" "goal1 s' m'" using 1 by (simp_all add: walk_post_def Some a v)
    have "unmet s0 s' \<subseteq> unmet s0 s" using post(2,3) by (auto simp: unmet_def)
    then have fin': "finite (unmet s0 s')" using fin finite_subset by blast
    note c = unmet_mono [OF fin post(2,3)]
    have res: "(case res of None \<Rightarrow> None | Some (Some v, s, m) \<Rightarrow> Some (Some v, s, m) | Some (None, s, m) \<Rightarrow> k s m) = k s' m'"
      by (simp add: Some a v)
    show ?thesis unfolding res
      using 2 [OF post fin'] post(2-4) c unfolding walk_post_def
      by (auto split: option.splits prod.splits intro: order_trans)
  next
    case (Some x)
    then show ?thesis using 1 f by (simp add: walk_post_def \<open>res = Some a\<close> a)
  qed
qed

lemma walk_invD:
  assumes "walk_inv s0 s maybe"
  shows "walk_marks s0 s" "x \<in> scanned_marked s \<Longrightarrow> x \<notin> deadlock_marked s"
    "x \<in> scanned_marked s \<Longrightarrow> settled_waits s0 x y \<Longrightarrow> y \<in> scanned_marked s"
    "x \<in> scanned_marked s \<Longrightarrow> \<not> (settled_waits s0)\<^sup>+\<^sup>+ x x"
    "maybe \<or> (\<forall>x \<in> scanned_marked s. \<forall>b \<in> set (blockers s0 x). settled s0 b)"
  using assms unfolding walk_inv_def by blast+

lemma closed_reach:
  "E\<^sup>+\<^sup>+ x y \<Longrightarrow> \<forall>a \<in> S. \<forall>b. E a b \<longrightarrow> b \<in> S \<Longrightarrow> x \<in> S \<Longrightarrow> y \<in> S"
  by (induction rule: tranclp_induct) auto

text \<open>A request is done with when all it waits for is.\<close>

lemma walk_inv_scanned:
  assumes inv: "walk_inv s0 s maybe" and r: "r \<notin> scanned_marked s" and p: "LRQ_pending (requests s r)"
    and goal: "\<forall>b \<in> set (blockers s0 r). (maybe \<or> settled s0 b) \<and> (settled s0 b \<longrightarrow> set (waits_of s0 b) \<subseteq> scanned_marked s)"
  shows "walk_inv s0 (upd_req r (\<lambda>q. q\<lparr>LRQ_deadlock := False, LRQ_scanned := True\<rparr>) s) maybe"
proof -
  let ?s = "upd_req r (\<lambda>q. q\<lparr>LRQ_deadlock := False, LRQ_scanned := True\<rparr>) s" and ?E = "settled_waits s0"
  note I = walk_invD [OF inv]
  have scanned: "scanned_marked ?s = insert r (scanned_marked s)" by (rule mark_scanned(2) [OF p])
  have marks: "walk_marks s0 ?s" by (rule walk_marks_upd [OF I(1)]) (simp add: unmarked_def)
  have disjoint: "deadlock_marked ?s \<inter> scanned_marked ?s = {}" using I(2) unfolding mark_scanned [OF p] by blast
  have succ: "y \<in> scanned_marked s" if "?E r y" for y using that goal unfolding settled_waits_def by blast
  then have closed: "\<forall>x \<in> scanned_marked ?s. \<forall>y. ?E x y \<longrightarrow> y \<in> scanned_marked ?s"
    using I(3) unfolding scanned by blast
  have "\<not> ?E\<^sup>+\<^sup>+ r r"
  proof
    assume "?E\<^sup>+\<^sup>+ r r"
    then consider "?E r r" | y where "?E r y" "?E\<^sup>+\<^sup>+ y r" by (blast elim: converse_tranclpE)
    then show False
    proof cases
      case 1
      then show ?thesis using succ r by blast
    next
      case 2
      then show ?thesis using closed_reach [of ?E y r "scanned_marked s"] I(3) succ r by blast
    qed
  qed
  then have acyclic: "\<forall>x \<in> scanned_marked ?s. \<not> ?E\<^sup>+\<^sup>+ x x" using I(4) unfolding scanned by blast
  have "maybe \<or> (\<forall>x \<in> scanned_marked ?s. \<forall>b \<in> set (blockers s0 x). settled s0 b)"
    using I(5) goal unfolding scanned by blast
  then show ?thesis unfolding walk_inv_def using marks disjoint closed acyclic by blast
qed

lemma walk_inv_entered:
  assumes "walk_inv s0 s maybe" "r \<notin> scanned_marked s" "LRQ_pending (requests s r)"
  shows "walk_inv s0 (upd_req r (\<lambda>q. q\<lparr>LRQ_deadlock := True\<rparr>) s) maybe"
proof -
  let ?s = "upd_req r (\<lambda>q. q\<lparr>LRQ_deadlock := True\<rparr>) s"
  have "scanned_marked ?s = scanned_marked s" "deadlock_marked ?s = insert r (deadlock_marked s)"
    using mark_entered [OF assms(3)] by simp_all
  moreover have "walk_marks s0 ?s" by (rule walk_marks_upd [OF walk_invD(1) [OF assms(1)]]) (simp add: unmarked_def)
  ultimately show ?thesis using assms unfolding walk_inv_def by auto
qed

lemma walk_post_weaken:
  assumes "walk_post s0 n s maybe res found goal" "\<And>v. found v \<Longrightarrow> found' v" "\<And>s' m'. goal s' m' \<Longrightarrow> goal' s' m'"
  shows "walk_post s0 n s maybe res found' goal'"
  using assms unfolding walk_post_def by (auto split: option.splits prod.splits)

text \<open>A cons of the loop over the queue.\<close>

lemma blockers_in_simps:
  "blockers_in s r [] = []"
  "blockers_in s r (b # bs) =
     (if lrq_state (requests s r) > LCK_null
      then (if b \<noteq> r \<and> \<not> compatibility (lrq_requested (requests s r)) (lrq_state (requests s b))
            then b # blockers_in s r bs else blockers_in s r bs)
      else if b = r then []
      else if \<not> compatibility (lrq_requested (requests s r)) (max (lrq_state (requests s b)) (lrq_requested (requests s b)))
      then b # blockers_in s r bs else blockers_in s r bs)"
  by (auto simp: blockers_in_def)

text \<open>The choice the loop makes at a request.\<close>

lemma walk_queue_cases:
  assumes marks: "walk_marks s0 s" and c: "c = (lrq_state (requests s0 r) > LCK_null)"
  obtains (skip) "blockers_in s0 r (b # bs) = blockers_in s0 r bs" "walk_queue n r c (b # bs) s m = walk_queue n r c bs s m"
  | (stop) "blockers_in s0 r (b # bs) = []" "walk_queue n r c (b # bs) s m = Some (None, s, m)"
  | (unsettled) "blockers_in s0 r (b # bs) = b # blockers_in s0 r bs" "\<not> settled s0 b"
      "walk_queue n r c (b # bs) s m = walk_queue n r c bs s True"
  | (blocker) "blockers_in s0 r (b # bs) = b # blockers_in s0 r bs" "settled s0 b"
      "walk_queue n r c (b # bs) s m = (case walk_owner n (own_pending (owners s0 (lrq_owner (requests s0 b)))) s m of
         None \<Rightarrow> None | Some (Some t, s, m) \<Rightarrow> Some (Some t, s, m) | Some (None, s, m) \<Rightarrow> walk_queue n r c bs s m)"
proof -
  note M = walk_marksD [OF marks]
  have settled: "settled s0 b \<longleftrightarrow> \<not> (OWN_signaled (owners s (lrq_owner (requests s b))) \<or> OWN_wakeup (owners s (lrq_owner (requests s b))) \<or>
      own_blocks (owners s (lrq_owner (requests s b))) \<noteq> [] \<or> LRQ_just_granted (requests s b))"
    by (simp add: settled_def Let_def M)
  consider "c" "r = b \<or> compatibility (lrq_requested (requests s r)) (lrq_state (requests s b))"
    | "\<not> c" "r = b"
    | "\<not> c" "r \<noteq> b" "compatibility (lrq_requested (requests s r)) (max (lrq_state (requests s b)) (lrq_requested (requests s b)))"
    | "c" "\<not> (r = b \<or> compatibility (lrq_requested (requests s r)) (lrq_state (requests s b)))"
    | "\<not> c" "r \<noteq> b" "\<not> compatibility (lrq_requested (requests s r)) (max (lrq_state (requests s b)) (lrq_requested (requests s b)))"
    by blast
  then show thesis
  proof cases
    case 1
    then show ?thesis using c M by (intro skip) (auto simp: blockers_in_simps Let_def)
  next
    case 2
    then show ?thesis using c M by (intro stop) (auto simp: blockers_in_simps Let_def)
  next
    case 3
    then show ?thesis using c M by (intro skip) (auto simp: blockers_in_simps Let_def)
  next
    case 4
    then have b: "blockers_in s0 r (b # bs) = b # blockers_in s0 r bs" using c M by (auto simp: blockers_in_simps)
    show ?thesis
    proof (cases "settled s0 b")
      case True
      then show ?thesis using 4 settled by (intro blocker [OF b]) (auto simp: Let_def M split: option.splits)
    next
      case False
      then show ?thesis using 4 settled by (intro unsettled [OF b]) (auto simp: Let_def)
    qed
  next
    case 5
    then have b: "blockers_in s0 r (b # bs) = b # blockers_in s0 r bs" using c M by (auto simp: blockers_in_simps)
    show ?thesis
    proof (cases "settled s0 b")
      case True
      then show ?thesis using 5 settled by (intro blocker [OF b]) (auto simp: Let_def M split: option.splits)
    next
      case False
      then show ?thesis using 5 settled by (intro unsettled [OF b]) (auto simp: Let_def)
    qed
  qed
qed

lemma walk_inv_maybe: "walk_inv s0 s m \<Longrightarrow> walk_inv s0 s True"
  by (auto simp: walk_inv_def)

text \<open>
  What the three functions of the walk do with fuel \<open>n\<close>: each is the next one's, and the fuel
  decreases in the first.
\<close>

definition walk_sound :: "lhb \<Rightarrow> nat \<Rightarrow> bool" where
  "walk_sound s0 n \<longleftrightarrow> (\<forall>r s m. walk_inv s0 s m \<longrightarrow> LRQ_pending (requests s0 r) \<longrightarrow>
     (\<forall>x \<in> deadlock_marked s. (settled_waits s0)\<^sup>+\<^sup>+ x r) \<longrightarrow>
     walk_post s0 n s m (deadlock_walk n r s m) (\<lambda>v. (settled_waits s0)\<^sup>*\<^sup>* r v) (\<lambda>s' m'. r \<in> scanned_marked s'))"

definition queue_sound :: "lhb \<Rightarrow> nat \<Rightarrow> bool" where
  "queue_sound s0 n \<longleftrightarrow> (\<forall>r bs c s m. walk_inv s0 s m \<longrightarrow> (\<forall>x \<in> deadlock_marked s. (settled_waits s0)\<^sup>*\<^sup>* x r) \<longrightarrow>
     set (blockers_in s0 r bs) \<subseteq> set (blockers s0 r) \<longrightarrow> c = (LCK_null < lrq_state (requests s0 r)) \<longrightarrow>
     walk_post s0 n s m (walk_queue n r c bs s m) (\<lambda>v. (settled_waits s0)\<^sup>*\<^sup>* r v)
       (\<lambda>s' m'. \<forall>b \<in> set (blockers_in s0 r bs). (m' \<or> settled s0 b) \<and> (settled s0 b \<longrightarrow> set (waits_of s0 b) \<subseteq> scanned_marked s')))"

definition owner_sound :: "lhb \<Rightarrow> nat \<Rightarrow> bool" where
  "owner_sound s0 n \<longleftrightarrow> (\<forall>ts s m. walk_inv s0 s m \<longrightarrow>
     (\<forall>t \<in> set ts. LRQ_pending (requests s0 t) \<and>
        (\<not> LRQ_wait_timeout (requests s0 t) \<longrightarrow> (\<forall>x \<in> deadlock_marked s. (settled_waits s0)\<^sup>+\<^sup>+ x t))) \<longrightarrow>
     walk_post s0 n s m (walk_owner n ts s m)
       (\<lambda>v. \<exists>t \<in> set ts. \<not> LRQ_wait_timeout (requests s0 t) \<and> (settled_waits s0)\<^sup>*\<^sup>* t v)
       (\<lambda>s' m'. \<forall>t \<in> set ts. \<not> LRQ_wait_timeout (requests s0 t) \<longrightarrow> t \<in> scanned_marked s'))"

lemma owner_sound:
  assumes walk: "walk_sound s0 n" and fin: "finite {t. LRQ_pending (requests s0 t)}"
  shows "owner_sound s0 n"
  unfolding owner_sound_def
proof (intro allI impI)
  fix ts s m
  assume "walk_inv s0 s m" "\<forall>t \<in> set ts. LRQ_pending (requests s0 t) \<and>
        (\<not> LRQ_wait_timeout (requests s0 t) \<longrightarrow> (\<forall>x \<in> deadlock_marked s. (settled_waits s0)\<^sup>+\<^sup>+ x t))"
  then show "walk_post s0 n s m (walk_owner n ts s m)
       (\<lambda>v. \<exists>t \<in> set ts. \<not> LRQ_wait_timeout (requests s0 t) \<and> (settled_waits s0)\<^sup>*\<^sup>* t v)
       (\<lambda>s' m'. \<forall>t \<in> set ts. \<not> LRQ_wait_timeout (requests s0 t) \<longrightarrow> t \<in> scanned_marked s')"
  proof (induction ts arbitrary: s m)
    case Nil
    then show ?case by (simp add: walk_post_def)
  next
    case (Cons t ts)
    note M = walk_marksD [OF walk_invD(1) [OF Cons.prems(1)]]
    have rest: "\<forall>t \<in> set ts. LRQ_pending (requests s0 t) \<and>
        (\<not> LRQ_wait_timeout (requests s0 t) \<longrightarrow> (\<forall>x \<in> deadlock_marked s. (settled_waits s0)\<^sup>+\<^sup>+ x t))"
      using Cons.prems(2) by simp
    show ?case
    proof (cases "LRQ_wait_timeout (requests s0 t)")
      case True
      then have run: "walk_owner n (t # ts) s m = walk_owner n ts s m" by (simp add: M)
      show ?thesis unfolding run by (rule walk_post_weaken [OF Cons.IH [OF Cons.prems(1) rest]]) (use True in auto)
    next
      case False
      have fin': "finite (unmet s0 s)" by (rule finite_subset [OF _ fin]) (auto simp: unmet_def)
      have t: "LRQ_pending (requests s0 t)" "\<forall>x \<in> deadlock_marked s. (settled_waits s0)\<^sup>+\<^sup>+ x t"
        using Cons.prems(2) False by simp_all
      have run: "walk_owner n (t # ts) s m = (case deadlock_walk n t s m of None \<Rightarrow> None
          | Some (Some v, s, m) \<Rightarrow> Some (Some v, s, m) | Some (None, s, m) \<Rightarrow> walk_owner n ts s m)"
        using False by (simp add: M)
      note P = walk [unfolded walk_sound_def, rule_format, OF Cons.prems(1) t(1), OF t(2) [rule_format]]
      show ?thesis unfolding run
      proof (rule walk_post_bind [OF P fin'])
        show "\<exists>t \<in> set (t # ts). \<not> LRQ_wait_timeout (requests s0 t) \<and> (settled_waits s0)\<^sup>*\<^sup>* t v"
          if "(settled_waits s0)\<^sup>*\<^sup>* t v" for v using that False by auto
      next
        fix s' m'
        assume s': "walk_inv s0 s' m'" "deadlock_marked s' = deadlock_marked s" "t \<in> scanned_marked s'"
        have rest': "\<forall>t \<in> set ts. LRQ_pending (requests s0 t) \<and>
            (\<not> LRQ_wait_timeout (requests s0 t) \<longrightarrow> (\<forall>x \<in> deadlock_marked s'. (settled_waits s0)\<^sup>+\<^sup>+ x t))"
          unfolding s'(2) by (rule rest)
        show "walk_post s0 n s' m' (walk_owner n ts s' m')
            (\<lambda>v. \<exists>t \<in> set (t # ts). \<not> LRQ_wait_timeout (requests s0 t) \<and> (settled_waits s0)\<^sup>*\<^sup>* t v)
            (\<lambda>s'' m''. scanned_marked s' \<subseteq> scanned_marked s'' \<longrightarrow> (m' \<longrightarrow> m'') \<longrightarrow>
               (\<forall>t \<in> set (t # ts). \<not> LRQ_wait_timeout (requests s0 t) \<longrightarrow> t \<in> scanned_marked s''))"
          by (rule walk_post_weaken [OF Cons.IH [OF s'(1) rest']]) (use s'(3) in auto)
      qed
    qed
  qed
qed

lemma queue_sound:
  assumes owner: "owner_sound s0 n" and fin: "finite {t. LRQ_pending (requests s0 t)}"
    and own: "\<And>w t. t \<in> set (own_pending (owners s0 w)) \<Longrightarrow> LRQ_pending (requests s0 t)"
  shows "queue_sound s0 n"
  unfolding queue_sound_def
proof (intro allI impI)
  fix r bs c s m
  assume inv: "walk_inv s0 s m" "\<forall>x \<in> deadlock_marked s. (settled_waits s0)\<^sup>*\<^sup>* x r"
      "set (blockers_in s0 r bs) \<subseteq> set (blockers s0 r)" and c: "c = (LCK_null < lrq_state (requests s0 r))"
  let ?goal = "\<lambda>bs s' m'. \<forall>b \<in> set (blockers_in s0 r bs). (m' \<or> settled s0 b) \<and>
      (settled s0 b \<longrightarrow> set (waits_of s0 b) \<subseteq> scanned_marked s')"
  show "walk_post s0 n s m (walk_queue n r c bs s m) (\<lambda>v. (settled_waits s0)\<^sup>*\<^sup>* r v) (?goal bs)"
    using inv
  proof (induction bs arbitrary: s m)
    case Nil
    then show ?case by (simp add: walk_post_def blockers_in_simps)
  next
    case (Cons b bs)
    note prems = Cons.prems
    have w: "walk_marks s0 s" by (rule walk_invD(1) [OF prems(1)])
    from w c show ?case
    proof (rule walk_queue_cases [where b = b and bs = bs and n = n and m = m])
      assume bl: "blockers_in s0 r (b # bs) = blockers_in s0 r bs"
        and run: "walk_queue n r c (b # bs) s m = walk_queue n r c bs s m"
      show ?thesis unfolding run bl by (rule Cons.IH [OF prems(1,2)]) (use prems(3) bl in simp)
    next
      assume "blockers_in s0 r (b # bs) = []" "walk_queue n r c (b # bs) s m = Some (None, s, m)"
      then show ?thesis using prems(1) by (simp add: walk_post_def)
    next
      assume bl: "blockers_in s0 r (b # bs) = b # blockers_in s0 r bs" "\<not> settled s0 b"
        and run: "walk_queue n r c (b # bs) s m = walk_queue n r c bs s True"
      have "walk_post s0 n s True (walk_queue n r c bs s True) (\<lambda>v. (settled_waits s0)\<^sup>*\<^sup>* r v) (?goal bs)"
        by (rule Cons.IH [OF walk_inv_maybe [OF prems(1)] prems(2)]) (use prems(3) bl in simp)
      then show ?thesis unfolding run bl(1) using bl(2)
        by (auto simp: walk_post_def split: option.splits prod.splits)
    next
      assume bl: "blockers_in s0 r (b # bs) = b # blockers_in s0 r bs" "settled s0 b"
        and run: "walk_queue n r c (b # bs) s m = (case walk_owner n (own_pending (owners s0 (lrq_owner (requests s0 b)))) s m of
         None \<Rightarrow> None | Some (Some t, s, m) \<Rightarrow> Some (Some t, s, m) | Some (None, s, m) \<Rightarrow> walk_queue n r c bs s m)"
      let ?ts = "own_pending (owners s0 (lrq_owner (requests s0 b)))"
      have fin': "finite (unmet s0 s)" by (rule finite_subset [OF _ fin]) (auto simp: unmet_def)
      have b: "b \<in> set (blockers s0 r)" using prems(3) bl(1) by simp
      have edge: "settled_waits s0 r t" if "t \<in> set ?ts" "\<not> LRQ_wait_timeout (requests s0 t)" for t
        using b bl(2) that unfolding settled_waits_def waits_of_def by auto
      have ts: "\<forall>t \<in> set ?ts. LRQ_pending (requests s0 t) \<and>
          (\<not> LRQ_wait_timeout (requests s0 t) \<longrightarrow> (\<forall>x \<in> deadlock_marked s. (settled_waits s0)\<^sup>+\<^sup>+ x t))"
        using own prems(2) edge by (meson rtranclp_into_tranclp1)
      note P = owner [unfolded owner_sound_def, THEN spec, THEN spec, THEN spec, THEN mp, THEN mp, OF prems(1) ts]
      show ?thesis unfolding run
      proof (rule walk_post_bind [OF P fin'])
        show "(settled_waits s0)\<^sup>*\<^sup>* r v"
          if "\<exists>t \<in> set ?ts. \<not> LRQ_wait_timeout (requests s0 t) \<and> (settled_waits s0)\<^sup>*\<^sup>* t v" for v
          using that edge by (meson converse_rtranclp_into_rtranclp)
      next
        fix s' m'
        assume s': "walk_inv s0 s' m'" "deadlock_marked s' = deadlock_marked s"
          "\<forall>t \<in> set ?ts. \<not> LRQ_wait_timeout (requests s0 t) \<longrightarrow> t \<in> scanned_marked s'"
        have path: "\<forall>x \<in> deadlock_marked s'. (settled_waits s0)\<^sup>*\<^sup>* x r" unfolding s'(2) by (rule prems(2))
        have sub: "set (blockers_in s0 r bs) \<subseteq> set (blockers s0 r)" using prems(3) bl(1) by simp
        have "set (waits_of s0 b) \<subseteq> scanned_marked s'" using s'(3) unfolding waits_of_def by auto
        then show "walk_post s0 n s' m' (walk_queue n r c bs s' m') (\<lambda>v. (settled_waits s0)\<^sup>*\<^sup>* r v)
            (\<lambda>s'' m''. scanned_marked s' \<subseteq> scanned_marked s'' \<longrightarrow> (m' \<longrightarrow> m'') \<longrightarrow> ?goal (b # bs) s'' m'')"
          unfolding bl(1) by (intro walk_post_weaken [OF Cons.IH [OF s'(1) path sub]]) (use bl(2) in auto)
      qed
    qed
  qed
qed

lemma walk_sound_step:
  assumes queue_sound: "queue_sound s0 n" and fin: "finite {t. LRQ_pending (requests s0 t)}"
  shows "walk_sound s0 (Suc n)"
  unfolding walk_sound_def
proof (intro allI impI)
  fix r s m
  assume prems: "walk_inv s0 s m" "LRQ_pending (requests s0 r)" "\<forall>x \<in> deadlock_marked s. (settled_waits s0)\<^sup>+\<^sup>+ x r"
  note queue = queue_sound [unfolded queue_sound_def, THEN spec, THEN spec, THEN spec, THEN spec, THEN spec,
    THEN mp, THEN mp, THEN mp, THEN mp]
  note I = walk_invD [OF prems(1)] and M = walk_marksD [OF walk_invD(1) [OF prems(1)]]
  have p: "LRQ_pending (requests s r)" using prems(2) M by simp
  consider "LRQ_scanned (requests s r)" | "\<not> LRQ_scanned (requests s r)" "LRQ_deadlock (requests s r)"
    | "\<not> LRQ_scanned (requests s r)" "\<not> LRQ_deadlock (requests s r)" by blast
  then show "walk_post s0 (Suc n) s m (deadlock_walk (Suc n) r s m) (\<lambda>v. (settled_waits s0)\<^sup>*\<^sup>* r v)
      (\<lambda>s' m'. r \<in> scanned_marked s')"
  proof cases
    case 1
    then show ?thesis using prems(1) p by (simp add: walk_post_def marked)
  next
    case dead: 2
    then show ?thesis using prems(3) I(1) p by (simp add: walk_post_def marked)
  next
    case new: 3
    let ?s1 = "upd_req r (\<lambda>q. q\<lparr>LRQ_deadlock := True\<rparr>) s"
    have r: "r \<notin> scanned_marked s" "r \<notin> deadlock_marked s" using new by (simp_all add: marked)
    have inv: "walk_inv s0 ?s1 m" by (rule walk_inv_entered [OF prems(1) r(1) p])
    have path: "\<forall>x \<in> deadlock_marked ?s1. (settled_waits s0)\<^sup>*\<^sup>* x r"
      using prems(3) unfolding mark_entered [OF p] by (auto dest: tranclp_into_rtranclp)
    have bl: "blockers_in s0 r (lbl_requests (locks ?s1 (lrq_lock (requests ?s1 r)))) = blockers s0 r"
      by (simp add: blockers_def M)
    let ?c = "LCK_null < lrq_state (requests ?s1 r)" and ?q = "lbl_requests (locks ?s1 (lrq_lock (requests ?s1 r)))"
    have IH: "walk_post s0 n ?s1 m (walk_queue n r ?c ?q ?s1 m) (\<lambda>v. (settled_waits s0)\<^sup>*\<^sup>* r v)
        (\<lambda>s' m'. \<forall>b \<in> set (blockers s0 r). (m' \<or> settled s0 b) \<and> (settled s0 b \<longrightarrow> set (waits_of s0 b) \<subseteq> scanned_marked s'))"
    proof -
      have sub: "set (blockers_in s0 r ?q) \<subseteq> set (blockers s0 r)" unfolding bl by (rule order_refl)
      have c: "?c = (LCK_null < lrq_state (requests s0 r))" by (simp add: M)
      show ?thesis using queue [OF inv path sub c] unfolding bl .
    qed
    have un: "unmet s0 ?s1 = unmet s0 s - {r}" unfolding unmet_def mark_entered [OF p] by blast
    have "r \<in> unmet s0 s" using r prems(2) by (simp add: unmet_def)
    moreover have "finite (unmet s0 s)" by (rule finite_subset [OF _ fin]) (auto simp: unmet_def)
    ultimately have card: "card (unmet s0 s) = Suc (card (unmet s0 ?s1))" unfolding un by (rule card.remove [rotated])
    have run: "deadlock_walk (Suc n) r s m = (case walk_queue n r ?c ?q ?s1 m of None \<Rightarrow> None
        | Some (Some t, s, m) \<Rightarrow> Some (Some t, s, m)
        | Some (None, s, m) \<Rightarrow> Some (None, upd_req r (\<lambda>q. q\<lparr>LRQ_deadlock := False, LRQ_scanned := True\<rparr>) s, m))"
      using new by (simp add: Let_def)
    show ?thesis
    proof (cases "walk_queue n r ?c ?q ?s1 m")
      case None
      then show ?thesis using IH card unfolding run by (simp add: walk_post_def)
    next
      case (Some a)
      obtain v s' m' where a: "a = (v, s', m')" by (cases a) auto
      show ?thesis
      proof (cases v)
        case (Some t)
        then show ?thesis using IH unfolding run \<open>walk_queue n r ?c ?q ?s1 m = Some a\<close> a by (simp add: walk_post_def)
      next
        case None
        let ?s2 = "upd_req r (\<lambda>q. q\<lparr>LRQ_deadlock := False, LRQ_scanned := True\<rparr>) s'"
        have post: "walk_inv s0 s' m'" "scanned_marked ?s1 \<subseteq> scanned_marked s'" "deadlock_marked s' = deadlock_marked ?s1" "m \<longrightarrow> m'"
          "\<forall>b \<in> set (blockers s0 r). (m' \<or> settled s0 b) \<and> (settled s0 b \<longrightarrow> set (waits_of s0 b) \<subseteq> scanned_marked s')"
          using IH unfolding \<open>walk_queue n r ?c ?q ?s1 m = Some a\<close> a None by (simp_all add: walk_post_def)
        note d1 = mark_entered [OF p]
        have p': "LRQ_pending (requests s' r)" using walk_marksD(5) [OF walk_invD(1) [OF post(1)], of r] prems(2) by simp
        have "r \<in> deadlock_marked s'" using post(3) d1(1) by simp
        then have "r \<notin> scanned_marked s'" using walk_invD(2) [OF post(1)] by blast
        note inv2 = walk_inv_scanned [OF post(1) this p' post(5)]
        note d2 = mark_scanned [OF p']
        have "deadlock_marked ?s2 = deadlock_marked s" "scanned_marked s \<subseteq> scanned_marked ?s2" "r \<in> scanned_marked ?s2"
          using post(2,3) r(2) unfolding d1 d2 by blast+
        then show ?thesis
          using inv2 post(4) unfolding run \<open>walk_queue n r ?c ?q ?s1 m = Some a\<close> a None by (simp add: walk_post_def)
      qed
    qed
  qed
qed

lemma walk_sound:
  assumes fin: "finite {t. LRQ_pending (requests s0 t)}"
    and own: "\<And>w t. t \<in> set (own_pending (owners s0 w)) \<Longrightarrow> LRQ_pending (requests s0 t)"
  shows "walk_sound s0 n"
proof (induction n)
  case 0
  show ?case by (simp add: walk_sound_def walk_post_def)
next
  case (Suc n)
  show ?case by (rule walk_sound_step [OF queue_sound [OF owner_sound [OF Suc fin] fin own] fin])
qed

section \<open>The scan\<close>

lemma same_state_trans:
  assumes "same_state s t" "same_state t u"
  shows "same_state s u"
proof -
  have "same_table s u" "keeps_members s u"
    using assms same_table_trans keeps_members_trans unfolding same_state_def by blast+
  moreover have "same_owners s u" "same_names s u" "same_data s u"
    using assms by (simp_all add: same_state_def same_owners_def same_names_def same_data_def)
  ultimately show ?thesis by (simp add: same_state_def)
qed

lemma clear_pending_marks:
  assumes "walk_marks s0 s"
  shows "walk_marks s0 (clear_pending rs s)"
    "r \<in> set rs \<or> \<not> LRQ_deadlock (requests s r) \<and> \<not> LRQ_scanned (requests s r) \<Longrightarrow>
       \<not> LRQ_deadlock (requests (clear_pending rs s) r) \<and> \<not> LRQ_scanned (requests (clear_pending rs s) r)"
  using assms
proof (induction rs s rule: clear_pending.induct)
  case (2 x rs s)
  let ?s = "upd_req x (\<lambda>q. q\<lparr>LRQ_deadlock := False, LRQ_scanned := False\<rparr>) s"
  have m: "walk_marks s0 ?s" if "walk_marks s0 s" by (rule walk_marks_upd [OF that]) (simp add: unmarked_def)
  {
    case 1
    then show ?case using "2.IH"(1) m by simp
  next
    case 2
    then show ?case using "2.IH"(2) m by (cases "r = x") auto
  }
qed simp_all

lemma deadlock_clear_marks:
  "walk_marks s (deadlock_clear s)"
  "w \<in> set (lhb_owners s) \<Longrightarrow> r \<in> set (own_pending (owners s w)) \<Longrightarrow>
     \<not> LRQ_deadlock (requests (deadlock_clear s) r) \<and> \<not> LRQ_scanned (requests (deadlock_clear s) r)"
proof -
  let ?f = "\<lambda>w s. clear_pending (own_pending (owners s w)) s"
  have "walk_marks s (fold ?f ws s')" if "walk_marks s s'" for ws s'
    using that by (induction ws arbitrary: s') (simp_all add: clear_pending_marks(1))
  then show "walk_marks s (deadlock_clear s)" by (simp add: deadlock_clear_def)
  have "\<not> LRQ_deadlock (requests (fold ?f ws s') r) \<and> \<not> LRQ_scanned (requests (fold ?f ws s') r)"
    if "walk_marks s s'" "(\<exists>w \<in> set ws. r \<in> set (own_pending (owners s w))) \<or>
      \<not> LRQ_deadlock (requests s' r) \<and> \<not> LRQ_scanned (requests s' r)" for ws s'
    using that
  proof (induction ws arbitrary: s')
    case (Cons v ws)
    have "own_pending (owners s' v) = own_pending (owners s v)" using walk_marksD(12) [OF Cons.prems(1)] by simp
    then show ?case using Cons.IH [OF clear_pending_marks(1) [OF Cons.prems(1)]] Cons.prems(2)
        clear_pending_marks(2) [OF Cons.prems(1), of r "own_pending (owners s v)"] by auto
  qed simp
  from this [OF walk_marks_refl] show "w \<in> set (lhb_owners s) \<Longrightarrow> r \<in> set (own_pending (owners s w)) \<Longrightarrow>
     \<not> LRQ_deadlock (requests (deadlock_clear s) r) \<and> \<not> LRQ_scanned (requests (deadlock_clear s) r)"
    unfolding deadlock_clear_def by blast
qed

lemma waits_cong:
  assumes "\<And>r. unmarked (requests s' r) = unmarked (requests s r)" "locks s' = locks s" "owners s' = owners s"
  shows "settled_waits s' = settled_waits s" "waits_for s' = waits_for s"
proof -
  note F = unmarked_fields [OF assms(1)]
  have "blockers_in s' r bs = blockers_in s r bs" for r bs by (simp add: blockers_in_def F)
  then have "blockers s' = blockers s" by (intro ext) (simp add: blockers_def F assms(2))
  moreover have "settled s' = settled s" by (intro ext) (simp add: settled_def Let_def F assms(3))
  moreover have "waits_of s' = waits_of s" by (intro ext) (simp add: waits_of_def F assms(3))
  ultimately show "settled_waits s' = settled_waits s" "waits_for s' = waits_for s"
    by (intro ext, simp add: settled_waits_def waits_for_def)+
qed

lemma reach_in:
  assumes "E\<^sup>*\<^sup>* x y" "x \<in> S" "\<And>a b. a \<in> S \<Longrightarrow> E a b \<Longrightarrow> b \<in> S"
  shows "y \<in> S"
  using assms by (induction rule: rtranclp_induct) auto

text \<open>On requests that are done with, and whose blockers are settled, the two graphs agree.\<close>

lemma settled_reach:
  assumes inv: "walk_inv s0 s False" and r: "r \<in> scanned_marked s" and z: "(waits_for s0)\<^sup>*\<^sup>* r z"
  shows "z \<in> scanned_marked s" "\<not> (waits_for s0)\<^sup>+\<^sup>+ z z"
proof -
  note I = walk_invD [OF inv]
  have settled: "settled_waits s0 x y" if "x \<in> scanned_marked s" "waits_for s0 x y" for x y
    using that I(5) unfolding waits_for_def settled_waits_def by blast
  then have step: "y \<in> scanned_marked s" if "x \<in> scanned_marked s" "waits_for s0 x y" for x y
    using that I(3) by blast
  show z': "z \<in> scanned_marked s" by (rule reach_in [OF z r step])
  have "(settled_waits s0)\<^sup>+\<^sup>+ a b \<and> b \<in> scanned_marked s" if "(waits_for s0)\<^sup>+\<^sup>+ a b" "a \<in> scanned_marked s" for a b
    using that
  proof (induction rule: tranclp_induct)
    case (base b)
    then show ?case using settled step by blast
  next
    case (step b c)
    then show ?case using settled \<open>\<And>y x. x \<in> scanned_marked s \<Longrightarrow> waits_for s0 x y \<Longrightarrow> y \<in> scanned_marked s\<close>
      by (meson tranclp.trancl_into_trancl)
  qed
  then show "\<not> (waits_for s0)\<^sup>+\<^sup>+ z z" using z' I(4) by blast
qed

lemma finite_pending:
  assumes "lm_inv h s"
  shows "finite {t. LRQ_pending (requests s t)}" "{t. LRQ_pending (requests s t)} = set (waiting_requests s)"
proof -
  have "t \<in> set (waiting_requests s)" if "LRQ_pending (requests s t)" for t
    using that owners_okD(3,4) [OF lm_invD(2) [OF assms]] members_okD(1) [OF lm_invD(4) [OF assms]]
    unfolding waiting_requests_def by auto
  moreover have "LRQ_pending (requests s t)" if "t \<in> set (waiting_requests s)" for t
    using that owners_okD(3) [OF lm_invD(2) [OF assms]] unfolding waiting_requests_def by auto
  ultimately show "{t. LRQ_pending (requests s t)} = set (waiting_requests s)" by blast
  then show "finite {t. LRQ_pending (requests s t)}" by simp
qed

lemma deadlock_scan_result:
  assumes ok: "lm_inv h s" and r: "LRQ_pending (requests s r)"
  obtains victim s' where "deadlock_scan w r s = Some (victim, s')" "same_state s s'"
    "\<And>v. victim = Some v \<Longrightarrow> LRQ_pending (requests s v) \<and> (settled_waits s)\<^sup>*\<^sup>* r v \<and> (settled_waits s)\<^sup>+\<^sup>+ v v"
    "\<And>z. victim = None \<Longrightarrow> (settled_waits s)\<^sup>*\<^sup>* r z \<Longrightarrow> \<not> (settled_waits s)\<^sup>+\<^sup>+ z z"
    "\<And>z. victim = None \<Longrightarrow> OWN_scanned (owners s' w) \<Longrightarrow> \<not> OWN_scanned (owners s w) \<Longrightarrow>
       (waits_for s)\<^sup>*\<^sup>* r z \<Longrightarrow> \<not> (waits_for s)\<^sup>+\<^sup>+ z z"
proof -
  define s1 where "s1 = post_history his_scan (int (lrq_owner (requests (s\<lparr>lhb_scans := lhb_scans s + 1\<rparr>) r)))
      (lrq_lock (requests (s\<lparr>lhb_scans := lhb_scans s + 1\<rparr>) r)) r True (s\<lparr>lhb_scans := lhb_scans s + 1\<rparr>)"
  define s2 where "s2 = deadlock_clear s1"
  let ?E = "settled_waits s2"
  have same1: "same_state s s1" by (simp add: same_state_defs s1_def)
  have 1: "requests s1 = requests s" "locks s1 = locks s" "owners s1 = owners s" "lhb_owners s1 = lhb_owners s"
    by (simp_all add: s1_def)
  have marks: "walk_marks s1 s2" unfolding s2_def by (rule deadlock_clear_marks)
  note M = walk_marksD [OF marks]
  have ok2: "lm_inv h s2" using lm_inv_same [OF lm_inv_same [OF ok same1] walk_marks_same [OF marks]] .
  have E: "settled_waits s2 = settled_waits s" "waits_for s2 = waits_for s"
    using waits_cong [of s2 s] marks 1 M(11,12) by (simp_all add: walk_marks_def)
  have r2: "LRQ_pending (requests s2 r)" using r 1 M by simp
  have unmarked: "\<not> LRQ_deadlock (requests s2 t) \<and> \<not> LRQ_scanned (requests s2 t)" if "LRQ_pending (requests s2 t)" for t
  proof -
    have "lrq_owner (requests s t) \<in> set (lhb_owners s1)" "t \<in> set (own_pending (owners s1 (lrq_owner (requests s t))))"
      using that 1 M(5) owners_okD(3,4) [OF lm_invD(2) [OF ok], of t] members_okD(1) [OF lm_invD(4) [OF ok], of t] by auto
    then show ?thesis unfolding s2_def by (rule deadlock_clear_marks(2))
  qed
  then have none: "deadlock_marked s2 = {}" "scanned_marked s2 = {}" by (auto simp: deadlock_marked_def scanned_marked_def)
  then have inv: "walk_inv s2 s2 False" by (simp add: walk_inv_def)
  define n where "n = Suc (Suc (length (waiting_requests s2)))"
  have own: "LRQ_pending (requests s2 t)" if "t \<in> set (own_pending (owners s2 w))" for w t
    using that owners_okD(3) [OF lm_invD(2) [OF ok2]] by blast
  have post: "walk_post s2 n s2 False (deadlock_walk n r s2 False) (\<lambda>v. ?E\<^sup>*\<^sup>* r v) (\<lambda>s' m'. r \<in> scanned_marked s')"
    using walk_sound [OF finite_pending(1) [OF ok2] own, where n = n] inv r2 none(1) unfolding walk_sound_def by simp
  have "card (unmet s2 s2) < n"
    using card_length [of "waiting_requests s2"] unfolding n_def unmet_def none finite_pending(2) [OF ok2] by simp
  then have "deadlock_walk n r s2 False \<noteq> None" using post by (auto simp: walk_post_def split: option.splits)
  then obtain victim s3 maybe where walk: "deadlock_walk n r s2 False = Some (victim, s3, maybe)" by auto
  let ?s' = "if victim = None \<and> \<not> maybe then upd_own w (\<lambda>o'. o'\<lparr>OWN_scanned := True\<rparr>) s3 else s3"
  have run: "deadlock_scan w r s = Some (victim, ?s')"
    unfolding deadlock_scan_def Let_def s1_def [symmetric] s2_def [symmetric] n_def [symmetric] walk by simp
  have marks3: "walk_marks s2 s3"
    using post walk walk_invD(1) by (cases victim) (auto simp: walk_post_def)
  have "same_state s s3"
    using same_state_trans [OF same1 same_state_trans [OF walk_marks_same [OF marks] walk_marks_same [OF marks3]]] .
  moreover have "same_state s3 (upd_own w (\<lambda>o'. o'\<lparr>OWN_scanned := True\<rparr>) s3)" by (simp add: same_state_defs)
  ultimately have same: "same_state s ?s'" by (auto intro: same_state_trans)
  have found: "LRQ_pending (requests s v) \<and> (settled_waits s)\<^sup>*\<^sup>* r v \<and> (settled_waits s)\<^sup>+\<^sup>+ v v" if "victim = Some v" for v
  proof -
    have p: "?E\<^sup>*\<^sup>* r v" "?E\<^sup>+\<^sup>+ v v" using post that by (simp_all add: walk walk_post_def)
    from p(2) obtain x where "?E x v" by (cases rule: tranclp.cases) blast+
    then have "LRQ_pending (requests s2 v)" using own unfolding settled_waits_def waits_of_def by auto
    then show ?thesis using p 1 M unfolding E by simp
  qed
  have none1: "\<not> (settled_waits s)\<^sup>+\<^sup>+ z z" if "victim = None" "(settled_waits s)\<^sup>*\<^sup>* r z" for z
  proof -
    have w: "walk_inv s2 s3 maybe" "r \<in> scanned_marked s3" using post that(1) by (simp_all add: walk walk_post_def)
    have "z \<in> scanned_marked s3" using reach_in [OF that(2), of "scanned_marked s3"] w(2) walk_invD(3) [OF w(1)] unfolding E by blast
    then show ?thesis using walk_invD(4) [OF w(1)] unfolding E by blast
  qed
  have none2: "\<not> (waits_for s)\<^sup>+\<^sup>+ z z"
    if "victim = None" "OWN_scanned (owners ?s' w)" "\<not> OWN_scanned (owners s w)" "(waits_for s)\<^sup>*\<^sup>* r z" for z
  proof -
    have "owners s3 = owners s" using walk_marksD(12) [OF marks3] M 1 by simp
    then have "\<not> maybe" using that(1-3) by (auto split: if_splits)
    then have w: "walk_inv s2 s3 False" "r \<in> scanned_marked s3" using post that(1) by (simp_all add: walk walk_post_def)
    show ?thesis using settled_reach(2) [OF w, of z] that(4) unfolding E by blast
  qed
  show thesis by (rule that [OF run same found none1 none2])
qed

end
