(* ===== verification/LockCalls.thy ===== *)
theory LockCalls
  imports LockDeadlock
begin

section \<open>A request stays with its lock\<close>

named_theorems lock_kept

lemma lock_kept_grant [lock_kept]: "lrq_lock (requests (grant r l s) x) = lrq_lock (requests s x)"
  by (simp add: grant_requests)

lemma lock_kept_pending_loop [lock_kept]: "lrq_lock (requests (pending_loop l rs s) x) = lrq_lock (requests s x)"
  by (induction l rs s rule: pending_loop.induct) (simp_all add: Let_def lock_kept)

lemma lock_kept_just_granted [lock_kept]: "lrq_lock (requests (just_granted_loop rs s) x) = lrq_lock (requests s x)"
  by (induction rs s rule: just_granted_loop.induct) (simp_all add: Let_def)

lemma lock_kept_post_pending [lock_kept]: "lrq_lock (requests (post_pending l s) x) = lrq_lock (requests s x)"
  by (simp add: post_pending_def Let_def lock_kept)

lemma lock_kept_release [lock_kept]: "lrq_lock (requests (release_request r s) x) = lrq_lock (requests s x)"
  by (simp add: release_request_def Let_def lock_kept free_lock_def remove_data_que_def unlink_requests)

lemma lock_kept_folds [lock_kept]:
  "lrq_lock (requests (fold release_request rs s) x) = lrq_lock (requests s x)"
  "lrq_lock (requests (fold (drop_block w) rs s) x) = lrq_lock (requests s x)"
  by (induction rs arbitrary: s) (simp_all add: lock_kept drop_block_requests)

lemma lock_kept_purge_owner [lock_kept]: "lrq_lock (requests (purge_owner env i w s) x) = lrq_lock (requests s x)"
  by (simp add: purge_owner_def Let_def lock_kept)

lemma lock_kept_purge_process [lock_kept]: "lrq_lock (requests (purge_process env p s) x) = lrq_lock (requests s x)"
proof -
  have "lrq_lock (requests (fold (\<lambda>w. purge_owner env (int w) w) ws s) x) = lrq_lock (requests s x)" for ws
    by (induction ws arbitrary: s) (simp_all add: lock_kept)
  then show ?thesis by (simp add: purge_process_def Let_def)
qed

lemma lock_kept_probe [lock_kept]: "lrq_lock (requests (snd (probe_processes env s)) x) = lrq_lock (requests s x)"
proof -
  have "lrq_lock (requests (snd (probe_loop env ps b s)) x) = lrq_lock (requests s x)" for ps b
    by (induction env ps b s rule: probe_loop.induct) (simp_all add: lock_kept)
  then show ?thesis by (simp add: probe_processes_def)
qed

lemma probe_nothing: "fst (probe_processes env s) = False \<Longrightarrow> snd (probe_processes env s) = s"
proof -
  have True: "fst (probe_loop env ps True s)" for ps s
    by (induction ps arbitrary: s) simp_all
  have "fst (probe_loop env ps False s) = False \<Longrightarrow> snd (probe_loop env ps False s) = s" for ps s
    by (induction ps arbitrary: s) (auto simp: True split: if_splits)
  then show "fst (probe_processes env s) = False \<Longrightarrow> snd (probe_processes env s) = s" by (simp add: probe_processes_def)
qed

section \<open>A pass of the waiting loop\<close>

lemma pending_live: "lm_inv h s \<Longrightarrow> LRQ_pending (requests s r) \<Longrightarrow> live_request s r"
  using owners_okD(4,5) [OF lm_invD(2)] by (simp add: live_request_def)

lemma lm_inv_if: "lm_inv h s \<Longrightarrow> lm_inv h s' \<Longrightarrow> lm_inv h (if c then s else s')"
  by simp

lemma same_state_wakeup: "same_state s (post_wakeup w s)"
  by (simp add: same_state_defs)

text \<open>
  What a pass of the waiting loop does to the table is made of a few operations; a property of
  the table that each of them keeps is kept by the pass.
\<close>

locale kept_by_waiting =
  fixes J :: "lhb \<Rightarrow> bool" and env :: lm_env
  assumes own_wakeup: "J s \<Longrightarrow> J (upd_own w (\<lambda>o'. o'\<lparr>OWN_wakeup := False\<rparr>) s)"
    and own_scanned: "J s \<Longrightarrow> J (upd_own w (\<lambda>o'. o'\<lparr>OWN_scanned := False\<rparr>) s)"
    and deadlocks: "J s \<Longrightarrow> J (s\<lparr>lhb_deadlocks := lhb_deadlocks s + 1\<rparr>)"
    and wakeup: "J s \<Longrightarrow> J (post_wakeup w s)"
    and probe: "lm_inv (env_hash env) s \<Longrightarrow> J s \<Longrightarrow> J (snd (probe_processes env s))"
    and clear: "lm_inv (env_hash env) s \<Longrightarrow> J s \<Longrightarrow> LRQ_pending (requests s v) \<Longrightarrow> J (clear_wait v s)"
    and blockage: "lm_inv (env_hash env) s \<Longrightarrow> J s \<Longrightarrow> lbl_in_use (locks s l) \<Longrightarrow> J (post_blockage env r l s)"
    and scan: "lm_inv (env_hash env) s \<Longrightarrow> J s \<Longrightarrow> LRQ_pending (requests s r) \<Longrightarrow>
      deadlock_scan w r s = Some (victim, s') \<Longrightarrow> J s'"
begin

lemma wait_turn_kept:
  assumes ok: "lm_inv (env_hash env) s" and j: "J s" and r: "live_request s r"
  obtains res where "wait_turn env r lck_wait scan_interval lock_timeout deadlock_timeout now cancelled s = Some res"
    "lm_inv (env_hash env) (snd (snd res))" "J (snd (snd res))"
proof -
  let ?h = "env_hash env" and ?w = "lrq_owner (requests s r)" and ?l = "lrq_lock (requests s r)"
  let ?s1 = "upd_own ?w (\<lambda>o'. o'\<lparr>OWN_wakeup := False\<rparr>) s"
  let ?turn = "wait_turn env r lck_wait scan_interval lock_timeout deadlock_timeout now cancelled s"
  let ?timeout = "if lck_wait < 0 \<and> lock_timeout < deadlock_timeout then lock_timeout else deadlock_timeout"
  note out = that
  show thesis
  proof (cases "\<not> LRQ_pending (requests s r) \<or> (\<not> OWN_wakeup (owners s ?w) \<and> now + 1 < ?timeout)")
    case True
    then have "?turn = Some (True, deadlock_timeout, s) \<or> ?turn = Some (False, deadlock_timeout, s)"
      unfolding wait_turn_def Let_def by auto
    then show thesis using ok j out by (elim disjE) auto
  next
    case False
    then have p: "LRQ_pending (requests s r)" by blast
    have ok1: "lm_inv ?h ?s1" by (rule lm_inv_same [OF ok]) (simp add: same_state_defs)
    have j1: "J ?s1" by (rule own_wakeup [OF j])
    have p1: "LRQ_pending (requests ?s1 r)" using p by simp
    have l: "lbl_in_use (locks s ?l)" "lbl_in_use (locks ?s1 ?l)" using live_lock [OF ok r] by simp_all
    define rest where "rest = (case probe_processes env ?s1 of (purged, s') \<Rightarrow>
         if purged \<and> \<not> LRQ_pending (requests s' r) then Some (True, now + scan_interval, s')
         else if \<not> OWN_scanned (owners s' ?w) \<and> \<not> LRQ_wait_timeout (requests s' r)
         then (case deadlock_scan ?w r s' of
                 None \<Rightarrow> None
               | Some (None, s) \<Rightarrow> Some (False, now + scan_interval, post_blockage env r ?l s)
               | Some (Some v, s) \<Rightarrow>
                   (let s = clear_wait v (s\<lparr>lhb_deadlocks := lhb_deadlocks s + 1\<rparr>);
                        bw = lrq_owner (requests s v);
                        s = upd_own bw (\<lambda>o'. o'\<lparr>OWN_scanned := False\<rparr>) s
                    in Some (False, now + scan_interval, if v \<noteq> r then post_wakeup bw s else s)))
         else Some (False, now + scan_interval, post_blockage env r ?l s'))"
    have run: "?turn = (if cancelled \<or> (lck_wait < 0 \<and> lock_timeout \<le> now)
         then Some (True, deadlock_timeout, snd (probe_processes env (clear_wait r ?s1)))
         else if OWN_wakeup (owners s ?w) then Some (False, now + scan_interval, post_blockage env r ?l ?s1) else rest)"
      using False unfolding wait_turn_def Let_def rest_def by (auto split: prod.splits option.splits)
    consider "cancelled \<or> (lck_wait < 0 \<and> lock_timeout \<le> now)"
      | "\<not> (cancelled \<or> (lck_wait < 0 \<and> lock_timeout \<le> now))" "OWN_wakeup (owners s ?w)"
      | "\<not> (cancelled \<or> (lck_wait < 0 \<and> lock_timeout \<le> now))" "\<not> OWN_wakeup (owners s ?w)" by blast
    then show thesis
    proof cases
      case 1
      have "?turn = Some (True, deadlock_timeout, snd (probe_processes env (clear_wait r ?s1)))"
        unfolding run using 1 by (simp only: if_True)
      then show thesis using out probe_processes_inv [OF clear_wait_inv [OF ok1 p1]]
          probe [OF clear_wait_inv [OF ok1 p1] clear [OF ok1 j1 p1]] by (metis snd_conv)
    next
      case 2
      have "?turn = Some (False, now + scan_interval, post_blockage env r ?l ?s1)"
        unfolding run using 2 by (simp only: if_True if_False)
      then show thesis using out post_blockage_inv [OF ok1 l(2)] blockage [OF ok1 j1 l(2)] by (metis snd_conv)
    next
      case 3
      have turn: "?turn = rest" unfolding run using 3 by (simp only: if_False)
      obtain purged s' where probed: "probe_processes env ?s1 = (purged, s')" by (cases "probe_processes env ?s1")
      have ok': "lm_inv ?h s'" using probe_processes_inv [OF ok1] by (simp add: probed)
      have j': "J s'" using probe [OF ok1 j1] by (simp add: probed)
      show thesis
      proof (cases "LRQ_pending (requests s' r)")
        case False
        then have purged using probe_nothing [of env ?s1] p1 by (cases purged) (auto simp: probed)
        then have "rest = Some (True, now + scan_interval, s')" using False by (simp add: rest_def probed)
        then show thesis using out ok' j' turn by (metis snd_conv)
      next
        case p': True
        have l': "lbl_in_use (locks s' ?l)"
          using live_lock(1) [OF ok' pending_live [OF ok' p']] lock_kept_probe [of env ?s1 r] by (simp add: probed)
        show thesis
        proof (cases "\<not> OWN_scanned (owners s' ?w) \<and> \<not> LRQ_wait_timeout (requests s' r)")
          case False
          then have "rest = Some (False, now + scan_interval, post_blockage env r ?l s')"
            using p' unfolding rest_def probed by (simp only: prod.case if_False simp_thms)
          then show thesis using out post_blockage_inv [OF ok' l'] blockage [OF ok' j' l'] turn by (metis snd_conv)
        next
          case scanned: True
          obtain victim s2 where found: "deadlock_scan ?w r s' = Some (victim, s2)" "same_state s' s2"
              "\<And>v. victim = Some v \<Longrightarrow> LRQ_pending (requests s' v)"
            by (rule deadlock_scan_result [OF ok' p', of ?w]) blast
          have ok2: "lm_inv ?h s2" by (rule lm_inv_same [OF ok' found(2)])
          have j2: "J s2" by (rule scan [OF ok' j' p' found(1)])
          show thesis
          proof (cases victim)
            case None
            then have "rest = Some (False, now + scan_interval, post_blockage env r ?l s2)"
              using p' scanned unfolding rest_def probed prod.case found(1) None by (simp only: if_True if_False simp_thms option.case prod.case)
            moreover have "lbl_in_use (locks s2 ?l)" using l' found(2) by (simp add: same_state_def same_names_def)
            ultimately show thesis using out post_blockage_inv [OF ok2] blockage [OF ok2 j2] turn by (metis snd_conv)
          next
            case (Some v)
            let ?s3 = "clear_wait v (s2\<lparr>lhb_deadlocks := lhb_deadlocks s2 + 1\<rparr>)"
            let ?bw = "lrq_owner (requests ?s3 v)"
            let ?s4 = "upd_own ?bw (\<lambda>o'. o'\<lparr>OWN_scanned := False\<rparr>) ?s3"
            have j3: "J (s2\<lparr>lhb_deadlocks := lhb_deadlocks s2 + 1\<rparr>)" by (rule deadlocks [OF j2])
            have p2: "LRQ_pending (requests s2 v)" using found(2,3) Some by (simp add: same_state_def same_table_def)
            have ok2': "lm_inv ?h (s2\<lparr>lhb_deadlocks := lhb_deadlocks s2 + 1\<rparr>)"
              by (rule lm_inv_same [OF ok2]) (simp add: same_state_defs)
            have ok3: "lm_inv ?h ?s3" using ok2' p2 by (intro clear_wait_inv) simp_all
            have "J ?s3" by (rule clear [OF ok2' j3]) (use p2 in simp)
            then have j4: "J ?s4" by (rule own_scanned)
            then have j5: "J (if v \<noteq> r then post_wakeup ?bw ?s4 else ?s4)" by (cases "v = r") (simp_all only: wakeup if_True if_False simp_thms)
            have ok4: "lm_inv ?h ?s4" by (rule lm_inv_same [OF ok3]) (simp add: same_state_defs)
            have ok5: "lm_inv ?h (if v \<noteq> r then post_wakeup ?bw ?s4 else ?s4)"
              by (rule lm_inv_if [OF lm_inv_same [OF ok4 same_state_wakeup] ok4])
            have "rest = Some (False, now + scan_interval, if v \<noteq> r then post_wakeup ?bw ?s4 else ?s4)"
              using p' scanned unfolding rest_def probed prod.case found(1) Some Let_def
              by (simp only: if_True if_False simp_thms option.case prod.case)
            from out [OF trans [OF turn this]] ok5 j5 show thesis by (simp only: snd_conv)
          qed
        qed
      qed
    qed
  qed
qed

end

text \<open>The invariant itself needs nothing more.\<close>

interpretation pass: kept_by_waiting "\<lambda>s. True" env for env
  by unfold_locales simp_all

lemma wait_turn_inv:
  assumes "lm_inv (env_hash env) s" "live_request s r"
  obtains res where "wait_turn env r lck_wait scan_interval lock_timeout deadlock_timeout now cancelled s = Some res"
    "lm_inv (env_hash env) (snd (snd res))"
  by (rule pass.wait_turn_kept [OF assms(1) _ assms(2)]) (simp, rule that)

section \<open>The calls of the engine\<close>

lemma lm_inv_count_operation: "lm_inv h s \<Longrightarrow> lm_inv h (count_operation series s)"
  by (erule lm_inv_same) (simp add: same_state_defs count_operation_def Let_def)

lemma count_operation_simps [simp]:
  "requests (count_operation series s) = requests s" "locks (count_operation series s) = locks s"
  "owners (count_operation series s) = owners s" "lhb_owners (count_operation series s) = lhb_owners s"
  "lhb_hash (count_operation series s) = lhb_hash s" "lhb_hash_slots (count_operation series s) = lhb_hash_slots s"
  "lhb_free_requests (count_operation series s) = lhb_free_requests s"
  "lhb_free_locks (count_operation series s) = lhb_free_locks s" "lhb_used (count_operation series s) = lhb_used s"
  "lhb_data (count_operation series s) = lhb_data s" "processes (count_operation series s) = processes s"
  "lhb_free_owners (count_operation series s) = lhb_free_owners s"
  "lhb_processes (count_operation series s) = lhb_processes s" "lhb_free_processes (count_operation series s) = lhb_free_processes s"
  by (simp_all add: count_operation_def Let_def)

lemma count_denial_simps [simp]:
  "requests (count_denial w s) = requests s" "locks (count_denial w s) = locks s" "owners (count_denial w s) = owners s"
  by (simp_all add: count_denial_def Let_def)

lemma lm_inv_count_denial: "lm_inv h s \<Longrightarrow> lm_inv h (count_denial w s)"
  by (erule lm_inv_same) (simp add: same_state_defs count_denial_def Let_def)

lemma lm_inv_history: "lm_inv h s \<Longrightarrow> lm_inv h (post_history p c l r old s)"
  by (erule lm_inv_same) (simp add: same_state_defs)

lemma lm_inv_counter:
  "lm_inv h s \<Longrightarrow> lm_inv h (s\<lparr>lhb_enqs := n\<rparr>)" "lm_inv h s \<Longrightarrow> lm_inv h (s\<lparr>lhb_converts := n\<rparr>)"
  "lm_inv h s \<Longrightarrow> lm_inv h (s\<lparr>lhb_downgrades := n\<rparr>)" "lm_inv h s \<Longrightarrow> lm_inv h (s\<lparr>lhb_deqs := n\<rparr>)"
  "lm_inv h s \<Longrightarrow> lm_inv h (s\<lparr>lhb_read_data := n\<rparr>)" "lm_inv h s \<Longrightarrow> lm_inv h (s\<lparr>lhb_write_data := n\<rparr>)"
  "lm_inv h s \<Longrightarrow> lm_inv h (s\<lparr>lhb_query_data := n\<rparr>)"
  by (erule lm_inv_same, simp add: same_state_defs)+

lemma deny_inv:
  assumes "lm_inv (env_hash env) s" "live_request s r"
  shows "lm_inv (env_hash env) (snd (deny env r lck_wait s))"
  using assms lm_inv_release [OF lm_inv_count_denial [OF lm_inv_history [OF assms(1)]]]
  by (simp add: deny_def Let_def live_request_def)

lemma wait_end_simps [simp]:
  "live_request (wait_end r s) x = live_request s x" "lrq_lock (requests (wait_end r s) x) = lrq_lock (requests s x)"
  by (simp_all add: wait_end_def live_request_def)

lemma grant_or_que_resume_inv:
  assumes "lm_inv (env_hash env) s" "live_request s r"
  shows "lm_inv (env_hash env) (snd (grant_or_que_resume env r lck_wait s))"
  using lm_inv_wait_end [OF assms(1), of r] deny_inv [OF lm_inv_wait_end [OF assms(1), of r], of r] assms(2)
  by (simp add: grant_or_que_resume_def Let_def)

lemma grant_new_inv:
  assumes ok: "lm_inv h s" and r: "live_request s r" "lrq_state (requests s r) = LCK_none"
    and c: "compatibility (lrq_requested (requests s r)) (lbl_state (locks s (lrq_lock (requests s r))))"
  shows "lm_inv h (grant r (lrq_lock (requests s r)) s)"
  using live_lock [OF ok r(1)] grant_new_ok [OF lm_invD(1) [OF ok] _ _ r(2) c] lm_inv_grant [OF ok] by blast

lemma grant_in_use: "lbl_in_use (locks (grant r l s) l') = lbl_in_use (locks s l')"
  by (rule grant_keeps(2))

lemma grant_or_que_inv:
  assumes ok: "lm_inv (env_hash env) (upd_req r (\<lambda>q. q\<lparr>lrq_lock := l\<rparr>) s)"
    and r: "live_request (upd_req r (\<lambda>q. q\<lparr>lrq_lock := l\<rparr>) s) r"
      "lrq_state (requests s r) = LCK_none" "\<not> LRQ_pending (requests s r)"
  shows "lm_inv (env_hash env) (snd (grant_or_que env r l lck_wait s))"
proof -
  let ?s = "upd_req r (\<lambda>q. q\<lparr>lrq_lock := l\<rparr>) s" and ?h = "env_hash env"
  have l: "lrq_lock (requests ?s r) = l" by simp
  have in_use: "lbl_in_use (locks ?s l)" using live_lock(1) [OF ok r(1)] by simp
  let ?free = "compatibility (lrq_requested (requests ?s r)) (lbl_state (locks ?s l)) \<and>
      (lrq_requested (requests ?s r) = LCK_null \<or> lbl_pending_lrq_count (locks ?s l) = 0)"
  have run: "grant_or_que env r l lck_wait s = (if ?free then (Request r, post_pending l (grant r l ?s))
      else if lck_wait \<noteq> 0 then (Asleep r, wait_begin env r lck_wait ?s) else deny env r lck_wait ?s)"
    by (simp only: grant_or_que_def Let_def)
  show ?thesis
  proof (cases ?free)
    case True
    have "lm_inv ?h (grant r l ?s)" using grant_new_inv [OF ok r(1)] r(2) True by simp
    then have "lm_inv ?h (post_pending l (grant r l ?s))" by (rule lm_inv_post_pending) (simp add: grant_in_use in_use del: upd_req_simps)
    then show ?thesis unfolding run if_P [OF True] by (simp only: snd_conv)
  next
    case False
    have "lm_inv ?h (wait_begin env r lck_wait ?s)" by (rule wait_begin_inv [OF ok r(1)]) (use r(3) in simp)
    then show ?thesis using deny_inv [OF ok r(1), of lck_wait] unfolding run if_not_P [OF False]
      by (cases "lck_wait = 0") (simp_all only: snd_conv if_True if_False simp_thms)
  qed
qed

section \<open>Conversion\<close>

lemma lm_inv_conversion_fields:
  assumes "lm_inv h s"
  shows "lm_inv h (upd_req r (\<lambda>q. q\<lparr>lrq_requested := type, LRQ_blocking_seen := b\<rparr>) s)"
    "lm_inv h (upd_req r (\<lambda>q. q\<lparr>lrq_ast_routine := ast, lrq_ast_argument := arg\<rparr>) s)"
    "lm_inv h (upd_req r (\<lambda>q. q\<lparr>lrq_requested := lrq_state q\<rparr>) s)"
    "lm_inv h (upd_req r (\<lambda>q. q\<lparr>lrq_ast_routine := ast\<rparr>) s)"
  by (rule lm_inv_same [OF assms], simp add: same_state_defs)+

lemma get_request_live: "get_request r s = Some req \<Longrightarrow> req = requests s r"
  by (simp add: get_request_def split: if_splits)

lemma grant_conversion_inv:
  assumes ok: "lm_inv h s" and r: "live_request s r"
    and c: "compatibility (lrq_requested (requests s r))
      (lock_state (lbl_counts (locks (dec_count (lrq_lock (requests s r)) (lrq_state (requests s r)) s) (lrq_lock (requests s r)))))"
  shows "lm_inv h (grant r (lrq_lock (requests s r)) (dec_count (lrq_lock (requests s r)) (lrq_state (requests s r)) s))"
proof -
  let ?l = "lrq_lock (requests s r)" and ?s1 = "dec_count (lrq_lock (requests s r)) (lrq_state (requests s r)) s"
  note l = live_lock [OF ok r] and I = lm_invD [OF ok]
  have "table_ok (grant r ?l ?s1)" by (rule grant_conversion_ok [OF I(1) l refl c])
  moreover have "owners_ok (grant r ?l ?s1)" by (rule owners_ok_grant [OF owners_ok_count [OF I(2)]])
  moreover have "names_ok h (grant r ?l ?s1)" by (rule names_ok_grant [OF names_ok_count [OF I(3)]]) (use l in simp)
  moreover have "members_ok (grant r ?l ?s1)" by (rule members_ok_keeps [OF I(4)]) (simp add: keeps)
  ultimately show ?thesis unfolding lm_inv_def by blast
qed

lemma upd_req_dec_count: "upd_req r f (dec_count l v s) = dec_count l v (upd_req r f s)"
  by (simp add: upd_req_def dec_count_def upd_lock_def)

lemma internal_convert_inv:
  assumes ok: "lm_inv (env_hash env) s" and r: "live_request s r" "\<not> LRQ_pending (requests s r)"
    and run: "internal_convert env r type lck_wait ast arg s = Some (a, s')"
  shows "lm_inv (env_hash env) s'"
proof -
  let ?h = "env_hash env" and ?req = "requests s r"
  let ?l = "lrq_lock ?req" and ?v = "lrq_state ?req"
  let ?s1 = "upd_req r (\<lambda>q. q\<lparr>lrq_requested := type, LRQ_blocking_seen := False\<rparr>)
    (post_history his_convert (int (lrq_owner ?req)) ?l r True s)"
  let ?s2 = "upd_req r (\<lambda>q. q\<lparr>lrq_ast_routine := ast, lrq_ast_argument := arg\<rparr>) ?s1"
  let ?c = "compatibility type (lock_state (lbl_counts (locks (dec_count ?l ?v ?s1) ?l)))"
  have get: "get_request r s = Some ?req" using run by (auto simp: internal_convert_def get_request_def split: if_splits)
  have run': "internal_convert env r type lck_wait ast arg s = (if ?c
      then Some (Request r, post_pending ?l (grant r ?l (dec_count ?l ?v ?s2)))
      else if lck_wait \<noteq> 0 then Some (Asleep r, wait_begin env r lck_wait ?s1)
      else Some (Refused (Some (wait_error lck_wait)), count_denial lck_wait (upd_req r (\<lambda>q. q\<lparr>lrq_requested := lrq_state q\<rparr>) ?s1)))"
    unfolding internal_convert_def get option.case Let_def inc_dec_count upd_req_dec_count ..
  have ok1: "lm_inv ?h ?s1" by (rule lm_inv_conversion_fields(1) [OF lm_inv_history [OF ok]])
  have ok2: "lm_inv ?h ?s2" by (rule lm_inv_conversion_fields(2) [OF ok1])
  have live: "live_request ?s1 r" "live_request ?s2 r" using r by (simp_all add: live_request_def)
  show ?thesis
  proof (cases ?c)
    case True
    have "compatibility (lrq_requested (requests ?s2 r)) (lock_state (lbl_counts
        (locks (dec_count (lrq_lock (requests ?s2 r)) (lrq_state (requests ?s2 r)) ?s2) (lrq_lock (requests ?s2 r)))))"
      using True by (simp add: dec_count_def)
    note g = grant_conversion_inv [OF ok2 live(2) this]
    have "lm_inv ?h (grant r ?l (dec_count ?l ?v ?s2))" using g by simp
    moreover have "lbl_in_use (locks (grant r ?l (dec_count ?l ?v ?s2)) ?l)"
      using live_lock(1) [OF ok r(1)] by (simp add: grant_in_use)
    ultimately show ?thesis using run True unfolding run' if_P [OF True] by (auto intro: lm_inv_post_pending)
  next
    case False
    have "lm_inv ?h (wait_begin env r lck_wait ?s1)" by (rule wait_begin_inv [OF ok1 live(1)]) (use r in simp)
    moreover have "lm_inv ?h (count_denial lck_wait (upd_req r (\<lambda>q. q\<lparr>lrq_requested := lrq_state q\<rparr>) ?s1))"
      by (rule lm_inv_count_denial [OF lm_inv_conversion_fields(3) [OF ok1]])
    ultimately show ?thesis using run unfolding run' if_not_P [OF False] by (cases "lck_wait = 0") (simp_all only: if_True if_False simp_thms option.inject prod.inject)
  qed
qed

lemma internal_convert_resume_inv:
  assumes ok: "lm_inv h s" and r: "live_request s r"
  shows "lm_inv h (snd (internal_convert_resume new_ast r lck_wait ast arg s))"
proof -
  let ?s = "wait_end r s"
  have ok1: "lm_inv h ?s" by (rule lm_inv_wait_end [OF ok])
  have "lbl_in_use (locks ?s (lrq_lock (requests ?s r)))" by (rule live_lock(1) [OF ok1]) (use r in simp)
  note p = lm_inv_post_pending [OF ok1 this]
  show ?thesis
    using ok1 lm_inv_conversion_fields(2) [OF ok1] lm_inv_count_denial [OF lm_inv_conversion_fields(3) [OF p]]
    by (simp only: internal_convert_resume_def Let_def) (simp split: if_split)
qed

lemma internal_dequeue_inv:
  assumes ok: "lm_inv h s" and r: "live_request s r" and run: "internal_dequeue r s = Some s'"
  shows "lm_inv h s'"
proof -
  let ?s = "upd_req r (\<lambda>q. q\<lparr>lrq_ast_routine := 0\<rparr>) (post_history his_deq (int (lrq_owner (requests s r))) (lrq_lock (requests s r)) r True s)"
  have "s' = release_request r ?s" using run by (auto simp: internal_dequeue_def get_request_def split: if_splits)
  moreover have "lm_inv h ?s" by (rule lm_inv_conversion_fields(4) [OF lm_inv_history [OF ok]])
  moreover have "live_request ?s r" using r by (simp add: live_request_def)
  ultimately show ?thesis using lm_inv_release by blast
qed

section \<open>New requests and locks\<close>

lemma free_okD:
  assumes "free_ok s"
  shows "r \<in> set (lhb_free_requests s) \<Longrightarrow> \<not> lrq_in_use (requests s r) \<and> r < lhb_used s"
    "lrq_in_use (requests s r) \<Longrightarrow> r < lhb_used s" "distinct (lhb_free_requests s)"
    "l \<in> set (lhb_free_locks s) \<Longrightarrow> \<not> lbl_in_use (locks s l) \<and> 0 < l \<and> l < lhb_used s"
    "lbl_in_use (locks s l) \<Longrightarrow> 0 < l \<and> l < lhb_used s" "distinct (lhb_free_locks s)" "0 < lhb_used s"
  using assms unfolding free_ok_def by (metis not_le gr0I)+

lemma free_okI:
  assumes "\<And>r. r \<in> set (lhb_free_requests s) \<Longrightarrow> \<not> lrq_in_use (requests s r) \<and> r < lhb_used s"
    "\<And>r. lrq_in_use (requests s r) \<Longrightarrow> r < lhb_used s" "distinct (lhb_free_requests s)"
    "\<And>l. l \<in> set (lhb_free_locks s) \<Longrightarrow> \<not> lbl_in_use (locks s l) \<and> 0 < l \<and> l < lhb_used s"
    "\<And>l. lbl_in_use (locks s l) \<Longrightarrow> 0 < l \<and> l < lhb_used s" "distinct (lhb_free_locks s)" "0 < lhb_used s"
  shows "free_ok s"
  using assms unfolding free_ok_def by (metis not_le less_irrefl)

lemma lm_inv_take:
  assumes ok: "lm_inv h s" and s': "requests s' = requests s" "locks s' = locks s" "owners s' = owners s"
      "lhb_owners s' = lhb_owners s" "lhb_free_owners s' = lhb_free_owners s" "processes s' = processes s"
      "lhb_hash s' = lhb_hash s" "lhb_hash_slots s' = lhb_hash_slots s" "lhb_data s' = lhb_data s"
      "lhb_processes s' = lhb_processes s" "lhb_free_processes s' = lhb_free_processes s"
    and free: "lhb_used s \<le> lhb_used s'" "distinct (lhb_free_requests s')" "set (lhb_free_requests s') \<subseteq> set (lhb_free_requests s)"
      "lhb_free_locks s' = lhb_free_locks s"
  shows "lm_inv h s'"
proof -
  note I = lm_invD [OF ok]
  note F = free_okD [OF table_okD(4) [OF I(1)]]
  have "free_ok s'"
  proof (rule free_okI)
    show "\<not> lrq_in_use (requests s' r) \<and> r < lhb_used s'" if "r \<in> set (lhb_free_requests s')" for r
      using F(1) [of r] that free(1,3) by (auto simp: s')
    show "r < lhb_used s'" if "lrq_in_use (requests s' r)" for r using F(2) [of r] that free(1) by (simp add: s')
    show "0 < l \<and> l < lhb_used s'" if "lbl_in_use (locks s' l)" for l using F(5) [of l] that free(1) by (simp add: s')
    show "\<not> lbl_in_use (locks s' l) \<and> 0 < l \<and> l < lhb_used s'" if "l \<in> set (lhb_free_locks s')" for l
      using F(4) [of l] that free(1,4) by (auto simp: s')
  qed (use F(6,7) free in simp_all)
  then have "table_ok s'" using I(1) unfolding table_ok_def lock_ok_def s' by blast
  moreover have "owners_ok s'" by (rule owners_ok_same [OF I(2)]) (simp add: same_owners_def s')
  moreover have "names_ok h s'" by (rule names_ok_same [OF I(3)]) (simp_all add: same_names_def same_data_def s')
  moreover have "members_ok s'" by (rule members_ok_keeps [OF I(4)]) (simp add: keeps_members_def s' free(1))
  ultimately show ?thesis unfolding lm_inv_def by blast
qed

definition fresh_request :: "lhb \<Rightarrow> nat \<Rightarrow> bool" where
  "fresh_request s r \<longleftrightarrow> \<not> lrq_in_use (requests s r) \<and> r \<notin> set (lhb_free_requests s) \<and> r < lhb_used s"

lemma alloc_block_result:
  assumes "alloc_block can_remap n s = Some (b, s')" "0 < FB_ALIGN n 8 mod 65536"
  shows "b = lhb_used s" "lhb_used s < lhb_used s'"
    "requests s' = requests s" "locks s' = locks s" "owners s' = owners s"
    "lhb_owners s' = lhb_owners s" "lhb_free_owners s' = lhb_free_owners s" "processes s' = processes s"
    "lhb_hash s' = lhb_hash s" "lhb_hash_slots s' = lhb_hash_slots s" "lhb_data s' = lhb_data s"
    "lhb_free_requests s' = lhb_free_requests s" "lhb_free_locks s' = lhb_free_locks s"
    "lhb_processes s' = lhb_processes s" "lhb_free_processes s' = lhb_free_processes s"
  using assms by (auto simp: alloc_block_def Let_def split: if_splits option.splits)

lemma get_free_request_result:
  assumes ok: "lm_inv h s" and run: "get_free_request can_remap s = Some (r, s')"
  shows "lm_inv h s'" "fresh_request s' r"
    "requests s' = requests s" "locks s' = locks s" "owners s' = owners s" "lhb_owners s' = lhb_owners s"
    "lhb_hash s' = lhb_hash s" "lhb_hash_slots s' = lhb_hash_slots s"
proof -
  note F = table_okD(4) [OF lm_invD(1) [OF ok]]
  have "lm_inv h s' \<and> fresh_request s' r \<and> requests s' = requests s \<and> locks s' = locks s \<and> owners s' = owners s \<and>
      lhb_owners s' = lhb_owners s \<and> lhb_hash s' = lhb_hash s \<and> lhb_hash_slots s' = lhb_hash_slots s"
  proof (cases "lhb_free_requests s")
    case Nil
    then have "alloc_block can_remap sizeof_lrq s = Some (r, s')" using run by (simp add: get_free_request_def)
    note A = alloc_block_result [OF this, unfolded sizeof_lrq_def FB_ALIGN_def, simplified]
    have "lm_inv h s'" by (rule lm_inv_take [OF ok A(3-11,14,15)]) (use A Nil in simp_all)
    moreover have "fresh_request s' r"
      using free_okD(2) [OF F, of r] A Nil by (auto simp: fresh_request_def)
    ultimately show ?thesis using A by simp
  next
    case (Cons x xs)
    then have s': "s' = s\<lparr>lhb_free_requests := xs\<rparr>" "x = r" using run by (simp_all add: get_free_request_def)
    have d: "distinct (r # xs)" using F Cons s'(2) by (simp add: free_ok_def)
    have "lm_inv h s'" by (rule lm_inv_take [OF ok]) (use d Cons in \<open>auto simp: s'\<close>)
    moreover have "fresh_request s' r"
      using free_okD(1) [OF F, of r] d Cons s' by (simp add: fresh_request_def)
    ultimately show ?thesis by (simp add: s'(1))
  qed
  then show "lm_inv h s'" "fresh_request s' r" "requests s' = requests s" "locks s' = locks s" "owners s' = owners s"
    "lhb_owners s' = lhb_owners s" "lhb_hash s' = lhb_hash s" "lhb_hash_slots s' = lhb_hash_slots s" by simp_all
qed

text \<open>A request of an owner.\<close>

definition new_request :: "lrq \<Rightarrow> nat \<Rightarrow> nat \<Rightarrow> bool" where
  "new_request q w l \<longleftrightarrow> lrq_in_use q \<and> \<not> LRQ_repost q \<and> \<not> LRQ_pending q \<and> \<not> LRQ_blocking q \<and>
     lrq_state q = LCK_none \<and> lrq_owner q = w \<and> lrq_lock q = l"

lemma fresh_not_queued:
  assumes "lm_inv h s" "\<not> lrq_in_use (requests s r)"
  shows "r \<notin> set (own_requests (owners s v))" "r \<notin> set (own_blocks (owners s v))" "r \<notin> set (own_pending (owners s v))"
    "lbl_in_use (locks s l) \<Longrightarrow> r \<notin> set (lbl_requests (locks s l))"
  using owners_okD(1-4) [OF lm_invD(2) [OF assms(1)]] queue_member(1) [OF lm_invD(1) [OF assms(1)]] assms(2) by blast+

lemma lm_inv_new_owned:
  assumes ok: "lm_inv h s" and r: "\<not> lrq_in_use (requests s r)" and w: "w \<in> set (lhb_owners s)"
    and rq: "requests s' = (requests s)(r := q')" "new_request q' w l"
    and ow: "\<And>v. own_requests (owners s' v) = (if v = w then own_requests (owners s v) @ [r] else own_requests (owners s v))"
      "\<And>v. own_blocks (owners s' v) = own_blocks (owners s v)" "\<And>v. own_pending (owners s' v) = own_pending (owners s v)"
      "\<And>v. own_process (owners s' v) = own_process (owners s v)"
    and rest: "lhb_owners s' = lhb_owners s" "lhb_free_owners s' = lhb_free_owners s" "processes s' = processes s"
      "lhb_used s \<le> lhb_used s'" "lhb_processes s' = lhb_processes s" "lhb_free_processes s' = lhb_free_processes s"
  shows "owners_ok s'" "members_ok s'"
proof -
  note I = lm_invD [OF ok] and O = owners_okD [OF lm_invD(2) [OF ok]] and f = fresh_not_queued [OF ok r]
  show "owners_ok s'"
    by (rule owners_ok_request [OF I(2) rq(1), where w = w])
       (use rq(2) f O(7-9) [of w] in \<open>auto simp: new_request_def ow\<close>)
  show "members_ok s'" unfolding members_ok_def
  proof (intro conjI allI impI ballI)
    fix x
    assume "lrq_in_use (requests s' x)"
    then show "lrq_owner (requests s' x) \<in> set (lhb_owners s')"
      using members_okD(1) [OF I(4), of x] rq w rest(1) by (cases "x = r") (simp_all add: new_request_def)
  next
    show "distinct (lhb_owners s' @ lhb_free_owners s')" using members_okD(2) [OF I(4)] unfolding rest .
  next
    fix v
    assume "v \<in> set (lhb_owners s' @ lhb_free_owners s')"
    then have "0 < v \<and> v < lhb_used s" using members_okD(3) [OF I(4)] unfolding rest by blast
    then show "0 < v" "v < lhb_used s'" using rest(4) by auto
  next
    fix p v
    show "v \<in> set (prc_owners (processes s' p)) \<longleftrightarrow> v \<in> set (lhb_owners s') \<and> own_process (owners s' v) = p"
      using members_okD(4) [OF I(4), of v p] unfolding rest ow .
  next
    fix p
    show "distinct (prc_owners (processes s' p))" using members_okD(5) [OF I(4)] unfolding rest .
  next
    show "distinct (lhb_processes s' @ lhb_free_processes s')" using members_okD(6) [OF I(4)] unfolding rest .
  next
    fix p
    assume "p \<in> set (lhb_processes s' @ lhb_free_processes s')"
    then have "0 < p \<and> p < lhb_used s" using members_okD(7) [OF I(4)] unfolding rest by blast
    then show "0 < p" "p < lhb_used s'" using rest(4) by auto
  next
    fix p
    assume "prc_process_id (processes s' p) \<noteq> 0 \<or> prc_owners (processes s' p) \<noteq> []"
    then show "p \<in> set (lhb_processes s')" using members_okD(8) [OF I(4)] unfolding rest by blast
  qed
qed

lemma lm_inv_append:
  assumes ok: "lm_inv h s" and r: "fresh_request s r" and w: "w \<in> set (lhb_owners s)"
    and l: "lbl_in_use (locks s l)" "length (lbl_requests (locks s l)) < 65535"
    and rq: "requests s' = (requests s)(r := q')" "new_request q' w l"
    and lk: "locks s' = (locks s)(l := (locks s l)\<lparr>lbl_requests := lbl_requests (locks s l) @ [r]\<rparr>)"
    and ow: "\<And>v. own_requests (owners s' v) = (if v = w then own_requests (owners s v) @ [r] else own_requests (owners s v))"
      "\<And>v. own_blocks (owners s' v) = own_blocks (owners s v)" "\<And>v. own_pending (owners s' v) = own_pending (owners s v)"
      "\<And>v. own_process (owners s' v) = own_process (owners s v)"
    and rest: "lhb_owners s' = lhb_owners s" "lhb_free_owners s' = lhb_free_owners s" "processes s' = processes s"
      "lhb_hash s' = lhb_hash s" "lhb_hash_slots s' = lhb_hash_slots s" "lhb_data s' = lhb_data s"
      "lhb_free_requests s' = lhb_free_requests s" "lhb_free_locks s' = lhb_free_locks s" "lhb_used s' = lhb_used s"
      "lhb_processes s' = lhb_processes s" "lhb_free_processes s' = lhb_free_processes s"
  shows "lm_inv h s'"
proof -
  note I = lm_invD [OF ok]
  have r': "\<not> lrq_in_use (requests s r)" "r \<notin> set (lhb_free_requests s)" "r < lhb_used s"
    using r by (simp_all add: fresh_request_def)
  note f = fresh_not_queued [OF ok r'(1)]
  have own: "owners_ok s'" "members_ok s'"
    by (rule lm_inv_new_owned [OF ok r'(1) w rq ow rest(1-3) _ rest(10,11)]; simp add: rest)+
  have "lock_ok s' l'" if l': "lbl_in_use (locks s' l')" for l'
  proof (cases "l' = l")
    case True
    note D = lock_okD [OF table_okD(1) [OF I(1) l(1)]]
    have "queue_ok ((requests s)(r := q')) (locks s' l) l ((\<lambda>x. lrq_state (requests s x))(r := LCK_none))"
      by (rule queue_ok_append [OF D(1) f(4) [OF l(1)] l(2)]) (use rq(2) in \<open>simp_all add: lk new_request_def\<close>)
    moreover have "(\<lambda>x. lrq_state (requests s x))(r := LCK_none) = (\<lambda>x. lrq_state (requests s' x))"
      using rq by (auto simp: new_request_def)
    ultimately show ?thesis using True D rq(1) by (simp add: lock_ok_def lk)
  next
    case False
    then have lk': "locks s' l' = locks s l'" "lbl_in_use (locks s l')" using l' lk by simp_all
    note D = lock_okD [OF table_okD(1) [OF I(1) lk'(2)]]
    have "queue_ok (requests s') (locks s l') l' (\<lambda>x. lrq_state (requests s' x))"
      by (rule queue_ok_cong [OF D(1)]) (use f(4) [OF lk'(2)] in \<open>auto simp: rq(1)\<close>)
    then show ?thesis using D lk' by (simp add: lock_ok_def)
  qed
  moreover have "free_ok s'"
    by (rule free_okI) (use free_okD [OF table_okD(4) [OF I(1)]] r' l(1) in \<open>auto simp: rest rq(1) lk split: if_splits\<close>)
  moreover have "lbl_in_use (locks s' (lrq_lock (requests s' x))) \<and> x \<in> set (lbl_requests (locks s' (lrq_lock (requests s' x))))"
    if x: "lrq_in_use (requests s' x)" "\<not> LRQ_repost (requests s' x)" for x
  proof (cases "x = r")
    case True
    then show ?thesis using rq(2) l(1) by (simp add: rq(1) lk new_request_def)
  next
    case False
    then show ?thesis using x table_okD(2,3) [OF I(1), of x] l(1)
      by (cases "lrq_lock (requests s x) = l") (simp_all add: rq(1) lk)
  qed
  ultimately have "table_ok s'" unfolding table_ok_def by blast
  moreover have "names_ok h s'" by (rule names_ok_same [OF I(3)]) (simp_all add: same_names_def same_data_def lk rest)
  ultimately show ?thesis using own unfolding lm_inv_def by blast
qed

text \<open>A lock that appears with its first request.\<close>

lemma lm_inv_create:
  assumes ok: "lm_inv h s" and r: "fresh_request s r" and w: "w \<in> set (lhb_owners s)"
    and l: "\<not> lbl_in_use (locks s l)" "0 < l" "l < lhb_used s'" "l \<notin> set (lhb_free_locks s')"
    and rq: "requests s' = (requests s)(r := q')" "new_request q' w l"
    and lk: "locks s' = (locks s)(l := b')" "lbl_in_use b'" "lbl_requests b' = [r]" "lbl_counts b' = (\<lambda>_. 0)"
      "lbl_pending_lrq_count b' = 0" "lbl_state b' = LCK_none"
    and name: "\<And>x. lbl_in_use (locks s x) \<Longrightarrow> lbl_series (locks s x) = lbl_series b' \<Longrightarrow> lbl_key (locks s x) \<noteq> lbl_key b'"
    and hash: "lhb_hash s' = (lhb_hash s)(slot := lhb_hash s slot @ [l])" "slot = h (lbl_key b') mod lhb_hash_slots s"
      "lhb_hash_slots s' = lhb_hash_slots s"
    and data: "lhb_data s' = (if lbl_data b' \<noteq> 0 \<and> lbl_series b' < LCK_MAX_SERIES
        then (lhb_data s)(lbl_series b' := insert_data (locks s') l (lhb_data s (lbl_series b'))) else lhb_data s)"
    and ow: "\<And>v. own_requests (owners s' v) = (if v = w then own_requests (owners s v) @ [r] else own_requests (owners s v))"
      "\<And>v. own_blocks (owners s' v) = own_blocks (owners s v)" "\<And>v. own_pending (owners s' v) = own_pending (owners s v)"
      "\<And>v. own_process (owners s' v) = own_process (owners s v)"
    and rest: "lhb_owners s' = lhb_owners s" "lhb_free_owners s' = lhb_free_owners s" "processes s' = processes s"
      "lhb_free_requests s' = lhb_free_requests s" "lhb_used s \<le> lhb_used s'"
      "distinct (lhb_free_locks s')" "set (lhb_free_locks s') \<subseteq> set (lhb_free_locks s)"
      "lhb_processes s' = lhb_processes s" "lhb_free_processes s' = lhb_free_processes s"
  shows "lm_inv h s'"
proof -
  note I = lm_invD [OF ok] and F = free_okD [OF table_okD(4) [OF lm_invD(1) [OF ok]]]
  have r': "\<not> lrq_in_use (requests s r)" "r \<notin> set (lhb_free_requests s)" "r < lhb_used s"
    using r by (simp_all add: fresh_request_def)
  note f = fresh_not_queued [OF ok r'(1)]
  have own: "owners_ok s'" "members_ok s'"
    by (rule lm_inv_new_owned [OF ok r'(1) w rq ow rest(1-3,5,8,9)])+
  have "lock_ok s' l'" if l': "lbl_in_use (locks s' l')" for l'
  proof (cases "l' = l")
    case True
    have "queue_ok (requests s') b' l (\<lambda>x. lrq_state (requests s' x))"
      by (rule queue_okI) (use rq(2) in \<open>simp_all add: lk rq(1) new_request_def\<close>)
    then show ?thesis using True by (simp add: lock_ok_def lk lock_state_def)
  next
    case False
    then have lk': "locks s' l' = locks s l'" "lbl_in_use (locks s l')" using l' lk by simp_all
    note D = lock_okD [OF table_okD(1) [OF I(1) lk'(2)]]
    have "queue_ok (requests s') (locks s l') l' (\<lambda>x. lrq_state (requests s' x))"
      by (rule queue_ok_cong [OF D(1)]) (use f(4) [OF lk'(2)] in \<open>auto simp: rq(1)\<close>)
    then show ?thesis using D lk' by (simp add: lock_ok_def)
  qed
  moreover have "free_ok s'"
  proof (rule free_okI)
    show "\<not> lrq_in_use (requests s' x) \<and> x < lhb_used s'" if "x \<in> set (lhb_free_requests s')" for x
      using F(1) [of x] that r' rest(4,5) by (auto simp: rq(1))
    show "x < lhb_used s'" if "lrq_in_use (requests s' x)" for x
      using F(2) [of x] that r' rest(5) by (cases "x = r") (simp_all add: rq(1))
    show "0 < x \<and> x < lhb_used s'" if "lbl_in_use (locks s' x)" for x
      using F(5) [of x] that l rest(5) by (cases "x = l") (simp_all add: lk(1))
    show "\<not> lbl_in_use (locks s' x) \<and> 0 < x \<and> x < lhb_used s'" if "x \<in> set (lhb_free_locks s')" for x
      using F(4) [of x] that l(4) rest(5,7) by (cases "x = l") (auto simp: lk(1))
  qed (use F(3,7) rest in simp_all)
  moreover have "lbl_in_use (locks s' (lrq_lock (requests s' x))) \<and> x \<in> set (lbl_requests (locks s' (lrq_lock (requests s' x))))"
    if x: "lrq_in_use (requests s' x)" "\<not> LRQ_repost (requests s' x)" for x
  proof (cases "x = r")
    case True
    then show ?thesis using rq(2) by (simp add: rq(1) lk new_request_def)
  next
    case False
    then show ?thesis using x table_okD(2,3) [OF I(1), of x] l(1)
      by (cases "lrq_lock (requests s x) = l") (simp_all add: rq(1) lk)
  qed
  ultimately have "table_ok s'" unfolding table_ok_def by blast
  moreover have "hash_ok h s'"
  proof -
    note H = hash_okD [OF names_okD(1) [OF I(3)]]
    have new: "l \<notin> set (lhb_hash s i)" for i using H(1) [of l i] l(1) by blast
    have "x \<in> set (lhb_hash s' i) \<longleftrightarrow> lbl_in_use (locks s' x) \<and> h (lbl_key (locks s' x)) mod lhb_hash_slots s' = i" for x i
      using H(1) [of x i] new [of i] lk(2) by (cases "x = l"; cases "i = slot") (simp_all add: hash lk(1))
    moreover have "distinct (lhb_hash s' i)" for i using H(2) [of i] new by (cases "i = slot") (simp_all add: hash(1))
    moreover have "x = y" if "lbl_in_use (locks s' x)" "lbl_in_use (locks s' y)"
        "lbl_series (locks s' x) = lbl_series (locks s' y)" "lbl_key (locks s' x) = lbl_key (locks s' y)" for x y
      using that H(3) [of x y] name [of x] name [of y] by (cases "x = l"; cases "y = l") (simp_all add: lk(1))
    ultimately show ?thesis unfolding hash_ok_def by blast
  qed
  moreover have "data_ok s'"
  proof -
    note D = data_okD [OF names_okD(2) [OF I(3)]]
    let ?i = "lbl_series b'"
    have new: "l \<notin> set (lhb_data s i)" for i using D(1) [of l i] l(1) by blast
    have same: "sorted_wrt (\<lambda>a b. lbl_data (locks s' a) \<le>s lbl_data (locks s' b)) (lhb_data s i)" for i
      using D(3) [of i] by (rule sorted_wrt_mono_rel [rotated]) (use new [of i] in \<open>auto simp: lk(1)\<close>)
    have que: "lhb_data s' i = (if i = ?i \<and> lbl_data b' \<noteq> 0 \<and> ?i < LCK_MAX_SERIES
        then insert_data (locks s') l (lhb_data s i) else lhb_data s i)" for i
      by (simp add: data)
    have "x \<in> set (lhb_data s' i) \<longleftrightarrow> lbl_in_use (locks s' x) \<and> lbl_series (locks s' x) = i \<and> i < LCK_MAX_SERIES \<and>
        lbl_data (locks s' x) \<noteq> 0" for x i
      using D(1) [of x i] new [of i] lk(2) by (cases "x = l") (auto simp: que lk(1))
    moreover have "distinct (lhb_data s' i)" for i
      using D(2) new by (simp add: que insert_data_distinct)
    moreover have "sorted_wrt (\<lambda>a b. lbl_data (locks s' a) \<le>s lbl_data (locks s' b)) (lhb_data s' i)" for i
      using same [of i] insert_data_sorted [OF same] by (simp only: que split: if_split) blast
    ultimately show ?thesis unfolding data_ok_def by blast
  qed
  ultimately show ?thesis using own unfolding lm_inv_def names_ok_def by blast
qed

lemma first_fit_member: "first_fit n lcks ls = Some l \<Longrightarrow> l \<in> set ls"
  by (induction ls) (auto split: if_splits)

lemma alloc_lock_result:
  assumes F: "free_ok s0" "locks s = locks s0" "lhb_free_locks s = lhb_free_locks s0" "lhb_used s = lhb_used s0"
    and n: "n < 256" and run: "alloc_lock can_remap n s = Some (l, s')"
  obtains b where "locks s' = (locks s)(l := b)" "lbl_in_use b" "\<not> lbl_in_use (locks s l)" "0 < l" "l < lhb_used s'"
    "l \<notin> set (lhb_free_locks s')" "distinct (lhb_free_locks s')" "set (lhb_free_locks s') \<subseteq> set (lhb_free_locks s)"
    "lhb_used s \<le> lhb_used s'" "requests s' = requests s" "owners s' = owners s" "lhb_owners s' = lhb_owners s"
    "lhb_free_owners s' = lhb_free_owners s" "processes s' = processes s" "lhb_hash s' = lhb_hash s"
    "lhb_hash_slots s' = lhb_hash_slots s" "lhb_data s' = lhb_data s" "lhb_free_requests s' = lhb_free_requests s"
    "lhb_processes s' = lhb_processes s" "lhb_free_processes s' = lhb_free_processes s"
proof -
  note D = free_okD [OF F(1)]
  have n': "FB_ALIGN n 8 \<le> 256" using n unfolding FB_ALIGN_def by simp
  let ?n = "FB_ALIGN n 8"
  show thesis
  proof (cases "first_fit ?n (locks s) (lhb_free_locks s)")
    case (Some x)
    have s': "s' = upd_lock l (\<lambda>b. b\<lparr>lbl_in_use := True\<rparr>) (s\<lparr>lhb_free_locks := remove1 l (lhb_free_locks s)\<rparr>)" "x = l"
      using run Some n' by (auto simp: alloc_lock_def Let_def)
    have l: "l \<in> set (lhb_free_locks s0)" using first_fit_member [OF Some] s'(2) F(3) by simp
    show thesis
      by (rule that [of "(locks s l)\<lparr>lbl_in_use := True\<rparr>"])
         (use l D(4) [OF l] D(6) in \<open>auto simp: s'(1) F set_remove1_eq distinct_remove1\<close>)
  next
    case None
    obtain s1 where s1: "alloc_block can_remap (sizeof_lbl + ?n) s = Some (l, s1)"
      and s': "s' = upd_lock l (\<lambda>b. b\<lparr>lbl_size := ?n mod 256, lbl_in_use := True\<rparr>) s1"
      using run None n' by (auto simp: alloc_lock_def Let_def split: option.splits)
    have "8 \<le> sizeof_lbl + ?n + 8 - 1" "sizeof_lbl + ?n + 8 - 1 < 1000" using n' by (simp_all add: sizeof_lbl_def)
    then have "0 < (sizeof_lbl + ?n + 8 - 1) div 8" "(sizeof_lbl + ?n + 8 - 1) div 8 * 8 < 1000"
      by (simp_all add: div_greater_zero_iff)
    then have "0 < FB_ALIGN (sizeof_lbl + ?n) 8 mod 65536" unfolding FB_ALIGN_def by simp
    note A = alloc_block_result [OF s1 this]
    show thesis
      by (rule that [of "(locks s l)\<lparr>lbl_size := ?n mod 256, lbl_in_use := True\<rparr>"])
         (use A D(4) [of l] D(5) [of l] D(6,7) F in \<open>auto simp: s'\<close>)
  qed
qed

section \<open>Enqueueing\<close>

lemma find_in_chain_some:
  "find_in_chain series val lcks ls = Some l \<Longrightarrow> l \<in> set ls \<and> lbl_series (lcks l) = series \<and> lbl_key (lcks l) = val"
  by (induction ls) (auto split: if_splits)

lemma find_in_chain_none:
  "find_in_chain series val lcks ls = None \<Longrightarrow> x \<in> set ls \<Longrightarrow> lbl_series (lcks x) = series \<Longrightarrow> lbl_key (lcks x) \<noteq> val"
  by (induction ls) (auto split: if_splits)

text \<open>No more requests on a lock than its 16-bit counters count.\<close>

definition queue_room :: "lhb \<Rightarrow> bool" where
  "queue_room s \<longleftrightarrow> (\<forall>l. length (lbl_requests (locks s l)) < 65535)"

lemma post_pending_queues [simp]: "lbl_requests (locks (post_pending l s) l') = lbl_requests (locks s l')"
proof -
  have "locks (just_granted_loop rs s) = locks s" for rs s
    by (induction rs s rule: just_granted_loop.induct) (simp_all add: Let_def)
  then show ?thesis by (simp add: post_pending_def Let_def pending_loop_keeps)
qed

lemma release_queues: "length (lbl_requests (locks (release_request r s) l)) \<le> length (lbl_requests (locks s l))"
  by (simp add: release_request_def Let_def drop_state_locks unlink_locks free_lock_def remove_data_que_def length_remove1)

lemma internal_dequeue_keeps:
  assumes run: "internal_dequeue r s = Some s'"
  shows "lhb_owners s' = lhb_owners s" "queue_room s \<Longrightarrow> queue_room s'"
proof -
  let ?s = "upd_req r (\<lambda>q. q\<lparr>lrq_ast_routine := 0\<rparr>) (post_history his_deq (int (lrq_owner (requests s r))) (lrq_lock (requests s r)) r True s)"
  have s': "s' = release_request r ?s" using run by (auto simp: internal_dequeue_def get_request_def split: if_splits)
  have "keeps_members ?s s'" by (simp add: s' keeps)
  then show "lhb_owners s' = lhb_owners s" by (simp add: keeps_members_def)
  have "length (lbl_requests (locks s' l)) \<le> length (lbl_requests (locks s l))" for l
    using release_queues [of r ?s l] by (simp add: s')
  then show "queue_room s \<Longrightarrow> queue_room s'" unfolding queue_room_def by (meson le_less_trans)
qed

lemma init_request_simps [simp]:
  "requests (init_request r w type ast arg s) = (requests s)(r := \<lparr>lrq_in_use = True, lrq_requested = type, lrq_state = LCK_none,
          LRQ_blocking = False, LRQ_pending = False, LRQ_rejected = False, LRQ_deadlock = False,
          LRQ_repost = False, LRQ_scanned = False, LRQ_blocking_seen = False,
          LRQ_just_granted = False, LRQ_wait_timeout = False,
          lrq_owner = w, lrq_lock = lrq_lock (requests s r), lrq_data = 0,
          lrq_ast_routine = ast, lrq_ast_argument = arg\<rparr>)"
  "locks (init_request r w type ast arg s) = locks s"
  "own_requests (owners (init_request r w type ast arg s) v) =
     (if v = w then own_requests (owners s v) @ [r] else own_requests (owners s v))"
  "own_blocks (owners (init_request r w type ast arg s) v) = own_blocks (owners s v)"
  "own_pending (owners (init_request r w type ast arg s) v) = own_pending (owners s v)"
  "own_process (owners (init_request r w type ast arg s) v) = own_process (owners s v)"
  "lhb_owners (init_request r w type ast arg s) = lhb_owners s"
  "lhb_free_owners (init_request r w type ast arg s) = lhb_free_owners s"
  "lhb_processes (init_request r w type ast arg s) = lhb_processes s" "lhb_free_processes (init_request r w type ast arg s) = lhb_free_processes s"
  "processes (init_request r w type ast arg s) = processes s"
  "lhb_hash (init_request r w type ast arg s) = lhb_hash s"
  "lhb_hash_slots (init_request r w type ast arg s) = lhb_hash_slots s"
  "lhb_data (init_request r w type ast arg s) = lhb_data s"
  "lhb_free_requests (init_request r w type ast arg s) = lhb_free_requests s"
  "lhb_free_locks (init_request r w type ast arg s) = lhb_free_locks s"
  "lhb_used (init_request r w type ast arg s) = lhb_used s"
  by (simp_all add: init_request_def)

lemma init_lock_simps [simp]:
  "locks (init_lock l series val type data s) = (locks s)(l := (locks s l)\<lparr>lbl_state := type, lbl_series := series mod 256, lbl_data := data,
     lbl_pending_lrq_count := 0, lbl_counts := (\<lambda>_. 0), lbl_key := take (length val mod 256) val, lbl_requests := []\<rparr>)"
  "requests (init_lock l series val type data s) = requests s"
  "owners (init_lock l series val type data s) = owners s"
  "lhb_owners (init_lock l series val type data s) = lhb_owners s"
  "lhb_free_owners (init_lock l series val type data s) = lhb_free_owners s"
  "lhb_processes (init_lock l series val type data s) = lhb_processes s" "lhb_free_processes (init_lock l series val type data s) = lhb_free_processes s"
  "processes (init_lock l series val type data s) = processes s"
  "lhb_hash (init_lock l series val type data s) = lhb_hash s"
  "lhb_hash_slots (init_lock l series val type data s) = lhb_hash_slots s"
  "lhb_free_requests (init_lock l series val type data s) = lhb_free_requests s"
  "lhb_free_locks (init_lock l series val type data s) = lhb_free_locks s"
  "lhb_used (init_lock l series val type data s) = lhb_used s"
  by (simp_all add: init_lock_def insert_data_que_def Let_def)

lemma init_lock_data:
  "series < 256 \<Longrightarrow> lhb_data (init_lock l series val type data s) = (if data \<noteq> 0 \<and> series < LCK_MAX_SERIES
     then (lhb_data s)(series := insert_data (locks (init_lock l series val type data s)) l (lhb_data s series)) else lhb_data s)"
proof (cases "data \<noteq> 0 \<and> series < LCK_MAX_SERIES")
  assume byte: "series < 256"
  case True
  let ?b = "(locks s l)\<lparr>lbl_state := type, lbl_series := series, lbl_data := data\<rparr>"
  have "lhb_data (init_lock l series val type data s) =
      (lhb_data s)(series := insert_data ((locks s)(l := ?b)) l (lhb_data s series))"
    using True byte by (simp add: init_lock_def insert_data_que_def Let_def)
  moreover have "insert_data ((locks s)(l := ?b)) l q = insert_data (locks (init_lock l series val type data s)) l q" for q
    by (rule insert_data_cong) simp
  ultimately show ?thesis using True by simp
next
  assume byte: "series < 256"
  case False
  then show ?thesis using byte by (auto simp: init_lock_def insert_data_que_def Let_def)
qed

lemma lm_inv_unused:
  assumes ok: "lm_inv h s" and r: "fresh_request s r"
    and rq: "requests s' = (requests s)(r := q')" "\<not> lrq_in_use q'" "\<not> LRQ_pending q'" "\<not> LRQ_repost q'"
    and lk: "locks s' = locks s"
    and ow: "\<And>v. own_requests (owners s' v) = own_requests (owners s v)" "\<And>v. own_blocks (owners s' v) = own_blocks (owners s v)"
      "\<And>v. own_pending (owners s' v) = own_pending (owners s v)" "\<And>v. own_process (owners s' v) = own_process (owners s v)"
    and rest: "lhb_owners s' = lhb_owners s" "lhb_free_owners s' = lhb_free_owners s" "processes s' = processes s"
      "lhb_hash s' = lhb_hash s" "lhb_hash_slots s' = lhb_hash_slots s" "lhb_data s' = lhb_data s"
      "lhb_free_requests s' = lhb_free_requests s @ [r]" "lhb_free_locks s' = lhb_free_locks s" "lhb_used s' = lhb_used s"
      "lhb_processes s' = lhb_processes s" "lhb_free_processes s' = lhb_free_processes s"
  shows "lm_inv h s'"
proof -
  note I = lm_invD [OF ok] and F = free_okD [OF table_okD(4) [OF lm_invD(1) [OF ok]]]
  have r': "\<not> lrq_in_use (requests s r)" "r \<notin> set (lhb_free_requests s)" "r < lhb_used s"
    using r by (simp_all add: fresh_request_def)
  note f = fresh_not_queued [OF ok r'(1)]
  have "lock_ok s' l" if l: "lbl_in_use (locks s' l)" for l
  proof -
    have l': "lbl_in_use (locks s l)" using l lk by simp
    note D = lock_okD [OF table_okD(1) [OF I(1) l']]
    have "queue_ok (requests s') (locks s l) l (\<lambda>x. lrq_state (requests s' x))"
      by (rule queue_ok_cong [OF D(1)]) (use f(4) [OF l'] in \<open>auto simp: rq(1)\<close>)
    then show ?thesis using D lk by (simp add: lock_ok_def)
  qed
  moreover have "free_ok s'"
    by (rule free_okI) (use F r' rq(2) in \<open>auto simp: rest rq(1) lk split: if_splits\<close>)
  moreover have "lbl_in_use (locks s' (lrq_lock (requests s' x))) \<and> x \<in> set (lbl_requests (locks s' (lrq_lock (requests s' x))))"
    if x: "lrq_in_use (requests s' x)" "\<not> LRQ_repost (requests s' x)" for x
  proof -
    have "x \<noteq> r" using x rq by auto
    then show ?thesis using x table_okD(2,3) [OF I(1), of x] by (simp add: rq(1) lk)
  qed
  ultimately have "table_ok s'" unfolding table_ok_def by blast
  moreover have "owners_ok s'"
    by (rule owners_ok_request [OF I(2) rq(1) refl])
       (use rq f owners_okD(7-9) [OF I(2)] in \<open>simp_all add: ow\<close>)
  moreover have "names_ok h s'" by (rule names_ok_same [OF I(3)]) (simp_all add: same_names_def same_data_def lk rest)
  moreover have "members_ok s'" by (rule members_ok_keeps [OF I(4)]) (use rq(2) in \<open>simp add: keeps_members_def rq(1) ow rest\<close>)
  ultimately show ?thesis unfolding lm_inv_def by blast
qed

text \<open>The three ways a call goes on once it has its request.\<close>

lemma enqueue_found_inv:
  assumes ok: "lm_inv (env_hash env) s" and r: "fresh_request s r" and w: "w \<in> set (lhb_owners s)" and room: "queue_room s"
    and l: "lbl_in_use (locks s l)"
  shows "lm_inv (env_hash env) (snd (grant_or_que env r l lck_wait (upd_req r (\<lambda>q. q\<lparr>lrq_data := data\<rparr>)
    (upd_lock l (\<lambda>b. b\<lparr>lbl_requests := lbl_requests b @ [r]\<rparr>)
      (count_operation series (init_request r w type ast arg s))))))"
proof -
  let ?s = "upd_req r (\<lambda>q. q\<lparr>lrq_data := data\<rparr>) (upd_lock l (\<lambda>b. b\<lparr>lbl_requests := lbl_requests b @ [r]\<rparr>)
      (count_operation series (init_request r w type ast arg s)))"
  let ?s' = "upd_req r (\<lambda>q. q\<lparr>lrq_lock := l\<rparr>) ?s"
  have rq: "requests ?s' = (requests s)(r := requests ?s' r)" by simp
  have len: "length (lbl_requests (locks s l)) < 65535" using room unfolding queue_room_def by blast
  have "lm_inv (env_hash env) ?s'"
    by (rule lm_inv_append [OF ok r w l len rq]) (simp_all add: new_request_def)
  moreover have "live_request ?s' r" by (simp add: live_request_def)
  ultimately show ?thesis by (rule grant_or_que_inv) simp_all
qed

lemma enqueue_failed_inv:
  assumes ok: "lm_inv h s" and r: "fresh_request s r"
  shows "lm_inv h (free_request r (upd_own w (\<lambda>o'. o'\<lparr>own_requests := remove1 r (own_requests o')\<rparr>)
    (init_request r w type ast arg s)))"
proof -
  let ?s = "free_request r (upd_own w (\<lambda>o'. o'\<lparr>own_requests := remove1 r (own_requests o')\<rparr>) (init_request r w type ast arg s))"
  have rq: "requests ?s = (requests s)(r := requests ?s r)" by (simp add: free_request_def)
  have "r \<notin> set (own_requests (owners s v))" for v
    using fresh_not_queued(1) [OF ok] r by (simp add: fresh_request_def)
  then show ?thesis
    by (intro lm_inv_unused [OF ok r rq]) (simp_all add: free_request_def remove1_append remove1_idem)
qed

lemma enqueue_created_inv:
  assumes ok: "lm_inv h s" and r: "fresh_request s r" and w: "w \<in> set (lhb_owners s)"
    and bytes: "series < 256" "length val < 256"
    and find: "find_lock h series val (init_request r w type ast arg s) = (None, slot)"
    and alloc: "alloc_lock can_remap (length val) (init_request r w type ast arg s) = Some (l, s1)"
  shows "lm_inv h (grant r l (upd_req r (\<lambda>q. q\<lparr>lrq_lock := l\<rparr>) (upd_lock l (\<lambda>b. b\<lparr>lbl_requests := lbl_requests b @ [r]\<rparr>)
    ((init_lock l series val type data s1)\<lparr>lhb_hash := (lhb_hash (init_lock l series val type data s1))
       (slot := lhb_hash (init_lock l series val type data s1) slot @ [l])\<rparr>))))"
proof -
  let ?init = "init_request r w type ast arg s"
  let ?s2 = "init_lock l series val type data s1"
  let ?s3 = "upd_lock l (\<lambda>b. b\<lparr>lbl_requests := lbl_requests b @ [r]\<rparr>) (?s2\<lparr>lhb_hash := (lhb_hash ?s2)(slot := lhb_hash ?s2 slot @ [l])\<rparr>)"
  let ?s4 = "upd_req r (\<lambda>q. q\<lparr>lrq_lock := l\<rparr>) ?s3"
  let ?s = "upd_lock l (\<lambda>b. b\<lparr>lbl_state := LCK_none\<rparr>) ?s4"
  note I = lm_invD [OF ok]
  have F: "locks ?init = locks s" "lhb_free_locks ?init = lhb_free_locks s" "lhb_used ?init = lhb_used s" by simp_all
  obtain b where A: "locks s1 = (locks ?init)(l := b)" "lbl_in_use b" "\<not> lbl_in_use (locks ?init l)" "0 < l" "l < lhb_used s1"
    "l \<notin> set (lhb_free_locks s1)" "distinct (lhb_free_locks s1)" "set (lhb_free_locks s1) \<subseteq> set (lhb_free_locks ?init)"
    "lhb_used ?init \<le> lhb_used s1" "requests s1 = requests ?init" "owners s1 = owners ?init" "lhb_owners s1 = lhb_owners ?init"
    "lhb_free_owners s1 = lhb_free_owners ?init" "processes s1 = processes ?init" "lhb_hash s1 = lhb_hash ?init"
    "lhb_hash_slots s1 = lhb_hash_slots ?init" "lhb_data s1 = lhb_data ?init" "lhb_free_requests s1 = lhb_free_requests ?init"
    "lhb_processes s1 = lhb_processes ?init" "lhb_free_processes s1 = lhb_free_processes ?init"
    by (rule alloc_lock_result [OF table_okD(4) [OF I(1)] F bytes(2) alloc])
  have chain: "find_in_chain series val (locks s) (lhb_hash s (h val mod lhb_hash_slots s)) = None \<and>
      h val mod lhb_hash_slots s = slot"
    using find unfolding find_lock_def Let_def prod.inject init_request_simps .
  then have slot: "slot = h val mod lhb_hash_slots s" by (rule conjunct2 [THEN sym])
  have none: "find_in_chain series val (locks s) (lhb_hash s slot) = None" using chain unfolding slot by (rule conjunct1)
  have name: "lbl_key (locks s x) \<noteq> val" if "lbl_in_use (locks s x)" "lbl_series (locks s x) = series" for x
  proof
    assume key: "lbl_key (locks s x) = val"
    then have "x \<in> set (lhb_hash s slot)" using hash_okD(1) [OF names_okD(1) [OF I(3)]] that(1) slot by blast
    then show False using find_in_chain_none [OF none] that(2) key by blast
  qed
  let ?b = "locks ?s l"
  have b: "lbl_in_use ?b" "lbl_requests ?b = [r]" "lbl_counts ?b = (\<lambda>_. 0)" "lbl_pending_lrq_count ?b = 0" "lbl_state ?b = LCK_none"
    "lbl_series ?b = series" "lbl_key ?b = val" "lbl_data ?b = data"
    using bytes by (simp_all add: A(1,2))
  have lk: "locks ?s = (locks s)(l := ?b)" by (simp add: A(1))
  have rq: "requests ?s = (requests s)(r := requests ?s r)" by (simp add: A(10))
  have cong: "insert_data (locks ?s) l = insert_data (locks ?s2) l" by (intro ext insert_data_cong) simp
  have "lhb_data ?s = lhb_data ?s2" by simp
  also have "\<dots> = (if data \<noteq> 0 \<and> series < LCK_MAX_SERIES
      then (lhb_data s)(series := insert_data (locks ?s2) l (lhb_data s series)) else lhb_data s)"
    by (subst init_lock_data [OF bytes(1)]) (simp only: A(17) init_request_simps)
  finally have data: "lhb_data ?s = (if data \<noteq> 0 \<and> series < LCK_MAX_SERIES
      then (lhb_data s)(series := insert_data (locks ?s) l (lhb_data s series)) else lhb_data s)"
    unfolding cong .
  have ok': "lm_inv h ?s"
  proof -
    have data': "lhb_data ?s = (if lbl_data ?b \<noteq> 0 \<and> lbl_series ?b < LCK_MAX_SERIES
        then (lhb_data s)(lbl_series ?b := insert_data (locks ?s) l (lhb_data s (lbl_series ?b))) else lhb_data s)"
      using data unfolding b(6,8) .
    have name': "lbl_key (locks s x) \<noteq> lbl_key ?b" if "lbl_in_use (locks s x)" "lbl_series (locks s x) = lbl_series ?b" for x
      using name that unfolding b(6,7) .
    have slot': "slot = h (lbl_key ?b) mod lhb_hash_slots s" using slot unfolding b(7) .
    show ?thesis
      by (rule lm_inv_create [OF ok r w _ A(4) _ _ rq _ lk b(1-5) name' _ slot' _ data']) (use A in \<open>simp_all add: new_request_def\<close>)
  qed
  note I' = lm_invD [OF ok']
  have l': "lbl_in_use (locks ?s l)" "r \<in> set (lbl_requests (locks ?s l))" using b(1,2) by simp_all
  let ?b4 = "locks ?s4 l"
  have b4: "lbl_in_use ?b4" "lbl_requests ?b4 = lbl_requests ?b" "lbl_counts ?b4 = (\<lambda>_. 0)" "lbl_pending_lrq_count ?b4 = 0"
    by (simp_all add: A(1,2))
  have "queue_ok (requests ?s) ?b4 l (\<lambda>x. lrq_state (requests ?s x))"
    by (rule queue_ok_cong [OF lock_okD(1) [OF table_okD(1) [OF I'(1) l'(1)]] b4(2)]) (simp_all only: b4 b simp_thms)
  moreover have "(\<lambda>x. lrq_state (requests ?s x))(r := LCK_none) = (\<lambda>x. lrq_state (requests ?s x))"
    by (auto simp: A(10))
  ultimately have q: "queue_ok (requests ?s) ?b4 l ((\<lambda>x. lrq_state (requests ?s x))(r := LCK_none))" by simp
  have lk4: "locks ?s4 = (locks ?s)(l := ?b4)" by simp
  have "table_ok (grant r l ?s4)"
    by (rule grant_ok [OF I'(1) l' _ lk4 b4(1,2) q]) (simp_all add: b4(3) lock_state_def)
  moreover have "owners_ok ?s4" by (rule owners_ok_same [OF I'(2)]) (simp add: same_owners_def)
  then have "owners_ok (grant r l ?s4)" by (rule owners_ok_grant)
  moreover have "names_ok h ?s4" by (rule names_ok_same [OF I'(3)]) (simp_all add: same_names_def same_data_def)
  then have "names_ok h (grant r l ?s4)" using b4(1) by (rule names_ok_grant)
  moreover have "members_ok (grant r l ?s4)"
    by (rule members_ok_keeps [OF I'(4)]) (rule keeps_members_grant, simp add: keeps_members_def)
  ultimately show ?thesis unfolding lm_inv_def by blast
qed

lemma enqueue_inv:
  assumes ok: "lm_inv (env_hash env) s" and w: "w \<in> set (lhb_owners s)" and room: "queue_room s"
    and bytes: "series < 256" "length val < 256"
    and prior: "prior \<noteq> 0 \<Longrightarrow> live_request s prior"
    and run: "enqueue env prior series val type ast arg data lck_wait w s = Some (a, s')"
  shows "lm_inv (env_hash env) s'"
proof (cases "w = 0 \<or> own_count (owners s w) = 0")
  case True
  then show ?thesis using ok run by (simp add: enqueue_def)
next
  case False
  let ?h = "env_hash env"
  let ?se = "s\<lparr>lhb_enqs := lhb_enqs s + 1\<rparr>"
  have oke: "lm_inv ?h ?se" by (rule lm_inv_counter(1) [OF ok])
  define deq where "deq = (if prior \<noteq> 0 then internal_dequeue prior ?se else Some ?se)"
  obtain s1 where s1: "deq = Some s1"
    using run False unfolding enqueue_def Let_def deq_def [symmetric] by (cases deq) auto
  have ok1: "lm_inv ?h s1 \<and> w \<in> set (lhb_owners s1) \<and> queue_room s1"
  proof (cases "prior = 0")
    case True
    then have eq: "s1 = ?se" using s1 by (simp add: deq_def)
    show ?thesis using oke w room unfolding eq by (simp add: queue_room_def)
  next
    case False
    then have d: "internal_dequeue prior ?se = Some s1" using s1 by (simp add: deq_def)
    have "live_request ?se prior" using prior [OF False] by (simp add: live_request_def)
    then show ?thesis using internal_dequeue_inv [OF oke _ d] internal_dequeue_keeps [OF d] w room by (simp add: queue_room_def)
  qed
  show ?thesis
  proof (cases "get_free_request (env_remap env) s1")
    case None
    then show ?thesis using run ok1 s1 False unfolding enqueue_def Let_def deq_def [symmetric] by simp
  next
    case (Some p)
    obtain r s2 where get: "get_free_request (env_remap env) s1 = Some (r, s2)" using Some by (cases p) auto
    note G = get_free_request_result [OF conjunct1 [OF ok1] get]
    have w2: "w \<in> set (lhb_owners s2)" and room2: "queue_room s2" using ok1 G(4,6) by (simp_all add: queue_room_def)
    let ?s3 = "init_request r w type ast arg s2"
    obtain found slot where find: "find_lock ?h series val ?s3 = (found, slot)" by (cases "find_lock ?h series val ?s3")
    have run2: "(case found of Some l \<Rightarrow> Some (grant_or_que env r l lck_wait (upd_req r (\<lambda>q. q\<lparr>lrq_data := data\<rparr>)
            (upd_lock l (\<lambda>b. b\<lparr>lbl_requests := lbl_requests b @ [r]\<rparr>) (count_operation series ?s3))))
        | None \<Rightarrow> (case alloc_lock (env_remap env) (length val) ?s3 of
            None \<Rightarrow> Some (Refused (Some isc_lockmanerr), free_request r (upd_own w (\<lambda>o'. o'\<lparr>own_requests := remove1 r (own_requests o')\<rparr>) ?s3))
          | Some (l, s) \<Rightarrow> (let s = init_lock l series val type data s;
                                       s = s\<lparr>lhb_hash := (lhb_hash s)(slot := lhb_hash s slot @ [l])\<rparr>;
                                       s = upd_lock l (\<lambda>b. b\<lparr>lbl_requests := lbl_requests b @ [r]\<rparr>) s;
                                       s = upd_req r (\<lambda>q. q\<lparr>lrq_lock := l\<rparr>) s
                                   in Some (Request r, grant r l s)))) = Some (a, s')"
      using run False s1 get find unfolding enqueue_def Let_def deq_def [symmetric] by (cases found) simp_all
    show ?thesis
    proof (cases found)
      case (Some l)
      have "find_in_chain series val (locks s2) (lhb_hash s2 (?h val mod lhb_hash_slots s2)) = Some l"
        using find Some by (auto simp: find_lock_def Let_def)
      then have "l \<in> set (lhb_hash s2 (?h val mod lhb_hash_slots s2))" by (blast dest: find_in_chain_some)
      then have l: "lbl_in_use (locks s2 l)" using hash_okD(1) [OF names_okD(1) [OF lm_invD(3) [OF G(1)]]] by blast
      have "s' = snd (grant_or_que env r l lck_wait (upd_req r (\<lambda>q. q\<lparr>lrq_data := data\<rparr>)
            (upd_lock l (\<lambda>b. b\<lparr>lbl_requests := lbl_requests b @ [r]\<rparr>) (count_operation series ?s3))))"
        using run2 unfolding Some by simp
      then show ?thesis using enqueue_found_inv [OF G(1,2) w2 room2 l] by (simp only:)
    next
      case None
      show ?thesis
      proof (cases "alloc_lock (env_remap env) (length val) ?s3")
        case a: None
        then have "s' = free_request r (upd_own w (\<lambda>o'. o'\<lparr>own_requests := remove1 r (own_requests o')\<rparr>) ?s3)"
          using run2 unfolding None by simp
        then show ?thesis using enqueue_failed_inv [OF G(1,2)] by (simp only:)
      next
        case (Some q)
        obtain l s4 where a: "alloc_lock (env_remap env) (length val) ?s3 = Some (l, s4)" using Some by (cases q) auto
        have "s' = grant r l (upd_req r (\<lambda>q. q\<lparr>lrq_lock := l\<rparr>) (upd_lock l (\<lambda>b. b\<lparr>lbl_requests := lbl_requests b @ [r]\<rparr>)
            ((init_lock l series val type data s4)\<lparr>lhb_hash := (lhb_hash (init_lock l series val type data s4))
               (slot := lhb_hash (init_lock l series val type data s4) slot @ [l])\<rparr>)))"
          using run2 unfolding None option.case a prod.case Let_def by (simp only: option.inject prod.inject)
        moreover have "find_lock ?h series val ?s3 = (None, slot)" using find None by simp
        ultimately show ?thesis using enqueue_created_inv [OF G(1,2) w2 bytes _ a] by (simp only:)
      qed
    qed
  qed
qed

lemma dequeue_inv:
  assumes ok: "lm_inv (env_hash env) s" and r: "live_request s r" and run: "dequeue env r s = Some (b, s')"
  shows "lm_inv (env_hash env) s'"
proof (cases "own_count (owners s (lrq_owner (requests s r))) = 0")
  case True
  then show ?thesis using run ok by (auto simp: dequeue_def get_request_def split: if_splits)
next
  case False
  let ?s = "count_operation (lbl_series (locks s (lrq_lock (requests s r)))) (s\<lparr>lhb_deqs := lhb_deqs s + 1\<rparr>)"
  have "internal_dequeue r ?s = Some s'"
    using run False by (auto simp: dequeue_def get_request_def split: if_splits option.splits)
  moreover have "lm_inv (env_hash env) ?s" by (rule lm_inv_count_operation [OF lm_inv_counter(4) [OF ok]])
  moreover have "live_request ?s r" using r by (simp add: live_request_def)
  ultimately show ?thesis by (blast intro: internal_dequeue_inv)
qed

lemma lock_convert_inv:
  assumes ok: "lm_inv (env_hash env) s" and r: "live_request s r" "\<not> LRQ_pending (requests s r)"
    and run: "lock_convert env r type lck_wait ast arg s = Some (a, s')"
  shows "lm_inv (env_hash env) s'"
proof (cases "own_count (owners s (lrq_owner (requests s r))) = 0")
  case True
  then show ?thesis using run ok by (auto simp: lock_convert_def get_request_def split: if_splits)
next
  case False
  let ?s = "count_operation (lbl_series (locks s (lrq_lock (requests s r)))) (s\<lparr>lhb_converts := lhb_converts s + 1\<rparr>)"
  have c: "internal_convert env r type lck_wait ast arg ?s = Some (a, s')"
    using run False by (auto simp: lock_convert_def get_request_def split: if_splits option.splits)
  have "lm_inv (env_hash env) ?s" by (rule lm_inv_count_operation [OF lm_inv_counter(2) [OF ok]])
  then show ?thesis by (rule internal_convert_inv [OF _ _ _ c]) (use r in \<open>simp_all add: live_request_def\<close>)
qed

lemma downgrade_inv:
  assumes ok: "lm_inv (env_hash env) s" and r: "live_request s r" "\<not> LRQ_pending (requests s r)"
    and run: "downgrade env r s = Some (a, s')"
  shows "lm_inv (env_hash env) s'"
proof (cases "own_count (owners s (lrq_owner (requests s r))) = 0")
  case True
  then show ?thesis using run ok by (auto simp: downgrade_def get_request_def split: if_splits)
next
  case False
  let ?s = "s\<lparr>lhb_downgrades := lhb_downgrades s + 1\<rparr>"
  have ok': "lm_inv (env_hash env) ?s" by (rule lm_inv_counter(3) [OF ok])
  have live: "live_request ?s r" "\<not> LRQ_pending (requests ?s r)" using r by (simp_all add: live_request_def)
  have "internal_dequeue r ?s = Some s' \<or>
      (\<exists>a st. internal_convert env r st 0 (lrq_ast_routine (requests s r)) (lrq_ast_argument (requests s r)) ?s = Some (a, s'))"
    using run False by (auto simp: downgrade_def get_request_def Let_def split: if_splits option.splits)
  then show ?thesis using internal_dequeue_inv [OF ok' live(1)] internal_convert_inv [OF ok' live] by blast
qed

lemma writeData_inv:
  assumes ok: "lm_inv h s" and r: "live_request s r" and run: "writeData r data s = Some (d, s')"
  shows "lm_inv h s'"
proof -
  let ?s = "s\<lparr>lhb_write_data := lhb_write_data s + 1\<rparr>" and ?l = "lrq_lock (requests s r)"
  have ok': "lm_inv h ?s" by (rule lm_inv_counter(6) [OF ok])
  note I = lm_invD [OF ok']
  have l: "lbl_in_use (locks ?s ?l)" using live_lock(1) [OF ok r] by simp
  have "table_ok (set_data ?l data ?s)" by (rule table_ok_same [OF I(1) same_table_set_data])
  moreover have "owners_ok (set_data ?l data ?s)" by (rule owners_ok_same [OF I(2)]) (simp add: same_owners_def)
  moreover have "names_ok h (set_data ?l data ?s)"
    using hash_ok_set_data [OF names_okD(1) [OF I(3)]] data_ok_set_data [OF names_okD(2) [OF I(3)] l] by (simp add: names_ok_def)
  moreover have "members_ok (set_data ?l data ?s)" by (rule members_ok_keeps [OF I(4)]) (simp add: keeps_members_def)
  ultimately have "lm_inv h (set_data ?l data ?s)" unfolding lm_inv_def by blast
  note inv = lm_inv_count_operation [OF this]
  have "s' = count_operation (lbl_series (locks s ?l)) (set_data ?l data ?s)"
    using run by (auto simp: writeData_def get_request_def Let_def split: if_splits)
  then show ?thesis using inv by (simp only:)
qed

lemma readData_inv: "lm_inv h s \<Longrightarrow> readData r s = Some (d, s') \<Longrightarrow> lm_inv h s'"
  by (auto simp: readData_def get_request_def Let_def intro: lm_inv_count_operation lm_inv_counter split: if_splits)

lemma readData2_inv: "lm_inv h s \<Longrightarrow> lm_inv h (snd (readData2 env series val w s))"
  by (simp add: readData2_def Let_def lm_inv_count_operation lm_inv_counter)

lemma queryData_inv: "lm_inv h s \<Longrightarrow> lm_inv h (snd (queryData series agg s))"
  by (simp add: queryData_def Let_def lm_inv_counter)

lemma cancelWait_inv: "lm_inv h s \<Longrightarrow> lm_inv h (snd (cancelWait w s))"
  by (auto simp: cancelWait_def intro: lm_inv_same [OF _ same_state_wakeup])

end
