(* ===== verification/LockAttach.thy ===== *)
theory LockAttach
  imports LockCalls
begin

text \<open>
  The beginning and the end of using the lock table: the table of a new file, the blocks of a
  process and of its owners, and that each of them leaves the table in order.
\<close>

section \<open>A new table\<close>

definition HASH_MIN_SLOTS :: int where "HASH_MIN_SLOTS = 101"
definition HASH_MAX_SLOTS :: int where "HASH_MAX_SLOTS = 65521"
definition HISTORY_BLOCKS :: nat where "HISTORY_BLOCKS = 256"

text \<open>What zeroed memory reads as.\<close>

definition zero_lrq :: lrq where
  "zero_lrq = \<lparr>lrq_in_use = False, lrq_requested = LCK_none, lrq_state = LCK_none, LRQ_blocking = False, LRQ_pending = False,
     LRQ_rejected = False, LRQ_deadlock = False, LRQ_repost = False, LRQ_scanned = False, LRQ_blocking_seen = False,
     LRQ_just_granted = False, LRQ_wait_timeout = False, lrq_owner = 0, lrq_lock = 0, lrq_data = 0,
     lrq_ast_routine = 0, lrq_ast_argument = 0\<rparr>"

definition zero_lbl :: lbl where
  "zero_lbl = \<lparr>lbl_in_use = False, lbl_state = LCK_none, lbl_size = 0, lbl_requests = [], lbl_data = 0, lbl_series = 0,
     lbl_pending_lrq_count = 0, lbl_counts = (\<lambda>_. 0), lbl_key = []\<rparr>"

definition zero_own :: own where
  "zero_own = \<lparr>own_owner_type = 0, own_count = 0, own_owner_id = 0, own_requests = [], own_blocks = [], own_pending = [],
     own_process = 0, own_waits = 0, own_ast_count = 0, OWN_scanned = False, OWN_wakeup = False, OWN_signaled = False\<rparr>"

definition zero_his :: his where
  "zero_his = \<lparr>his_operation = 0, his_process = 0, his_lock = 0, his_request = 0\<rparr>"

definition zero_lhb :: lhb where
  "zero_lhb = \<lparr>requests = (\<lambda>_. zero_lrq), locks = (\<lambda>_. zero_lbl), owners = (\<lambda>_. zero_own),
     processes = (\<lambda>_. \<lparr>prc_process_id = 0, prc_owners = []\<rparr>), lhb_owners = [], lhb_processes = [], lhb_free_processes = [],
     lhb_free_owners = [], lhb_free_locks = [], lhb_free_requests = [], lhb_length = 0, lhb_used = 0, lhb_hash_slots = 0,
     lhb_history = [], shb_history = [], lhb_enqs = 0, lhb_converts = 0, lhb_downgrades = 0, lhb_deqs = 0,
     lhb_read_data = 0, lhb_write_data = 0, lhb_query_data = 0, lhb_operations = (\<lambda>_. 0), lhb_waits = 0, lhb_denies = 0,
     lhb_timeouts = 0, lhb_blocks = 0, lhb_wakeups = 0, lhb_scans = 0, lhb_deadlocks = 0,
     lhb_data = (\<lambda>_. []), lhb_hash = (\<lambda>_. [])\<rparr>"

fun alloc_history :: "nat option \<Rightarrow> nat \<Rightarrow> his list \<Rightarrow> lhb \<Rightarrow> (his list \<times> lhb) option" where
  "alloc_history can_remap 0 ring s = Some (ring, s)"
| "alloc_history can_remap (Suc i) ring s =
     (case alloc_block can_remap sizeof_his s of
        None \<Rightarrow> None
      | Some (_, s) \<Rightarrow> alloc_history can_remap i (ring @ [zero_his]) s)"

definition hash_slots :: "int \<Rightarrow> nat" where
  "hash_slots slots =
     (let slots = (if slots < HASH_MIN_SLOTS then HASH_MIN_SLOTS else slots)
      in nat (if slots > HASH_MAX_SLOTS then HASH_MAX_SLOTS else slots))"

text \<open>\<open>None\<close> is the end of the process.\<close>

definition initialize :: "nat option \<Rightarrow> int \<Rightarrow> nat \<Rightarrow> lhb option" where
  "initialize can_remap slots sh_mem_length_mapped =
     (let len = sizeof_lhb + hash_slots slots * 8;
          s = zero_lhb\<lparr>lhb_hash_slots := hash_slots slots, lhb_length := sh_mem_length_mapped, lhb_used := FB_ALIGN len 8\<rparr>
      in case alloc_block can_remap sizeof_shb s of
           None \<Rightarrow> None
         | Some (_, s) \<Rightarrow>
             (case alloc_history can_remap HISTORY_BLOCKS [] s of
                None \<Rightarrow> None
              | Some (ring, s) \<Rightarrow>
                  (case alloc_history can_remap HISTORY_BLOCKS [] (s\<lparr>lhb_history := ring\<rparr>) of
                     None \<Rightarrow> None
                   | Some (ring, s) \<Rightarrow> Some (s\<lparr>shb_history := ring\<rparr>))))"

section \<open>Processes\<close>

text \<open>
  \<open>m_processOffset\<close> is the process's own note of its block, 0 before it has one.  The
  environment tells whether the event, the mapping and the thread of the block are set up.
\<close>

fun find_process :: "nat \<Rightarrow> (nat \<Rightarrow> prc) \<Rightarrow> nat list \<Rightarrow> nat option" where
  "find_process pid prcs [] = None"
| "find_process pid prcs (p # ps) = (if prc_process_id (prcs p) = pid then Some p else find_process pid prcs ps)"

definition create_process :: "lm_env \<Rightarrow> nat \<Rightarrow> lhb \<Rightarrow> bool \<times> nat \<times> lhb" where
  "create_process env m_processOffset s =
     (let s = (case find_process (env_pid env) (processes s) (lhb_processes s) of
                 None \<Rightarrow> s | Some p \<Rightarrow> purge_process env p s)
      in case (case lhb_free_processes s of
                 [] \<Rightarrow> alloc_block (env_remap env) sizeof_prc s
               | p # ps \<Rightarrow> Some (p, s\<lparr>lhb_free_processes := ps\<rparr>)) of
           None \<Rightarrow> (False, m_processOffset, s)
         | Some (p, s) \<Rightarrow>
             (let s = s\<lparr>processes := (processes s)(p := \<lparr>prc_process_id = env_pid env, prc_owners = []\<rparr>),
                        lhb_processes := lhb_processes s @ [p]\<rparr>
              in if \<not> env_prc_event_ok env then (False, m_processOffset, s) else (env_process_ok env, p, s)))"

section \<open>Owners\<close>

definition init_owner_block :: "lm_env \<Rightarrow> nat \<Rightarrow> nat \<Rightarrow> UCHAR \<Rightarrow> 64 word \<Rightarrow> lhb \<Rightarrow> bool \<times> lhb" where
  "init_owner_block env m_processOffset w owner_type owner_id s =
     (env_event_ok env,
      upd_own w (\<lambda>_. \<lparr>own_owner_type = owner_type, own_count = 1, own_owner_id = owner_id, own_requests = [],
        own_blocks = [], own_pending = [], own_process = m_processOffset, own_waits = 0, own_ast_count = 0,
        OWN_scanned = False, OWN_wakeup = False, OWN_signaled = False\<rparr>) s)"

fun find_owner :: "64 word \<Rightarrow> UCHAR \<Rightarrow> (nat \<Rightarrow> own) \<Rightarrow> nat list \<Rightarrow> nat option" where
  "find_owner owner_id owner_type owns [] = None"
| "find_owner owner_id owner_type owns (w # ws) =
     (if own_owner_id (owns w) = owner_id \<and> own_owner_type (owns w) = owner_type then Some w
      else find_owner owner_id owner_type owns ws)"

text \<open>The answer is the process's block and the owner's, whose offset 0 is failure.\<close>

definition create_owner :: "lm_env \<Rightarrow> nat \<Rightarrow> 64 word \<Rightarrow> UCHAR \<Rightarrow> lhb \<Rightarrow> nat \<times> nat \<times> lhb" where
  "create_owner env m_processOffset owner_id owner_type s =
     (case (if m_processOffset = 0 then create_process env m_processOffset s else (True, m_processOffset, s)) of
        (False, p, s) \<Rightarrow> (p, 0, s)
      | (True, p, s) \<Rightarrow>
          (let s = (case find_owner owner_id owner_type (owners s) (lhb_owners s) of
                      None \<Rightarrow> s | Some w \<Rightarrow> purge_owner env (- 1) w s)
           in case (case lhb_free_owners s of
                      [] \<Rightarrow> alloc_block (env_remap env) sizeof_own s
                    | w # ws \<Rightarrow> Some (w, s\<lparr>lhb_free_owners := ws\<rparr>)) of
                None \<Rightarrow> (p, 0, s)
              | Some (w, s) \<Rightarrow>
                  (case init_owner_block env p w owner_type owner_id s of
                     (False, s) \<Rightarrow> (p, 0, s)
                   | (True, s) \<Rightarrow>
                       (let s = s\<lparr>lhb_owners := lhb_owners s @ [w],
                                  processes := (processes s)(p := (processes s p)\<lparr>prc_owners := prc_owners (processes s p) @ [w]\<rparr>)\<rparr>
                        in (p, w, snd (probe_processes env s))))))"

definition initializeOwner :: "lm_env \<Rightarrow> nat \<Rightarrow> 64 word \<Rightarrow> UCHAR \<Rightarrow> nat \<Rightarrow> lhb \<Rightarrow> bool \<times> nat \<times> nat \<times> lhb" where
  "initializeOwner env m_processOffset owner_id owner_type owner_handle s =
     (if owner_handle \<noteq> 0
      then (True, m_processOffset, owner_handle, upd_own owner_handle (\<lambda>o'. o'\<lparr>own_count := own_count o' + 1\<rparr>) s)
      else (case create_owner env m_processOffset owner_id owner_type s of (p, w, s) \<Rightarrow> (w \<noteq> 0, p, w, s)))"

text \<open>
  The last use of an owner waits until no AST of it is being delivered: \<open>shutdown_begin\<close> tells
  whether it was the last, \<open>shutdown_end\<close> runs once \<open>own_ast_count\<close> is 0.
\<close>

definition shutdown_begin :: "nat \<Rightarrow> lhb \<Rightarrow> bool \<times> lhb" where
  "shutdown_begin w s =
     (if w = 0 \<or> own_count (owners s w) = 0 then (False, s)
      else let s = upd_own w (\<lambda>o'. o'\<lparr>own_count := own_count o' - 1\<rparr>) s
           in (\<not> 0 <s own_count (owners s w), s))"

definition shutdown_end :: "lm_env \<Rightarrow> nat \<Rightarrow> lhb \<Rightarrow> lhb option" where
  "shutdown_end env w s = (if own_ast_count (owners s w) \<noteq> 0 then None else Some (purge_owner env (int w) w s))"

section \<open>A new table is in order\<close>

definition blank :: "lhb \<Rightarrow> bool" where
  "blank s \<longleftrightarrow> requests s = (\<lambda>_. zero_lrq) \<and> locks s = (\<lambda>_. zero_lbl) \<and> owners s = (\<lambda>_. zero_own) \<and>
     processes s = (\<lambda>_. \<lparr>prc_process_id = 0, prc_owners = []\<rparr>) \<and> lhb_owners s = [] \<and> lhb_free_owners s = [] \<and>
     lhb_processes s = [] \<and> lhb_free_processes s = [] \<and> lhb_free_locks s = [] \<and> lhb_free_requests s = [] \<and>
     lhb_hash s = (\<lambda>_. []) \<and> lhb_data s = (\<lambda>_. []) \<and> 0 < lhb_used s"

lemma lm_inv_blank: "blank s \<Longrightarrow> lm_inv h s"
  by (simp add: blank_def lm_inv_def table_ok_def owners_ok_def names_ok_def hash_ok_def data_ok_def members_ok_def
      free_ok_def zero_lrq_def zero_lbl_def zero_own_def)

lemma blank_alloc:
  assumes "blank s" "alloc_block can_remap n s = Some (b, s')" "0 < FB_ALIGN n 8 mod 65536"
  shows "blank s'"
  using alloc_block_result [OF assms(2,3)] assms(1) by (simp add: blank_def)

lemma blank_history:
  "blank s \<Longrightarrow> alloc_history can_remap i ring s = Some (ring', s') \<Longrightarrow>
    blank s' \<and> ring' = ring @ replicate i zero_his \<and> lhb_history s' = lhb_history s"
proof (induction can_remap i ring s rule: alloc_history.induct)
  case (2 can_remap i ring s)
  obtain b s1 where a: "alloc_block can_remap sizeof_his s = Some (b, s1)"
    using 2(3) by (auto split: option.splits)
  have "lhb_history s1 = lhb_history s" using a by (auto simp: alloc_block_def Let_def split: if_splits option.splits)
  moreover have "blank s1" by (rule blank_alloc [OF 2(2) a]) (simp add: sizeof_his_def FB_ALIGN_def)
  ultimately show ?case using 2(1) [OF a refl] 2(3) a by (auto simp: replicate_append_same [symmetric])
qed simp

lemma initialize_blank:
  assumes "initialize can_remap slots len = Some s"
  shows "blank s" "lhb_history s = replicate HISTORY_BLOCKS zero_his" "shb_history s = replicate HISTORY_BLOCKS zero_his"
proof -
  define n where "n = sizeof_lhb + hash_slots slots * 8"
  define s0 where "s0 = zero_lhb\<lparr>lhb_hash_slots := hash_slots slots, lhb_length := len, lhb_used := FB_ALIGN n 8\<rparr>"
  have "8 \<le> n" by (simp add: n_def sizeof_lhb_def)
  then have "8 \<le> FB_ALIGN n 8" unfolding FB_ALIGN_def by simp
  then have 0: "blank s0" by (simp add: blank_def s0_def zero_lhb_def)
  obtain b s1 where 1: "alloc_block can_remap sizeof_shb s0 = Some (b, s1)"
    using assms by (auto simp: initialize_def s0_def n_def Let_def split: option.splits)
  obtain r2 s2 where 2: "alloc_history can_remap HISTORY_BLOCKS [] s1 = Some (r2, s2)"
    using assms 1 by (auto simp: initialize_def s0_def n_def Let_def split: option.splits)
  obtain r3 s3 where 3: "alloc_history can_remap HISTORY_BLOCKS [] (s2\<lparr>lhb_history := r2\<rparr>) = Some (r3, s3)"
    using assms 1 2 by (auto simp: initialize_def s0_def n_def Let_def split: option.splits)
  have s: "s = s3\<lparr>shb_history := r3\<rparr>"
    using assms 1 2 3 by (auto simp: initialize_def s0_def n_def Let_def split: option.splits)
  have b1: "blank s1" by (rule blank_alloc [OF 0 1]) (simp add: sizeof_shb_def FB_ALIGN_def)
  note b2 = blank_history [OF b1 2]
  have "blank (s2\<lparr>lhb_history := r2\<rparr>)" using b2 by (simp add: blank_def)
  note b3 = blank_history [OF this 3]
  show "blank s" using b3 by (simp add: s blank_def)
  show "lhb_history s = replicate HISTORY_BLOCKS zero_his" "shb_history s = replicate HISTORY_BLOCKS zero_his"
    using b2 b3 by (simp_all add: s)
qed

section \<open>Process and owner blocks keep the table in order\<close>

lemma lm_inv_lists:
  assumes ok: "lm_inv h s" and s': "requests s' = requests s" "locks s' = locks s" "owners s' = owners s"
      "lhb_hash s' = lhb_hash s" "lhb_hash_slots s' = lhb_hash_slots s" "lhb_data s' = lhb_data s"
      "lhb_free_requests s' = lhb_free_requests s" "lhb_free_locks s' = lhb_free_locks s" "lhb_used s \<le> lhb_used s'"
    and m: "members_ok s'"
  shows "lm_inv h s'"
proof -
  note I = lm_invD [OF ok]
  note F = free_okD [OF table_okD(4) [OF I(1)]]
  have "free_ok s'"
  proof (rule free_okI)
    show "\<not> lrq_in_use (requests s' r) \<and> r < lhb_used s'" if "r \<in> set (lhb_free_requests s')" for r
      using F(1) [of r] that s'(9) unfolding s'(1,7) by simp
    show "r < lhb_used s'" if "lrq_in_use (requests s' r)" for r using F(2) [of r] that s'(9) unfolding s'(1) by simp
    show "\<not> lbl_in_use (locks s' l) \<and> 0 < l \<and> l < lhb_used s'" if "l \<in> set (lhb_free_locks s')" for l
      using F(4) [of l] that s'(9) unfolding s'(2,8) by simp
    show "0 < l \<and> l < lhb_used s'" if "lbl_in_use (locks s' l)" for l using F(5) [of l] that s'(9) unfolding s'(2) by simp
  qed (use F(3,6,7) s'(7-9) in simp_all)
  moreover have "lock_ok s' l = lock_ok s l" for l by (simp add: lock_ok_def s')
  ultimately have "table_ok s'" using I(1) by (simp add: table_ok_def s')
  moreover have "owners_ok s'" by (rule owners_ok_same [OF I(2)]) (simp add: same_owners_def s')
  moreover have "names_ok h s'" by (rule names_ok_same [OF I(3)]) (simp_all add: same_names_def same_data_def s')
  ultimately show ?thesis using m unfolding lm_inv_def by blast
qed

lemma members_okI:
  assumes "\<And>r. lrq_in_use (requests s r) \<Longrightarrow> lrq_owner (requests s r) \<in> set (lhb_owners s)"
    "distinct (lhb_owners s @ lhb_free_owners s)"
    "\<And>w. w \<in> set (lhb_owners s @ lhb_free_owners s) \<Longrightarrow> 0 < w \<and> w < lhb_used s"
    "\<And>p w. w \<in> set (prc_owners (processes s p)) \<longleftrightarrow> w \<in> set (lhb_owners s) \<and> own_process (owners s w) = p"
    "\<And>p. distinct (prc_owners (processes s p))"
    "distinct (lhb_processes s @ lhb_free_processes s)"
    "\<And>p. p \<in> set (lhb_processes s @ lhb_free_processes s) \<Longrightarrow> 0 < p \<and> p < lhb_used s"
    "\<And>p. prc_process_id (processes s p) \<noteq> 0 \<or> prc_owners (processes s p) \<noteq> [] \<Longrightarrow> p \<in> set (lhb_processes s)"
  shows "members_ok s"
  using assms unfolding members_ok_def by blast

text \<open>A block taken from a free list or from the end of the table.\<close>

definition fresh_process :: "lhb \<Rightarrow> nat \<Rightarrow> bool" where
  "fresh_process s p \<longleftrightarrow> p \<notin> set (lhb_processes s @ lhb_free_processes s) \<and> 0 < p \<and> p < lhb_used s"

definition fresh_owner :: "lhb \<Rightarrow> nat \<Rightarrow> bool" where
  "fresh_owner s w \<longleftrightarrow> w \<notin> set (lhb_owners s @ lhb_free_owners s) \<and> 0 < w \<and> w < lhb_used s"

lemma lm_inv_alloc:
  assumes ok: "lm_inv h s" and a: "alloc_block can_remap n s = Some (b, s')" "0 < FB_ALIGN n 8 mod 65536"
  shows "lm_inv h s'" "fresh_process s' b" "fresh_owner s' b"
proof -
  note A = alloc_block_result [OF a]
  show "lm_inv h s'" by (rule lm_inv_take [OF ok]) (use A table_okD(4) [OF lm_invD(1) [OF ok]] in \<open>simp_all add: free_ok_def\<close>)
  have "0 < lhb_used s" using table_okD(4) [OF lm_invD(1) [OF ok]] by (simp add: free_ok_def)
  then show "fresh_process s' b" "fresh_owner s' b"
    using members_okD(3,7) [OF lm_invD(4) [OF ok], of b] A by (auto simp: fresh_process_def fresh_owner_def)
qed

lemma take_process:
  assumes ok: "lm_inv h s"
    and run: "(case lhb_free_processes s of [] \<Rightarrow> alloc_block can_remap sizeof_prc s
      | p # ps \<Rightarrow> Some (p, s\<lparr>lhb_free_processes := ps\<rparr>)) = Some (p, s')"
  shows "lm_inv h s'" "fresh_process s' p" "lhb_processes s' = lhb_processes s" "lhb_owners s' = lhb_owners s"
proof -
  note M = members_okD [OF lm_invD(4) [OF ok]]
  have "lm_inv h s' \<and> fresh_process s' p \<and> lhb_processes s' = lhb_processes s \<and> lhb_owners s' = lhb_owners s"
  proof (cases "lhb_free_processes s")
    case Nil
    then have a: "alloc_block can_remap sizeof_prc s = Some (p, s')" using run by simp
    have n: "0 < FB_ALIGN sizeof_prc 8 mod 65536" by (simp add: sizeof_prc_def FB_ALIGN_def)
    show ?thesis using lm_inv_alloc [OF ok a n] alloc_block_result [OF a n] by simp
  next
    case (Cons q qs)
    then have s': "p = q" "s' = s\<lparr>lhb_free_processes := qs\<rparr>" using run by simp_all
    have m: "members_ok s'"
      by (rule members_okI) (use M Cons in \<open>simp_all add: s'\<close>)
    have "lm_inv h s'" by (rule lm_inv_lists [OF ok _ _ _ _ _ _ _ _ _ m]) (simp_all add: s')
    then show ?thesis using M(6) M(7) [of p] Cons by (auto simp: s' fresh_process_def)
  qed
  then show "lm_inv h s'" "fresh_process s' p" "lhb_processes s' = lhb_processes s" "lhb_owners s' = lhb_owners s" by blast+
qed

lemma take_owner:
  assumes ok: "lm_inv h s"
    and run: "(case lhb_free_owners s of [] \<Rightarrow> alloc_block can_remap sizeof_own s
      | w # ws \<Rightarrow> Some (w, s\<lparr>lhb_free_owners := ws\<rparr>)) = Some (w, s')"
  shows "lm_inv h s'" "fresh_owner s' w" "lhb_processes s' = lhb_processes s" "lhb_owners s' = lhb_owners s"
proof -
  note M = members_okD [OF lm_invD(4) [OF ok]]
  have "lm_inv h s' \<and> fresh_owner s' w \<and> lhb_processes s' = lhb_processes s \<and> lhb_owners s' = lhb_owners s"
  proof (cases "lhb_free_owners s")
    case Nil
    then have a: "alloc_block can_remap sizeof_own s = Some (w, s')" using run by simp
    have n: "0 < FB_ALIGN sizeof_own 8 mod 65536" by (simp add: sizeof_own_def FB_ALIGN_def)
    show ?thesis using lm_inv_alloc [OF ok a n] alloc_block_result [OF a n] by simp
  next
    case (Cons v vs)
    then have s': "w = v" "s' = s\<lparr>lhb_free_owners := vs\<rparr>" using run by simp_all
    have m: "members_ok s'"
      by (rule members_okI) (use M Cons in \<open>simp_all add: s'\<close>)
    have "lm_inv h s'" by (rule lm_inv_lists [OF ok _ _ _ _ _ _ _ _ _ m]) (simp_all add: s')
    then show ?thesis using M(2) M(3) [of w] Cons by (auto simp: s' fresh_owner_def)
  qed
  then show "lm_inv h s'" "fresh_owner s' w" "lhb_processes s' = lhb_processes s" "lhb_owners s' = lhb_owners s" by blast+
qed

lemma lm_inv_add_process:
  assumes ok: "lm_inv h s" and p: "fresh_process s p"
  shows "lm_inv h (s\<lparr>processes := (processes s)(p := \<lparr>prc_process_id = i, prc_owners = []\<rparr>), lhb_processes := lhb_processes s @ [p]\<rparr>)"
    (is "lm_inv h ?s'")
proof -
  note M = members_okD [OF lm_invD(4) [OF ok]]
  have p': "p \<notin> set (lhb_processes s)" using p by (simp add: fresh_process_def)
  then have e: "prc_owners (processes s p) = []" using M(8) [of p] by blast
  have "members_ok ?s'"
  proof (rule members_okI)
    fix q v
    show "v \<in> set (prc_owners (processes ?s' q)) \<longleftrightarrow> v \<in> set (lhb_owners ?s') \<and> own_process (owners ?s' v) = q"
      using M(4) [of v q] e by (cases "q = p") simp_all
  next
    fix q
    show "distinct (prc_owners (processes ?s' q))" using M(5) [of q] by simp
  next
    show "distinct (lhb_processes ?s' @ lhb_free_processes ?s')" using M(6) p by (auto simp: fresh_process_def)
  next
    fix q
    assume "q \<in> set (lhb_processes ?s' @ lhb_free_processes ?s')"
    then show "0 < q \<and> q < lhb_used ?s'" using M(7) [of q] p by (auto simp: fresh_process_def)
  next
    fix q
    assume "prc_process_id (processes ?s' q) \<noteq> 0 \<or> prc_owners (processes ?s' q) \<noteq> []"
    then show "q \<in> set (lhb_processes ?s')" using M(8) [of q] by (cases "q = p") simp_all
  qed (use M(1-3) in simp_all)
  then show ?thesis by (rule lm_inv_lists [OF ok, rotated -1]) simp_all
qed

lemma find_process_member: "find_process pid prcs ps = Some p \<Longrightarrow> p \<in> set ps \<and> prc_process_id (prcs p) = pid"
  by (induction ps) (auto split: if_splits)

lemma find_owner_member: "find_owner i t owns ws = Some w \<Longrightarrow> w \<in> set ws \<and> own_owner_id (owns w) = i \<and> own_owner_type (owns w) = t"
  by (induction ws) (auto split: if_splits)

lemma create_process_inv:
  assumes ok: "lm_inv (env_hash env) s" and run: "create_process env 0 s = (b, p', s')"
  shows "lm_inv (env_hash env) s'" "b \<or> p' \<noteq> 0 \<Longrightarrow> p' \<in> set (lhb_processes s')"
proof -
  define s1 where "s1 = (case find_process (env_pid env) (processes s) (lhb_processes s) of
    None \<Rightarrow> s | Some q \<Rightarrow> purge_process env q s)"
  have 1: "lm_inv (env_hash env) s1"
  proof (cases "find_process (env_pid env) (processes s) (lhb_processes s)")
    case None
    then show ?thesis using ok by (simp add: s1_def)
  next
    case (Some q)
    then show ?thesis using purge_process_inv(1) [OF ok conjunct1 [OF find_process_member [OF Some]]] by (simp add: s1_def)
  qed
  let ?take = "case lhb_free_processes s1 of [] \<Rightarrow> alloc_block (env_remap env) sizeof_prc s1
      | q # qs \<Rightarrow> Some (q, s1\<lparr>lhb_free_processes := qs\<rparr>)"
  have "lm_inv (env_hash env) s' \<and> (b \<or> p' \<noteq> 0 \<longrightarrow> p' \<in> set (lhb_processes s'))"
  proof (cases ?take)
    case None
    then show ?thesis using run 1 unfolding create_process_def s1_def [symmetric] Let_def by simp
  next
    case (Some a)
    obtain q s2 where a: "a = (q, s2)" by (cases a)
    note T = take_process [OF 1 Some [unfolded a]]
    show ?thesis using run Some a lm_inv_add_process [OF T(1,2)]
      unfolding create_process_def s1_def [symmetric] Let_def by (auto split: if_splits)
  qed
  then show "lm_inv (env_hash env) s'" "b \<or> p' \<noteq> 0 \<Longrightarrow> p' \<in> set (lhb_processes s')" by blast+
qed

text \<open>An owner's block that is in no list has nothing in its queues.\<close>

lemma stranger_empty:
  assumes ok: "lm_inv h s" and w: "w \<notin> set (lhb_owners s)"
  shows "own_requests (owners s w) = []" "own_blocks (owners s w) = []" "own_pending (owners s w) = []"
proof -
  note O = owners_okD [OF lm_invD(2) [OF ok]] and M = members_okD [OF lm_invD(4) [OF ok]]
  have "r \<notin> set (own_requests (owners s w))" "r \<notin> set (own_blocks (owners s w))" "r \<notin> set (own_pending (owners s w))" for r
    using O(1-3) [of r w] O(4) [of r] M(1) [of r] w by metis+
  then show "own_requests (owners s w) = []" "own_blocks (owners s w) = []" "own_pending (owners s w) = []"
    by (metis last_in_set)+
qed

lemma lm_inv_stranger:
  assumes ok: "lm_inv h s" and w: "w \<notin> set (lhb_owners s)"
    and o': "own_requests o' = []" "own_blocks o' = []" "own_pending o' = []"
  shows "lm_inv h (upd_own w (\<lambda>_. o') s)" (is "lm_inv h ?s'")
proof -
  note I = lm_invD [OF ok] and M = members_okD [OF lm_invD(4) [OF ok]] and e = stranger_empty [OF ok w]
  have "table_ok ?s'" by (rule table_ok_same [OF I(1)]) (simp add: same_table_def)
  moreover have "owners_ok ?s'" by (rule owners_ok_same [OF I(2)]) (simp add: same_owners_def e o')
  moreover have "names_ok h ?s'" by (rule names_ok_same [OF I(3)]) (simp_all add: same_names_def same_data_def)
  moreover have "members_ok ?s'"
  proof (rule members_okI)
    show "v \<in> set (prc_owners (processes ?s' q)) \<longleftrightarrow> v \<in> set (lhb_owners ?s') \<and> own_process (owners ?s' v) = q" for q v
      using M(4) [of v q] w by (cases "v = w") simp_all
  qed (use M(1-3,5-8) in simp_all)
  ultimately show ?thesis unfolding lm_inv_def by blast
qed

lemma lm_inv_add_owner:
  assumes ok: "lm_inv h s" and w: "fresh_owner s w" and p: "p \<in> set (lhb_processes s)" "own_process (owners s w) = p"
  shows "lm_inv h (s\<lparr>lhb_owners := lhb_owners s @ [w],
    processes := (processes s)(p := (processes s p)\<lparr>prc_owners := prc_owners (processes s p) @ [w]\<rparr>)\<rparr>)" (is "lm_inv h ?s'")
proof -
  note M = members_okD [OF lm_invD(4) [OF ok]]
  have w': "w \<notin> set (lhb_owners s)" using w by (simp add: fresh_owner_def)
  have "members_ok ?s'"
  proof (rule members_okI)
    show "lrq_owner (requests ?s' r) \<in> set (lhb_owners ?s')" if "lrq_in_use (requests ?s' r)" for r using M(1) [of r] that by simp
    show "distinct (lhb_owners ?s' @ lhb_free_owners ?s')" using M(2) w by (auto simp: fresh_owner_def)
    show "0 < v \<and> v < lhb_used ?s'" if "v \<in> set (lhb_owners ?s' @ lhb_free_owners ?s')" for v
      using M(3) [of v] that w by (auto simp: fresh_owner_def)
    show "v \<in> set (prc_owners (processes ?s' q)) \<longleftrightarrow> v \<in> set (lhb_owners ?s') \<and> own_process (owners ?s' v) = q" for q v
      using M(4) [of v q] p(2) w' by (cases "q = p"; cases "v = w") simp_all
    show "distinct (prc_owners (processes ?s' q))" for q
      using M(5) [of q] M(4) [of w p] w' by (cases "q = p") simp_all
    show "q \<in> set (lhb_processes ?s')" if "prc_process_id (processes ?s' q) \<noteq> 0 \<or> prc_owners (processes ?s' q) \<noteq> []" for q
      using M(8) [of q] that p(1) by (cases "q = p") simp_all
  qed (use M(6,7) in simp_all)
  then show ?thesis by (rule lm_inv_lists [OF ok, rotated -1]) simp_all
qed

lemma add_owner_block:
  assumes ok: "lm_inv (env_hash env) s" and w: "fresh_owner s w" and p: "p \<in> set (lhb_processes s)"
    and run: "init_owner_block env p w t i s = (b, s1)"
  shows "lm_inv (env_hash env) s1" "lm_inv (env_hash env) (s1\<lparr>lhb_owners := lhb_owners s1 @ [w],
    processes := (processes s1)(p := (processes s1 p)\<lparr>prc_owners := prc_owners (processes s1 p) @ [w]\<rparr>)\<rparr>)"
proof -
  have s1: "s1 = upd_own w (\<lambda>_. \<lparr>own_owner_type = t, own_count = 1, own_owner_id = i, own_requests = [],
        own_blocks = [], own_pending = [], own_process = p, own_waits = 0, own_ast_count = 0,
        OWN_scanned = False, OWN_wakeup = False, OWN_signaled = False\<rparr>) s"
    using run by (simp add: init_owner_block_def)
  have "w \<notin> set (lhb_owners s)" using w by (simp add: fresh_owner_def)
  then show 1: "lm_inv (env_hash env) s1" unfolding s1 by (rule lm_inv_stranger [OF ok]) simp_all
  show "lm_inv (env_hash env) (s1\<lparr>lhb_owners := lhb_owners s1 @ [w],
    processes := (processes s1)(p := (processes s1 p)\<lparr>prc_owners := prc_owners (processes s1 p) @ [w]\<rparr>)\<rparr>)"
    by (rule lm_inv_add_owner [OF 1]) (use w p in \<open>simp_all add: s1 fresh_owner_def\<close>)
qed

lemma create_owner_inv:
  assumes ok: "lm_inv (env_hash env) s" and p: "p \<noteq> 0 \<Longrightarrow> p \<in> set (lhb_processes s)"
    and run: "create_owner env p i t s = (p', w, s')"
  shows "lm_inv (env_hash env) s'"
proof -
  obtain b q s1 where 1: "(if p = 0 then create_process env p s else (True, p, s)) = (b, q, s1)" by (cases "if p = 0 then create_process env p s else (True, p, s)")
  have ok1: "lm_inv (env_hash env) s1 \<and> (b \<longrightarrow> q \<in> set (lhb_processes s1))"
    using create_process_inv [OF ok, of b q s1] 1 ok p by (cases "p = 0") auto
  show ?thesis
  proof (cases b)
    case False
    then show ?thesis using run 1 ok1 by (simp add: create_owner_def)
  next
    case True
    have q: "q \<in> set (lhb_processes s1)" using ok1 True by blast
    define s2 where "s2 = (case find_owner i t (owners s1) (lhb_owners s1) of None \<Rightarrow> s1 | Some v \<Rightarrow> purge_owner env (- 1) v s1)"
    have 2: "lm_inv (env_hash env) s2 \<and> lhb_processes s2 = lhb_processes s1"
      using ok1 purge_owner_inv(1,3) [of env s1] find_owner_member by (fastforce simp: s2_def split: option.split)
    let ?take = "case lhb_free_owners s2 of [] \<Rightarrow> alloc_block (env_remap env) sizeof_own s2
      | v # vs \<Rightarrow> Some (v, s2\<lparr>lhb_free_owners := vs\<rparr>)"
    have run': "(p', w, s') = (case ?take of None \<Rightarrow> (q, 0, s2)
        | Some (w, s) \<Rightarrow> (case init_owner_block env q w t i s of (False, s) \<Rightarrow> (q, 0, s)
          | (True, s) \<Rightarrow> (let s = s\<lparr>lhb_owners := lhb_owners s @ [w],
              processes := (processes s)(q := (processes s q)\<lparr>prc_owners := prc_owners (processes s q) @ [w]\<rparr>)\<rparr>
            in (q, w, snd (probe_processes env s)))))"
      using run 1 True unfolding create_owner_def s2_def by (simp only: Let_def prod.case bool.case)
    show ?thesis
    proof (cases ?take)
      case None
      then show ?thesis using run' 2 by simp
    next
      case (Some a)
      obtain v s3 where a: "a = (v, s3)" by (cases a)
      note T = take_owner [OF conjunct1 [OF 2] Some [unfolded a]]
      obtain b' s4 where 4: "init_owner_block env q v t i s3 = (b', s4)" by (cases "init_owner_block env q v t i s3")
      have "q \<in> set (lhb_processes s3)" using q 2 T(3) by simp
      note B = add_owner_block [OF T(1,2) this 4]
      show ?thesis using run' Some a 4 B(1) probe_processes_inv [OF B(2)] by (cases b') (simp_all add: Let_def)
    qed
  qed
qed

lemma initializeOwner_inv:
  assumes ok: "lm_inv (env_hash env) s" and p: "p \<noteq> 0 \<Longrightarrow> p \<in> set (lhb_processes s)"
    and run: "initializeOwner env p i t handle s = (b, p', w, s')"
  shows "lm_inv (env_hash env) s'"
proof (cases "handle = 0")
  case True
  then show ?thesis using create_owner_inv [OF ok p] run
    by (cases "create_owner env p i t s") (simp add: initializeOwner_def)
next
  case False
  then have "s' = upd_own handle (\<lambda>o'. o'\<lparr>own_count := own_count o' + 1\<rparr>) s" using run by (auto simp: initializeOwner_def)
  then show ?thesis using lm_inv_same [OF ok] by (simp add: same_state_defs)
qed

lemma shutdown_begin_inv: "lm_inv h s \<Longrightarrow> lm_inv h (snd (shutdown_begin w s))"
  by (erule lm_inv_same) (simp add: same_state_defs shutdown_begin_def Let_def)

lemma shutdown_end_inv:
  assumes "lm_inv (env_hash env) s" "w \<in> set (lhb_owners s)" "shutdown_end env w s = Some s'"
  shows "lm_inv (env_hash env) s'"
  using purge_owner_inv(1) [OF assms(1,2)] assms(3) by (auto simp: shutdown_end_def split: if_splits)

section \<open>Reposted notices\<close>

lemma lm_inv_repost:
  assumes ok: "lm_inv h s" and r: "fresh_request s r" and w: "w \<in> set (lhb_owners s)"
    and q': "lrq_in_use q'" "LRQ_repost q'" "\<not> LRQ_pending q'" "\<not> LRQ_blocking q'" "lrq_owner q' = w"
  shows "lm_inv h (upd_own w (\<lambda>o'. o'\<lparr>own_blocks := own_blocks o' @ [r]\<rparr>) (upd_req r (\<lambda>_. q') s))" (is "lm_inv h ?s'")
proof -
  note I = lm_invD [OF ok] and F = free_okD [OF table_okD(4) [OF lm_invD(1) [OF ok]]] and M = members_okD [OF lm_invD(4) [OF ok]]
  have r': "\<not> lrq_in_use (requests s r)" "r \<notin> set (lhb_free_requests s)" "r < lhb_used s"
    using r by (simp_all add: fresh_request_def)
  note f = fresh_not_queued [OF ok r'(1)]
  have "lock_ok ?s' l" if l: "lbl_in_use (locks ?s' l)" for l
  proof -
    have l': "lbl_in_use (locks s l)" using l by simp
    note D = lock_okD [OF table_okD(1) [OF I(1) l']]
    have "queue_ok (requests ?s') (locks s l) l (\<lambda>x. lrq_state (requests ?s' x))"
      by (rule queue_ok_cong [OF D(1)]) (use f(4) [OF l'] in auto)
    then show ?thesis using D by (simp add: lock_ok_def)
  qed
  moreover have "free_ok ?s'"
    by (rule free_okI) (use F r' in \<open>auto split: if_splits\<close>)
  moreover have "lbl_in_use (locks ?s' (lrq_lock (requests ?s' x))) \<and> x \<in> set (lbl_requests (locks ?s' (lrq_lock (requests ?s' x))))"
    if x: "lrq_in_use (requests ?s' x)" "\<not> LRQ_repost (requests ?s' x)" for x
  proof -
    have "x \<noteq> r" using x q' by auto
    then show ?thesis using x table_okD(2,3) [OF I(1), of x] by simp
  qed
  ultimately have "table_ok ?s'" unfolding table_ok_def by blast
  moreover have "owners_ok ?s'"
    by (rule owners_ok_request [OF I(2) _ q'(5), where r = r])
       (use q' f owners_okD(7-9) [OF I(2)] in simp_all)
  moreover have "names_ok h ?s'" by (rule names_ok_same [OF I(3)]) (simp_all add: same_names_def same_data_def)
  moreover have "members_ok ?s'"
  proof (rule members_okI)
    show "lrq_owner (requests ?s' x) \<in> set (lhb_owners ?s')" if "lrq_in_use (requests ?s' x)" for x
      using M(1) [of x] that w q'(5) by (cases "x = r") simp_all
    show "v \<in> set (prc_owners (processes ?s' q)) \<longleftrightarrow> v \<in> set (lhb_owners ?s') \<and> own_process (owners ?s' v) = q" for q v
      using M(4) [of v q] by simp
  qed (use M(2,3,5-8) in simp_all)
  ultimately show ?thesis unfolding lm_inv_def by blast
qed

lemma repost_inv:
  assumes ok: "lm_inv h s" and w: "w \<in> set (lhb_owners s)"
  shows "lm_inv h (repost env ast arg w s)"
proof (cases "get_free_request (env_remap env) s")
  case None
  then show ?thesis using ok by (simp add: repost_def)
next
  case (Some a)
  obtain r s1 where a: "a = (r, s1)" by (cases a)
  note G = get_free_request_result [OF ok Some [unfolded a]]
  define f :: "lrq \<Rightarrow> lrq" where "f = (\<lambda>q. q\<lparr>lrq_in_use := True, LRQ_blocking := False, LRQ_pending := False,
       LRQ_rejected := False, LRQ_deadlock := False, LRQ_repost := True, LRQ_scanned := False,
       LRQ_blocking_seen := False, LRQ_just_granted := False, LRQ_wait_timeout := False,
       lrq_ast_routine := ast, lrq_ast_argument := arg, lrq_requested := LCK_none,
       lrq_state := LCK_none, lrq_owner := w, lrq_lock := 0\<rparr>)"
  let ?s2 = "upd_own w (\<lambda>o'. o'\<lparr>own_blocks := own_blocks o' @ [r]\<rparr>) (upd_req r f s1)"
  have u: "upd_req r f s1 = upd_req r (\<lambda>_. f (requests s1 r)) s1" by (simp add: upd_req_def)
  have w1: "w \<in> set (lhb_owners s1)" using w G(6) by simp
  have 2: "lm_inv h ?s2" unfolding u by (rule lm_inv_repost [OF G(1,2) w1]) (simp_all add: f_def)
  have "repost env ast arg w s = (if w = 0 then s else if \<not> OWN_signaled (owners ?s2 w) then snd (signal_owner env w ?s2) else ?s2)"
    using Some unfolding repost_def a f_def by (simp only: option.case prod.case Let_def)
  then show ?thesis using 2 ok lm_inv_same [OF 2 same_state_signal] by simp
qed

end
