(* ===== verification/LockSafety.thy ===== *)
theory LockSafety
  imports LockAttach
begin

text \<open>
  The lock table under the calls of any number of processes: the steps the table can take, one
  per entry into it, the tables that can be reached, and what holds in all of them.
\<close>

section \<open>The steps\<close>

text \<open>
  The premises of a step are what its caller owes: an owner that is attached, a request of its
  own that is not yet released and, for a conversion, granted and in no other call; an owner
  type the code knows; a level other than \<open>LCK_none\<close>; a key whose length the byte \<open>lbl_size\<close>
  can still hold when it is rounded up; no more requests on a lock than its counters may count.
  All processes hash keys with the same function \<open>h\<close> and map the file in pieces of at least
  64 kB.  A call enters the table again after every sleep, so the other steps come in between.
\<close>

definition granted_request :: "lhb \<Rightarrow> nat \<Rightarrow> bool" where
  "granted_request s r \<longleftrightarrow> live_request s r \<and> \<not> LRQ_pending (requests s r) \<and>
     lrq_requested (requests s r) = lrq_state (requests s r) \<and> lrq_state (requests s r) \<noteq> LCK_none"

definition queue_limit :: "lhb \<Rightarrow> bool" where
  "queue_limit s \<longleftrightarrow> (\<forall>l. length (lbl_requests (locks s l)) < 32767)"

definition lm_caller :: "(bytes \<Rightarrow> nat) \<Rightarrow> lm_env \<Rightarrow> bool" where
  "lm_caller h env \<longleftrightarrow> env_hash env = h \<and> (case env_remap env of None \<Rightarrow> True | Some m \<Rightarrow> 65536 \<le> m)"

lemma queue_limit_room: "queue_limit s \<Longrightarrow> queue_room s"
  unfolding queue_limit_def queue_room_def by (simp add: less_trans [of _ 32767])


inductive lm_step :: "(bytes \<Rightarrow> nat) \<Rightarrow> lhb \<Rightarrow> lhb \<Rightarrow> bool" for h where
  attach: "lm_step h s s'"
    if "lm_caller h env" "p \<noteq> 0 \<longrightarrow> p \<in> set (lhb_processes s)" "owner_type \<le> 2"
      "initializeOwner env p owner_id owner_type handle s = (b, p', w, s')"
| last_use: "lm_step h s (snd (shutdown_begin w s))"
| detach: "lm_step h s s'"
    if "lm_caller h env" "w \<in> set (lhb_owners s)" "shutdown_end env w s = Some s'"
| enqueue: "lm_step h s s'"
    if "lm_caller h env" "w \<in> set (lhb_owners s)" "queue_limit s" "series < 256" "length val \<le> 248" "type \<noteq> LCK_none"
      "prior \<noteq> 0 \<longrightarrow> live_request s prior"
      "enqueue env prior series val type ast arg data lck_wait w s = Some (a, s')"
| enqueue_resume: "lm_step h s (snd (grant_or_que_resume env r lck_wait s))"
    if "lm_caller h env" "live_request s r" "\<not> LRQ_pending (requests s r)"
| convert: "lm_step h s s'"
    if "lm_caller h env" "granted_request s r" "type \<noteq> LCK_none"
      "lock_convert env r type lck_wait ast arg s = Some (a, s')"
| convert_resume: "lm_step h s (snd (internal_convert_resume new_ast r lck_wait ast arg s))"
    if "live_request s r" "\<not> LRQ_pending (requests s r)" "lrq_state (requests s r) \<noteq> LCK_none"
| wait: "lm_step h s s'"
    if "lm_caller h env" "live_request s r"
      "wait_turn env r lck_wait scan_interval lock_timeout deadlock_timeout now cancelled s = Some (done, t, s')"
| downgrade: "lm_step h s s'"
    if "lm_caller h env" "granted_request s r" "downgrade env r s = Some (level, s')"
| dequeue: "lm_step h s s'"
    if "lm_caller h env" "live_request s r" "dequeue env r s = Some (b, s')"
| repost: "lm_step h s (repost env ast arg w s)"
    if "lm_caller h env" "w \<in> set (lhb_owners s)"
| cancel: "lm_step h s (snd (cancelWait w s))"
| notice: "lm_step h s (snd (blocking_step w s))"
    if "w \<in> set (lhb_owners s)"
| notice_done: "lm_step h s (blocking_return w s)"
    if "w \<in> set (lhb_owners s)"
| query: "lm_step h s (snd (queryData series agg s))"
| read_request: "lm_step h s s'"
    if "live_request s r" "readData r s = Some (d, s')"
| read_key: "lm_step h s (snd (readData2 env series val w s))"
    if "lm_caller h env"
| write_request: "lm_step h s s'"
    if "live_request s r" "writeData r data s = Some (d, s')"

inductive lm_reachable :: "(bytes \<Rightarrow> nat) \<Rightarrow> lhb \<Rightarrow> bool" for h where
  reach_initialize: "lm_reachable h s"
    if "sizeof_lhb + hash_slots slots * 8 \<le> len" "case can_remap of None \<Rightarrow> True | Some m \<Rightarrow> 65536 \<le> m"
      "initialize can_remap slots len = Some s"
| reach_step: "lm_reachable h s'" if "lm_reachable h s" "lm_step h s s'"

lemma lm_callerD: "lm_caller h env \<Longrightarrow> env_hash env = h" by (simp add: lm_caller_def)

lemma lm_step_inv:
  assumes step: "lm_step h s s'" and ok: "lm_inv h s"
  shows "lm_inv h s'"
  using step
proof cases
  case (attach env p owner_type owner_id handle b p' w)
  then show ?thesis using initializeOwner_inv [of env s p] ok lm_callerD by blast
next
  case (last_use w)
  then show ?thesis using shutdown_begin_inv [OF ok] by simp
next
  case (detach env w)
  then show ?thesis using shutdown_end_inv [of env s w s'] ok lm_callerD by blast
next
  case (enqueue env w series val type prior ast arg data lck_wait a)
  have "length val < 256" using enqueue(5) by simp
  then show ?thesis using enqueue_inv [of env s w series val prior] enqueue ok queue_limit_room lm_callerD by blast
next
  case (enqueue_resume env r lck_wait)
  then show ?thesis using grant_or_que_resume_inv [of env s r] ok lm_callerD by blast
next
  case (convert env r type lck_wait ast arg a)
  then show ?thesis using lock_convert_inv [of env s r] ok lm_callerD unfolding granted_request_def by blast
next
  case (convert_resume r new_ast lck_wait ast arg)
  then show ?thesis using internal_convert_resume_inv [OF ok] by simp
next
  case (wait env r lck_wait scan_interval lock_timeout deadlock_timeout now cancelled "done" t)
  have "lm_inv (env_hash env) s" using ok lm_callerD [OF wait(1)] by simp
  then obtain res where "wait_turn env r lck_wait scan_interval lock_timeout deadlock_timeout now cancelled s = Some res"
    "lm_inv (env_hash env) (snd (snd res))"
    by (rule wait_turn_inv [OF _ wait(2)])
  then show ?thesis using lm_callerD [OF wait(1)] wait(3) by (cases res) simp
next
  case (downgrade env r level)
  then show ?thesis using downgrade_inv [of env s r] ok lm_callerD unfolding granted_request_def by blast
next
  case (dequeue env r b)
  then show ?thesis using dequeue_inv [of env s r] ok lm_callerD by blast
next
  case (repost env w ast arg)
  then show ?thesis using repost_inv [OF ok] by simp
next
  case (cancel w)
  then show ?thesis using cancelWait_inv [OF ok] by simp
next
  case (notice w)
  then show ?thesis using blocking_step_inv [OF ok] by simp
next
  case (notice_done w)
  then show ?thesis using lm_inv_blocking_return [OF ok] by simp
next
  case (query series agg)
  then show ?thesis using queryData_inv [OF ok] by simp
next
  case (read_request r d)
  then show ?thesis using readData_inv [OF ok] by blast
next
  case (read_key env series val w)
  then show ?thesis using readData2_inv [OF ok] by simp
next
  case (write_request r data d)
  then show ?thesis using writeData_inv [OF ok] by blast
qed

lemma reachable_inv: "lm_reachable h s \<Longrightarrow> lm_inv h s"
  by (induction rule: lm_reachable.induct) (auto intro: lm_inv_blank initialize_blank(1) lm_step_inv)

end
