(* ===== verification/LockScenario.thy ===== *)
theory LockScenario
  imports LockSafety
begin

text \<open>
  A run of the lock manager: a process attaches two owners, both get the lock \<open>[1, 2]\<close> of
  series 3 at level \<open>LCK_PR\<close>, and both ask to convert it to \<open>LCK_EX\<close>, which is a deadlock.
  The tables of the run are computed from the model's operations; they are the inputs at which
  the theorems on reachable tables are applied.
\<close>

definition demo_env :: lm_env where
  "demo_env = \<lparr>env_pid = 5, env_hash = length, env_remap = None, env_post_ok = (\<lambda>_. True), env_alive = (\<lambda>_. True),
     env_event_ok = True, env_prc_event_ok = True, env_process_ok = True\<rparr>"

lemma demo_env_simps [simp]:
  "env_pid demo_env = 5" "env_hash demo_env = length" "env_remap demo_env = None" "env_post_ok demo_env p"
  "env_alive demo_env q" "env_event_ok demo_env" "env_prc_event_ok demo_env" "env_process_ok demo_env"
  by (simp_all add: demo_env_def)

lemma demo_caller: "lm_caller length demo_env" by (simp add: lm_caller_def)

lemma alloc_block_fits:
  "lhb_used s + FB_ALIGN n 8 mod 65536 \<le> lhb_length s \<Longrightarrow>
     alloc_block can_remap n s = Some (lhb_used s, s\<lparr>lhb_used := lhb_used s + FB_ALIGN n 8 mod 65536\<rparr>)"
  by (simp add: alloc_block_def Let_def)

lemma alloc_history_fits:
  "lhb_used s + 24 * i \<le> lhb_length s \<Longrightarrow>
     alloc_history can_remap i ring s = Some (ring @ replicate i zero_his, s\<lparr>lhb_used := lhb_used s + 24 * i\<rparr>)"
proof (induction i arbitrary: s ring)
  case (Suc i)
  then show ?case
    by (simp add: alloc_block_fits sizeof_his_def FB_ALIGN_def replicate_append_same [symmetric])
qed simp

lemmas lm_eval =
  zero_lhb_def zero_lrq_def zero_lbl_def zero_own_def alloc_block_fits sizeof_prc_def sizeof_own_def sizeof_lrq_def
  sizeof_lbl_def FB_ALIGN_def init_owner_block_def upd_own_def upd_req_def upd_lock_def probe_processes_def
  purge_process_def purge_owner_def post_history_def get_free_request_def init_request_def find_lock_def alloc_lock_def
  count_operation_def init_lock_def insert_data_que_def LCK_MAX_SERIES_def grant_def lock_state_def set_data_def
  remove_data_que_def post_wakeup_def grant_or_que_def compatibility_def compat_table_def post_pending_def get_request_def
  internal_convert_def lock_convert_def wait_begin_def wait_mark_def post_blockage_def dec_count_def inc_count_def
  initializeOwner_def create_owner_def create_process_def enqueue_def

section \<open>The run\<close>

definition demo0 :: lhb where
  "demo0 = zero_lhb\<lparr>lhb_hash_slots := 101, lhb_length := 65536, lhb_used := 13552,
     lhb_history := replicate HISTORY_BLOCKS zero_his, shb_history := replicate HISTORY_BLOCKS zero_his\<rparr>"

lemma demo0: "initialize None 101 65536 = Some demo0"
  by (simp add: initialize_def demo0_def zero_lhb_def hash_slots_def HASH_MIN_SLOTS_def HASH_MAX_SLOTS_def HISTORY_BLOCKS_def
      alloc_block_fits alloc_history_fits sizeof_lhb_def sizeof_shb_def FB_ALIGN_def Let_def)

definition demo_own :: "64 word \<Rightarrow> nat list \<Rightarrow> nat list \<Rightarrow> own" where
  "demo_own i rs ps = \<lparr>own_owner_type = 1, own_count = 1, own_owner_id = i, own_requests = rs, own_blocks = [],
     own_pending = ps, own_process = 13552, own_waits = of_nat (length ps), own_ast_count = 0,
     OWN_scanned = False, OWN_wakeup = False, OWN_signaled = False\<rparr>"

definition demo_lrq :: "lock_level \<Rightarrow> bool \<Rightarrow> nat \<Rightarrow> lrq" where
  "demo_lrq v p w = zero_lrq\<lparr>lrq_in_use := True, lrq_requested := v, lrq_state := LCK_PR, LRQ_pending := p,
     lrq_owner := w, lrq_lock := 14120\<rparr>"

definition demo_lbl :: "nat list \<Rightarrow> USHORT \<Rightarrow> USHORT \<Rightarrow> lbl" where
  "demo_lbl rs n p = \<lparr>lbl_in_use = True, lbl_state = LCK_PR, lbl_size = 8, lbl_requests = rs, lbl_data = 5, lbl_series = 3,
     lbl_pending_lrq_count = p, lbl_counts = (\<lambda>_. 0)(LCK_PR := n), lbl_key = [1, 2]\<rparr>"

definition demo_his :: "his list \<Rightarrow> UCHAR \<Rightarrow> int \<Rightarrow> nat \<Rightarrow> nat \<Rightarrow> his list" where
  "demo_his hs p w l r = tl hs @ [\<lparr>his_operation = p, his_process = w, his_lock = l, his_request = r\<rparr>]"

lemmas demo_eval = lm_eval demo_own_def demo_lrq_def demo_lbl_def demo_his_def

definition demo1 :: lhb where
  "demo1 = demo0\<lparr>owners := (\<lambda>_. zero_own)(13680 := demo_own 7 [] []),
     processes := (\<lambda>_. \<lparr>prc_process_id = 0, prc_owners = []\<rparr>)(13552 := \<lparr>prc_process_id = 5, prc_owners = [13680]\<rparr>),
     lhb_owners := [13680], lhb_processes := [13552], lhb_used := 13864\<rparr>"

lemma demo1: "initializeOwner demo_env 0 7 1 0 demo0 = (True, 13552, 13680, demo1)"
  by (simp add: demo0_def demo1_def demo_eval)

definition demo2 :: lhb where
  "demo2 = demo1\<lparr>owners := (\<lambda>_. zero_own)(13680 := demo_own 7 [] [], 13864 := demo_own 8 [] []),
     processes := (\<lambda>_. \<lparr>prc_process_id = 0, prc_owners = []\<rparr>)(13552 := \<lparr>prc_process_id = 5, prc_owners = [13680, 13864]\<rparr>),
     lhb_owners := [13680, 13864], lhb_used := 14048\<rparr>"

lemma demo2: "initializeOwner demo_env 13552 8 1 0 demo1 = (True, 13552, 13864, demo2)"
  by (simp add: demo0_def demo1_def demo2_def demo_eval)

definition demo3 :: lhb where
  "demo3 = demo2\<lparr>requests := (\<lambda>_. zero_lrq)(14048 := demo_lrq LCK_PR False 13680),
     locks := (\<lambda>_. zero_lbl)(14120 := demo_lbl [14048] 1 0),
     owners := (\<lambda>_. zero_own)(13864 := demo_own 8 [] [], 13680 := demo_own 7 [14048] []),
     lhb_used := 14192, lhb_enqs := 1, lhb_operations := (\<lambda>_. 0)(3 := 1),
     lhb_history := demo_his (demo_his (lhb_history demo2) his_enq 13680 0 14048) his_grant 13680 14120 14048,
     lhb_data := (\<lambda>_. [])(3 := [14120]), lhb_hash := (\<lambda>_. [])(Suc (Suc 0) := [14120])\<rparr>"

lemma demo3: "enqueue demo_env 0 3 [1, 2] LCK_PR 0 0 5 1 13680 demo2 = Some (Request 14048, demo3)"
  by (simp add: demo0_def demo1_def demo2_def demo3_def demo_eval)

definition demo4 :: lhb where
  "demo4 = demo3\<lparr>requests := (\<lambda>_. zero_lrq)(14048 := demo_lrq LCK_PR False 13680, 14192 := demo_lrq LCK_PR False 13864),
     locks := (\<lambda>_. zero_lbl)(14120 := demo_lbl [14048, 14192] 2 0),
     owners := (\<lambda>_. zero_own)(13680 := demo_own 7 [14048] [], 13864 := demo_own 8 [14192] []),
     lhb_used := 14264, lhb_enqs := 2, lhb_operations := (\<lambda>_. 0)(3 := 2),
     lhb_history := demo_his (demo_his (lhb_history demo3) his_enq 13864 0 14192) his_grant 13864 14120 14192\<rparr>"

lemma demo4: "enqueue demo_env 0 3 [1, 2] LCK_PR 0 0 0 1 13864 demo3 = Some (Request 14192, demo4)"
  by (simp add: demo0_def demo1_def demo2_def demo3_def demo4_def demo_eval)

definition demo5 :: lhb where
  "demo5 = demo4\<lparr>requests := (\<lambda>_. zero_lrq)(14192 := demo_lrq LCK_PR False 13864, 14048 := demo_lrq LCK_EX True 13680),
     locks := (\<lambda>_. zero_lbl)(14120 := demo_lbl [14048, 14192] 2 1),
     owners := (\<lambda>_. zero_own)(13864 := demo_own 8 [14192] [], 13680 := demo_own 7 [14048] [14048]),
     lhb_converts := 1, lhb_waits := 1, lhb_operations := (\<lambda>_. 0)(3 := 3),
     lhb_history := demo_his (demo_his (lhb_history demo4) his_convert 13680 14120 14048) his_wait 13680 14120 14048\<rparr>"

lemma demo5: "lock_convert demo_env 14048 LCK_EX 1 0 0 demo4 = Some (Asleep 14048, demo5)"
  by (simp add: demo0_def demo1_def demo2_def demo3_def demo4_def demo5_def demo_eval)

definition demo6 :: lhb where
  "demo6 = demo5\<lparr>requests := (\<lambda>_. zero_lrq)(14048 := demo_lrq LCK_EX True 13680, 14192 := demo_lrq LCK_EX True 13864),
     locks := (\<lambda>_. zero_lbl)(14120 := demo_lbl [14048, 14192] 2 2),
     owners := (\<lambda>_. zero_own)(13680 := demo_own 7 [14048] [14048], 13864 := demo_own 8 [14192] [14192]),
     lhb_converts := 2, lhb_waits := 2, lhb_operations := (\<lambda>_. 0)(3 := 4),
     lhb_history := demo_his (demo_his (lhb_history demo5) his_convert 13864 14120 14192) his_wait 13864 14120 14192\<rparr>"

lemma demo6: "lock_convert demo_env 14192 LCK_EX 1 0 0 demo5 = Some (Asleep 14192, demo6)"
  by (simp add: demo0_def demo1_def demo2_def demo3_def demo4_def demo5_def demo6_def demo_eval)

section \<open>The tables of the run are reachable\<close>

lemmas demo_tables = demo0_def demo1_def demo2_def demo3_def demo4_def demo5_def demo6_def demo_own_def demo_lrq_def
  demo_lbl_def zero_lhb_def zero_lrq_def zero_lbl_def zero_own_def

lemma demo_granted: "granted_request demo4 14048" "granted_request demo5 14192"
  by (simp_all add: granted_request_def live_request_def demo_tables)

lemma demo_limit: "queue_limit demo2" "queue_limit demo3"
  by (simp_all add: queue_limit_def demo_tables)

lemma reachable_demo1: "lm_reachable length demo1"
proof (rule reach_step)
  show "lm_reachable length demo0"
    by (rule reach_initialize [OF _ _ demo0]) (simp_all add: sizeof_lhb_def hash_slots_def HASH_MIN_SLOTS_def HASH_MAX_SLOTS_def)
  show "lm_step length demo0 demo1" by (rule attach [OF demo_caller _ _ demo1]) simp_all
qed

lemma reachable_demo2: "lm_reachable length demo2"
  by (rule reach_step [OF reachable_demo1 attach [OF demo_caller _ _ demo2]]) (simp_all add: demo_tables)

lemma reachable_demo3: "lm_reachable length demo3"
  by (rule reach_step [OF reachable_demo2 enqueue [OF demo_caller _ demo_limit(1) _ _ _ _ demo3]]) (simp_all add: demo_tables)

lemma reachable_demo4: "lm_reachable length demo4"
  by (rule reach_step [OF reachable_demo3 enqueue [OF demo_caller _ demo_limit(2) _ _ _ _ demo4]]) (simp_all add: demo_tables)

lemma reachable_demo5: "lm_reachable length demo5"
  by (rule reach_step [OF reachable_demo4 convert [OF demo_caller demo_granted(1) _ demo5]]) simp

lemma reachable_demo6: "lm_reachable length demo6"
  by (rule reach_step [OF reachable_demo5 convert [OF demo_caller demo_granted(2) _ demo6]]) simp

section \<open>A file that is too small\<close>

text \<open>
  The smallest file the configuration admits does not hold the hash slots of the default
  configuration: \<open>initialize\<close> has written all of them when it finds that there is no room.
\<close>

lemma small_table: "initialize None 8191 65536 = None \<and> 65536 < sizeof_lhb - 8 + hash_slots 8191 * 8"
  by (simp add: initialize_def alloc_block_def hash_slots_def HASH_MIN_SLOTS_def HASH_MAX_SLOTS_def sizeof_lhb_def
      sizeof_shb_def FB_ALIGN_def Let_def)

end
