(* ===== verification/LockProperties.thy ===== *)
theory LockProperties
  imports LockScenario
begin

text \<open>
  What the lock manager promises of every table that can be reached, and of its answers.
\<close>

section \<open>Locks held and locks found\<close>

text \<open>
  C2. Mutual exclusion: in every table that can be reached, two different requests on one lock are
  granted at levels that are compatible with each other.
\<close>

theorem granted_compatible:
  assumes "lm_reachable h s" "live_request s r" "live_request s r'" "r \<noteq> r'"
    "lrq_lock (requests s r) = lrq_lock (requests s r')"
  shows "compatibility (lrq_state (requests s r)) (lrq_state (requests s r'))"
proof -
  let ?l = "lrq_lock (requests s r)"
  note ok = reachable_inv [OF assms(1)]
  note L = live_lock [OF ok assms(2)] and L' = live_lock [OF ok assms(3), folded assms(5)]
  have "queue_ok (requests s) (locks s ?l) ?l (\<lambda>r. lrq_state (requests s r))"
    using table_okD(1) [OF lm_invD(1) [OF ok] L(1)] by (simp add: lock_ok_def)
  then show ?thesis using L(2) L'(2) assms(4) unfolding queue_ok_def by blast
qed

theorem granted_compatible_witness:
  "compatibility (lrq_state (requests demo4 14048)) (lrq_state (requests demo4 14192)) \<and>
     lrq_state (requests demo4 14048) = LCK_PR \<and> lrq_state (requests demo4 14192) = LCK_PR"
  using granted_compatible [OF reachable_demo4, of 14048 14192] by (simp add: live_request_def demo_tables)

text \<open>
  C8. The search through the hash chain finds exactly the lock in use that has the series and the
  key asked for; there is never a second one.
\<close>

theorem find_lock_reachable:
  assumes "lm_reachable h s"
  shows "fst (find_lock h series val s) = Some l \<longleftrightarrow>
    lbl_in_use (locks s l) \<and> lbl_series (locks s l) = series \<and> lbl_key (locks s l) = val"
proof -
  note H = hash_okD [OF names_okD(1) [OF lm_invD(3) [OF reachable_inv [OF assms]]]]
  let ?slot = "h val mod lhb_hash_slots s"
  let ?found = "find_in_chain series val (locks s) (lhb_hash s ?slot)"
  have "?found = Some l \<longleftrightarrow> lbl_in_use (locks s l) \<and> lbl_series (locks s l) = series \<and> lbl_key (locks s l) = val"
  proof
    assume "?found = Some l"
    then show "lbl_in_use (locks s l) \<and> lbl_series (locks s l) = series \<and> lbl_key (locks s l) = val"
      using find_in_chain_some H(1) [of l ?slot] by blast
  next
    assume l: "lbl_in_use (locks s l) \<and> lbl_series (locks s l) = series \<and> lbl_key (locks s l) = val"
    then have "l \<in> set (lhb_hash s ?slot)" using H(1) [of l ?slot] by simp
    then obtain x where x: "?found = Some x" using find_in_chain_none l by blast
    then have "x \<in> set (lhb_hash s ?slot) \<and> lbl_series (locks s x) = series \<and> lbl_key (locks s x) = val"
      by (rule find_in_chain_some)
    then show "?found = Some l" using x l H(1) [of x ?slot] H(3) [of x l] by simp
  qed
  then show ?thesis by (simp add: find_lock_def Let_def)
qed

theorem find_lock_reachable_witness:
  "fst (find_lock length 3 [1, 2] demo4) = Some 14120 \<and> lbl_in_use (locks demo4 14120)"
  using find_lock_reachable [OF reachable_demo4, of 3 "[1, 2]" 14120] by (simp add: demo_tables)

section \<open>The data of a series\<close>

definition series_locks :: "nat \<Rightarrow> lhb \<Rightarrow> nat set" where
  "series_locks series s = {l. lbl_in_use (locks s l) \<and> lbl_series (locks s l) = series \<and> lbl_data (locks s l) \<noteq> 0}"

lemma data_queue_reachable:
  assumes "lm_reachable h s" "series < LCK_MAX_SERIES"
  shows "set (lhb_data s series) = series_locks series s" "distinct (lhb_data s series)"
    "sorted_wrt (\<lambda>l l'. lbl_data (locks s l) \<le>s lbl_data (locks s l')) (lhb_data s series)"
  using data_okD [OF names_okD(2) [OF lm_invD(3) [OF reachable_inv [OF assms(1)]]]] assms(2)
  by (auto simp: series_locks_def)

lemma foldl_data: "foldl (\<lambda>data l. data + f l) a q = a + sum_list (map f q)"
  for f :: "nat \<Rightarrow> 'a::comm_monoid_add"
  by (induction q arbitrary: a) (simp_all add: add.assoc)

lemma sorted_data_ends:
  assumes "sorted_wrt (\<lambda>l l'. f l \<le>s f l') q" "l \<in> set q"
  shows "f (hd q) \<le>s f l" "f l \<le>s f (last q)"
proof -
  show "f (hd q) \<le>s f l" using assms by (cases q) (auto simp: word_sle_eq)
  show "f l \<le>s f (last q)" using assms by (cases q rule: rev_cases) (auto simp: sorted_wrt_append word_sle_eq)
qed

text \<open>
  C9. The aggregates over the data queue of a series are those of the locks in use that carry data:
  their number, their sum, and the least and the greatest of their data as signed numbers.
\<close>

theorem queryData_reachable:
  assumes "lm_reachable h s" "series < LCK_MAX_SERIES"
  shows "let A = series_locks series s; query = (\<lambda>agg. fst (queryData series agg s))
    in query LCK_CNT = of_nat (card A) \<and> query LCK_ANY = (if A = {} then 0 else 1) \<and>
      query LCK_SUM = (\<Sum>l \<in> A. lbl_data (locks s l)) \<and>
      (if A = {} then query LCK_MIN = 0 \<and> query LCK_MAX = 0
       else query LCK_MIN \<in> (\<lambda>l. lbl_data (locks s l)) ` A \<and> query LCK_MAX \<in> (\<lambda>l. lbl_data (locks s l)) ` A \<and>
         (\<forall>l \<in> A. query LCK_MIN \<le>s lbl_data (locks s l) \<and> lbl_data (locks s l) \<le>s query LCK_MAX))"
proof -
  note D = data_queue_reachable [OF assms]
  define q where "q = lhb_data s series"
  have q: "series_locks series s = set q" "distinct q" using D by (simp_all add: q_def)
  note ends = sorted_data_ends [OF D(3), folded q_def]
  have "(\<Sum>l \<in> set q. lbl_data (locks s l)) = sum_list (map (\<lambda>l. lbl_data (locks s l)) q)"
    using q(2) by (simp add: sum_list_distinct_conv_sum_set)
  moreover have "card (set q) = length q" using q(2) by (rule distinct_card)
  moreover have "q \<noteq> [] \<Longrightarrow> hd q \<in> set q \<and> last q \<in> set q" by simp
  ultimately show ?thesis using assms(2) ends
    by (auto simp: queryData_def Let_def foldl_data q(1) q_def [symmetric])
qed

theorem queryData_reachable_witness:
  "fst (queryData 3 LCK_MIN demo4) = 5 \<and> fst (queryData 3 LCK_CNT demo4) = 1 \<and> (3::nat) < LCK_MAX_SERIES"
proof -
  have A: "series_locks 3 demo4 = {14120}" by (auto simp: series_locks_def demo_tables)
  have "(3::nat) < LCK_MAX_SERIES" by (simp add: LCK_MAX_SERIES_def)
  from queryData_reachable [OF reachable_demo4 this] this show ?thesis
    unfolding A Let_def by (simp add: demo_tables)
qed

section \<open>Waiting\<close>




lemma demo6_waits: "settled_waits demo6 14192 14048" "settled_waits demo6 14048 14192"
  by (simp_all add: settled_waits_def blockers_def blockers_in_def settled_def waits_of_def demo_tables
      less_lock_level_def compatibility_def compat_table_def)


end
