(* ===== verification/LockChecks.thy ===== *)
theory LockChecks
  imports LockSafety
begin

text \<open>
  The checks a debugging build makes of the table (\<open>validate_lhb\<close> and the functions it calls in
  \<^verbatim>\<open>src/src/lock/lock.cpp\<close>) as functions that tell whether every \<open>CHECK\<close> holds, and the
  invariant from which they follow.  Checks of type tags, versions, flag masks and back pointers
  hold by the way the model represents blocks and queues and are left out, and so is the check
  of \<open>own_acquire_time\<close>.
\<close>

section \<open>The checks\<close>

fun validate_history :: "nat \<Rightarrow> his list \<Rightarrow> bool" where
  "validate_history n [] \<longleftrightarrow> True"
| "validate_history n [h] \<longleftrightarrow> his_operation h \<le> his_MAX"
| "validate_history n (h # h2 # hs) \<longleftrightarrow>
     (let n = n + 1 in his_operation h \<le> his_MAX \<and> n \<le> HISTORY_BLOCKS \<and> validate_history n (h2 # hs))"

definition validate_shb :: "lhb \<Rightarrow> bool" where
  "validate_shb s \<longleftrightarrow> validate_history 0 (shb_history s)"

text \<open>The loop over the requests of a lock; \<open>None\<close> is a check that fails.\<close>

fun validate_requests ::
  "lhb \<Rightarrow> nat \<Rightarrow> bool \<Rightarrow> nat \<Rightarrow> nat list \<Rightarrow> nat \<Rightarrow> nat \<Rightarrow> nat \<Rightarrow> (lock_level \<Rightarrow> USHORT) \<Rightarrow>
     (nat \<times> nat \<times> (lock_level \<Rightarrow> USHORT)) option" where
  "validate_requests s l freed lrq_ptr [] found found_pending found_incompatible direct_counts =
     Some (found, found_pending, direct_counts)"
| "validate_requests s l freed lrq_ptr (r # rs) found found_pending found_incompatible direct_counts =
     (let request = requests s r; lock = locks s l;
          found = (if r = lrq_ptr then found + 1 else found);
          fits = compatibility (lrq_requested request) (lbl_state lock)
      in if freed \<or> \<not> found \<le> 1 \<or> lrq_lock request \<noteq> l then None
         else if LRQ_pending request \<and> \<not> (\<not> fits \<or> found_incompatible \<noteq> 0) then None
         else if \<not> LRQ_pending request \<and> \<not> (LRQ_rejected request \<or> lrq_requested request = lbl_state lock \<or> fits) then None
         else validate_requests s l freed lrq_ptr rs found
                (if LRQ_pending request then found_pending + 1 else found_pending)
                (if \<not> fits then found_incompatible + 1 else found_incompatible)
                (direct_counts(lrq_state request := direct_counts (lrq_state request) + 1)))"

definition held_levels :: "lock_level list" where
  "held_levels = [LCK_null, LCK_SR, LCK_PR, LCK_SW, LCK_PW, LCK_EX]"

definition validate_lock :: "lhb \<Rightarrow> nat \<Rightarrow> bool \<Rightarrow> nat \<Rightarrow> bool" where
  "validate_lock s l freed lrq_ptr \<longleftrightarrow>
     (let lock = locks s l
      in lbl_in_use lock = (\<not> freed) \<and> length (lbl_key lock) \<le> lbl_size lock \<and>
         list_all (\<lambda>v. lbl_counts lock v AND 0x8000 = 0) (LCK_none # held_levels) \<and>
         lbl_pending_lrq_count lock AND 0x8000 = 0 \<and>
         (case validate_requests s l freed lrq_ptr (lbl_requests lock) 0 0 0 (\<lambda>_. 0) of
            None \<Rightarrow> False
          | Some (found, found_pending, direct_counts) \<Rightarrow>
              (\<not> freed \<and> lrq_ptr \<noteq> 0 \<longrightarrow> found = 1) \<and>
              (\<not> freed \<longrightarrow> found_pending = unat (lbl_pending_lrq_count lock) \<and>
                 list_all (\<lambda>v. direct_counts v = lbl_counts lock v) held_levels)))"

text \<open>No caller asks for the recursion to the owner.\<close>

definition validate_request :: "lhb \<Rightarrow> nat \<Rightarrow> bool \<Rightarrow> bool" where
  "validate_request s r freed \<longleftrightarrow>
     (let request = requests s r
      in lrq_in_use request = (\<not> freed) \<and> (LRQ_rejected request \<longrightarrow> \<not> LRQ_pending request) \<and>
         \<not> (LRQ_deadlock request \<and> LRQ_scanned request) \<and>
         (\<not> freed \<and> \<not> LRQ_repost request \<longrightarrow> validate_lock s (lrq_lock request) False r))"

text \<open>The request \<open>r\<close> is exactly once in a queue of the owner \<open>w\<close>.\<close>

fun found_once :: "lhb \<Rightarrow> nat \<Rightarrow> nat \<Rightarrow> nat list \<Rightarrow> nat \<Rightarrow> bool" where
  "found_once s w r [] found \<longleftrightarrow> found = 1"
| "found_once s w r (r2 # rs) found \<longleftrightarrow>
     (let found = (if r2 = r then found + 1 else found)
      in lrq_owner (requests s r2) = w \<and> found \<le> 1 \<and> found_once s w r rs found)"

definition validate_owner :: "lhb \<Rightarrow> nat \<Rightarrow> bool \<Rightarrow> bool" where
  "validate_owner s w freed \<longleftrightarrow>
     (let owner = owners s w
      in (if freed then own_owner_type owner = 0 else own_owner_type owner \<le> 2) \<and>
         list_all (\<lambda>r. let request = requests s r
            in \<not> freed \<and> validate_request s r False \<and> lrq_owner request = w \<and>
               (LRQ_blocking request \<longrightarrow> found_once s w r (own_blocks owner) 0) \<and>
               (LRQ_pending request \<longrightarrow> found_once s w r (own_pending owner) 0 \<and>
                  r \<in> set (lbl_requests (locks s (lrq_lock request))))) (own_requests owner) \<and>
         list_all (\<lambda>r. let request = requests s r
            in \<not> freed \<and> validate_request s r False \<and> lrq_owner request = w \<and>
               (LRQ_repost request \<or> found_once s w r (own_requests owner) 0)) (own_blocks owner) \<and>
         list_all (\<lambda>r. let request = requests s r
            in \<not> freed \<and> validate_request s r False \<and> lrq_owner request = w \<and> \<not> LRQ_repost request \<and>
               found_once s w r (own_requests owner) 0) (own_pending owner))"

text \<open>\<open>lhb_active_owner\<close> is the owner who has the table, 0 or negative when it is no owner.\<close>

definition validate_lhb :: "int \<Rightarrow> lhb \<Rightarrow> bool" where
  "validate_lhb lhb_active_owner s \<longleftrightarrow>
     validate_shb s \<and> (lhb_active_owner > 0 \<longrightarrow> validate_owner s (nat lhb_active_owner) False) \<and>
     list_all (\<lambda>w. validate_owner s w False) (lhb_owners s) \<and>
     list_all (\<lambda>w. validate_owner s w True) (lhb_free_owners s) \<and>
     list_all (\<lambda>l. validate_lock s l True 0) (lhb_free_locks s) \<and>
     list_all (\<lambda>r. validate_request s r True) (lhb_free_requests s) \<and>
     lhb_used s \<le> lhb_length s \<and> validate_history 0 (lhb_history s)"

section \<open>The order of waiting\<close>

text \<open>
  What decides whether a queue is in order: the state of the lock, and of each request the
  level asked for and whether it waits.  A request that waits is itself incompatible with the
  state, or stands behind one that is.
\<close>

definition waiting :: "lrq \<Rightarrow> lock_level \<times> bool" where
  "waiting q = (lrq_requested q, LRQ_pending q)"

definition queue_view :: "lhb \<Rightarrow> nat \<Rightarrow> lock_level \<times> (lock_level \<times> bool) list" where
  "queue_view s l = (lbl_state (locks s l), map (\<lambda>r. waiting (requests s r)) (lbl_requests (locks s l)))"

fun waits_ok :: "lock_level \<Rightarrow> (lock_level \<times> bool) list \<Rightarrow> bool" where
  "waits_ok v [] \<longleftrightarrow> True"
| "waits_ok v ((t, p) # ws) \<longleftrightarrow> \<not> compatibility t v \<or> (\<not> p \<and> waits_ok v ws)"

text \<open>The first that waits is itself incompatible.\<close>

fun first_waits :: "lock_level \<Rightarrow> (lock_level \<times> bool) list \<Rightarrow> bool" where
  "first_waits v [] \<longleftrightarrow> True"
| "first_waits v ((t, p) # ws) \<longleftrightarrow> (if p then \<not> compatibility t v else first_waits v ws)"

definition view_ok :: "lock_level \<times> (lock_level \<times> bool) list \<Rightarrow> bool" where
  "view_ok q \<longleftrightarrow> waits_ok (fst q) (snd q)"

lemma first_waits_ok: "first_waits v ws \<Longrightarrow> waits_ok v ws"
  by (induction v ws rule: first_waits.induct) (auto split: if_splits)

lemma no_waits: "(\<And>t p. (t, p) \<in> set ws \<Longrightarrow> \<not> p) \<Longrightarrow> first_waits v ws"
  by (induction v ws rule: first_waits.induct) auto

lemma waits_ok_append:
  "waits_ok v (ws @ us) \<longleftrightarrow> (\<exists>(t, p) \<in> set ws. \<not> compatibility t v) \<and> waits_ok v ws \<or>
     (\<forall>(t, p) \<in> set ws. compatibility t v \<and> \<not> p) \<and> waits_ok v us"
  by (induction v ws rule: waits_ok.induct) auto

section \<open>The invariant\<close>

definition request_ok :: "lrq \<Rightarrow> bool" where
  "request_ok q \<longleftrightarrow> (LRQ_rejected q \<longrightarrow> \<not> LRQ_pending q) \<and> \<not> (LRQ_deadlock q \<and> LRQ_scanned q)"

definition level_ok :: "lrq \<Rightarrow> bool" where
  "level_ok q \<longleftrightarrow> (lrq_in_use q \<and> \<not> LRQ_repost q \<longrightarrow> lrq_requested q \<noteq> LCK_none \<and>
     (\<not> LRQ_pending q \<and> \<not> LRQ_rejected q \<longrightarrow> lrq_requested q = lrq_state q))"

definition block_ok :: "lbl \<Rightarrow> bool" where
  "block_ok b \<longleftrightarrow> length (lbl_key b) \<le> lbl_size b \<and> length (lbl_requests b) < 32768 \<and> lbl_counts b LCK_none = 0 \<and>
     (\<not> lbl_in_use b \<longrightarrow> lbl_requests b = [] \<and> (\<forall>v. unat (lbl_counts b v) < 32768) \<and> unat (lbl_pending_lrq_count b) < 32768)"

definition history_ok :: "his list \<Rightarrow> bool" where
  "history_ok hs \<longleftrightarrow> length hs = HISTORY_BLOCKS \<and> (\<forall>h \<in> set hs. his_operation h \<le> his_MAX)"

definition header_ok :: "lhb \<Rightarrow> bool" where
  "header_ok s \<longleftrightarrow> (\<forall>w. own_owner_type (owners s w) \<le> 2) \<and> (\<forall>w \<in> set (lhb_free_owners s). own_owner_type (owners s w) = 0) \<and>
     lhb_used s \<le> lhb_length s \<and> history_ok (lhb_history s) \<and> history_ok (shb_history s)"

text \<open>In the middle of an operation, the request \<open>r\<close> or the queue of \<open>l\<close> may be in disorder.\<close>

definition valid_except :: "nat set \<Rightarrow> nat set \<Rightarrow> lhb \<Rightarrow> bool" where
  "valid_except R L s \<longleftrightarrow> (\<forall>r. request_ok (requests s r)) \<and> (\<forall>r. r \<notin> R \<longrightarrow> level_ok (requests s r)) \<and>
     (\<forall>l. block_ok (locks s l)) \<and> (\<forall>l. l \<notin> L \<longrightarrow> view_ok (queue_view s l)) \<and> header_ok s"

abbreviation valid :: "lhb \<Rightarrow> bool" where
  "valid \<equiv> valid_except {} {}"

lemma validD:
  assumes "valid_except R L s"
  shows "request_ok (requests s r)" "r \<notin> R \<Longrightarrow> level_ok (requests s r)" "block_ok (locks s l)"
    "l \<notin> L \<Longrightarrow> view_ok (queue_view s l)" "header_ok s"
  using assms unfolding valid_except_def by blast+

lemma validI:
  assumes "\<And>r. request_ok (requests s r)" "\<And>r. r \<notin> R \<Longrightarrow> level_ok (requests s r)" "\<And>l. block_ok (locks s l)"
    "\<And>l. l \<notin> L \<Longrightarrow> view_ok (queue_view s l)" "header_ok s"
  shows "valid_except R L s"
  using assms unfolding valid_except_def by blast

lemma valid_weaken: "valid_except R L s \<Longrightarrow> R \<subseteq> R' \<Longrightarrow> L \<subseteq> L' \<Longrightarrow> valid_except R' L' s"
  unfolding valid_except_def by blast

section \<open>The header\<close>

lemma history_ok_post: "history_ok hs \<Longrightarrow> his_operation h \<le> his_MAX \<Longrightarrow> history_ok (tl hs @ [h])"
  by (cases hs) (auto simp: history_ok_def HISTORY_BLOCKS_def)

definition same_header :: "lhb \<Rightarrow> lhb \<Rightarrow> bool" where
  "same_header s s' \<longleftrightarrow> (\<forall>w. own_owner_type (owners s' w) = own_owner_type (owners s w)) \<and>
     lhb_free_owners s' = lhb_free_owners s \<and> lhb_used s' = lhb_used s \<and> lhb_length s' = lhb_length s \<and>
     (history_ok (lhb_history s) \<longrightarrow> history_ok (lhb_history s')) \<and> (history_ok (shb_history s) \<longrightarrow> history_ok (shb_history s'))"

lemma header_ok_same: "header_ok s \<Longrightarrow> same_header s s' \<Longrightarrow> header_ok s'"
  by (simp add: header_ok_def same_header_def)

lemma same_header_refl [simp]: "same_header s s" by (simp add: same_header_def)

lemma same_header_trans: "same_header s t \<Longrightarrow> same_header t u \<Longrightarrow> same_header s u"
  by (simp add: same_header_def)

named_theorems headers

lemma shb_simps [simp]:
  "shb_history (upd_req i f s) = shb_history s"
  "shb_history (upd_lock i g s) = shb_history s"
  "shb_history (upd_own i k s) = shb_history s"
  by (simp_all add: upd_req_def upd_lock_def upd_own_def)

lemma same_header_upd [headers]:
  "same_header s (upd_req i f s)" "same_header s (upd_lock i g s)"
  "(\<And>o'. own_owner_type (k o') = own_owner_type o') \<Longrightarrow> same_header s (upd_own i k s)"
  by (simp_all add: same_header_def)

lemma same_header_history [headers]: "opn \<le> his_MAX \<Longrightarrow> same_header s (post_history opn p l r old s)"
  by (simp add: same_header_def post_history_def Let_def history_ok_post)

lemma his_MAX_le [simp]:
  "his_enq \<le> his_MAX" "his_deq \<le> his_MAX" "his_convert \<le> his_MAX" "his_signal \<le> his_MAX" "his_post_ast \<le> his_MAX"
  "his_wait \<le> his_MAX" "his_deny \<le> his_MAX" "his_grant \<le> his_MAX" "his_scan \<le> his_MAX" "his_del_owner \<le> his_MAX"
  by (simp_all add: his_enq_def his_deq_def his_convert_def his_signal_def his_post_ast_def his_wait_def his_deny_def
      his_grant_def his_scan_def his_del_owner_def his_MAX_def)

lemma same_header_wakeup [headers]: "same_header s (post_wakeup w s)"
  by (simp add: same_header_def post_wakeup_def upd_own_def)

lemma same_header_data [headers]: "same_header s (set_data l d s)"
  by (simp add: same_header_def set_data_def insert_data_que_def remove_data_que_def Let_def upd_lock_def)

lemma same_header_counts [headers]:
  "same_header s (dec_count l v s)" "same_header s (inc_count l v s)" "same_header s (drop_state l v s)"
  by (simp_all add: same_header_def dec_count_def inc_count_def drop_state_def Let_def)

lemma same_header_grant [headers]: "same_header s (grant r l s)"
proof -
  have *: "same_header s t \<Longrightarrow> same_header s (upd_req i f t)" "same_header s t \<Longrightarrow> same_header s (upd_lock i g t)"
    "same_header s t \<Longrightarrow> (\<And>o'. own_owner_type (k o') = own_owner_type o') \<Longrightarrow> same_header s (upd_own i k t)"
    "same_header s t \<Longrightarrow> same_header s (set_data l d t)" "same_header s t \<Longrightarrow> same_header s (post_wakeup w t)" for s t i f g k d w
    by (erule same_header_trans, rule headers, assumption?)+
  show ?thesis unfolding grant_def Let_def
    by (intro *) (auto intro!: * headers)
qed

section \<open>Steps that keep the invariant\<close>

lemma valid_request:
  assumes ok: "valid_except R L s" and rq: "requests s' = (requests s)(r := q')" and lk: "locks s' = locks s"
    and q': "request_ok q'" "r \<notin> R \<Longrightarrow> level_ok q'" "waiting q' = waiting (requests s r)" and h: "same_header s s'"
  shows "valid_except R L s'"
proof (rule validI)
  note V = validD [OF ok]
  show "request_ok (requests s' x)" for x using V(1) [of x] q'(1) by (simp add: rq)
  show "level_ok (requests s' x)" if "x \<notin> R" for x using V(2) [OF that] q'(2) that by (cases "x = r") (simp_all add: rq)
  show "block_ok (locks s' l)" for l using V(3) by (simp add: lk)
  have "waiting (requests s' x) = waiting (requests s x)" for x using q'(3) by (simp add: rq)
  then have "queue_view s' l = queue_view s l" for l by (simp add: queue_view_def lk)
  then show "view_ok (queue_view s' l)" if "l \<notin> L" for l using V(4) [OF that] by simp
  show "header_ok s'" by (rule header_ok_same [OF V(5) h])
qed

lemma valid_upd_req:
  assumes "valid_except R L s" "request_ok (f (requests s r))" "level_ok (f (requests s r))"
    "waiting (f (requests s r)) = waiting (requests s r)"
  shows "valid_except R L (upd_req r f s)"
  by (rule valid_request [OF assms(1), of _ r "f (requests s r)"]) (simp_all add: assms headers)

definition same_block :: "lbl \<Rightarrow> lbl \<Rightarrow> bool" where
  "same_block b b' \<longleftrightarrow> lbl_in_use b' = lbl_in_use b \<and> lbl_key b' = lbl_key b \<and> lbl_size b' = lbl_size b \<and>
     lbl_requests b' = lbl_requests b \<and> lbl_counts b' = lbl_counts b \<and> lbl_state b' = lbl_state b \<and>
     lbl_pending_lrq_count b' = lbl_pending_lrq_count b"

lemma same_block_refl [simp]: "same_block b b" by (simp add: same_block_def)

lemma valid_same:
  assumes ok: "valid_except R L s" and rq: "requests s' = requests s" and lk: "\<And>l. same_block (locks s l) (locks s' l)"
    and h: "same_header s s'"
  shows "valid_except R L s'"
proof (rule validI)
  note V = validD [OF ok]
  show "request_ok (requests s' x)" for x using V(1) by (simp add: rq)
  show "level_ok (requests s' x)" if "x \<notin> R" for x using V(2) [OF that] by (simp add: rq)
  show "block_ok (locks s' l)" for l using V(3) [of l] lk [of l] by (simp add: block_ok_def same_block_def)
  have "queue_view s' l = queue_view s l" for l using lk [of l] by (simp add: queue_view_def rq same_block_def)
  then show "view_ok (queue_view s' l)" if "l \<notin> L" for l using V(4) [OF that] by simp
  show "header_ok s'" by (rule header_ok_same [OF V(5) h])
qed

lemma valid_wakeup: "valid_except R L s \<Longrightarrow> valid_except R L (post_wakeup w s)"
  by (erule valid_same) (simp_all add: headers)

lemma valid_history: "valid_except R L s \<Longrightarrow> opn \<le> his_MAX \<Longrightarrow> valid_except R L (post_history opn p l r old s)"
  by (erule valid_same) (simp_all add: headers)

lemma valid_upd_own:
  "valid_except R L s \<Longrightarrow> (\<And>o'. own_owner_type (k o') = own_owner_type o') \<Longrightarrow> valid_except R L (upd_own w k s)"
  by (erule valid_same) (simp_all add: headers)

text \<open>A lock in use whose own queue may be in disorder.\<close>

lemma valid_lock:
  assumes ok: "valid_except R L s" and rq: "requests s' = requests s" and lk: "locks s' = (locks s)(l := b')"
    and b': "block_ok b'" and l: "l \<in> L" and h: "same_header s s'"
  shows "valid_except R L s'"
proof (rule validI)
  note V = validD [OF ok]
  show "request_ok (requests s' x)" for x using V(1) by (simp add: rq)
  show "level_ok (requests s' x)" if "x \<notin> R" for x using V(2) [OF that] by (simp add: rq)
  show "block_ok (locks s' x)" for x using V(3) [of x] b' by (simp add: lk)
  have "queue_view s' x = queue_view s x" if "x \<notin> L" for x using l that by (auto simp: queue_view_def rq lk)
  then show "view_ok (queue_view s' x)" if "x \<notin> L" for x using V(4) [OF that] that by simp
  show "header_ok s'" by (rule header_ok_same [OF V(5) h])
qed

lemma valid_count:
  assumes "valid_except R L s" "l \<in> L" "lbl_in_use (locks s l)" "v \<noteq> LCK_none"
  shows "valid_except R L (dec_count l v s)" "valid_except R L (inc_count l v s)"
proof -
  have b: "block_ok (locks s l)" by (rule validD(3) [OF assms(1)])
  show "valid_except R L (dec_count l v s)"
    by (rule valid_lock [OF assms(1) _ _ _ assms(2)]) (use b assms(3,4) in \<open>auto simp: dec_count_def block_ok_def headers\<close>)
  show "valid_except R L (inc_count l v s)"
    by (rule valid_lock [OF assms(1) _ _ _ assms(2)]) (use b assms(3,4) in \<open>auto simp: inc_count_def block_ok_def headers\<close>)
qed

lemma grant_valid:
  assumes ok: "valid_except R L s" and l: "lbl_in_use (locks s l)" and t: "lrq_requested (requests s r) \<noteq> LCK_none"
    and other: "\<And>l'. l' \<noteq> l \<Longrightarrow> l' \<notin> L \<Longrightarrow> r \<notin> set (lbl_requests (locks s l'))"
  shows "valid_except (R - {r}) (insert l L) (grant r l s)"
proof (rule validI)
  note V = validD [OF ok]
  show "request_ok (requests (grant r l s) x)" for x using V(1) [of x] V(1) [of r] by (simp add: grant_requests request_ok_def)
  show "level_ok (requests (grant r l s) x)" if "x \<notin> R - {r}" for x
    using V(2) [of x] that t by (cases "x = r") (simp_all add: grant_requests level_ok_def)
  show "block_ok (locks (grant r l s) x)" for x
    using V(3) [of x] l t by (cases "x = l") (simp_all add: grant_locks block_ok_def Let_def)
  show "view_ok (queue_view (grant r l s) x)" if "x \<notin> insert l L" for x
  proof -
    have "r \<notin> set (lbl_requests (locks s x))" using other that by blast
    then have "queue_view (grant r l s) x = queue_view s x"
      using that by (auto simp: queue_view_def grant_locks grant_requests)
    then show ?thesis using V(4) [of x] that by simp
  qed
  show "header_ok (grant r l s)" by (rule header_ok_same [OF V(5)]) (rule headers)
qed

section \<open>Posting pending requests\<close>

text \<open>A conversion that the others' state does not let in is not let in by its own state either.\<close>

lemma conversion_incompatible:
  assumes q: "queue_ok rq b l st" and r: "r \<in> set (lbl_requests b)" "st r \<noteq> LCK_none"
    and c: "\<not> compatibility t (lock_state ((lbl_counts b)(st r := lbl_counts b (st r) - 1)))"
  shows "\<not> compatibility t (lock_state (lbl_counts b))"
proof -
  let ?c = "(lbl_counts b)(st r := lbl_counts b (st r) - 1)"
  let ?a = "lock_state ?c"
  have u: "queue_ok rq (b\<lparr>lbl_counts := ?c\<rparr>) l (st(r := LCK_none))" using queue_ok_uncount [OF q r(1)] .
  have a: "?a \<noteq> LCK_none" using c by (metis compatibility_none(2))
  then have "?c ?a \<noteq> 0" by (rule lock_state_held)
  then have "(of_nat (count_list (map (st(r := LCK_none)) (lbl_requests b)) ?a) :: USHORT) \<noteq> 0"
    using queue_okD(6) [OF u a] by simp
  then have "count_list (map (st(r := LCK_none)) (lbl_requests b)) ?a \<noteq> 0" by (rule contrapos_nn) simp
  then have "?a \<in> set (map (st(r := LCK_none)) (lbl_requests b))" by (simp add: count_list_0_iff)
  then obtain x where x: "x \<in> set (lbl_requests b)" "(st(r := LCK_none)) x = ?a" by (metis imageE set_map)
  then have "st x = ?a" using a by (metis fun_upd_apply)
  then show ?thesis using c compatible_state [OF q _ x(1), of t] by metis
qed

lemma first_waits_at:
  "(\<And>x. x \<in> set pre \<Longrightarrow> \<not> LRQ_pending (rq x)) \<Longrightarrow> LRQ_pending (rq r) \<Longrightarrow> \<not> compatibility (lrq_requested (rq r)) v \<Longrightarrow>
     first_waits v (map (\<lambda>r. waiting (rq r)) (pre @ r # rs))"
  by (induction pre) (auto simp: waiting_def)

text \<open>The loop grants what it can and stops at the first request that has to wait.\<close>

lemma pending_loop_valid:
  assumes "valid_except {} {l} s" "table_ok s" "lbl_in_use (locks s l)" "lbl_requests (locks s l) = pre @ rs"
    "\<And>r. r \<in> set pre \<Longrightarrow> \<not> LRQ_pending (requests s r)"
  shows "valid_except {} {l} (pending_loop l rs s) \<and>
    first_waits (fst (queue_view (pending_loop l rs s) l)) (snd (queue_view (pending_loop l rs s) l))"
  using assms
proof (induction rs arbitrary: pre s)
  case Nil
  have "first_waits v (map (\<lambda>r. waiting (requests s r)) pre)" for v
    by (rule no_waits) (use Nil.prems(5) in \<open>auto simp: waiting_def\<close>)
  then show ?case using Nil.prems(1,4) by (simp add: queue_view_def)
next
  case (Cons r rs)
  let ?req = "requests s r"
  let ?v = "lrq_state ?req"
  let ?s1 = "dec_count l ?v s"
  note V = validD [OF Cons.prems(1)] and ok = Cons.prems(2,3)
  have r: "r \<in> set (lbl_requests (locks s l))" using Cons.prems(4) by simp
  note mem = queue_member [OF ok r]
  have t: "lrq_requested ?req \<noteq> LCK_none" using V(2) [of r] mem by (simp add: level_ok_def)
  have other: "r \<notin> set (lbl_requests (locks s l'))" if "l' \<noteq> l" for l'
  proof
    assume "r \<in> set (lbl_requests (locks s l'))"
    moreover from this have "lbl_in_use (locks s l')" using V(3) [of l'] by (auto simp: block_ok_def)
    ultimately show False using queue_member(3) [OF ok(1)] mem(3) that by metis
  qed
  note D = lock_okD [OF table_okD(1) [OF ok]]
  have stop: "first_waits (lbl_state (locks s l)) (map (\<lambda>r. waiting (requests s r)) (lbl_requests (locks s l)))"
    if "LRQ_pending ?req" "\<not> compatibility (lrq_requested ?req) (lbl_state (locks s l))"
    using first_waits_at [of pre "requests s" r] Cons.prems(4,5) that by simp
  have granted: "valid_except {} {l} (pending_loop l rs (grant r l s2)) \<and>
      first_waits (fst (queue_view (pending_loop l rs (grant r l s2)) l)) (snd (queue_view (pending_loop l rs (grant r l s2)) l))"
    if s2: "valid_except {} {l} s2" "requests s2 = requests s" "\<And>l'. lbl_requests (locks s2 l') = lbl_requests (locks s l')"
      "\<And>l'. lbl_in_use (locks s2 l') = lbl_in_use (locks s l')" "table_ok (grant r l s2)" for s2
  proof (rule Cons.IH [where pre = "pre @ [r]"])
    show "valid_except {} {l} (grant r l s2)"
      using grant_valid [OF s2(1), of l r] s2(2-4) ok(2) t other by simp
    show "table_ok (grant r l s2)" by (rule s2(5))
    show "lbl_in_use (locks (grant r l s2) l)" using ok(2) s2(4) by (simp add: grant_keeps)
    show "lbl_requests (locks (grant r l s2) l) = (pre @ [r]) @ rs" using Cons.prems(4) s2(3) by (simp add: grant_keeps)
    show "\<not> LRQ_pending (requests (grant r l s2) x)" if "x \<in> set (pre @ [r])" for x
      using that Cons.prems(5) [of x] s2(2) by (auto simp: grant_requests)
  qed
  consider "\<not> LRQ_pending ?req"
    | "LRQ_pending ?req" "?v \<noteq> LCK_none" "compatibility (lrq_requested ?req) (lock_state (lbl_counts (locks ?s1 l)))"
    | "LRQ_pending ?req" "?v \<noteq> LCK_none" "\<not> compatibility (lrq_requested ?req) (lock_state (lbl_counts (locks ?s1 l)))"
    | "LRQ_pending ?req" "?v = LCK_none" "compatibility (lrq_requested ?req) (lbl_state (locks s l))"
    | "LRQ_pending ?req" "?v = LCK_none" "\<not> compatibility (lrq_requested ?req) (lbl_state (locks s l))" by blast
  then show ?case
  proof cases
    case 1
    have "\<not> LRQ_pending (requests s x)" if "x \<in> set (pre @ [r])" for x using that 1 Cons.prems(5) [of x] by auto
    then show ?thesis using Cons.IH [of s "pre @ [r]"] 1 Cons.prems by simp
  next
    case 2
    have "valid_except {} {l} ?s1" by (rule valid_count(1) [OF Cons.prems(1) _ ok(2) 2(2)]) simp
    moreover have "table_ok (grant r l ?s1)" by (rule grant_conversion_ok [OF ok r refl 2(3)])
    ultimately show ?thesis using granted [of ?s1] 2 by (simp add: Let_def)
  next
    case 3
    have eq: "pending_loop l (r # rs) s = post_wakeup (lrq_owner ?req) (inc_count l ?v ?s1)" using 3 by (simp add: Let_def)
    have 1: "valid_except {} {l} ?s1" by (rule valid_count(1) [OF Cons.prems(1) _ ok(2) 3(2)]) simp
    have 2: "valid_except {} {l} (inc_count l ?v ?s1)" by (rule valid_count(2) [OF 1 _ _ 3(2)]) (use ok(2) in simp_all)
    have "\<not> compatibility (lrq_requested ?req) (lbl_state (locks s l))"
      unfolding D(2) by (rule conversion_incompatible [OF D(1) r]) (use 3(2,3) in \<open>simp_all add: dec_count_def\<close>)
    from stop [OF 3(1) this] show ?thesis unfolding eq
      using valid_wakeup [OF 2] by (simp add: queue_view_def inc_count_def dec_count_def)
  next
    case 4
    then show ?thesis using granted [of s] Cons.prems(1) grant_new_ok [OF ok r 4(2,3)] by (simp add: Let_def)
  next
    case 5
    have eq: "pending_loop l (r # rs) s = post_wakeup (lrq_owner ?req) s" using 5 by (simp add: Let_def)
    from stop [OF 5(1,3)] show ?thesis unfolding eq
      using valid_wakeup [OF Cons.prems(1)] by (simp add: queue_view_def)
  qed
qed

lemma just_granted_view [simp]:
  "queue_view (just_granted_loop rs s) l = queue_view s l"
proof (induction rs s rule: just_granted_loop.induct)
  case (2 r rs s)
  have "queue_view (upd_req r (\<lambda>q. q\<lparr>LRQ_just_granted := True\<rparr>) s) l = queue_view s l"
    by (simp add: queue_view_def waiting_def)
  then show ?case using 2 [OF refl] by (simp add: Let_def)
qed simp

lemma just_granted_valid: "valid_except R L s \<Longrightarrow> valid_except R L (just_granted_loop rs s)"
proof (induction rs s rule: just_granted_loop.induct)
  case (2 r rs s)
  have "valid_except R L (upd_req r (\<lambda>q. q\<lparr>LRQ_just_granted := True\<rparr>) s)"
    by (rule valid_request [OF "2.prems", of _ r "(requests s r)\<lparr>LRQ_just_granted := True\<rparr>"])
       (use validD(1,2) [OF "2.prems", of r] in \<open>simp_all add: request_ok_def level_ok_def waiting_def headers\<close>)
  then show ?case using "2.IH" [OF refl] "2.prems" by (simp add: Let_def)
qed simp

lemma post_pending_valid:
  assumes "valid_except {} {l} s" "table_ok s" "lbl_in_use (locks s l)"
  shows "valid (post_pending l s)"
    "first_waits (fst (queue_view (post_pending l s) l)) (snd (queue_view (post_pending l s) l))"
proof -
  have *: "valid_except {} {l} (post_pending l s) \<and>
    first_waits (fst (queue_view (post_pending l s) l)) (snd (queue_view (post_pending l s) l))"
  proof (cases "lbl_pending_lrq_count (locks s l) = 0")
    case True
    note D = queue_okD [OF lock_okD(1) [OF table_okD(1) [OF assms(2,3)]]]
    have "count_list (map (\<lambda>r. LRQ_pending (requests s r)) (lbl_requests (locks s l))) True < 65536"
      using count_le_length [of "map (\<lambda>r. LRQ_pending (requests s r)) (lbl_requests (locks s l))" True] D(2)
      by (metis le_less_trans length_map)
    then have "count_list (map (\<lambda>r. LRQ_pending (requests s r)) (lbl_requests (locks s l))) True = 0"
      using D(7) True of_nat_16_zero by simp
    then have "\<not> LRQ_pending (requests s x)" if "x \<in> set (lbl_requests (locks s l))" for x
      using that by (auto simp: count_list_0_iff)
    then have "first_waits v (map (\<lambda>r. waiting (requests s r)) (lbl_requests (locks s l)))" for v
      by (intro no_waits) (auto simp: waiting_def)
    then show ?thesis using True assms(1) by (simp add: post_pending_def queue_view_def)
  next
    case False
    have "lbl_requests (locks s l) = [] @ lbl_requests (locks s l)" by simp
    from pending_loop_valid [OF assms this] False just_granted_valid show ?thesis
      by (simp add: post_pending_def Let_def)
  qed
  then show "first_waits (fst (queue_view (post_pending l s) l)) (snd (queue_view (post_pending l s) l))" by blast
  then have "view_ok (queue_view (post_pending l s) l)" by (simp add: view_ok_def first_waits_ok)
  then show "valid (post_pending l s)" using * unfolding valid_except_def by (metis singletonD)
qed

section \<open>Releasing\<close>

lemma queue_apart:
  assumes "valid_except R L s" "table_ok s" "lrq_lock (requests s r) = l" "l' \<noteq> l"
  shows "r \<notin> set (lbl_requests (locks s l'))"
proof
  assume r: "r \<in> set (lbl_requests (locks s l'))"
  then have "lbl_in_use (locks s l')" using validD(3) [OF assms(1), of l'] by (auto simp: block_ok_def)
  then show False using queue_member(3) [OF assms(2) _ r] assms(3,4) by simp
qed

lemma same_header_free [headers]: "same_header s (free_request r s)"
  by (simp add: same_header_def free_request_def)

lemma same_header_unlink [headers]: "same_header s (unlink_request r s)"
  by (simp add: same_header_def unlink_request_def free_request_def Let_def)

lemma same_header_free_lock [headers]: "same_header s (free_lock l s)"
  by (simp add: same_header_def free_lock_def remove_data_que_def Let_def upd_lock_def)

lemma unlink_valid:
  assumes ok: "valid_except {r} {} s" and t: "table_ok s" and r: "lrq_in_use (requests s r)" "\<not> LRQ_repost (requests s r)"
  shows "valid_except {} {lrq_lock (requests s r)} (unlink_request r s)"
proof (rule validI)
  let ?l = "lrq_lock (requests s r)" and ?s = "unlink_request r s"
  note V = validD [OF ok]
  have l: "lbl_in_use (locks s ?l)" using table_okD(2) [OF t r] .
  show "request_ok (requests ?s x)" for x using V(1) [of x] by (cases "x = r") (simp_all add: unlink_requests request_ok_def)
  show "level_ok (requests ?s x)" for x using V(2) [of x] by (cases "x = r") (simp_all add: unlink_requests level_ok_def)
  show "block_ok (locks ?s x)" for x
    using V(3) [of x] l by (cases "x = ?l") (auto simp: unlink_locks block_ok_def Let_def length_remove1)
  show "view_ok (queue_view ?s x)" if "x \<notin> {?l}" for x
  proof -
    have "r \<notin> set (lbl_requests (locks s x))" using queue_apart [OF ok t refl] that by simp
    then have "queue_view ?s x = queue_view s x" using that by (auto simp: queue_view_def unlink_requests unlink_locks)
    then show ?thesis using V(4) by simp
  qed
  show "header_ok ?s" by (rule header_ok_same [OF V(5)]) (rule headers)
qed

lemma drop_state_valid:
  assumes ok: "valid_except R {l} s" and l: "lbl_in_use (locks s l)"
  shows "valid_except R {l} (drop_state l v s)"
proof -
  have "block_ok (locks (drop_state l v s) l)"
    using validD(3) [OF ok, of l] l by (auto simp: drop_state_locks block_ok_def Let_def)
  moreover have "locks (drop_state l v s) = (locks s)(l := locks (drop_state l v s) l)" by (simp add: drop_state_locks)
  ultimately show ?thesis by (intro valid_lock [OF ok]) (simp_all add: headers)
qed

lemma release_valid:
  assumes ok: "valid_except {r} {} s" and t: "table_ok s" and r: "lrq_in_use (requests s r)" "\<not> LRQ_repost (requests s r)"
  shows "valid (release_request r s)"
proof -
  let ?l = "lrq_lock (requests s r)" and ?s1 = "unlink_request r s"
  note U = unlink_valid [OF assms]
  show ?thesis
  proof (cases "lbl_requests (locks ?s1 ?l) = []")
    case True
    have run: "release_request r s = free_lock ?l ?s1" using True by (simp add: release_request_def Let_def)
    have l: "lbl_in_use (locks s ?l)" "r \<in> set (lbl_requests (locks s ?l))" using table_okD(2,3) [OF t r] by simp_all
    note Q = lock_okD(1) [OF table_okD(1) [OF t l(1)]]
    have single: "lbl_requests (locks s ?l) = [r]"
      using True l(2) by (cases "lbl_requests (locks s ?l)") (auto simp: unlink_locks Let_def split: if_splits)
    have counts: "unat (lbl_counts (locks s ?l) v) < 32768" for v
    proof (cases "v = LCK_none")
      case True
      then show ?thesis using validD(3) [OF ok, of ?l] by (simp add: block_ok_def)
    next
      case False
      then show ?thesis using queue_okD(6) [OF Q False] single by simp
    qed
    have pending: "lbl_pending_lrq_count (locks ?s1 ?l) = 0"
      using queue_okD(7) [OF Q] single by (simp add: unlink_locks Let_def)
    let ?b = "(locks ?s1 ?l)\<lparr>lbl_in_use := False\<rparr>"
    have lk: "locks (free_lock ?l ?s1) = (locks ?s1)(?l := ?b)" by (simp add: free_lock_def remove_data_que_def Let_def upd_lock_def)
    have b: "block_ok ?b"
      using validD(3) [OF U, of ?l] counts pending True by (simp add: block_ok_def unlink_locks Let_def)
    have "valid_except {} {?l} (free_lock ?l ?s1)"
      by (rule valid_lock [OF U _ lk b]) (simp_all add: headers, simp add: free_lock_def remove_data_que_def Let_def)
    moreover have "view_ok (queue_view (free_lock ?l ?s1) ?l)" using True by (simp add: queue_view_def lk view_ok_def)
    ultimately show ?thesis unfolding run valid_except_def by (metis singletonD)
  next
    case False
    have run: "release_request r s = post_pending ?l (drop_state ?l (lrq_state (requests s r)) ?s1)"
      using False by (simp add: release_request_def Let_def)
    have l: "lbl_in_use (locks ?s1 ?l)" using table_okD(2) [OF t r] by (simp add: unlink_locks Let_def)
    show ?thesis unfolding run
      by (rule post_pending_valid(1) [OF drop_state_valid [OF U l] drop_unlink_ok [OF t r False]])
  qed
qed

section \<open>The death of an owner\<close>

lemma release_live_valid: "lm_inv h s \<Longrightarrow> valid s \<Longrightarrow> live_request s r \<Longrightarrow> valid (release_request r s)"
  by (rule release_valid) (auto simp: live_request_def dest: lm_invD(1) intro: valid_weaken)

lemma fold_release_valid:
  assumes "lm_inv h s" "valid s" "distinct rs" "set rs \<subseteq> set (own_requests (owners s w))"
  shows "valid (fold release_request rs s)"
  using assms
proof (induction rs arbitrary: s)
  case (Cons r rs)
  have r: "live_request s r" "lrq_owner (requests s r) = w"
    using owners_okD(1) [OF lm_invD(2) [OF Cons.prems(1)], of r w] Cons.prems(4) by (auto simp: live_request_def)
  let ?s1 = "release_request r s"
  have "set (own_requests (owners ?s1 w)) = set (own_requests (owners s w)) - {r}"
    using owners_okD(7) [OF lm_invD(2) [OF Cons.prems(1)]] r(2) by (simp add: release_owners set_remove1_eq)
  then have "set rs \<subseteq> set (own_requests (owners ?s1 w))" using Cons.prems(3,4) by auto
  then show ?case
    using Cons.IH [OF lm_inv_release [OF Cons.prems(1) r(1)] release_live_valid [OF Cons.prems(1,2) r(1)]] Cons.prems(3) by simp
qed simp

lemma drop_block_valid:
  assumes "valid_except R L s"
  shows "valid_except R L (drop_block w r s)"
proof -
  have "same_header s (drop_block w r s)"
    by (simp add: drop_block_def same_header_def free_request_def)
  then show ?thesis
    by (intro valid_request [OF assms, of _ r "(requests s r)\<lparr>lrq_in_use := False\<rparr>"])
       (use validD(1) [OF assms, of r] in \<open>simp_all add: drop_block_requests request_ok_def level_ok_def waiting_def\<close>)
qed

lemma fold_drop_valid: "valid_except R L s \<Longrightarrow> valid_except R L (fold (drop_block w) rs s)"
  by (induction rs arbitrary: s) (simp_all add: drop_block_valid)

lemma valid_header:
  assumes "valid_except R L s" "requests s' = requests s" "locks s' = locks s" "header_ok s'"
  shows "valid_except R L s'"
  using assms by (simp add: valid_except_def queue_view_def)

lemma purge_owner_valid:
  assumes ok: "lm_inv h s" and v: "valid s"
  shows "valid (purge_owner env i w s)"
proof -
  define s1 where "s1 = post_history his_del_owner i w 0 False s"
  define s2 where "s2 = fold release_request (own_requests (owners s1 w)) s1"
  define s3 where "s3 = fold (drop_block w) (own_blocks (owners s2 w)) s2"
  have run: "purge_owner env i w s = (let p = own_process (owners s3 w);
          s = s3\<lparr>processes := (processes s3)(p := (processes s3 p)\<lparr>prc_owners := remove1 w (prc_owners (processes s3 p))\<rparr>)\<rparr>;
          s = s\<lparr>lhb_owners := remove1 w (lhb_owners s), lhb_free_owners := lhb_free_owners s @ [w]\<rparr>
      in upd_own w (\<lambda>o'. o'\<lparr>own_owner_type := 0, own_owner_id := 0, own_process := 0,
            OWN_scanned := False, OWN_wakeup := False, OWN_signaled := False\<rparr>) s)"
    unfolding purge_owner_def s1_def s2_def s3_def by (simp only: Let_def)
  have ok1: "lm_inv h s1" by (rule lm_inv_same [OF ok]) (simp add: same_state_defs s1_def)
  have v1: "valid s1" unfolding s1_def by (rule valid_history [OF v]) simp
  have v2: "valid s2" unfolding s2_def
    by (rule fold_release_valid [OF ok1 v1 owners_okD(7) [OF lm_invD(2) [OF ok1]] order_refl])
  have v3: "valid s3" unfolding s3_def by (rule fold_drop_valid [OF v2])
  show ?thesis unfolding run Let_def
    by (rule valid_header [OF v3]) (use validD(5) [OF v3] in \<open>auto simp: header_ok_def upd_own_def upd_req_def\<close>)
qed

lemma fold_purge_valid:
  assumes "lm_inv (env_hash env) s" "valid s" "distinct ws" "set ws \<subseteq> set (lhb_owners s)"
  shows "valid (fold (\<lambda>w. purge_owner env (int w) w) ws s)"
  using assms
proof (induction ws arbitrary: s)
  case (Cons w ws)
  have w: "w \<in> set (lhb_owners s)" using Cons.prems(4) by simp
  note P = purge_owner_inv [OF Cons.prems(1) w, where i = "int w"]
  have "set ws \<subseteq> set (lhb_owners (purge_owner env (int w) w s))" using P(2) Cons.prems(3,4) by auto
  then show ?case using Cons.IH [OF P(1) purge_owner_valid [OF Cons.prems(1,2)]] Cons.prems(3) by simp
qed simp

lemma purge_process_valid:
  assumes ok: "lm_inv (env_hash env) s" and v: "valid s"
  shows "valid (purge_process env p s)"
proof -
  note M = members_okD [OF lm_invD(4) [OF ok]]
  let ?s1 = "fold (\<lambda>w. purge_owner env (int w) w) (prc_owners (processes s p)) s"
  have "set (prc_owners (processes s p)) \<subseteq> set (lhb_owners s)" using M(4) [of _ p] by auto
  note V = fold_purge_valid [OF ok v M(5) this]
  show ?thesis unfolding purge_process_def Let_def
    by (rule valid_header [OF V]) (use validD(5) [OF V] in \<open>simp_all add: header_ok_def\<close>)
qed

lemma probe_loop_valid:
  assumes "lm_inv (env_hash env) s" "valid s" "distinct ps" "set ps \<subseteq> set (lhb_processes s)"
  shows "valid (snd (probe_loop env ps b s))"
  using assms
proof (induction ps arbitrary: b s)
  case (Cons p ps)
  have p: "p \<in> set (lhb_processes s)" using Cons.prems(4) by simp
  note P = purge_process_inv [OF Cons.prems(1) p]
  have "distinct (lhb_processes s)" using members_okD(6) [OF lm_invD(4) [OF Cons.prems(1)]] by simp
  then have "set ps \<subseteq> set (lhb_processes (purge_process env p s))"
    using Cons.prems(3,4) P(2) by (auto simp: set_remove1_eq)
  then show ?case using Cons.IH [OF P(1) purge_process_valid [OF Cons.prems(1,2)]] Cons.IH [OF Cons.prems(1,2)] Cons.prems(3,4)
    by simp
qed simp

lemma probe_processes_valid:
  assumes "lm_inv (env_hash env) s" "valid s"
  shows "valid (snd (probe_processes env s))"
proof -
  have "distinct (lhb_processes s)" using members_okD(6) [OF lm_invD(4) [OF assms(1)]] by simp
  then show ?thesis unfolding probe_processes_def by (intro probe_loop_valid assms) simp_all
qed

section \<open>Blocking notices\<close>

lemma signal_valid: "valid_except R L s \<Longrightarrow> valid_except R L (snd (signal_owner env w s))"
  by (erule valid_same) (simp_all add: signal_owner_def Let_def same_header_def)

lemma signal_loop_valid: "valid_except R L s \<Longrightarrow> valid_except R L (snd (signal_loop env ws dead s))"
proof (induction env ws dead s rule: signal_loop.induct)
  case (2 env w ws dead s)
  have "valid_except R L (snd (signal_owner env w s))" by (rule signal_valid [OF "2.prems"])
  then show ?case using 2 by (auto split: prod.splits)
qed simp

lemma purge_dead_valid:
  assumes "lm_inv (env_hash env) s" "valid s"
  shows "valid (fold (purge_dead env) ps s)"
  using assms
proof (induction ps arbitrary: s)
  case (Cons p ps)
  have "lm_inv (env_hash env) (purge_dead env p s)"
    using Cons.prems(1) purge_process_inv(1) [OF Cons.prems(1)] members_okD(8) [OF lm_invD(4) [OF Cons.prems(1)]]
    by (simp add: purge_dead_def)
  moreover have "valid (purge_dead env p s)"
    using Cons.prems(2) purge_process_valid [OF Cons.prems] by (simp add: purge_dead_def)
  ultimately show ?case using Cons.IH by simp
qed simp

lemma mark_blocking_valid:
  assumes "valid_except R L s"
  shows "valid_except R L (mark_blocking b s)"
  by (rule valid_request [OF assms, of _ b "(requests s b)\<lparr>LRQ_blocking := True, LRQ_blocking_seen := False, LRQ_just_granted := False\<rparr>"])
     (use validD(1,2) [OF assms, of b] in
       \<open>simp_all add: mark_blocking_def request_ok_def level_ok_def waiting_def same_header_def\<close>)

lemma blockage_loop_valid: "valid_except R L s \<Longrightarrow> valid_except R L (snd (blockage_loop r bs ws s))"
proof (induction bs arbitrary: ws s)
  case (Cons b bs)
  let ?s' = "if \<not> LRQ_blocking (requests s b) then mark_blocking b s else s"
  have "valid_except R L ?s'" using Cons.prems mark_blocking_valid by simp
  from Cons.IH [OF this] Cons.IH [OF Cons.prems] this Cons.prems show ?case
    unfolding blockage_loop_step Let_def by (simp del: blockage_loop.simps)
qed simp

lemma post_blockage_valid:
  assumes ok: "lm_inv (env_hash env) s" and v: "valid s" and l: "lbl_in_use (locks s l)"
  shows "valid (post_blockage env r l s)"
proof -
  obtain ws s1 where 1: "blockage_loop r (lbl_requests (locks s l)) [] s = (ws, s1)" by (cases "blockage_loop r (lbl_requests (locks s l)) [] s")
  obtain dead s2 where 2: "signal_loop env ws [] s1 = (dead, s2)" by (cases "signal_loop env ws [] s1")
  have "lm_inv (env_hash env) (snd (blockage_loop r (lbl_requests (locks s l)) [] s))"
    by (rule blockage_loop_inv [OF ok]) (use queue_live [OF ok l] in blast)
  then have i: "lm_inv (env_hash env) s2" using lm_inv_signal_loop [of "env_hash env" s1 env ws "[]"] 1 2 by simp
  have "valid s2" using signal_loop_valid [of "{}" "{}" s1 env ws "[]"] blockage_loop_valid [OF v, of r "lbl_requests (locks s l)" "[]"] 1 2 by simp
  from purge_dead_valid [OF i this] show ?thesis using 1 2 by (simp add: post_blockage_def)
qed

lemma blocking_step_valid:
  assumes v: "valid s"
  shows "valid (snd (blocking_step w s))"
proof (cases "own_count (owners s w) \<noteq> 0 \<and> own_blocks (owners s w) \<noteq> []")
  case False
  then have "snd (blocking_step w s) = upd_own w (\<lambda>o'. o'\<lparr>OWN_signaled := False\<rparr>) s"
    unfolding blocking_step_def by auto
  then show ?thesis by (simp add: valid_upd_own [OF v])
next
  case True
  let ?r = "hd (own_blocks (owners s w))"
  let ?req = "requests s ?r"
  let ?q' = "if LRQ_blocking ?req then ?req\<lparr>LRQ_blocking := False, LRQ_blocking_seen := True\<rparr>
    else if LRQ_repost ?req then ?req\<lparr>lrq_in_use := False\<rparr> else ?req"
  have rq: "requests (snd (blocking_step w s)) = (requests s)(?r := ?q')" and lk: "locks (snd (blocking_step w s)) = locks s"
    using True by (auto simp: blocking_step_def Let_def free_request_def post_history_def)
  have h: "same_header s (snd (blocking_step w s))"
    using True by (auto simp: blocking_step_def Let_def free_request_def same_header_def post_history_def upd_own_def upd_req_def
        intro!: history_ok_post)
  show ?thesis
    by (rule valid_request [OF v rq lk _ _ _ h])
       (use validD(1,2) [OF v, of ?r] in \<open>auto simp: request_ok_def level_ok_def waiting_def\<close>)
qed

section \<open>Waiting\<close>

lemma waits_ok_unmark:
  "waits_ok v ws \<Longrightarrow> map fst us = map fst ws \<Longrightarrow> (\<And>i. i < length ws \<Longrightarrow> snd (us ! i) \<Longrightarrow> snd (ws ! i)) \<Longrightarrow> waits_ok v us"
proof (induction v ws arbitrary: us rule: waits_ok.induct)
  case (2 v t p ws)
  then obtain q us' where us: "us = (t, q) # us'" "map fst us' = map fst ws" by (cases us) auto
  have "snd (us' ! i) \<Longrightarrow> snd (ws ! i)" if "i < length ws" for i using 2(4) [of "Suc i"] that us(1) by simp
  then show ?case using 2 us 2(4) [of 0] by auto
qed simp

text \<open>A request that stops waiting.\<close>

lemma view_unmark:
  assumes "view_ok (queue_view s l)" and lk: "lbl_state (locks s' l) = lbl_state (locks s l)" "lbl_requests (locks s' l) = lbl_requests (locks s l)"
    and rq: "\<And>x. lrq_requested (requests s' x) = lrq_requested (requests s x)"
      "\<And>x. LRQ_pending (requests s' x) \<Longrightarrow> LRQ_pending (requests s x)"
  shows "view_ok (queue_view s' l)"
  unfolding view_ok_def queue_view_def fst_conv snd_conv lk
  by (rule waits_ok_unmark [of _ "map (\<lambda>r. waiting (requests s r)) (lbl_requests (locks s l))"])
     (use assms(1) rq in \<open>auto simp: view_ok_def queue_view_def waiting_def\<close>)

lemma clear_wait_valid:
  assumes ok: "lm_inv h s" and v: "valid s" and r: "LRQ_pending (requests s r)"
  shows "valid (clear_wait r s)"
proof (rule validI)
  let ?req = "requests s r" and ?s = "clear_wait r s"
  note V = validD [OF v]
  have l: "lbl_in_use (locks s (lrq_lock ?req))" using live_lock(1) [OF ok pending_live [OF ok r]] .
  have rq: "requests ?s = (requests s)(r := ?req\<lparr>LRQ_rejected := True, LRQ_pending := False\<rparr>)"
    by (simp add: clear_wait_def Let_def)
  have lk: "locks ?s = (locks s)(lrq_lock ?req := (locks s (lrq_lock ?req))
      \<lparr>lbl_pending_lrq_count := lbl_pending_lrq_count (locks s (lrq_lock ?req)) - 1\<rparr>)"
    by (simp add: clear_wait_def Let_def)
  show "request_ok (requests ?s x)" for x using V(1) [of x] by (auto simp: rq request_ok_def)
  show "level_ok (requests ?s x)" for x using V(2) [of x] by (auto simp: rq level_ok_def)
  show "block_ok (locks ?s x)" for x using V(3) [of x] l by (cases "x = lrq_lock ?req") (simp_all add: lk block_ok_def)
  show "view_ok (queue_view ?s x)" for x
    by (rule view_unmark [OF V(4)]) (simp_all add: lk rq split: if_splits)
  have "same_header s ?s" by (simp add: same_header_def clear_wait_def Let_def)
  then show "header_ok ?s" by (rule header_ok_same [OF V(5)])
qed

text \<open>The deadlock scan only sets marks.\<close>

lemma valid_marks:
  assumes "valid_except R L s" "\<not> (d \<and> c)"
  shows "valid_except R L (upd_req r (\<lambda>q. q\<lparr>LRQ_deadlock := d, LRQ_scanned := c\<rparr>) s)"
  by (rule valid_request [OF assms(1), of _ r "(requests s r)\<lparr>LRQ_deadlock := d, LRQ_scanned := c\<rparr>"])
     (use validD(1,2) [OF assms(1), of r] assms(2) in \<open>auto simp: request_ok_def level_ok_def waiting_def headers\<close>)

lemma deadlock_mark_valid:
  assumes "valid_except R L s" "\<not> LRQ_scanned (requests s r)"
  shows "valid_except R L (upd_req r (\<lambda>q. q\<lparr>LRQ_deadlock := True\<rparr>) s)"
  by (rule valid_request [OF assms(1), of _ r "(requests s r)\<lparr>LRQ_deadlock := True\<rparr>"])
     (use validD(1,2) [OF assms(1), of r] assms(2) in \<open>auto simp: request_ok_def level_ok_def waiting_def headers\<close>)

lemma clear_pending_valid: "valid_except R L s \<Longrightarrow> valid_except R L (clear_pending rs s)"
  by (induction rs s rule: clear_pending.induct) (auto intro: valid_marks)

lemma deadlock_clear_valid:
  assumes "valid_except R L s"
  shows "valid_except R L (deadlock_clear s)"
proof -
  have "valid_except R L (fold (\<lambda>w s. clear_pending (own_pending (owners s w)) s) ws t)" if "valid_except R L t" for ws t
    using that by (induction ws arbitrary: t) (simp_all add: clear_pending_valid)
  then show ?thesis using assms by (simp add: deadlock_clear_def)
qed

lemma walk_owner_valid:
  assumes "\<And>r s m v s' m'. valid_except R L s \<Longrightarrow> deadlock_walk n r s m = Some (v, s', m') \<Longrightarrow> valid_except R L s'"
  shows "valid_except R L s \<Longrightarrow> walk_owner n ts s m = Some (v, s', m') \<Longrightarrow> valid_except R L s'"
proof (induction ts arbitrary: s m)
  case (Cons t ts)
  show ?case
  proof (cases "LRQ_wait_timeout (requests s t)")
    case True
    then show ?thesis using Cons by simp
  next
    case False
    then obtain v2 s2 m2 where w: "deadlock_walk n t s m = Some (v2, s2, m2)"
      using Cons.prems(2) by (auto split: option.splits)
    note s2 = assms [OF Cons.prems(1) w]
    show ?thesis using Cons.IH [OF s2] Cons.prems(2) w s2 False by (cases v2) simp_all
  qed
qed simp

lemma walk_queue_valid:
  assumes "\<And>r s m v s' m'. valid_except R L s \<Longrightarrow> deadlock_walk n r s m = Some (v, s', m') \<Longrightarrow> valid_except R L s'"
  shows "valid_except R L s \<Longrightarrow> walk_queue n r c bs s m = Some (v, s', m') \<Longrightarrow> valid_except R L s'"
proof (induction bs arbitrary: s m)
  case (Cons b bs)
  show ?case
  proof (cases "walk_queue n r c (b # bs) s m = walk_queue n r c bs s m \<or> walk_queue n r c (b # bs) s m = walk_queue n r c bs s True
      \<or> walk_queue n r c (b # bs) s m = Some (None, s, m)")
    case True
    then show ?thesis using Cons.IH [OF Cons.prems(1)] Cons.prems by auto
  next
    case False
    then have run: "walk_queue n r c (b # bs) s m = (case walk_owner n (own_pending (owners s (lrq_owner (requests s b)))) s m of
        None \<Rightarrow> None | Some (Some t, s, m) \<Rightarrow> Some (Some t, s, m) | Some (None, s, m) \<Rightarrow> walk_queue n r c bs s m)"
      by (auto simp: Let_def split: if_splits)
    then obtain v2 s2 m2 where w: "walk_owner n (own_pending (owners s (lrq_owner (requests s b)))) s m = Some (v2, s2, m2)"
      using Cons.prems(2) by (auto split: option.splits)
    note s2 = walk_owner_valid [OF assms Cons.prems(1) w]
    show ?thesis using Cons.IH [OF s2] Cons.prems(2) s2 unfolding run w by (cases v2) simp_all
  qed
qed simp

lemma walk_valid: "valid_except R L s \<Longrightarrow> deadlock_walk n r s m = Some (v, s', m') \<Longrightarrow> valid_except R L s'"
proof (induction n arbitrary: r s m v s' m')
  case (Suc n)
  let ?s1 = "upd_req r (\<lambda>q. q\<lparr>LRQ_deadlock := True\<rparr>) s"
  show ?case
  proof (cases "LRQ_scanned (requests s r) \<or> LRQ_deadlock (requests s r)")
    case True
    then show ?thesis using Suc.prems by (auto split: if_splits)
  next
    case False
    have s1: "valid_except R L ?s1" by (rule deadlock_mark_valid [OF Suc.prems(1)]) (use False in simp)
    obtain v2 s2 m2 where q: "walk_queue n r (lrq_state (requests ?s1 r) > LCK_null)
        (lbl_requests (locks ?s1 (lrq_lock (requests ?s1 r)))) ?s1 m = Some (v2, s2, m2)"
      using Suc.prems(2) False by (auto simp: Let_def split: option.splits)
    have s2: "valid_except R L s2" by (rule walk_queue_valid [OF Suc.IH s1 q])
    show ?thesis
    proof (cases v2)
      case None
      then have "s' = upd_req r (\<lambda>q. q\<lparr>LRQ_deadlock := False, LRQ_scanned := True\<rparr>) s2"
        using Suc.prems(2) False q by (simp add: Let_def)
      then show ?thesis using valid_marks [OF s2, of False True r] by simp
    next
      case (Some t)
      then show ?thesis using Suc.prems(2) False q s2 by (simp add: Let_def)
    qed
  qed
qed simp

lemma deadlock_scan_valid:
  assumes "valid_except R L s" "deadlock_scan w r s = Some (victim, s')"
  shows "valid_except R L s'"
proof -
  define s0 where "s0 = s\<lparr>lhb_scans := lhb_scans s + 1\<rparr>"
  define s1 where "s1 = deadlock_clear (post_history his_scan (int (lrq_owner (requests s0 r))) (lrq_lock (requests s0 r)) r True s0)"
  have "valid_except R L s0" by (rule valid_same [OF assms(1)]) (simp_all add: same_header_def s0_def)
  then have 1: "valid_except R L s1" unfolding s1_def by (intro deadlock_clear_valid valid_history) simp_all
  let ?walk = "deadlock_walk (Suc (Suc (length (waiting_requests s1)))) r s1 False"
  have run: "deadlock_scan w r s = (case ?walk of None \<Rightarrow> None | Some (victim, s, maybe) \<Rightarrow>
      Some (victim, if victim = None \<and> \<not> maybe then upd_own w (\<lambda>o'. o'\<lparr>OWN_scanned := True\<rparr>) s else s))"
    unfolding deadlock_scan_def s1_def s0_def by (simp only: Let_def)
  obtain v s2 m where w: "?walk = Some (v, s2, m)" using assms(2) unfolding run by (cases ?walk) auto
  have s': "s' = (if v = None \<and> \<not> m then upd_own w (\<lambda>o'. o'\<lparr>OWN_scanned := True\<rparr>) s2 else s2)"
    using assms(2) unfolding run w by auto
  show ?thesis unfolding s' using walk_valid [OF 1 w] valid_upd_own [OF walk_valid [OF 1 w]] by simp
qed

interpretation checked: kept_by_waiting valid env for env
proof unfold_locales
  fix s :: lhb
  assume v: "valid s"
  show "valid (upd_own w (\<lambda>o'. o'\<lparr>OWN_wakeup := False\<rparr>) s)" "valid (upd_own w (\<lambda>o'. o'\<lparr>OWN_scanned := False\<rparr>) s)" for w
    by (rule valid_upd_own [OF v], simp)+
  show "valid (s\<lparr>lhb_deadlocks := lhb_deadlocks s + 1\<rparr>)" by (rule valid_same [OF v]) (simp_all add: same_header_def)
  show "valid (post_wakeup w s)" for w by (rule valid_wakeup [OF v])
qed (blast intro: probe_processes_valid clear_wait_valid post_blockage_valid deadlock_scan_valid)+

end
