(* ===== verification/LockKept.thy ===== *)
theory LockKept
  imports LockChecks
begin

text \<open>
  The calls of the engine keep the invariant behind the checks of \<^verbatim>\<open>src/src/lock/lock.cpp\<close>, so it
  holds of every table that can be reached, and the checks of a debugging build cannot fail.
\<close>

section \<open>Requests that begin to wait\<close>

lemma waits_ok_mark: "waits_ok v ws \<Longrightarrow> \<not> compatibility t v \<Longrightarrow> waits_ok v (ws[i := (t, p)])"
proof (induction v ws arbitrary: i rule: waits_ok.induct)
  case (2 v t q ws)
  then show ?case by (cases i) auto
qed simp

lemma waits_ok_prefix: "waits_ok v (ws @ us) \<Longrightarrow> waits_ok v ws"
  by (induction v ws rule: waits_ok.induct) auto

lemma waits_ok_behind:
  assumes "waits_ok v ws" "\<not> compatibility t v \<or> True \<in> snd ` set ws"
  shows "waits_ok v (ws @ [(t, p)])"
  using assms by (induction v ws rule: waits_ok.induct) auto

lemma map_mark:
  "distinct xs \<Longrightarrow> i < length xs \<Longrightarrow> map (\<lambda>x. if x = xs ! i then a else f x) xs = (map f xs)[i := a]"
  by (rule nth_equalityI) (simp_all add: nth_list_update nth_eq_iff_index_eq)

lemma wait_mark_eqs:
  "requests (wait_mark r lck_wait s) = (requests s)(r := (requests s r)\<lparr>LRQ_rejected := False, LRQ_pending := True,
      LRQ_wait_timeout := (lck_wait \<le> 0 \<or> LRQ_wait_timeout (requests s r))\<rparr>)"
  "locks (wait_mark r lck_wait s) = (locks s)(lrq_lock (requests s r) := (locks s (lrq_lock (requests s r)))
     \<lparr>lbl_pending_lrq_count := lbl_pending_lrq_count (locks s (lrq_lock (requests s r))) + 1,
      lbl_requests := (if lrq_state (requests s r) = LCK_none
        then remove1 r (lbl_requests (locks s (lrq_lock (requests s r)))) @ [r]
        else lbl_requests (locks s (lrq_lock (requests s r))))\<rparr>)"
  by (cases "requests s r"; cases "locks s (lrq_lock (requests s r))"; cases "lck_wait \<le> 0"; auto simp: wait_mark_def Let_def)+

lemma same_header_wait_mark [headers]: "same_header s (wait_mark r lck_wait s)"
  by (simp add: same_header_def wait_mark_def Let_def)

text \<open>
  Only the order of the queue is left to show when a request begins to wait: it goes to the end
  if it holds nothing, and stays where it is if it is a conversion.
\<close>

lemma wait_mark_valid:
  assumes v: "valid_except {r} {lrq_lock (requests s r)} s" and ok: "lm_inv h s" and r: "live_request s r"
    and t: "lrq_requested (requests s r) \<noteq> LCK_none"
    and order: "waits_ok (lbl_state (locks s (lrq_lock (requests s r))))
      (map (\<lambda>x. if x = r then (lrq_requested (requests s r), True) else waiting (requests s x))
        (if lrq_state (requests s r) = LCK_none then remove1 r (lbl_requests (locks s (lrq_lock (requests s r)))) @ [r]
         else lbl_requests (locks s (lrq_lock (requests s r)))))"
  shows "valid (wait_mark r lck_wait s)"
proof (rule validI)
  let ?s = "wait_mark r lck_wait s" and ?l = "lrq_lock (requests s r)"
  note V = validD [OF v] and l = live_lock [OF ok r]
  show "request_ok (requests ?s x)" for x using V(1) [of x] by (auto simp: wait_mark_eqs request_ok_def)
  show "level_ok (requests ?s x)" for x using V(2) [of x] t by (cases "x = r") (simp_all add: wait_mark_eqs level_ok_def)
  have "length (remove1 r (lbl_requests (locks s ?l)) @ [r]) = length (lbl_requests (locks s ?l))"
    using l(2) length_pos_if_in_set [OF l(2)] by (simp add: length_remove1)
  then show "block_ok (locks ?s x)" for x
    using V(3) [of x] l(1) by (cases "x = ?l") (simp_all add: wait_mark_eqs block_ok_def)
  show "view_ok (queue_view ?s x)" for x
  proof (cases "x = ?l")
    case True
    have "snd (queue_view ?s ?l) = map (\<lambda>x. if x = r then (lrq_requested (requests s r), True) else waiting (requests s x))
        (if lrq_state (requests s r) = LCK_none then remove1 r (lbl_requests (locks s ?l)) @ [r] else lbl_requests (locks s ?l))"
      by (auto simp: queue_view_def wait_mark_eqs waiting_def)
    moreover have "fst (queue_view ?s ?l) = lbl_state (locks s ?l)" by (simp add: queue_view_def wait_mark_eqs)
    ultimately show ?thesis using order True by (simp only: view_ok_def)
  next
    case False
    then have "r \<notin> set (lbl_requests (locks s x))" using queue_apart [OF v lm_invD(1) [OF ok] refl] by simp
    then have "queue_view ?s x = queue_view s x" using False by (auto simp: queue_view_def wait_mark_eqs)
    then show ?thesis using V(4) [of x] False by simp
  qed
  show "header_ok ?s" by (rule header_ok_same [OF V(5)]) (rule headers)
qed

lemma wait_begin_valid:
  assumes v: "valid (wait_mark r lck_wait s)" and ok: "lm_inv (env_hash env) s" and r: "live_request s r" "\<not> LRQ_pending (requests s r)"
  shows "valid (wait_begin env r lck_wait s)"
proof -
  have "lbl_in_use (locks (wait_mark r lck_wait s) (lrq_lock (requests s r)))"
    using live_lock [OF ok r(1)] by (simp add: wait_mark_eqs)
  from post_blockage_valid [OF wait_mark_inv [OF ok r] v this, of r] show ?thesis
    unfolding wait_begin_def Let_def by (rule valid_history) simp
qed

lemma wait_end_valid: "valid_except R L s \<Longrightarrow> valid_except R L (wait_end r s)"
proof -
  assume v: "valid_except R L s"
  have "valid_except R L (upd_req r (\<lambda>q. q\<lparr>LRQ_wait_timeout := False\<rparr>) s)"
    by (rule valid_request [OF v, of _ r "(requests s r)\<lparr>LRQ_wait_timeout := False\<rparr>"])
       (use validD(1,2) [OF v, of r] in \<open>simp_all add: request_ok_def level_ok_def waiting_def headers\<close>)
  then show ?thesis unfolding wait_end_def by (rule valid_upd_own) simp
qed

lemma count_denial_valid: "valid_except R L s \<Longrightarrow> valid_except R L (count_denial lck_wait s)"
  by (erule valid_same) (simp_all add: same_header_def count_denial_def Let_def)

lemma count_operation_valid: "valid_except R L s \<Longrightarrow> valid_except R L (count_operation series s)"
  by (erule valid_same) (simp_all add: same_header_def count_operation_def Let_def)

lemma deny_valid:
  assumes v: "valid_except {r} {} s" and ok: "lm_inv h s" and r: "live_request s r"
  shows "valid (snd (deny env r lck_wait s))"
proof -
  let ?s = "count_denial lck_wait (post_history his_deny (int (lrq_owner (requests s r))) (lrq_lock (requests s r)) r True s)"
  have "valid_except {r} {} ?s" by (intro count_denial_valid valid_history v) simp
  moreover have "table_ok ?s" by (rule lm_invD(1) [OF lm_inv_count_denial [OF lm_inv_history [OF ok]]])
  ultimately have "valid (release_request r ?s)" by (rule release_valid) (use r in \<open>simp_all add: live_request_def\<close>)
  then show ?thesis by (simp add: deny_def Let_def)
qed

lemma grant_or_que_resume_valid:
  assumes "valid s" "lm_inv h s" "live_request s r"
  shows "valid (snd (grant_or_que_resume env r lck_wait s))"
proof -
  have v: "valid (wait_end r s)" by (rule wait_end_valid [OF assms(1)])
  have "valid (snd (deny env r lck_wait (wait_end r s)))"
    by (rule deny_valid [OF valid_weaken [OF v] lm_inv_wait_end [OF assms(2)]]) (use assms(3) in simp_all)
  then show ?thesis using v by (simp add: grant_or_que_resume_def Let_def)
qed

text \<open>A request is granted at once if it is compatible and none waits, or it is for \<open>LCK_null\<close>.\<close>

lemma pending_somewhere:
  assumes ok: "table_ok s" and l: "lbl_in_use (locks s l)" and n: "lbl_pending_lrq_count (locks s l) \<noteq> 0"
  shows "\<exists>x \<in> set (lbl_requests (locks s l)). LRQ_pending (requests s x)"
proof (rule ccontr)
  assume "\<not> ?thesis"
  then have "count_list (map (\<lambda>r. LRQ_pending (requests s r)) (lbl_requests (locks s l))) True = 0"
    by (auto simp: count_list_0_iff)
  then show False using queue_okD(7) [OF lock_okD(1) [OF table_okD(1) [OF ok l]]] n by simp
qed

lemma grant_post_valid:
  assumes v: "valid_except {r} {l} s" and l: "lbl_in_use (locks s l)" and t: "lrq_requested (requests s r) \<noteq> LCK_none"
    and apart: "\<And>l'. l' \<noteq> l \<Longrightarrow> r \<notin> set (lbl_requests (locks s l'))" and inv: "lm_inv h (grant r l s)"
  shows "valid (post_pending l (grant r l s))"
proof -
  have "valid_except ({r} - {r}) (insert l {l}) (grant r l s)" by (rule grant_valid [OF v l t]) (rule apart)
  then have "valid_except {} {l} (grant r l s)" by simp
  then show ?thesis by (rule post_pending_valid(1) [OF _ lm_invD(1) [OF inv]]) (use l in \<open>simp add: grant_keeps\<close>)
qed

lemma grant_or_que_valid:
  assumes v: "valid_except {r} {} s" and ok: "lm_inv (env_hash env) (upd_req r (\<lambda>q. q\<lparr>lrq_lock := l\<rparr>) s)"
    and r: "live_request (upd_req r (\<lambda>q. q\<lparr>lrq_lock := l\<rparr>) s) r" "lrq_state (requests s r) = LCK_none"
      "\<not> LRQ_pending (requests s r)" "lrq_requested (requests s r) \<noteq> LCK_none"
    and q: "lbl_requests (locks s l) = front @ [r]"
  shows "valid (snd (grant_or_que env r l lck_wait s))"
proof -
  let ?s = "upd_req r (\<lambda>q. q\<lparr>lrq_lock := l\<rparr>) s"
  let ?t = "lrq_requested (requests s r)" and ?st = "lbl_state (locks s l)"
  let ?free = "compatibility (lrq_requested (requests ?s r)) (lbl_state (locks ?s l)) \<and>
      (lrq_requested (requests ?s r) = LCK_null \<or> lbl_pending_lrq_count (locks ?s l) = 0)"
  have run: "grant_or_que env r l lck_wait s = (if ?free then (Request r, post_pending l (grant r l ?s))
      else if lck_wait \<noteq> 0 then (Asleep r, wait_begin env r lck_wait ?s) else deny env r lck_wait ?s)"
    by (simp only: grant_or_que_def Let_def)
  have v': "valid_except {r} {} ?s"
    by (rule valid_request [OF v, of _ r "(requests s r)\<lparr>lrq_lock := l\<rparr>"])
       (use validD(1) [OF v, of r] in \<open>simp_all add: request_ok_def waiting_def headers\<close>)
  have vl: "valid_except {r} {l} ?s" by (rule valid_weaken [OF v']) simp_all
  have l: "lrq_lock (requests ?s r) = l" "lbl_in_use (locks ?s l)" using live_lock(1) [OF ok r(1)] by simp_all
  show ?thesis
  proof (cases ?free)
    case True
    have "valid (post_pending l (grant r l ?s))"
    proof (rule grant_post_valid [OF vl l(2)])
      show "lrq_requested (requests ?s r) \<noteq> LCK_none" using r(4) by simp
      show "r \<notin> set (lbl_requests (locks ?s l'))" if "l' \<noteq> l" for l'
        by (rule queue_apart [OF v' lm_invD(1) [OF ok] l(1) that])
      show "lm_inv (env_hash env) (grant r l ?s)" using grant_new_inv [OF ok r(1)] r(2) True by simp
    qed
    then show ?thesis unfolding run if_P [OF True] by (simp only: snd_conv)
  next
    case False
    have d: "r \<notin> set front"
      using queue_okD(1) [OF lock_okD(1) [OF table_okD(1) [OF lm_invD(1) [OF ok] l(2)]]] q by simp
    have ws: "waits_ok ?st (map (\<lambda>x. waiting (requests s x)) (front @ [r]))"
      using validD(4) [OF v, of l] q by (simp add: view_ok_def queue_view_def)
    then have ws0: "waits_ok ?st (map (\<lambda>x. waiting (requests s x)) front)"
      unfolding map_append by (rule waits_ok_prefix)
    have "\<not> compatibility ?t ?st \<or> (\<exists>x \<in> set front. LRQ_pending (requests s x))"
    proof (cases "compatibility ?t ?st")
      case True
      then have "lbl_pending_lrq_count (locks ?s l) \<noteq> 0" using False by simp
      from pending_somewhere [OF lm_invD(1) [OF ok] l(2) this] show ?thesis using q r(3) by (auto split: if_splits)
    qed simp
    then have "\<not> compatibility ?t ?st \<or> True \<in> snd ` set (map (\<lambda>x. waiting (requests s x)) front)"
      by (force simp: waiting_def)
    note order = waits_ok_behind [OF ws0 this]
    have m: "valid (wait_mark r lck_wait ?s)"
    proof (rule wait_mark_valid [OF _ ok r(1)])
      have w: "(if x = r then (lrq_requested (requests ?s r), True) else waiting (requests ?s x)) =
          (if x = r then (?t, True) else waiting (requests s x))" for x by simp
      have q': "(if lrq_state (requests ?s r) = LCK_none then remove1 r (lbl_requests (locks ?s l)) @ [r]
          else lbl_requests (locks ?s l)) = front @ [r]" using r(2) q d by (simp add: remove1_append)
      have *: "map (\<lambda>x. if x = r then (?t, True) else waiting (requests s x)) (front @ [r]) =
          map (\<lambda>x. waiting (requests s x)) front @ [(?t, True)]"
        using d by auto
      show "waits_ok (lbl_state (locks ?s (lrq_lock (requests ?s r))))
        (map (\<lambda>x. if x = r then (lrq_requested (requests ?s r), True) else waiting (requests ?s x))
          (if lrq_state (requests ?s r) = LCK_none then remove1 r (lbl_requests (locks ?s (lrq_lock (requests ?s r)))) @ [r]
           else lbl_requests (locks ?s (lrq_lock (requests ?s r)))))"
        unfolding l(1) w q' * using order by simp
    qed (use vl r(4) in simp_all)
    have "valid (wait_begin env r lck_wait ?s)" by (rule wait_begin_valid [OF m ok r(1)]) (use r(3) in simp)
    then show ?thesis using deny_valid [OF v' ok r(1), of env lck_wait] unfolding run if_not_P [OF False]
      by (cases "lck_wait = 0") (simp_all only: snd_conv if_True if_False simp_thms)
  qed
qed

section \<open>Conversions\<close>

lemma internal_convert_valid:
  assumes v: "valid s" and ok: "lm_inv (env_hash env) s" and r: "granted_request s r" and t: "type \<noteq> LCK_none"
    and run: "internal_convert env r type lck_wait ast arg s = Some (a, s')"
  shows "valid s'"
proof -
  let ?h = "env_hash env" and ?req = "requests s r"
  let ?l = "lrq_lock ?req" and ?v = "lrq_state ?req"
  let ?s0 = "post_history his_convert (int (lrq_owner ?req)) ?l r True s"
  let ?s1 = "upd_req r (\<lambda>q. q\<lparr>lrq_requested := type, LRQ_blocking_seen := False\<rparr>) ?s0"
  let ?s2 = "upd_req r (\<lambda>q. q\<lparr>lrq_ast_routine := ast, lrq_ast_argument := arg\<rparr>) ?s1"
  let ?c = "compatibility type (lock_state (lbl_counts (locks (dec_count ?l ?v ?s1) ?l)))"
  have live: "live_request s r" "\<not> LRQ_pending ?req" "lrq_requested ?req = ?v" "?v \<noteq> LCK_none"
    using r by (simp_all add: granted_request_def)
  have get: "get_request r s = Some ?req" using run by (auto simp: internal_convert_def get_request_def split: if_splits)
  have run': "internal_convert env r type lck_wait ast arg s = (if ?c
      then Some (Request r, post_pending ?l (grant r ?l (dec_count ?l ?v ?s2)))
      else if lck_wait \<noteq> 0 then Some (Asleep r, wait_begin env r lck_wait ?s1)
      else Some (Refused (Some (wait_error lck_wait)), count_denial lck_wait (upd_req r (\<lambda>q. q\<lparr>lrq_requested := lrq_state q\<rparr>) ?s1)))"
    unfolding internal_convert_def get option.case Let_def inc_dec_count upd_req_dec_count ..
  have ok1: "lm_inv ?h ?s1" by (rule lm_inv_conversion_fields(1) [OF lm_inv_history [OF ok]])
  have ok2: "lm_inv ?h ?s2" by (rule lm_inv_conversion_fields(2) [OF ok1])
  have live1: "live_request ?s1 r" "live_request ?s2 r" using live by (simp_all add: live_request_def)
  have v0: "valid ?s0" by (rule valid_history [OF v]) simp
  note l = live_lock [OF ok live(1)]
  have v1: "valid_except {r} {?l} ?s1"
  proof (rule validI)
    note V = validD [OF v0]
    show "request_ok (requests ?s1 x)" for x using V(1) [of x] by (auto simp: request_ok_def)
    show "level_ok (requests ?s1 x)" if "x \<notin> {r}" for x using V(2) [of x] that by simp
    show "block_ok (locks ?s1 x)" for x using V(3) [of x] by simp
    show "view_ok (queue_view ?s1 x)" if "x \<notin> {?l}" for x
    proof -
      have "r \<notin> set (lbl_requests (locks s x))" using queue_apart [OF v lm_invD(1) [OF ok] refl] that by simp
      then have "queue_view ?s1 x = queue_view ?s0 x" by (auto simp: queue_view_def)
      then show ?thesis using V(4) by simp
    qed
    show "header_ok ?s1" by (rule header_ok_same [OF V(5)]) (rule headers)
  qed
  show ?thesis
  proof (cases ?c)
    case True
    have v2: "valid_except {r} {?l} ?s2"
      by (rule valid_request [OF v1, of _ r "(requests ?s1 r)\<lparr>lrq_ast_routine := ast, lrq_ast_argument := arg\<rparr>"])
         (use validD(1) [OF v1, of r] in \<open>simp_all add: request_ok_def waiting_def headers\<close>)
    have vd: "valid_except {r} {?l} (dec_count ?l ?v ?s2)"
      by (rule valid_count(1) [OF v2 _ _ live(4)]) (use l in simp_all)
    have "compatibility (lrq_requested (requests ?s2 r)) (lock_state (lbl_counts
        (locks (dec_count (lrq_lock (requests ?s2 r)) (lrq_state (requests ?s2 r)) ?s2) (lrq_lock (requests ?s2 r)))))"
      using True by (simp add: dec_count_def)
    note g = grant_conversion_inv [OF ok2 live1(2) this]
    have "valid (post_pending ?l (grant r ?l (dec_count ?l ?v ?s2)))"
    proof (rule grant_post_valid [OF vd])
      show "lbl_in_use (locks (dec_count ?l ?v ?s2) ?l)" using l by simp
      show "lrq_requested (requests (dec_count ?l ?v ?s2) r) \<noteq> LCK_none" using t by simp
      show "r \<notin> set (lbl_requests (locks (dec_count ?l ?v ?s2) x))" if "x \<noteq> ?l" for x
        using queue_apart [OF v lm_invD(1) [OF ok] refl that] by simp
      show "lm_inv ?h (grant r ?l (dec_count ?l ?v ?s2))" using g by simp
    qed
    then show ?thesis using run True unfolding run' if_P [OF True] by simp
  next
    case False
    note D = lock_okD [OF table_okD(1) [OF lm_invD(1) [OF ok] l(1)]]
    have c: "\<not> compatibility type (lbl_state (locks s ?l))"
      unfolding D(2) by (rule conversion_incompatible [OF D(1) l(2) live(4)]) (use False in \<open>simp add: dec_count_def\<close>)
    obtain i where i: "i < length (lbl_requests (locks s ?l))" "lbl_requests (locks s ?l) ! i = r"
      using l(2) by (auto simp: in_set_conv_nth)
    have "distinct (lbl_requests (locks s ?l))" by (rule queue_okD(1) [OF D(1)])
    then have "map (\<lambda>x. if x = r then (type, True) else waiting (requests s x)) (lbl_requests (locks s ?l)) =
        (map (\<lambda>x. waiting (requests s x)) (lbl_requests (locks s ?l)))[i := (type, True)]"
      using map_mark [OF _ i(1)] i(2) by simp
    moreover have "waits_ok (lbl_state (locks s ?l)) (map (\<lambda>x. waiting (requests s x)) (lbl_requests (locks s ?l)))"
      using validD(4) [OF v, of ?l] by (simp add: view_ok_def queue_view_def)
    ultimately have order: "waits_ok (lbl_state (locks s ?l))
        (map (\<lambda>x. if x = r then (type, True) else waiting (requests s x)) (lbl_requests (locks s ?l)))"
      using waits_ok_mark [OF _ c] by simp
    have w: "(if x = r then (lrq_requested (requests ?s1 r), True) else waiting (requests ?s1 x)) =
        (if x = r then (type, True) else waiting (requests s x))" for x by simp
    have q': "(if lrq_state (requests ?s1 r) = LCK_none then remove1 r (lbl_requests (locks ?s1 ?l)) @ [r]
        else lbl_requests (locks ?s1 ?l)) = lbl_requests (locks s ?l)" using live(4) by simp
    have l1: "lrq_lock (requests ?s1 r) = ?l" by simp
    have m: "valid (wait_mark r lck_wait ?s1)"
    proof (rule wait_mark_valid [OF _ ok1 live1(1)])
      show "valid_except {r} {lrq_lock (requests ?s1 r)} ?s1" unfolding l1 by (rule v1)
      show "lrq_requested (requests ?s1 r) \<noteq> LCK_none" using t by simp
      show "waits_ok (lbl_state (locks ?s1 (lrq_lock (requests ?s1 r))))
        (map (\<lambda>x. if x = r then (lrq_requested (requests ?s1 r), True) else waiting (requests ?s1 x))
          (if lrq_state (requests ?s1 r) = LCK_none then remove1 r (lbl_requests (locks ?s1 (lrq_lock (requests ?s1 r)))) @ [r]
           else lbl_requests (locks ?s1 (lrq_lock (requests ?s1 r)))))"
        unfolding l1 w q' using order by simp
    qed
    have 1: "valid (wait_begin env r lck_wait ?s1)" by (rule wait_begin_valid [OF m ok1 live1(1)]) (use live in simp)
    have "valid (upd_req r (\<lambda>q. q\<lparr>lrq_requested := lrq_state q\<rparr>) ?s1)"
      by (rule valid_request [OF v0, of _ r "?req\<lparr>LRQ_blocking_seen := False, lrq_requested := ?v\<rparr>"])
         (use validD(1,2) [OF v0, of r] live in \<open>simp_all add: request_ok_def level_ok_def waiting_def same_header_def\<close>)
    note 2 = count_denial_valid [OF this, of lck_wait]
    show ?thesis using run 1 2 unfolding run' if_not_P [OF False]
      by (cases "lck_wait = 0") (simp_all only: if_True if_False simp_thms option.inject prod.inject)
  qed
qed

lemma post_pending_bystander:
  "\<not> LRQ_pending (requests s r) \<Longrightarrow> lrq_state (requests (post_pending l s) r) = lrq_state (requests s r) \<and>
     LRQ_rejected (requests (post_pending l s) r) = LRQ_rejected (requests s r) \<and> \<not> LRQ_pending (requests (post_pending l s) r)"
proof -
  assume "\<not> LRQ_pending (requests s r)"
  then have "\<not> LRQ_pending (requests (pending_loop l rs s) r) \<and> requests (pending_loop l rs s) r = requests s r" for rs
  proof (induction l rs s rule: pending_loop.induct)
    case (2 l x rs s)
    then show ?case by (cases "x = r") (auto simp: Let_def grant_requests)
  qed simp
  moreover have "lrq_state (requests (just_granted_loop rs s) r) = lrq_state (requests s r) \<and>
      LRQ_rejected (requests (just_granted_loop rs s) r) = LRQ_rejected (requests s r) \<and>
      LRQ_pending (requests (just_granted_loop rs s) r) = LRQ_pending (requests s r)" for rs s
    by (induction rs s rule: just_granted_loop.induct) (simp_all add: Let_def)
  ultimately show ?thesis using \<open>\<not> LRQ_pending (requests s r)\<close> by (simp add: post_pending_def Let_def)
qed

lemma first_waits_cong:
  "first_waits v (map f xs) \<Longrightarrow> (\<And>x. x \<in> set xs \<Longrightarrow> snd (g x) = snd (f x) \<and> (snd (f x) \<longrightarrow> g x = f x)) \<Longrightarrow> first_waits v (map g xs)"
proof (induction xs)
  case (Cons x xs)
  then show ?case using Cons.prems(2) [of x] by (cases "f x"; cases "g x") (auto split: if_splits)
qed simp

text \<open>A conversion that gave up keeps the level it had.\<close>

lemma give_up_valid:
  assumes v: "valid s" and t: "table_ok s" and r: "\<not> LRQ_pending (requests s r)" "LRQ_rejected (requests s r)"
    and l: "lrq_lock (requests s r) = l" "lrq_state (requests s r) \<noteq> LCK_none"
    and f: "first_waits (fst (queue_view s l)) (snd (queue_view s l))"
  shows "valid (upd_req r (\<lambda>q. q\<lparr>lrq_requested := lrq_state q\<rparr>) s)"
proof (rule validI)
  let ?s = "upd_req r (\<lambda>q. q\<lparr>lrq_requested := lrq_state q\<rparr>) s"
  note V = validD [OF v]
  show "request_ok (requests ?s x)" for x using V(1) [of x] by (auto simp: request_ok_def)
  show "level_ok (requests ?s x)" for x using V(2) [of x] l(2) by (auto simp add: level_ok_def)
  show "block_ok (locks ?s x)" for x using V(3) [of x] by simp
  show "header_ok ?s" by (rule header_ok_same [OF V(5)]) (rule headers)
  show "view_ok (queue_view ?s x)" for x
  proof (cases "x = l")
    case True
    have "first_waits (lbl_state (locks s l)) (map (\<lambda>x. waiting (requests ?s x)) (lbl_requests (locks s l)))"
      by (rule first_waits_cong [of _ "\<lambda>x. waiting (requests s x)"]) (use f r in \<open>auto simp: queue_view_def waiting_def\<close>)
    then show ?thesis unfolding True view_ok_def by (intro first_waits_ok) (simp add: queue_view_def)
  next
    case False
    then have "r \<notin> set (lbl_requests (locks s x))" using queue_apart [OF v t l(1)] by simp
    then have "queue_view ?s x = queue_view s x" by (auto simp: queue_view_def)
    then show ?thesis using V(4) [of x] by simp
  qed
qed

lemma internal_convert_resume_valid:
  assumes v: "valid s" and ok: "lm_inv h s" and r: "live_request s r" "\<not> LRQ_pending (requests s r)" "lrq_state (requests s r) \<noteq> LCK_none"
  shows "valid (snd (internal_convert_resume new_ast r lck_wait ast arg s))"
proof -
  let ?s = "wait_end r s"
  let ?l = "lrq_lock (requests ?s r)"
  have v1: "valid ?s" by (rule wait_end_valid [OF v])
  have ok1: "lm_inv h ?s" by (rule lm_inv_wait_end [OF ok])
  have l: "lbl_in_use (locks ?s ?l)" by (rule live_lock(1) [OF ok1]) (use r in simp)
  have r1: "\<not> LRQ_pending (requests ?s r)" "lrq_state (requests ?s r) \<noteq> LCK_none" using r by (simp_all add: wait_end_def)
  have va: "valid (upd_req r (\<lambda>q. q\<lparr>lrq_ast_routine := ast, lrq_ast_argument := arg\<rparr>) ?s)"
    by (rule valid_request [OF v1, of _ r "(requests ?s r)\<lparr>lrq_ast_routine := ast, lrq_ast_argument := arg\<rparr>"])
       (use validD(1,2) [OF v1, of r] in \<open>simp_all add: request_ok_def level_ok_def waiting_def headers\<close>)
  have "valid (count_denial lck_wait (upd_req r (\<lambda>q. q\<lparr>lrq_requested := lrq_state q\<rparr>) (post_pending ?l ?s)))"
    if rej: "LRQ_rejected (requests ?s r)"
  proof -
    note P = post_pending_valid [OF valid_weaken [OF v1] lm_invD(1) [OF ok1] l] and B = post_pending_bystander [OF r1(1), of ?l]
    have "valid (upd_req r (\<lambda>q. q\<lparr>lrq_requested := lrq_state q\<rparr>) (post_pending ?l ?s))"
      by (rule give_up_valid [OF P(1) lm_invD(1) [OF lm_inv_post_pending [OF ok1 l]] _ _ _ _ P(2)])
         (use B rej r1 in \<open>simp_all add: lock_kept\<close>)
    then show ?thesis by (rule count_denial_valid)
  qed
  then show ?thesis using va v1 by (simp only: internal_convert_resume_def Let_def) (simp split: if_split)
qed

section \<open>Enqueueing\<close>

lemma valid_heal: "valid_except {} {l} s \<Longrightarrow> view_ok (queue_view s l) \<Longrightarrow> valid s"
  unfolding valid_except_def by (metis singletonD)

definition can_grow :: "nat option \<Rightarrow> bool" where
  "can_grow can_remap \<longleftrightarrow> (case can_remap of None \<Rightarrow> True | Some m \<Rightarrow> 65536 \<le> m)"

lemma alloc_used:
  assumes "alloc_block can_remap n s = Some (b, s')" "can_grow can_remap" "lhb_used s \<le> lhb_length s"
  shows "lhb_used s' \<le> lhb_length s'"
proof -
  have "FB_ALIGN n 8 mod 65536 < 65536" by simp
  then show ?thesis using assms by (auto simp: alloc_block_def can_grow_def Let_def split: if_splits option.splits)
qed

lemma alloc_block_kept:
  assumes "alloc_block can_remap n s = Some (b, s')"
  shows "requests s' = requests s" "locks s' = locks s" "owners s' = owners s" "lhb_free_owners s' = lhb_free_owners s"
    "lhb_history s' = lhb_history s" "shb_history s' = shb_history s"
  using assms by (auto simp: alloc_block_def Let_def split: if_splits option.splits)

lemma alloc_block_header:
  assumes h: "header_ok s" and run: "alloc_block can_remap n s = Some (b, s')" "can_grow can_remap"
  shows "header_ok s'"
  using h alloc_used [OF run] by (simp add: header_ok_def alloc_block_kept [OF run(1)])

lemma alloc_block_valid:
  assumes v: "valid_except R L s" and run: "alloc_block can_remap n s = Some (b, s')" "can_grow can_remap"
  shows "valid_except R L s'"
  by (rule valid_header [OF v]) (rule alloc_block_kept [OF run(1)] alloc_block_header [OF validD(5) [OF v] run])+

lemma get_free_request_valid:
  assumes v: "valid s" and run: "get_free_request can_remap s = Some (r, s')" "can_grow can_remap"
  shows "valid s'"
proof (cases "lhb_free_requests s")
  case Nil
  then show ?thesis using alloc_block_valid [OF v _ run(2)] run(1) by (simp add: get_free_request_def)
next
  case (Cons x xs)
  then have "s' = s\<lparr>lhb_free_requests := xs\<rparr>" using run(1) by (simp add: get_free_request_def)
  then show ?thesis using valid_same [OF v, of s'] by (simp add: same_header_def)
qed

lemma fresh_apart:
  assumes "valid s" "lm_inv h s" "fresh_request s r"
  shows "r \<notin> set (lbl_requests (locks s l))"
proof (cases "lbl_in_use (locks s l)")
  case True
  then show ?thesis using fresh_not_queued(4) [OF assms(2)] assms(3) by (simp add: fresh_request_def)
next
  case False
  then show ?thesis using validD(3) [OF assms(1), of l] by (simp add: block_ok_def)
qed

text \<open>A request in no queue of a lock.\<close>

lemma valid_unqueued:
  assumes v: "valid s" and rq: "requests s' = (requests s)(r := q')" and lk: "locks s' = locks s"
    and q': "request_ok q'" "level_ok q'" and apart: "\<And>l. r \<notin> set (lbl_requests (locks s l))" and h: "same_header s s'"
  shows "valid s'"
proof (rule validI)
  note V = validD [OF v]
  show "request_ok (requests s' x)" for x using V(1) [of x] q'(1) by (simp add: rq)
  show "level_ok (requests s' x)" for x using V(2) [of x] q'(2) by (cases "x = r") (simp_all add: rq)
  show "block_ok (locks s' l)" for l using V(3) by (simp add: lk)
  have "queue_view s' l = queue_view s l" for l using apart [of l] by (auto simp: queue_view_def lk rq)
  then show "view_ok (queue_view s' l)" for l using V(4) [of l] by simp
  show "header_ok s'" by (rule header_ok_same [OF V(5) h])
qed

lemma waits_ok_snoc: "waits_ok v ws \<Longrightarrow> waits_ok v (ws @ [(t, False)])"
  by (induction v ws rule: waits_ok.induct) auto

lemma valid_append:
  assumes v: "valid s" and apart: "\<And>l. r \<notin> set (lbl_requests (locks s l))"
    and l: "lbl_in_use (locks s l)" "length (lbl_requests (locks s l)) < 32767"
    and rq: "requests s' = (requests s)(r := q')" "request_ok q'" "\<not> LRQ_pending q'"
    and lk: "locks s' = (locks s)(l := (locks s l)\<lparr>lbl_requests := lbl_requests (locks s l) @ [r]\<rparr>)"
    and h: "same_header s s'"
  shows "valid_except {r} {} s'"
proof (rule validI)
  note V = validD [OF v]
  show "request_ok (requests s' x)" for x using V(1) [of x] rq(2) by (simp add: rq(1))
  show "level_ok (requests s' x)" if "x \<notin> {r}" for x using V(2) [of x] that by (simp add: rq(1))
  show "block_ok (locks s' x)" for x using V(3) [of x] l by (cases "x = l") (simp_all add: lk block_ok_def)
  show "view_ok (queue_view s' x)" for x
  proof (cases "x = l")
    case True
    have "queue_view s' l = (lbl_state (locks s l), snd (queue_view s l) @ [(lrq_requested q', False)])"
      using apart [of l] rq(3) by (auto simp: queue_view_def lk rq(1) waiting_def)
    moreover have "waits_ok (lbl_state (locks s l)) (snd (queue_view s l))"
      using V(4) [of l] by (simp add: view_ok_def queue_view_def)
    ultimately show ?thesis unfolding True by (simp add: view_ok_def waits_ok_snoc)
  next
    case False
    then have "queue_view s' x = queue_view s x" using apart [of x] by (auto simp: queue_view_def lk rq(1))
    then show ?thesis using V(4) [of x] by simp
  qed
  show "header_ok s'" by (rule header_ok_same [OF V(5) h])
qed

lemma same_header_init [headers]: "same_header s (init_request r w type ast arg s)"
  by (simp add: same_header_def init_request_def history_ok_post post_history_def Let_def upd_own_def upd_req_def)

lemma same_header_count [headers]: "same_header s (count_operation series s)"
  by (simp add: same_header_def count_operation_def Let_def)

lemma enqueue_found_valid:
  assumes v: "valid s" and ok: "lm_inv (env_hash env) s" and r: "fresh_request s r" and w: "w \<in> set (lhb_owners s)"
    and l: "lbl_in_use (locks s l)" "length (lbl_requests (locks s l)) < 32767" and t: "type \<noteq> LCK_none"
  shows "valid (snd (grant_or_que env r l lck_wait (upd_req r (\<lambda>q. q\<lparr>lrq_data := data\<rparr>)
    (upd_lock l (\<lambda>b. b\<lparr>lbl_requests := lbl_requests b @ [r]\<rparr>)
      (count_operation series (init_request r w type ast arg s))))))"
proof -
  let ?s1 = "count_operation series (init_request r w type ast arg s)"
  let ?s = "upd_req r (\<lambda>q. q\<lparr>lrq_data := data\<rparr>) (upd_lock l (\<lambda>b. b\<lparr>lbl_requests := lbl_requests b @ [r]\<rparr>) ?s1)"
  let ?s' = "upd_req r (\<lambda>q. q\<lparr>lrq_lock := l\<rparr>) ?s"
  have rq': "requests ?s' = (requests s)(r := requests ?s' r)" by simp
  have len: "length (lbl_requests (locks s l)) < 65535" using l(2) by simp
  have inv: "lm_inv (env_hash env) ?s'"
    by (rule lm_inv_append [OF ok r w l(1) len rq']) (simp_all add: new_request_def)
  have rq: "requests ?s = (requests s)(r := requests ?s r)" by simp
  have h: "same_header s ?s"
    by (rule same_header_trans [OF same_header_trans [OF same_header_init [of s r w type ast arg] same_header_count [of _ series]]]) (simp add: same_header_def)
  have "valid_except {r} {} ?s"
    by (rule valid_append [OF v fresh_apart [OF v ok r] l rq _ _ _ h]) (simp_all add: request_ok_def)
  then show ?thesis
    by (rule grant_or_que_valid [OF _ inv, where front = "lbl_requests (locks s l)"]) (simp_all add: live_request_def t)
qed

lemma enqueue_failed_valid:
  assumes v: "valid s" and ok: "lm_inv h s" and r: "fresh_request s r"
  shows "valid (free_request r (upd_own w (\<lambda>o'. o'\<lparr>own_requests := remove1 r (own_requests o')\<rparr>)
    (init_request r w type ast arg s)))"
proof -
  let ?s = "free_request r (upd_own w (\<lambda>o'. o'\<lparr>own_requests := remove1 r (own_requests o')\<rparr>) (init_request r w type ast arg s))"
  have rq: "requests ?s = (requests s)(r := requests ?s r)" by (simp add: free_request_def)
  have h: "same_header s ?s"
    by (rule same_header_trans [OF same_header_init [of s r w type ast arg]]) (simp add: same_header_def free_request_def)
  show ?thesis
    by (rule valid_unqueued [OF v rq _ _ _ fresh_apart [OF v ok r] h]) (simp_all add: free_request_def request_ok_def level_ok_def)
qed

lemma FB_ALIGN_ge: "n \<le> FB_ALIGN n 8"
proof -
  have "n + 8 - 1 = (n + 8 - 1) div 8 * 8 + (n + 8 - 1) mod 8" "(n + 8 - 1) mod 8 < 8" by simp_all
  then show ?thesis unfolding FB_ALIGN_def by linarith
qed

lemma first_fit_size: "first_fit n lcks ls = Some l \<Longrightarrow> n \<le> lbl_size (lcks l)"
  by (induction ls) (auto split: if_splits)

lemma alloc_lock_valid:
  assumes h: "header_ok s" and run: "alloc_lock can_remap n s = Some (l, s')" "can_grow can_remap" and n: "n \<le> 248"
  obtains b where "locks s' = (locks s)(l := b)" "lbl_in_use b" "n \<le> lbl_size b" "requests s' = requests s" "header_ok s'"
proof -
  have "(n + 8 - 1) div 8 \<le> 31" using n by simp
  then have a: "FB_ALIGN n 8 \<le> 248" unfolding FB_ALIGN_def by simp
  then have n': "FB_ALIGN n 8 mod 65536 = FB_ALIGN n 8" "FB_ALIGN n 8 mod 256 = FB_ALIGN n 8" by simp_all
  show thesis
  proof (cases "first_fit (FB_ALIGN n 8) (locks s) (lhb_free_locks s)")
    case (Some x)
    have s': "s' = upd_lock l (\<lambda>b. b\<lparr>lbl_in_use := True\<rparr>) (s\<lparr>lhb_free_locks := remove1 l (lhb_free_locks s)\<rparr>)" "x = l"
      using run(1) Some n' by (auto simp: alloc_lock_def Let_def)
    have "same_header s s'" by (simp add: s'(1) same_header_def)
    from header_ok_same [OF h this] show thesis
      by (intro that [of "(locks s l)\<lparr>lbl_in_use := True\<rparr>"])
         (use first_fit_size [OF Some] s'(2) FB_ALIGN_ge [of n] in \<open>simp_all add: s'(1)\<close>)
  next
    case None
    obtain s1 where s1: "alloc_block can_remap (sizeof_lbl + FB_ALIGN n 8) s = Some (l, s1)"
      and s': "s' = upd_lock l (\<lambda>b. b\<lparr>lbl_size := FB_ALIGN n 8, lbl_in_use := True\<rparr>) s1"
      using run(1) None n' by (auto simp: alloc_lock_def Let_def split: option.splits)
    note K = alloc_block_kept [OF s1]
    have "same_header s1 s'" by (simp add: s' same_header_def)
    from header_ok_same [OF alloc_block_header [OF h s1 run(2)] this] show thesis
      by (intro that [of "(locks s l)\<lparr>lbl_size := FB_ALIGN n 8, lbl_in_use := True\<rparr>"])
         (use FB_ALIGN_ge [of n] in \<open>simp_all add: s' K\<close>)
  qed
qed

lemma enqueue_created_valid:
  assumes v: "valid s" and ok: "lm_inv h s" and r: "fresh_request s r" and t: "type \<noteq> LCK_none"
    and grow: "can_grow can_remap" and val: "length val \<le> 248"
    and alloc: "alloc_lock can_remap (length val) (init_request r w type ast arg s) = Some (l, s1)"
  shows "valid (grant r l (upd_req r (\<lambda>q. q\<lparr>lrq_lock := l\<rparr>) (upd_lock l (\<lambda>b. b\<lparr>lbl_requests := lbl_requests b @ [r]\<rparr>)
    ((init_lock l series val type data s1)\<lparr>lhb_hash := (lhb_hash (init_lock l series val type data s1))
       (slot := lhb_hash (init_lock l series val type data s1) slot @ [l])\<rparr>))))"
proof -
  let ?init = "init_request r w type ast arg s"
  let ?s2 = "init_lock l series val type data s1"
  let ?s3 = "upd_lock l (\<lambda>b. b\<lparr>lbl_requests := lbl_requests b @ [r]\<rparr>) (?s2\<lparr>lhb_hash := (lhb_hash ?s2)(slot := lhb_hash ?s2 slot @ [l])\<rparr>)"
  let ?s4 = "upd_req r (\<lambda>q. q\<lparr>lrq_lock := l\<rparr>) ?s3"
  note apart = fresh_apart [OF v ok r] and V = validD [OF v]
  have vi: "header_ok ?init" by (rule header_ok_same [OF V(5) same_header_init])
  obtain b where A: "locks s1 = (locks ?init)(l := b)" "lbl_in_use b" "length val \<le> lbl_size b" "requests s1 = requests ?init" "header_ok s1"
    by (rule alloc_lock_valid [OF vi alloc grow val])
  have h: "same_header s1 ?s4"
    by (simp add: same_header_def init_lock_def insert_data_que_def count_operation_def Let_def)
  have rq: "requests ?s4 = (requests s)(r := requests ?s4 r)" by (simp add: A(4))
  have v4: "valid_except {r} {l} ?s4"
  proof (rule validI)
    show "request_ok (requests ?s4 x)" for x using V(1) [of x] by (cases "x = r") (simp_all add: A(4) request_ok_def)
    show "level_ok (requests ?s4 x)" if "x \<notin> {r}" for x using V(2) [of x] that by (simp add: A(4))
    show "block_ok (locks ?s4 x)" for x
      using V(3) [of x] A(2,3) val by (cases "x = l") (simp_all add: A(1) block_ok_def)
    show "view_ok (queue_view ?s4 x)" if "x \<notin> {l}" for x
    proof -
      have "queue_view ?s4 x = queue_view s x" using that apart [of x] by (auto simp: queue_view_def A(1,4))
      then show ?thesis using V(4) [of x] by simp
    qed
    show "header_ok ?s4" by (rule header_ok_same [OF A(5) h])
  qed
  have "valid_except ({r} - {r}) (insert l {l}) (grant r l ?s4)"
  proof (rule grant_valid [OF v4])
    show "lbl_in_use (locks ?s4 l)" by (simp add: A(1,2))
    show "lrq_requested (requests ?s4 r) \<noteq> LCK_none" using t by (simp add: A(4))
    show "r \<notin> set (lbl_requests (locks ?s4 x))" if "x \<noteq> l" for x using apart [of x] that by (simp add: A(1))
  qed
  then have g: "valid_except {} {l} (grant r l ?s4)" by (simp only: Diff_cancel insert_absorb2)
  have "lbl_requests (locks (grant r l ?s4) l) = [r]" by (simp add: grant_keeps)
  then have "view_ok (queue_view (grant r l ?s4) l)" by (simp add: view_ok_def queue_view_def waiting_def grant_requests A(4))
  then show ?thesis by (rule valid_heal [OF g])
qed

lemma internal_dequeue_valid:
  assumes v: "valid s" and ok: "lm_inv h s" and r: "live_request s r" and run: "internal_dequeue r s = Some s'"
  shows "valid s'" "queue_limit s \<Longrightarrow> queue_limit s'"
proof -
  let ?s1 = "post_history his_deq (int (lrq_owner (requests s r))) (lrq_lock (requests s r)) r True s"
  let ?s = "upd_req r (\<lambda>q. q\<lparr>lrq_ast_routine := 0\<rparr>) ?s1"
  have s': "s' = release_request r ?s" using run by (auto simp: internal_dequeue_def get_request_def split: if_splits)
  have v1: "valid ?s1" by (rule valid_history [OF v]) simp
  have "valid ?s"
    by (rule valid_request [OF v1, of _ r "(requests s r)\<lparr>lrq_ast_routine := 0\<rparr>"])
       (use validD(1,2) [OF v, of r] in \<open>simp_all add: request_ok_def level_ok_def waiting_def same_header_def\<close>)
  moreover have "lm_inv h ?s" by (rule lm_inv_conversion_fields(4) [OF lm_inv_history [OF ok]])
  moreover have "live_request ?s r" using r by (simp add: live_request_def)
  ultimately show "valid s'" unfolding s' by (metis release_live_valid)
  have "length (lbl_requests (locks s' l)) \<le> length (lbl_requests (locks s l))" for l
    using release_queues [of r ?s l] by (simp add: s')
  then show "queue_limit s \<Longrightarrow> queue_limit s'" unfolding queue_limit_def by (meson le_less_trans)
qed

lemma counter_valid:
  "valid s \<Longrightarrow> valid (s\<lparr>lhb_enqs := n\<rparr>)" "valid s \<Longrightarrow> valid (s\<lparr>lhb_converts := n\<rparr>)"
  "valid s \<Longrightarrow> valid (s\<lparr>lhb_downgrades := n\<rparr>)" "valid s \<Longrightarrow> valid (s\<lparr>lhb_deqs := n\<rparr>)"
  "valid s \<Longrightarrow> valid (s\<lparr>lhb_read_data := n\<rparr>)" "valid s \<Longrightarrow> valid (s\<lparr>lhb_write_data := n\<rparr>)"
  "valid s \<Longrightarrow> valid (s\<lparr>lhb_query_data := n\<rparr>)"
  by (erule valid_same, simp_all add: same_header_def)+

lemma enqueue_valid:
  assumes v: "valid s" and ok: "lm_inv (env_hash env) s" and w: "w \<in> set (lhb_owners s)" and room: "queue_limit s"
    and grow: "can_grow (env_remap env)" and val: "length val \<le> 248" and t: "type \<noteq> LCK_none"
    and prior: "prior \<noteq> 0 \<Longrightarrow> live_request s prior"
    and run: "enqueue env prior series val type ast arg data lck_wait w s = Some (a, s')"
  shows "valid s'"
proof (cases "w = 0 \<or> own_count (owners s w) = 0")
  case True
  then show ?thesis using v run by (simp add: enqueue_def)
next
  case False
  let ?h = "env_hash env"
  let ?se = "s\<lparr>lhb_enqs := lhb_enqs s + 1\<rparr>"
  have oke: "lm_inv ?h ?se" "valid ?se" by (rule lm_inv_counter(1) [OF ok], rule counter_valid(1) [OF v])
  define deq where "deq = (if prior \<noteq> 0 then internal_dequeue prior ?se else Some ?se)"
  obtain s1 where s1: "deq = Some s1"
    using run False unfolding enqueue_def Let_def deq_def [symmetric] by (cases deq) auto
  have ok1: "lm_inv ?h s1 \<and> w \<in> set (lhb_owners s1) \<and> valid s1 \<and> queue_limit s1"
  proof (cases "prior = 0")
    case True
    then have eq: "s1 = ?se" using s1 by (simp add: deq_def)
    show ?thesis using oke w room unfolding eq by (simp add: queue_limit_def)
  next
    case False
    then have d: "internal_dequeue prior ?se = Some s1" using s1 by (simp add: deq_def)
    have p: "live_request ?se prior" using prior [OF False] by (simp add: live_request_def)
    show ?thesis using internal_dequeue_inv [OF oke(1) p d] internal_dequeue_valid [OF oke(2,1) p d] internal_dequeue_keeps(1) [OF d] w room
      by (simp add: queue_limit_def)
  qed
  show ?thesis
  proof (cases "get_free_request (env_remap env) s1")
    case None
    then show ?thesis using run ok1 s1 False unfolding enqueue_def Let_def deq_def [symmetric] by simp
  next
    case (Some p)
    obtain r s2 where get: "get_free_request (env_remap env) s1 = Some (r, s2)" using Some by (cases p) auto
    note G = get_free_request_result [OF conjunct1 [OF ok1] get]
    have v2: "valid s2" using get_free_request_valid [OF _ get grow] ok1 by blast
    have w2: "w \<in> set (lhb_owners s2)" and room2: "queue_limit s2" using ok1 G(4,6) by (simp_all add: queue_limit_def)
    let ?s3 = "init_request r w type ast arg s2"
    obtain found slot where find: "find_lock ?h series val ?s3 = (found, slot)" by (cases "find_lock ?h series val ?s3")
    have run2: "(case found of Some l \<Rightarrow> Some (grant_or_que env r l lck_wait (upd_req r (\<lambda>q. q\<lparr>lrq_data := data\<rparr>)
            (upd_lock l (\<lambda>b. b\<lparr>lbl_requests := lbl_requests b @ [r]\<rparr>) (count_operation series ?s3))))
        | None \<Rightarrow> (case alloc_lock (env_remap env) (length val) ?s3 of
            None \<Rightarrow> Some (Refused (Some isc_lockmanerr), free_request r (upd_own w (\<lambda>o'. o'\<lparr>own_requests := remove1 r (own_requests o')\<rparr>) ?s3))
          | Some (l, s) \<Rightarrow> (let s = init_lock l series val type data s;
                                       s = s\<lparr>lhb_hash := (lhb_hash s)(slot := lhb_hash s slot @ [l])\<rparr>;
                                       s = upd_lock l (\<lambda>b. b\<lparr>lbl_requests := lbl_requests b @ [r]\<rparr>) s;
                                       s = upd_req r (\<lambda>q. q\<lparr>lrq_lock := l\<rparr>) s
                                   in Some (Request r, grant r l s)))) = Some (a, s')"
      using run False s1 get find unfolding enqueue_def Let_def deq_def [symmetric] by (cases found) simp_all
    show ?thesis
    proof (cases found)
      case (Some l)
      have "find_in_chain series val (locks s2) (lhb_hash s2 (?h val mod lhb_hash_slots s2)) = Some l"
        using find Some by (auto simp: find_lock_def Let_def)
      then have "l \<in> set (lhb_hash s2 (?h val mod lhb_hash_slots s2))" by (blast dest: find_in_chain_some)
      then have l: "lbl_in_use (locks s2 l)" using hash_okD(1) [OF names_okD(1) [OF lm_invD(3) [OF G(1)]]] by blast
      have len: "length (lbl_requests (locks s2 l)) < 32767" using room2 unfolding queue_limit_def by blast
      have "s' = snd (grant_or_que env r l lck_wait (upd_req r (\<lambda>q. q\<lparr>lrq_data := data\<rparr>)
            (upd_lock l (\<lambda>b. b\<lparr>lbl_requests := lbl_requests b @ [r]\<rparr>) (count_operation series ?s3))))"
        using run2 unfolding Some by simp
      then show ?thesis using enqueue_found_valid [OF v2 G(1,2) w2 l len t] by (simp only:)
    next
      case None
      show ?thesis
      proof (cases "alloc_lock (env_remap env) (length val) ?s3")
        case a: None
        then have "s' = free_request r (upd_own w (\<lambda>o'. o'\<lparr>own_requests := remove1 r (own_requests o')\<rparr>) ?s3)"
          using run2 unfolding None by simp
        then show ?thesis using enqueue_failed_valid [OF v2 G(1,2)] by (simp only:)
      next
        case (Some q)
        obtain l s4 where a: "alloc_lock (env_remap env) (length val) ?s3 = Some (l, s4)" using Some by (cases q) auto
        have "s' = grant r l (upd_req r (\<lambda>q. q\<lparr>lrq_lock := l\<rparr>) (upd_lock l (\<lambda>b. b\<lparr>lbl_requests := lbl_requests b @ [r]\<rparr>)
            ((init_lock l series val type data s4)\<lparr>lhb_hash := (lhb_hash (init_lock l series val type data s4))
               (slot := lhb_hash (init_lock l series val type data s4) slot @ [l])\<rparr>)))"
          using run2 unfolding None option.case a prod.case Let_def by (simp only: option.inject prod.inject)
        then show ?thesis using enqueue_created_valid [OF v2 G(1,2) t grow val a] by (simp only:)
      qed
    qed
  qed
qed

section \<open>The other calls\<close>

lemma dequeue_valid:
  assumes v: "valid s" and ok: "lm_inv h s" and r: "live_request s r" and run: "dequeue env r s = Some (b, s')"
  shows "valid s'"
proof (cases "own_count (owners s (lrq_owner (requests s r))) = 0")
  case True
  then show ?thesis using run v by (auto simp: dequeue_def get_request_def split: if_splits)
next
  case False
  let ?s = "count_operation (lbl_series (locks s (lrq_lock (requests s r)))) (s\<lparr>lhb_deqs := lhb_deqs s + 1\<rparr>)"
  have d: "internal_dequeue r ?s = Some s'"
    using run False by (auto simp: dequeue_def get_request_def split: if_splits option.splits)
  have "valid ?s" by (rule count_operation_valid [OF counter_valid(4) [OF v]])
  moreover have "lm_inv h ?s" by (rule lm_inv_count_operation [OF lm_inv_counter(4) [OF ok]])
  ultimately show ?thesis by (rule internal_dequeue_valid(1) [OF _ _ _ d]) (use r in \<open>simp add: live_request_def\<close>)
qed

lemma lock_convert_valid:
  assumes v: "valid s" and ok: "lm_inv (env_hash env) s" and r: "granted_request s r" and t: "type \<noteq> LCK_none"
    and run: "lock_convert env r type lck_wait ast arg s = Some (a, s')"
  shows "valid s'"
proof (cases "own_count (owners s (lrq_owner (requests s r))) = 0")
  case True
  then show ?thesis using run v by (auto simp: lock_convert_def get_request_def split: if_splits)
next
  case False
  let ?s = "count_operation (lbl_series (locks s (lrq_lock (requests s r)))) (s\<lparr>lhb_converts := lhb_converts s + 1\<rparr>)"
  have c: "internal_convert env r type lck_wait ast arg ?s = Some (a, s')"
    using run False by (auto simp: lock_convert_def get_request_def split: if_splits option.splits)
  have "valid ?s" by (rule count_operation_valid [OF counter_valid(2) [OF v]])
  moreover have "lm_inv (env_hash env) ?s" by (rule lm_inv_count_operation [OF lm_inv_counter(2) [OF ok]])
  ultimately show ?thesis
    by (rule internal_convert_valid [OF _ _ _ t c]) (use r in \<open>simp add: granted_request_def live_request_def\<close>)
qed

lemma downgrade_valid:
  assumes v: "valid s" and ok: "lm_inv (env_hash env) s" and r: "granted_request s r"
    and run: "downgrade env r s = Some (a, s')"
  shows "valid s'"
proof (cases "own_count (owners s (lrq_owner (requests s r))) = 0")
  case True
  then show ?thesis using run v by (auto simp: downgrade_def get_request_def split: if_splits)
next
  case False
  let ?s = "s\<lparr>lhb_downgrades := lhb_downgrades s + 1\<rparr>"
  have ok': "lm_inv (env_hash env) ?s" by (rule lm_inv_counter(3) [OF ok])
  have v': "valid ?s" by (rule counter_valid(3) [OF v])
  have r': "granted_request ?s r" "live_request ?s r" using r by (simp_all add: granted_request_def live_request_def)
  have "internal_dequeue r ?s = Some s' \<or> (\<exists>a st. st \<noteq> LCK_none \<and>
      internal_convert env r st 0 (lrq_ast_routine (requests s r)) (lrq_ast_argument (requests s r)) ?s = Some (a, s'))"
    using run False by (auto simp: downgrade_def get_request_def Let_def split: if_splits option.splits)
  then show ?thesis using internal_dequeue_valid(1) [OF v' ok' r'(2)] internal_convert_valid [OF v' ok' r'(1)] by blast
qed

lemma writeData_valid:
  assumes v: "valid s" and run: "writeData r data s = Some (d, s')"
  shows "valid s'"
proof -
  let ?s = "s\<lparr>lhb_write_data := lhb_write_data s + 1\<rparr>" and ?l = "lrq_lock (requests s r)"
  have "valid (set_data ?l data ?s)"
    by (rule valid_same [OF counter_valid(6) [OF v, of "lhb_write_data s + 1"]])
       (simp_all add: same_block_def headers)
  note w = count_operation_valid [OF this]
  have "s' = count_operation (lbl_series (locks s ?l)) (set_data ?l data ?s)"
    using run by (auto simp: writeData_def get_request_def Let_def split: if_splits)
  then show ?thesis using w by (simp only:)
qed

lemma readData_valid: "valid s \<Longrightarrow> readData r s = Some (d, s') \<Longrightarrow> valid s'"
  by (auto simp: readData_def get_request_def Let_def intro: count_operation_valid counter_valid split: if_splits)

lemma readData2_valid: "valid s \<Longrightarrow> valid (snd (readData2 env series val w s))"
  by (simp add: readData2_def Let_def count_operation_valid counter_valid)

lemma queryData_valid: "valid s \<Longrightarrow> valid (snd (queryData series agg s))"
  by (simp add: queryData_def Let_def counter_valid)

lemma cancelWait_valid: "valid s \<Longrightarrow> valid (snd (cancelWait w s))"
  by (auto simp: cancelWait_def intro: valid_wakeup)

lemma repost_valid:
  assumes v: "valid s" and ok: "lm_inv h s" and grow: "can_grow (env_remap env)"
  shows "valid (repost env ast arg w s)"
proof (cases "get_free_request (env_remap env) s")
  case None
  then show ?thesis using v by (simp add: repost_def)
next
  case (Some a)
  obtain r s1 where a: "a = (r, s1)" by (cases a)
  note G = get_free_request_result [OF ok Some [unfolded a]] and v1 = get_free_request_valid [OF v Some [unfolded a] grow]
  define f :: "lrq \<Rightarrow> lrq" where "f = (\<lambda>q. q\<lparr>lrq_in_use := True, LRQ_blocking := False, LRQ_pending := False,
       LRQ_rejected := False, LRQ_deadlock := False, LRQ_repost := True, LRQ_scanned := False,
       LRQ_blocking_seen := False, LRQ_just_granted := False, LRQ_wait_timeout := False,
       lrq_ast_routine := ast, lrq_ast_argument := arg, lrq_requested := LCK_none,
       lrq_state := LCK_none, lrq_owner := w, lrq_lock := 0\<rparr>)"
  let ?s2 = "upd_own w (\<lambda>o'. o'\<lparr>own_blocks := own_blocks o' @ [r]\<rparr>) (upd_req r f s1)"
  have 2: "valid ?s2"
    by (rule valid_unqueued [OF v1, of _ r "f (requests s1 r)"])
       (use fresh_apart [OF v1 G(1,2)] in \<open>simp_all add: f_def request_ok_def level_ok_def same_header_def\<close>)
  have "repost env ast arg w s = (if w = 0 then s else if \<not> OWN_signaled (owners ?s2 w) then snd (signal_owner env w ?s2) else ?s2)"
    using Some unfolding repost_def a f_def by (simp only: option.case prod.case Let_def)
  then show ?thesis using 2 v signal_valid [OF 2] by simp
qed

section \<open>Beginning and end of use\<close>

lemma alloc_history_used:
  "alloc_history can_remap i ring s = Some (ring', s') \<Longrightarrow> can_grow can_remap \<Longrightarrow> lhb_used s \<le> lhb_length s \<Longrightarrow>
    lhb_used s' \<le> lhb_length s'"
  by (induction can_remap i ring s rule: alloc_history.induct) (auto split: option.splits dest: alloc_used)

lemma initialize_valid:
  assumes run: "initialize can_remap slots len = Some s" and grow: "can_grow can_remap"
    and fits: "sizeof_lhb + hash_slots slots * 8 \<le> len"
  shows "valid s"
proof -
  note B = initialize_blank [OF run]
  define s0 where "s0 = zero_lhb\<lparr>lhb_hash_slots := hash_slots slots, lhb_length := len,
    lhb_used := FB_ALIGN (sizeof_lhb + hash_slots slots * 8) 8\<rparr>"
  have "FB_ALIGN (sizeof_lhb + hash_slots slots * 8) 8 = sizeof_lhb + hash_slots slots * 8"
    by (simp add: FB_ALIGN_def sizeof_lhb_def)
  then have 0: "lhb_used s0 \<le> lhb_length s0" using fits by (simp add: s0_def)
  obtain b s1 where 1: "alloc_block can_remap sizeof_shb s0 = Some (b, s1)"
    using run by (auto simp: initialize_def s0_def Let_def split: option.splits)
  obtain r2 s2 where 2: "alloc_history can_remap HISTORY_BLOCKS [] s1 = Some (r2, s2)"
    using run 1 by (auto simp: initialize_def s0_def Let_def split: option.splits)
  obtain r3 s3 where 3: "alloc_history can_remap HISTORY_BLOCKS [] (s2\<lparr>lhb_history := r2\<rparr>) = Some (r3, s3)"
    using run 1 2 by (auto simp: initialize_def s0_def Let_def split: option.splits)
  have s: "s = s3\<lparr>shb_history := r3\<rparr>"
    using run 1 2 3 by (auto simp: initialize_def s0_def Let_def split: option.splits)
  have "lhb_used s2 \<le> lhb_length s2" by (rule alloc_history_used [OF 2 grow alloc_used [OF 1 grow 0]])
  then have "lhb_used s3 \<le> lhb_length s3" by (intro alloc_history_used [OF 3 grow]) simp
  then have "lhb_used s \<le> lhb_length s" by (simp add: s)
  then have "header_ok s" using B(1) by (simp add: header_ok_def history_ok_def B(2,3) blank_def zero_own_def zero_his_def)
  then show ?thesis
    using B(1) by (intro validI) (simp_all add: blank_def request_ok_def level_ok_def block_ok_def view_ok_def queue_view_def zero_lrq_def zero_lbl_def)
qed

lemma create_process_valid:
  assumes v: "valid s" and ok: "lm_inv (env_hash env) s" and grow: "can_grow (env_remap env)" and run: "create_process env 0 s = (b, p', s')"
  shows "valid s'"
proof -
  define s1 where "s1 = (case find_process (env_pid env) (processes s) (lhb_processes s) of
    None \<Rightarrow> s | Some q \<Rightarrow> purge_process env q s)"
  have 1: "valid s1"
    using v purge_process_valid [OF ok v] by (simp add: s1_def split: option.split)
  let ?take = "case lhb_free_processes s1 of [] \<Rightarrow> alloc_block (env_remap env) sizeof_prc s1
      | q # qs \<Rightarrow> Some (q, s1\<lparr>lhb_free_processes := qs\<rparr>)"
  show ?thesis
  proof (cases ?take)
    case None
    then show ?thesis using run 1 unfolding create_process_def s1_def [symmetric] Let_def by simp
  next
    case (Some a)
    obtain q s2 where a: "a = (q, s2)" by (cases a)
    have 2: "valid s2"
    proof (cases "lhb_free_processes s1")
      case Nil
      then show ?thesis using alloc_block_valid [OF 1 _ grow] Some a by simp
    next
      case (Cons x xs)
      then have "s2 = s1\<lparr>lhb_free_processes := xs\<rparr>" using Some a by simp
      then show ?thesis using valid_same [OF 1, of s2] by (simp add: same_header_def)
    qed
    have "valid (s2\<lparr>processes := ps, lhb_processes := xs\<rparr>)" for ps xs
      by (rule valid_same [OF 2]) (simp_all add: same_header_def)
    then show ?thesis using run Some a
      unfolding create_process_def s1_def [symmetric] Let_def by (auto split: if_splits)
  qed
qed

lemma create_owner_valid:
  assumes v: "valid s" and ok: "lm_inv (env_hash env) s" and p: "p \<noteq> 0 \<Longrightarrow> p \<in> set (lhb_processes s)"
    and grow: "can_grow (env_remap env)" and t: "t \<le> 2" and run: "create_owner env p i t s = (p', w, s')"
  shows "valid s'"
proof -
  obtain b q s1 where 1: "(if p = 0 then create_process env p s else (True, p, s)) = (b, q, s1)" by (cases "if p = 0 then create_process env p s else (True, p, s)")
  have ok1: "lm_inv (env_hash env) s1 \<and> (b \<longrightarrow> q \<in> set (lhb_processes s1))"
    using create_process_inv [OF ok, of b q s1] 1 ok p by (cases "p = 0") auto
  have v1: "valid s1" using create_process_valid [OF v ok grow, of b q s1] 1 v by (cases "p = 0") auto
  show ?thesis
  proof (cases b)
    case False
    then show ?thesis using run 1 v1 by (simp add: create_owner_def)
  next
    case True
    have q: "q \<in> set (lhb_processes s1)" using ok1 True by blast
    define s2 where "s2 = (case find_owner i t (owners s1) (lhb_owners s1) of None \<Rightarrow> s1 | Some v \<Rightarrow> purge_owner env (- 1) v s1)"
    have 2: "lm_inv (env_hash env) s2 \<and> lhb_processes s2 = lhb_processes s1"
      using ok1 purge_owner_inv(1,3) [of env s1] find_owner_member by (fastforce simp: s2_def split: option.split)
    have v2: "valid s2" using v1 purge_owner_valid [OF conjunct1 [OF ok1] v1] by (simp add: s2_def split: option.split)
    let ?take = "case lhb_free_owners s2 of [] \<Rightarrow> alloc_block (env_remap env) sizeof_own s2
      | v # vs \<Rightarrow> Some (v, s2\<lparr>lhb_free_owners := vs\<rparr>)"
    have run': "(p', w, s') = (case ?take of None \<Rightarrow> (q, 0, s2)
        | Some (w, s) \<Rightarrow> (case init_owner_block env q w t i s of (False, s) \<Rightarrow> (q, 0, s)
          | (True, s) \<Rightarrow> (let s = s\<lparr>lhb_owners := lhb_owners s @ [w],
              processes := (processes s)(q := (processes s q)\<lparr>prc_owners := prc_owners (processes s q) @ [w]\<rparr>)\<rparr>
            in (q, w, snd (probe_processes env s)))))"
      using run 1 True unfolding create_owner_def s2_def by (simp only: Let_def prod.case bool.case)
    show ?thesis
    proof (cases ?take)
      case None
      then show ?thesis using run' v2 by simp
    next
      case (Some a)
      obtain x s3 where a: "a = (x, s3)" by (cases a)
      note T = take_owner [OF conjunct1 [OF 2] Some [unfolded a]]
      have v3: "valid s3"
      proof (cases "lhb_free_owners s2")
        case Nil
        then show ?thesis using alloc_block_valid [OF v2 _ grow] Some a by simp
      next
        case (Cons y ys)
        then have "s3 = s2\<lparr>lhb_free_owners := ys\<rparr>" using Some a by simp
        then show ?thesis using valid_header [OF v2, of s3] validD(5) [OF v2] Cons by (simp add: header_ok_def)
      qed
      obtain b' s4 where 4: "init_owner_block env q x t i s3 = (b', s4)" by (cases "init_owner_block env q x t i s3")
      have x: "x \<notin> set (lhb_free_owners s3)" using T(2) by (simp add: fresh_owner_def)
      have v4: "valid s4"
        by (rule valid_header [OF v3])
           (use 4 validD(5) [OF v3] x t in \<open>auto simp: init_owner_block_def header_ok_def upd_own_def\<close>)
      let ?s5 = "s4\<lparr>lhb_owners := lhb_owners s4 @ [x],
              processes := (processes s4)(q := (processes s4 q)\<lparr>prc_owners := prc_owners (processes s4 q) @ [x]\<rparr>)\<rparr>"
      have v5: "valid ?s5" by (rule valid_same [OF v4]) (simp_all add: same_header_def)
      have "q \<in> set (lhb_processes s3)" using q 2 T(3) by simp
      note B = add_owner_block [OF T(1,2) this 4]
      show ?thesis using run' Some a 4 v4 probe_processes_valid [OF B(2) v5] by (cases b') (simp_all add: Let_def)
    qed
  qed
qed

lemma initializeOwner_valid:
  assumes v: "valid s" and ok: "lm_inv (env_hash env) s" and p: "p \<noteq> 0 \<Longrightarrow> p \<in> set (lhb_processes s)"
    and grow: "can_grow (env_remap env)" and t: "t \<le> 2" and run: "initializeOwner env p i t handle s = (b, p', w, s')"
  shows "valid s'"
proof (cases "handle = 0")
  case True
  then show ?thesis using create_owner_valid [OF v ok p grow t] run
    by (cases "create_owner env p i t s") (simp add: initializeOwner_def)
next
  case False
  then have "s' = upd_own handle (\<lambda>o'. o'\<lparr>own_count := own_count o' + 1\<rparr>) s" using run by (auto simp: initializeOwner_def)
  then show ?thesis using valid_upd_own [OF v] by simp
qed

section \<open>Every table that can be reached\<close>

lemma lm_caller_grow: "lm_caller h env \<Longrightarrow> can_grow (env_remap env)" by (simp add: lm_caller_def can_grow_def)

lemma lm_step_valid:
  assumes step: "lm_step h s s'" and ok: "lm_inv h s" and v: "valid s"
  shows "valid s'"
  using step
proof cases
  case (attach env p owner_type owner_id handle b p' w)
  then show ?thesis using initializeOwner_valid [OF v, of env p] ok lm_callerD lm_caller_grow by blast
next
  case (last_use w)
  then show ?thesis using valid_upd_own [OF v] v by (simp add: shutdown_begin_def Let_def)
next
  case (detach env w)
  then show ?thesis using purge_owner_valid [OF ok v] by (auto simp: shutdown_end_def split: if_splits)
next
  case (enqueue env w series val type prior ast arg data lck_wait a)
  then show ?thesis using enqueue_valid [OF v, of env w val type prior series] ok lm_callerD lm_caller_grow by blast
next
  case (enqueue_resume env r lck_wait)
  then show ?thesis using grant_or_que_resume_valid [OF v ok] by simp
next
  case (convert env r type lck_wait ast arg a)
  then show ?thesis using lock_convert_valid [OF v, of env r type] ok lm_callerD by blast
next
  case (convert_resume r new_ast lck_wait ast arg)
  then show ?thesis using internal_convert_resume_valid [OF v ok] by simp
next
  case (wait env r lck_wait scan_interval lock_timeout deadlock_timeout now cancelled "done" t)
  have "lm_inv (env_hash env) s" using ok lm_callerD [OF wait(1)] by simp
  then obtain res where "wait_turn env r lck_wait scan_interval lock_timeout deadlock_timeout now cancelled s = Some res"
    "valid (snd (snd res))"
    by (rule checked.wait_turn_kept [OF _ v wait(2)])
  then show ?thesis using wait(3) by (cases res) simp
next
  case (downgrade env r level)
  then show ?thesis using downgrade_valid [OF v, of env r] ok lm_callerD by blast
next
  case (dequeue env r b)
  then show ?thesis using dequeue_valid [OF v ok] by blast
next
  case (repost env w ast arg)
  then show ?thesis using repost_valid [OF v ok] lm_caller_grow by simp
next
  case (cancel w)
  then show ?thesis using cancelWait_valid [OF v] by simp
next
  case (notice w)
  then show ?thesis using blocking_step_valid [OF v] by simp
next
  case (notice_done w)
  then show ?thesis using valid_upd_own [OF v] by (simp add: blocking_return_def)
next
  case (query series agg)
  then show ?thesis using queryData_valid [OF v] by simp
next
  case (read_request r d)
  then show ?thesis using readData_valid [OF v] by blast
next
  case (read_key env series val w)
  then show ?thesis using readData2_valid [OF v] by simp
next
  case (write_request r data d)
  then show ?thesis using writeData_valid [OF v] by blast
qed

lemma reachable_valid: "lm_reachable h s \<Longrightarrow> valid s"
proof (induction rule: lm_reachable.induct)
  case (reach_initialize slots len can_remap s)
  then show ?case by (intro initialize_valid) (simp_all add: can_grow_def)
next
  case (reach_step s s')
  then show ?case using lm_step_valid reachable_inv by blast
qed

end
