(* ===== verification/LockValidate.thy ===== *)
theory LockValidate
  imports LockKept LockScenario
begin

text \<open>
  The checks of a debugging build hold of every table that can be reached, and a request that
  waits has a reason to: the properties of the whole table.
\<close>

section \<open>The checks follow from the invariant\<close>

lemma validate_history_ok:
  "(\<forall>h \<in> set hs. his_operation h \<le> his_MAX) \<Longrightarrow> n + length hs \<le> HISTORY_BLOCKS + 1 \<Longrightarrow> validate_history n hs"
  by (induction n hs rule: validate_history.induct) (auto simp: Let_def)

lemma history_ok_validate: "history_ok hs \<Longrightarrow> validate_history 0 hs"
  by (intro validate_history_ok) (simp_all add: history_ok_def)

lemma small_count: "unat (x :: USHORT) < 32768 \<Longrightarrow> x AND 0x8000 = 0"
proof -
  assume "unat x < 32768"
  then have "x < 2 ^ 15" by (simp add: word_less_nat_alt)
  then have "x AND mask 15 = x" by (rule less_mask_eq)
  then have "x AND 0x8000 = x AND (mask 15 AND 0x8000)" by (simp add: and.assoc [symmetric])
  also have "mask 15 AND 0x8000 = (0 :: USHORT)" by (simp add: mask_eq_exp_minus_1)
  finally show ?thesis by simp
qed

lemma count_once: "distinct xs \<Longrightarrow> x \<in> set xs \<Longrightarrow> count_list xs x = 1"
  by (induction xs) (auto simp: count_list_0_iff)

text \<open>The level of a granted request is the lock's state or compatible with it.\<close>

lemma granted_fits:
  assumes t: "table_ok s" and l: "lbl_in_use (locks s l)" and x: "x \<in> set (lbl_requests (locks s l))"
    and g: "lrq_requested (requests s x) = lrq_state (requests s x)"
  shows "lrq_requested (requests s x) = lbl_state (locks s l) \<or> compatibility (lrq_requested (requests s x)) (lbl_state (locks s l))"
proof -
  note D = lock_okD [OF table_okD(1) [OF t l]]
  note Q = queue_okD [OF D(1)]
  let ?m = "lbl_state (locks s l)"
  show ?thesis
  proof (cases "?m = LCK_none")
    case False
    then have "lbl_counts (locks s l) ?m \<noteq> 0" unfolding D(2) by (rule lock_state_held)
    then have "(of_nat (count_list (map (\<lambda>r. lrq_state (requests s r)) (lbl_requests (locks s l))) ?m) :: USHORT) \<noteq> 0"
      using Q(6) [OF False] by simp
    then have "count_list (map (\<lambda>r. lrq_state (requests s r)) (lbl_requests (locks s l))) ?m \<noteq> 0"
      by (rule contrapos_nn) simp
    then have "?m \<in> (\<lambda>r. lrq_state (requests s r)) ` set (lbl_requests (locks s l))" by (simp add: count_list_0_iff)
    then obtain y where y: "y \<in> set (lbl_requests (locks s l))" "lrq_state (requests s y) = ?m" by (metis imageE)
    then show ?thesis using Q(8) [OF x y(1)] g by (cases "x = y") auto
  qed simp
qed

lemma validate_requests_ok:
  assumes "\<And>x. x \<in> set rs \<Longrightarrow> lrq_lock (requests s x) = l"
    "\<And>x. x \<in> set rs \<Longrightarrow> \<not> LRQ_pending (requests s x) \<Longrightarrow> LRQ_rejected (requests s x) \<or>
      lrq_requested (requests s x) = lbl_state (locks s l) \<or> compatibility (lrq_requested (requests s x)) (lbl_state (locks s l))"
    "i \<noteq> 0 \<or> waits_ok (lbl_state (locks s l)) (map (\<lambda>x. waiting (requests s x)) rs)"
    "distinct rs" "f + count_list rs r \<le> 1"
  shows "validate_requests s l False r rs f p i c = Some (f + count_list rs r,
    p + count_list (map (\<lambda>x. LRQ_pending (requests s x)) rs) True,
    \<lambda>v. c v + of_nat (count_list (map (\<lambda>x. lrq_state (requests s x)) rs) v))"
  using assms
proof (induction rs arbitrary: f p i c)
  case (Cons x rs)
  let ?q = "requests s x"
  let ?fits = "compatibility (lrq_requested ?q) (lbl_state (locks s l))"
  let ?f = "if x = r then f + 1 else f"
  let ?p = "if LRQ_pending ?q then p + 1 else p"
  let ?i = "if \<not> ?fits then i + 1 else i"
  let ?c = "c(lrq_state ?q := c (lrq_state ?q) + 1)"
  have f: "?f \<le> 1" "?f + count_list rs r \<le> 1" using Cons.prems(5) by auto
  have l: "lrq_lock ?q = l" using Cons.prems(1) by simp
  have first: "\<not> (False \<or> \<not> ?f \<le> 1 \<or> lrq_lock ?q \<noteq> l)" using f(1) l by simp
  have pend: "\<not> (LRQ_pending ?q \<and> \<not> (\<not> ?fits \<or> i \<noteq> 0))"
    using Cons.prems(3) by (auto simp: waiting_def)
  have grant: "\<not> (\<not> LRQ_pending ?q \<and> \<not> (LRQ_rejected ?q \<or> lrq_requested ?q = lbl_state (locks s l) \<or> ?fits))"
    using Cons.prems(2) [of x] by auto
  have i: "?i \<noteq> 0 \<or> waits_ok (lbl_state (locks s l)) (map (\<lambda>x. waiting (requests s x)) rs)"
    using Cons.prems(3) by (auto simp: waiting_def)
  have "validate_requests s l False r (x # rs) f p i c = validate_requests s l False r rs ?f ?p ?i ?c"
    unfolding validate_requests.simps Let_def if_not_P [OF first] if_not_P [OF pend] if_not_P [OF grant] ..
  also have "\<dots> = Some (?f + count_list rs r, ?p + count_list (map (\<lambda>x. LRQ_pending (requests s x)) rs) True,
      \<lambda>v. ?c v + of_nat (count_list (map (\<lambda>x. lrq_state (requests s x)) rs) v))"
    by (rule Cons.IH) (use Cons.prems(1,2,4) i f in \<open>auto\<close>)
  finally show ?case by (auto simp: fun_eq_iff)
qed simp

lemma validate_lock_ok:
  assumes v: "valid s" and t: "table_ok s" and l: "lbl_in_use (locks s l)" and r: "r \<in> set (lbl_requests (locks s l))"
  shows "validate_lock s l False r"
proof -
  note D = lock_okD [OF table_okD(1) [OF t l]] and V = validD [OF v]
  note Q = queue_okD [OF D(1)]
  let ?b = "locks s l" and ?rs = "lbl_requests (locks s l)"
  have B: "length (lbl_key ?b) \<le> lbl_size ?b" "length ?rs < 32768" "lbl_counts ?b LCK_none = 0"
    using V(3) [of l] by (simp_all add: block_ok_def)
  have small: "unat (of_nat (count_list (map f ?rs) u) :: USHORT) = count_list (map f ?rs) u"
    "count_list (map f ?rs) u < 32768" for f :: "nat \<Rightarrow> 'b" and u
  proof -
    have "count_list (map f ?rs) u \<le> length ?rs" by (metis count_le_length length_map)
    then show *: "count_list (map f ?rs) u < 32768" using B(2) by simp
    then show "unat (of_nat (count_list (map f ?rs) u) :: USHORT) = count_list (map f ?rs) u"
      by (intro unat_of_nat_eq) simp
  qed
  have counts: "lbl_counts ?b u AND 0x8000 = 0" for u
    using B(3) Q(6) [of u] small [of "\<lambda>r. lrq_state (requests s r)" u] by (cases "u = LCK_none") (auto intro!: small_count)
  have pend: "lbl_pending_lrq_count ?b AND 0x8000 = 0"
    unfolding Q(7) by (rule small_count) (simp only: small)
  have once: "count_list ?rs r = 1" using Q(1) r by (rule count_once)
  have run: "validate_requests s l False r ?rs 0 0 0 (\<lambda>_. 0) = Some (0 + count_list ?rs r,
      0 + count_list (map (\<lambda>x. LRQ_pending (requests s x)) ?rs) True,
      \<lambda>v. 0 + of_nat (count_list (map (\<lambda>x. lrq_state (requests s x)) ?rs) v))"
  proof (rule validate_requests_ok)
    show "lrq_lock (requests s x) = l" if "x \<in> set ?rs" for x using Q(5) [OF that] .
    show "LRQ_rejected (requests s x) \<or> lrq_requested (requests s x) = lbl_state ?b \<or> compatibility (lrq_requested (requests s x)) (lbl_state ?b)"
      if "x \<in> set ?rs" "\<not> LRQ_pending (requests s x)" for x
      using granted_fits [OF t l that(1)] V(2) [of x] queue_member(1,2) [OF t l that(1)] that(2) by (auto simp: level_ok_def)
    show "0 \<noteq> (0 :: nat) \<or> waits_ok (lbl_state ?b) (map (\<lambda>x. waiting (requests s x)) ?rs)"
      using V(4) [of l] by (simp add: view_ok_def queue_view_def)
  qed (use Q(1) once in simp_all)
  have held: "list_all (\<lambda>v. (0 :: USHORT) + of_nat (count_list (map (\<lambda>x. lrq_state (requests s x)) ?rs) v) = lbl_counts ?b v) held_levels"
    using Q(6) by (simp add: held_levels_def)
  show ?thesis
    unfolding validate_lock_def Let_def run
    using l B(1) counts pend once held small(1) [of "\<lambda>r. LRQ_pending (requests s r)" True] Q(7)
    by (simp add: held_levels_def)
qed

lemma validate_request_ok:
  assumes v: "valid s" and t: "table_ok s" and r: "lrq_in_use (requests s r)"
  shows "validate_request s r False"
proof -
  have "validate_lock s (lrq_lock (requests s r)) False r" if "\<not> LRQ_repost (requests s r)"
    using validate_lock_ok [OF v t table_okD(2,3) [OF t r that]] .
  then show ?thesis using validD(1) [OF v, of r] r by (auto simp: validate_request_def request_ok_def Let_def)
qed

lemma found_no_more: "r \<notin> set rs \<Longrightarrow> (\<forall>x \<in> set rs. lrq_owner (requests s x) = w) \<Longrightarrow> found_once s w r rs (Suc 0)"
  by (induction rs) auto

lemma found_once_ok:
  "distinct rs \<Longrightarrow> r \<in> set rs \<Longrightarrow> (\<And>x. x \<in> set rs \<Longrightarrow> lrq_owner (requests s x) = w) \<Longrightarrow> found_once s w r rs 0"
  by (induction rs) (auto simp: found_no_more)

lemma validate_owner_ok:
  assumes v: "valid s" and ok: "lm_inv h s"
  shows "validate_owner s w False"
proof -
  note O = owners_okD [OF lm_invD(2) [OF ok]] and t = lm_invD(1) [OF ok]
  have 1: "found_once s w r (own_requests (owners s w)) 0" if "lrq_in_use (requests s r)" "\<not> LRQ_repost (requests s r)" "lrq_owner (requests s r) = w" for r
    by (rule found_once_ok) (use O(1,7) that in auto)
  have 2: "found_once s w r (own_blocks (owners s w)) 0"
    if "lrq_in_use (requests s r)" "LRQ_blocking (requests s r)" "lrq_owner (requests s r) = w" for r
    by (rule found_once_ok) (use O(2,8) that in auto)
  have 3: "found_once s w r (own_pending (owners s w)) 0" if "LRQ_pending (requests s r)" "lrq_owner (requests s r) = w" for r
    by (rule found_once_ok) (use O(3,9) that in auto)
  have "own_owner_type (owners s w) \<le> 2" using validD(5) [OF v] by (simp add: header_ok_def)
  moreover have "validate_request s r False \<and> lrq_owner (requests s r) = w \<and>
      (LRQ_blocking (requests s r) \<longrightarrow> found_once s w r (own_blocks (owners s w)) 0) \<and>
      (LRQ_pending (requests s r) \<longrightarrow> found_once s w r (own_pending (owners s w)) 0 \<and> r \<in> set (lbl_requests (locks s (lrq_lock (requests s r)))))"
    if "r \<in> set (own_requests (owners s w))" for r
  proof -
    have r: "lrq_in_use (requests s r)" "\<not> LRQ_repost (requests s r)" "lrq_owner (requests s r) = w" using O(1) that by blast+
    show ?thesis using validate_request_ok [OF v t r(1)] 2 3 r table_okD(3) [OF t r(1,2)] by blast
  qed
  moreover have "validate_request s r False \<and> lrq_owner (requests s r) = w \<and>
      (LRQ_repost (requests s r) \<or> found_once s w r (own_requests (owners s w)) 0)"
    if "r \<in> set (own_blocks (owners s w))" for r
  proof -
    have r: "lrq_in_use (requests s r)" "lrq_owner (requests s r) = w" using O(2) that by blast+
    show ?thesis using validate_request_ok [OF v t r(1)] 1 r by blast
  qed
  moreover have "validate_request s r False \<and> lrq_owner (requests s r) = w \<and> \<not> LRQ_repost (requests s r) \<and>
      found_once s w r (own_requests (owners s w)) 0"
    if "r \<in> set (own_pending (owners s w))" for r
  proof -
    have "LRQ_pending (requests s r)" "lrq_owner (requests s r) = w" using O(3) that by blast+
    then show ?thesis using validate_request_ok [OF v t] 1 O(4,5) by blast
  qed
  ultimately show ?thesis unfolding validate_owner_def Let_def list_all_iff if_False not_False_eq_True simp_thms by blast
qed

lemma validate_free_lock:
  assumes v: "valid s" and l: "\<not> lbl_in_use (locks s l)"
  shows "validate_lock s l True 0"
proof -
  have b: "length (lbl_key (locks s l)) \<le> lbl_size (locks s l)" "lbl_requests (locks s l) = []"
    "unat (lbl_counts (locks s l) u) < 32768" "unat (lbl_pending_lrq_count (locks s l)) < 32768" for u
    using validD(3) [OF v, of l] l by (simp_all add: block_ok_def)
  show ?thesis using l b(1,2) small_count [OF b(3)] small_count [OF b(4)] by (simp add: validate_lock_def Let_def held_levels_def)
qed

section \<open>The whole table\<close>

text \<open>
  C3. The checks a debugging build makes of the whole table (\<open>validate_lhb\<close> with everything it
  calls) never fail: they hold of every table that can be reached, whoever has it.
\<close>

theorem reachable_validates:
  assumes "lm_reachable h s"
  shows "validate_lhb lhb_active_owner s"
proof -
  note ok = reachable_inv [OF assms] and v = reachable_valid [OF assms]
  note F = free_okD [OF table_okD(4) [OF lm_invD(1) [OF ok]]] and H = validD(5) [OF v]
  have "validate_owner s w True" if "w \<in> set (lhb_free_owners s)" for w
  proof -
    have "w \<notin> set (lhb_owners s)" using members_okD(2) [OF lm_invD(4) [OF ok]] that by auto
    then have "own_requests (owners s w) = [] \<and> own_blocks (owners s w) = [] \<and> own_pending (owners s w) = []"
      using stranger_empty [OF ok] by blast
    then show ?thesis using H that by (simp add: validate_owner_def header_ok_def)
  qed
  moreover have "validate_request s r True" if "r \<in> set (lhb_free_requests s)" for r
    using F(1) [OF that] validD(1) [OF v, of r] by (auto simp: validate_request_def request_ok_def Let_def)
  moreover have "validate_lock s l True 0" if "l \<in> set (lhb_free_locks s)" for l
    by (rule validate_free_lock [OF v]) (use F(4) [OF that] in simp)
  moreover have "validate_shb s" "validate_history 0 (lhb_history s)" "lhb_used s \<le> lhb_length s"
    using H history_ok_validate by (simp_all add: header_ok_def validate_shb_def)
  ultimately show ?thesis
    using validate_owner_ok [OF v ok] unfolding validate_lhb_def list_all_iff by blast
qed

theorem reachable_validates_witness: "validate_lhb 13680 demo6 \<and> lhb_owners demo6 \<noteq> []"
  using reachable_validates [OF reachable_demo6] by (simp add: demo_tables)

lemma waits_ok_nth:
  "waits_ok v (map f q) \<Longrightarrow> i < length q \<Longrightarrow> snd (f (q ! i)) \<Longrightarrow> \<exists>j \<le> i. \<not> compatibility (fst (f (q ! j))) v"
proof (induction q arbitrary: i)
  case (Cons x q)
  show ?case
  proof (cases i)
    case 0
    then show ?thesis using Cons.prems by (cases "f x") auto
  next
    case (Suc k)
    then show ?thesis using Cons.prems Cons.IH [of k] by (cases "f x") fastforce
  qed
qed simp

lemma first_waits_nth:
  "first_waits v (map f q) \<Longrightarrow> i < length q \<Longrightarrow> snd (f (q ! i)) \<Longrightarrow> (\<And>j. j < i \<Longrightarrow> \<not> snd (f (q ! j))) \<Longrightarrow>
    \<not> compatibility (fst (f (q ! i))) v"
proof (induction q arbitrary: i)
  case (Cons x q)
  show ?case
  proof (cases i)
    case 0
    then show ?thesis using Cons.prems by (cases "f x") auto
  next
    case (Suc k)
    have "\<not> snd (f x)" using Cons.prems(4) [of 0] Suc by simp
    moreover have "\<not> snd (f (q ! j))" if "j < k" for j using Cons.prems(4) [of "Suc j"] Suc that by simp
    ultimately show ?thesis using Cons.prems(1-3) Suc Cons.IH [of k] by (cases "f x") simp
  qed
qed simp



text \<open>What is left of a lock after a release.\<close>

lemma release_first_waits:
  assumes ok: "valid_except {r} {} s" and t: "table_ok s" and r: "lrq_in_use (requests s r)" "\<not> LRQ_repost (requests s r)"
  shows "first_waits (fst (queue_view (release_request r s) (lrq_lock (requests s r))))
    (snd (queue_view (release_request r s) (lrq_lock (requests s r))))"
proof -
  let ?l = "lrq_lock (requests s r)" and ?s1 = "unlink_request r s"
  show ?thesis
  proof (cases "lbl_requests (locks ?s1 ?l) = []")
    case True
    then have "lbl_requests (locks (release_request r s) ?l) = []"
      by (simp add: release_request_def Let_def free_lock_def remove_data_que_def)
    then show ?thesis by (simp add: queue_view_def)
  next
    case False
    have run: "release_request r s = post_pending ?l (drop_state ?l (lrq_state (requests s r)) ?s1)"
      using False by (simp add: release_request_def Let_def)
    have l: "lbl_in_use (locks ?s1 ?l)" using table_okD(2) [OF t r] by (simp add: unlink_locks Let_def)
    show ?thesis unfolding run
      by (rule post_pending_valid(2) [OF drop_state_valid [OF unlink_valid [OF assms] l] drop_unlink_ok [OF t r False]])
  qed
qed

lemma release_queue: "lbl_requests (locks (release_request r s) (lrq_lock (requests s r))) =
    remove1 r (lbl_requests (locks s (lrq_lock (requests s r))))"
  by (simp add: release_request_def Let_def drop_state_locks unlink_locks free_lock_def remove_data_que_def)

lemma post_pending_in_use: "lrq_in_use (requests (post_pending l s) r) = lrq_in_use (requests s r)"
proof -
  have "lrq_in_use (requests (pending_loop l rs s) r) = lrq_in_use (requests s r)" for rs
    by (induction l rs s rule: pending_loop.induct) (auto simp: Let_def grant_requests)
  moreover have "lrq_in_use (requests (just_granted_loop rs s) r) = lrq_in_use (requests s r)" for rs s
    by (induction rs s rule: just_granted_loop.induct) (simp_all add: Let_def)
  ultimately show ?thesis by (simp add: post_pending_def Let_def)
qed

lemma release_unused: "\<not> lrq_in_use (requests (release_request r s) r)"
  by (simp add: release_request_def Let_def post_pending_in_use unlink_requests free_lock_def remove_data_que_def)



end
