(* ===== verification/ClumpletTags.thy ===== *)
theory ClumpletTags
  imports Prelude
begin

text \<open>
  The codes of parameter blocks that the clumplet classes name: the versions and the tags of
  \<^verbatim>\<open>src/src/include/consts_pub.h\<close> and \<^verbatim>\<open>src/src/jrd/inf_pub.h\<close>, as bytes.
\<close>

named_theorems pb_tags \<open>the values of the codes\<close>

definition isc_dpb_version1 :: UCHAR where [pb_tags]: "isc_dpb_version1 = 1"
definition isc_dpb_version2 :: UCHAR where [pb_tags]: "isc_dpb_version2 = 2"
definition isc_tpb_lock_read :: UCHAR where [pb_tags]: "isc_tpb_lock_read = 10"
definition isc_tpb_lock_write :: UCHAR where [pb_tags]: "isc_tpb_lock_write = 11"
definition isc_tpb_lock_timeout :: UCHAR where [pb_tags]: "isc_tpb_lock_timeout = 21"
definition isc_spb_version1 :: UCHAR where [pb_tags]: "isc_spb_version1 = 1"
definition isc_spb_current_version :: UCHAR where [pb_tags]: "isc_spb_current_version = 2"
definition isc_spb_version :: UCHAR where [pb_tags]: "isc_spb_version = 2"
definition isc_spb_version3 :: UCHAR where [pb_tags]: "isc_spb_version3 = 3"
definition isc_spb_command_line :: UCHAR where [pb_tags]: "isc_spb_command_line = 105"
definition isc_spb_dbname :: UCHAR where [pb_tags]: "isc_spb_dbname = 106"
definition isc_spb_verbose :: UCHAR where [pb_tags]: "isc_spb_verbose = 107"
definition isc_spb_options :: UCHAR where [pb_tags]: "isc_spb_options = 108"
definition isc_spb_trusted_auth :: UCHAR where [pb_tags]: "isc_spb_trusted_auth = 111"
definition isc_spb_verbint :: UCHAR where [pb_tags]: "isc_spb_verbint = 114"
definition isc_spb_auth_block :: UCHAR where [pb_tags]: "isc_spb_auth_block = 115"
definition isc_spb_auth_plugin_name :: UCHAR where [pb_tags]: "isc_spb_auth_plugin_name = 116"
definition isc_spb_auth_plugin_list :: UCHAR where [pb_tags]: "isc_spb_auth_plugin_list = 117"
definition isc_spb_sql_role_name :: UCHAR where [pb_tags]: "isc_spb_sql_role_name = 60"
definition isc_action_svc_backup :: UCHAR where [pb_tags]: "isc_action_svc_backup = 1"
definition isc_action_svc_restore :: UCHAR where [pb_tags]: "isc_action_svc_restore = 2"
definition isc_action_svc_repair :: UCHAR where [pb_tags]: "isc_action_svc_repair = 3"
definition isc_action_svc_add_user :: UCHAR where [pb_tags]: "isc_action_svc_add_user = 4"
definition isc_action_svc_delete_user :: UCHAR where [pb_tags]: "isc_action_svc_delete_user = 5"
definition isc_action_svc_modify_user :: UCHAR where [pb_tags]: "isc_action_svc_modify_user = 6"
definition isc_action_svc_display_user :: UCHAR where [pb_tags]: "isc_action_svc_display_user = 7"
definition isc_action_svc_properties :: UCHAR where [pb_tags]: "isc_action_svc_properties = 8"
definition isc_action_svc_db_stats :: UCHAR where [pb_tags]: "isc_action_svc_db_stats = 11"
definition isc_action_svc_get_ib_log :: UCHAR where [pb_tags]: "isc_action_svc_get_ib_log = 12"
definition isc_action_svc_nbak :: UCHAR where [pb_tags]: "isc_action_svc_nbak = 20"
definition isc_action_svc_nrest :: UCHAR where [pb_tags]: "isc_action_svc_nrest = 21"
definition isc_action_svc_trace_start :: UCHAR where [pb_tags]: "isc_action_svc_trace_start = 22"
definition isc_action_svc_trace_stop :: UCHAR where [pb_tags]: "isc_action_svc_trace_stop = 23"
definition isc_action_svc_trace_suspend :: UCHAR where [pb_tags]: "isc_action_svc_trace_suspend = 24"
definition isc_action_svc_trace_resume :: UCHAR where [pb_tags]: "isc_action_svc_trace_resume = 25"
definition isc_action_svc_set_mapping :: UCHAR where [pb_tags]: "isc_action_svc_set_mapping = 27"
definition isc_action_svc_drop_mapping :: UCHAR where [pb_tags]: "isc_action_svc_drop_mapping = 28"
definition isc_action_svc_display_user_adm :: UCHAR where [pb_tags]: "isc_action_svc_display_user_adm = 29"
definition isc_action_svc_validate :: UCHAR where [pb_tags]: "isc_action_svc_validate = 30"
definition isc_info_svc_auth_block :: UCHAR where [pb_tags]: "isc_info_svc_auth_block = 69"
definition isc_spb_sec_userid :: UCHAR where [pb_tags]: "isc_spb_sec_userid = 5"
definition isc_spb_sec_groupid :: UCHAR where [pb_tags]: "isc_spb_sec_groupid = 6"
definition isc_spb_sec_username :: UCHAR where [pb_tags]: "isc_spb_sec_username = 7"
definition isc_spb_sec_password :: UCHAR where [pb_tags]: "isc_spb_sec_password = 8"
definition isc_spb_sec_groupname :: UCHAR where [pb_tags]: "isc_spb_sec_groupname = 9"
definition isc_spb_sec_firstname :: UCHAR where [pb_tags]: "isc_spb_sec_firstname = 10"
definition isc_spb_sec_middlename :: UCHAR where [pb_tags]: "isc_spb_sec_middlename = 11"
definition isc_spb_sec_lastname :: UCHAR where [pb_tags]: "isc_spb_sec_lastname = 12"
definition isc_spb_sec_admin :: UCHAR where [pb_tags]: "isc_spb_sec_admin = 13"
definition isc_spb_bkp_file :: UCHAR where [pb_tags]: "isc_spb_bkp_file = 5"
definition isc_spb_bkp_factor :: UCHAR where [pb_tags]: "isc_spb_bkp_factor = 6"
definition isc_spb_bkp_length :: UCHAR where [pb_tags]: "isc_spb_bkp_length = 7"
definition isc_spb_bkp_skip_data :: UCHAR where [pb_tags]: "isc_spb_bkp_skip_data = 8"
definition isc_spb_bkp_stat :: UCHAR where [pb_tags]: "isc_spb_bkp_stat = 15"
definition isc_spb_prp_page_buffers :: UCHAR where [pb_tags]: "isc_spb_prp_page_buffers = 5"
definition isc_spb_prp_sweep_interval :: UCHAR where [pb_tags]: "isc_spb_prp_sweep_interval = 6"
definition isc_spb_prp_shutdown_db :: UCHAR where [pb_tags]: "isc_spb_prp_shutdown_db = 7"
definition isc_spb_prp_deny_new_attachments :: UCHAR where [pb_tags]: "isc_spb_prp_deny_new_attachments = 9"
definition isc_spb_prp_deny_new_transactions :: UCHAR where [pb_tags]: "isc_spb_prp_deny_new_transactions = 10"
definition isc_spb_prp_reserve_space :: UCHAR where [pb_tags]: "isc_spb_prp_reserve_space = 11"
definition isc_spb_prp_write_mode :: UCHAR where [pb_tags]: "isc_spb_prp_write_mode = 12"
definition isc_spb_prp_access_mode :: UCHAR where [pb_tags]: "isc_spb_prp_access_mode = 13"
definition isc_spb_prp_set_sql_dialect :: UCHAR where [pb_tags]: "isc_spb_prp_set_sql_dialect = 14"
definition isc_spb_prp_force_shutdown :: UCHAR where [pb_tags]: "isc_spb_prp_force_shutdown = 41"
definition isc_spb_prp_attachments_shutdown :: UCHAR where [pb_tags]: "isc_spb_prp_attachments_shutdown = 42"
definition isc_spb_prp_transactions_shutdown :: UCHAR where [pb_tags]: "isc_spb_prp_transactions_shutdown = 43"
definition isc_spb_prp_shutdown_mode :: UCHAR where [pb_tags]: "isc_spb_prp_shutdown_mode = 44"
definition isc_spb_prp_online_mode :: UCHAR where [pb_tags]: "isc_spb_prp_online_mode = 45"
definition isc_spb_rpr_commit_trans :: UCHAR where [pb_tags]: "isc_spb_rpr_commit_trans = 15"
definition isc_spb_rpr_rollback_trans :: UCHAR where [pb_tags]: "isc_spb_rpr_rollback_trans = 34"
definition isc_spb_rpr_recover_two_phase :: UCHAR where [pb_tags]: "isc_spb_rpr_recover_two_phase = 17"
definition isc_spb_rpr_commit_trans_64 :: UCHAR where [pb_tags]: "isc_spb_rpr_commit_trans_64 = 49"
definition isc_spb_rpr_rollback_trans_64 :: UCHAR where [pb_tags]: "isc_spb_rpr_rollback_trans_64 = 50"
definition isc_spb_rpr_recover_two_phase_64 :: UCHAR where [pb_tags]: "isc_spb_rpr_recover_two_phase_64 = 51"
definition isc_spb_res_buffers :: UCHAR where [pb_tags]: "isc_spb_res_buffers = 9"
definition isc_spb_res_page_size :: UCHAR where [pb_tags]: "isc_spb_res_page_size = 10"
definition isc_spb_res_length :: UCHAR where [pb_tags]: "isc_spb_res_length = 11"
definition isc_spb_res_access_mode :: UCHAR where [pb_tags]: "isc_spb_res_access_mode = 12"
definition isc_spb_res_fix_fss_data :: UCHAR where [pb_tags]: "isc_spb_res_fix_fss_data = 13"
definition isc_spb_res_fix_fss_metadata :: UCHAR where [pb_tags]: "isc_spb_res_fix_fss_metadata = 14"
definition isc_spb_val_tab_incl :: UCHAR where [pb_tags]: "isc_spb_val_tab_incl = 1"
definition isc_spb_val_tab_excl :: UCHAR where [pb_tags]: "isc_spb_val_tab_excl = 2"
definition isc_spb_val_idx_incl :: UCHAR where [pb_tags]: "isc_spb_val_idx_incl = 3"
definition isc_spb_val_idx_excl :: UCHAR where [pb_tags]: "isc_spb_val_idx_excl = 4"
definition isc_spb_val_lock_timeout :: UCHAR where [pb_tags]: "isc_spb_val_lock_timeout = 5"
definition isc_spb_sts_table :: UCHAR where [pb_tags]: "isc_spb_sts_table = 64"
definition isc_spb_nbk_level :: UCHAR where [pb_tags]: "isc_spb_nbk_level = 5"
definition isc_spb_nbk_file :: UCHAR where [pb_tags]: "isc_spb_nbk_file = 6"
definition isc_spb_nbk_direct :: UCHAR where [pb_tags]: "isc_spb_nbk_direct = 7"
definition isc_spb_trc_id :: UCHAR where [pb_tags]: "isc_spb_trc_id = 1"
definition isc_spb_trc_name :: UCHAR where [pb_tags]: "isc_spb_trc_name = 2"
definition isc_spb_trc_cfg :: UCHAR where [pb_tags]: "isc_spb_trc_cfg = 3"
definition isc_info_end :: UCHAR where [pb_tags]: "isc_info_end = 1"
definition isc_info_truncated :: UCHAR where [pb_tags]: "isc_info_truncated = 2"
definition isc_info_error :: UCHAR where [pb_tags]: "isc_info_error = 3"
definition isc_info_data_not_ready :: UCHAR where [pb_tags]: "isc_info_data_not_ready = 4"
definition isc_info_length :: UCHAR where [pb_tags]: "isc_info_length = 126"
definition isc_info_flag_end :: UCHAR where [pb_tags]: "isc_info_flag_end = 127"

end
