(* ===== verification/ClumpletReader.thy ===== *)
theory ClumpletReader
  imports ClumpletTags MemoryRoutines
begin

text \<open>
  Reading parameter blocks: the class \<open>ClumpletReader\<close> of
  \<^verbatim>\<open>src/src/common/classes/ClumpletReader.cpp\<close> and \<^verbatim>\<open>ClumpletReader.h\<close>.

  A block is a list of bytes.  Offsets and sizes are natural numbers; the type \<open>FB_SIZE_T\<close> of
  the code has 32 bits, and what it computes is reduced where it may leave them.  The errors
  the class raises are values, without their texts; \<open>overread\<close> is a read beyond the end of the
  buffer, which the code would carry out.  A loop that does not end is \<open>None\<close>.
\<close>

definition FB_SIZE :: "nat \<Rightarrow> nat" where
  "FB_SIZE n = n mod 4294967296"

datatype Kind = EndOfList | Tagged | UnTagged | SpbAttach | SpbStart | Tpb | WideTagged | WideUnTagged
  | SpbSendItems | SpbReceiveItems

datatype ClumpletType = TraditionalDpb | SingleTpb | StringSpb | IntSpb | BigIntSpb | ByteSpb | Wide

datatype clumplet_error = usage_mistake | invalid_structure | size_overflow | overread

text \<open>The fields of the class; \<open>null_buffer\<close> tells that the buffer is the null pointer.\<close>

record pb =
  kind :: Kind
  null_buffer :: bool
  buffer :: bytes
  cur_offset :: nat
  spbState :: UCHAR

section \<open>The buffer and its tag\<close>

definition getBufferLength :: "'a pb_scheme \<Rightarrow> nat" where
  "getBufferLength s =
     (let rc = FB_SIZE (length (buffer s))
      in if rc = 1 \<and> kind s \<noteq> UnTagged \<and> kind s \<noteq> SpbStart \<and> kind s \<noteq> WideUnTagged \<and> kind s \<noteq> SpbSendItems \<and>
            kind s \<noteq> SpbReceiveItems
         then 0 else rc)"

definition isEof :: "'a pb_scheme \<Rightarrow> bool" where
  "isEof s \<longleftrightarrow> cur_offset s \<ge> getBufferLength s"

definition isTagged :: "'a pb_scheme \<Rightarrow> bool" where
  "isTagged s \<longleftrightarrow> kind s = Tpb \<or> kind s = Tagged \<or> kind s = WideTagged \<or> kind s = SpbAttach"

definition getBufferTag :: "'a pb_scheme \<Rightarrow> clumplet_error + UCHAR" where
  "getBufferTag s =
     (if kind s = Tpb \<or> kind s = Tagged \<or> kind s = WideTagged
      then (case buffer s of [] \<Rightarrow> Inl invalid_structure | t # _ \<Rightarrow> Inr t)
      else if kind s = SpbAttach
      then (case buffer s of
              [] \<Rightarrow> Inl invalid_structure
            | t # rest \<Rightarrow>
                if t = isc_spb_version1 then Inr t
                else if t = isc_spb_version then (case rest of [] \<Rightarrow> Inl invalid_structure | t2 # _ \<Rightarrow> Inr t2)
                else if t = isc_spb_version3 then Inr t
                else Inl invalid_structure)
      else if kind s = EndOfList then Inr 0
      else Inl usage_mistake)"

definition rewind :: "'a pb_scheme \<Rightarrow> 'a pb_scheme" where
  "rewind s =
     (if null_buffer s then s\<lparr>cur_offset := 0, spbState := 0\<rparr>
      else s\<lparr>cur_offset :=
               (if kind s = UnTagged \<or> kind s = WideUnTagged \<or> kind s = SpbStart \<or> kind s = SpbSendItems \<or>
                   kind s = SpbReceiveItems then 0
                else if kind s = SpbAttach \<and> getBufferLength s > 0 \<and> hd (buffer s) \<noteq> isc_spb_version1 then 2
                else 1),
             spbState := 0\<rparr>)"

section \<open>The type of a clumplet\<close>

text \<open>The tags of a service start block, by the service the block has named so far.\<close>

definition spb_start_type :: "UCHAR \<Rightarrow> UCHAR \<Rightarrow> clumplet_error + ClumpletType" where
  "spb_start_type st tag =
     (if tag \<in> {isc_spb_auth_block, isc_spb_trusted_auth, isc_spb_auth_plugin_name, isc_spb_auth_plugin_list} then Inr Wide
      else if st = 0 then Inr SingleTpb
      else if st \<in> {isc_action_svc_backup, isc_action_svc_restore}
      then (if tag \<in> {isc_spb_bkp_file, isc_spb_dbname, isc_spb_res_fix_fss_data, isc_spb_res_fix_fss_metadata,
                 isc_spb_bkp_stat, isc_spb_bkp_skip_data} then Inr StringSpb
            else if tag \<in> {isc_spb_bkp_factor, isc_spb_bkp_length, isc_spb_res_length, isc_spb_res_buffers,
                 isc_spb_res_page_size, isc_spb_options, isc_spb_verbint} then Inr IntSpb
            else if tag = isc_spb_verbose then Inr SingleTpb
            else if tag = isc_spb_res_access_mode then Inr ByteSpb
            else Inl invalid_structure)
      else if st = isc_action_svc_repair
      then (if tag = isc_spb_dbname then Inr StringSpb
            else if tag \<in> {isc_spb_options, isc_spb_rpr_commit_trans, isc_spb_rpr_rollback_trans,
                 isc_spb_rpr_recover_two_phase} then Inr IntSpb
            else if tag \<in> {isc_spb_rpr_commit_trans_64, isc_spb_rpr_rollback_trans_64,
                 isc_spb_rpr_recover_two_phase_64} then Inr BigIntSpb
            else Inl invalid_structure)
      else if st \<in> {isc_action_svc_add_user, isc_action_svc_delete_user, isc_action_svc_modify_user,
                 isc_action_svc_display_user, isc_action_svc_display_user_adm, isc_action_svc_set_mapping,
                 isc_action_svc_drop_mapping}
      then (if tag \<in> {isc_spb_dbname, isc_spb_sql_role_name, isc_spb_sec_username, isc_spb_sec_password,
                 isc_spb_sec_groupname, isc_spb_sec_firstname, isc_spb_sec_middlename, isc_spb_sec_lastname} then Inr StringSpb
            else if tag \<in> {isc_spb_sec_userid, isc_spb_sec_groupid, isc_spb_sec_admin} then Inr IntSpb
            else Inl invalid_structure)
      else if st = isc_action_svc_properties
      then (if tag = isc_spb_dbname then Inr StringSpb
            else if tag \<in> {isc_spb_prp_page_buffers, isc_spb_prp_sweep_interval, isc_spb_prp_shutdown_db,
                 isc_spb_prp_deny_new_attachments, isc_spb_prp_deny_new_transactions, isc_spb_prp_set_sql_dialect,
                 isc_spb_options, isc_spb_prp_force_shutdown, isc_spb_prp_attachments_shutdown,
                 isc_spb_prp_transactions_shutdown} then Inr IntSpb
            else if tag \<in> {isc_spb_prp_reserve_space, isc_spb_prp_write_mode, isc_spb_prp_access_mode,
                 isc_spb_prp_shutdown_mode, isc_spb_prp_online_mode} then Inr ByteSpb
            else Inl invalid_structure)
      else if st = isc_action_svc_db_stats
      then (if tag \<in> {isc_spb_dbname, isc_spb_command_line, isc_spb_sts_table} then Inr StringSpb
            else if tag = isc_spb_options then Inr IntSpb
            else Inl invalid_structure)
      else if st = isc_action_svc_get_ib_log then Inl invalid_structure
      else if st \<in> {isc_action_svc_nbak, isc_action_svc_nrest}
      then (if tag \<in> {isc_spb_nbk_file, isc_spb_nbk_direct, isc_spb_dbname} then Inr StringSpb
            else if tag \<in> {isc_spb_nbk_level, isc_spb_options} then Inr IntSpb
            else Inl invalid_structure)
      else if st \<in> {isc_action_svc_trace_start, isc_action_svc_trace_stop, isc_action_svc_trace_suspend,
                 isc_action_svc_trace_resume}
      then (if tag \<in> {isc_spb_trc_cfg, isc_spb_trc_name} then Inr StringSpb
            else if tag = isc_spb_trc_id then Inr IntSpb
            else Inl invalid_structure)
      else if st = isc_action_svc_validate
      then (if tag \<in> {isc_spb_val_tab_incl, isc_spb_val_tab_excl, isc_spb_val_idx_incl, isc_spb_val_idx_excl,
                 isc_spb_dbname} then Inr StringSpb
            else if tag = isc_spb_val_lock_timeout then Inr IntSpb
            else Inl invalid_structure)
      else Inl invalid_structure)"

definition clumplet_type :: "Kind \<Rightarrow> UCHAR \<Rightarrow> UCHAR \<Rightarrow> clumplet_error + ClumpletType" where
  "clumplet_type k st tag =
     (case k of
        Tagged \<Rightarrow> Inr TraditionalDpb
      | UnTagged \<Rightarrow> Inr TraditionalDpb
      | SpbAttach \<Rightarrow> Inr TraditionalDpb
      | WideTagged \<Rightarrow> Inr Wide
      | WideUnTagged \<Rightarrow> Inr Wide
      | Tpb \<Rightarrow> if tag \<in> {isc_tpb_lock_write, isc_tpb_lock_read, isc_tpb_lock_timeout} then Inr TraditionalDpb else Inr SingleTpb
      | SpbSendItems \<Rightarrow>
          if tag = isc_info_svc_auth_block then Inr Wide
          else if tag \<in> {isc_info_end, isc_info_truncated, isc_info_error, isc_info_data_not_ready, isc_info_length,
                 isc_info_flag_end} then Inr SingleTpb
          else Inr StringSpb
      | SpbReceiveItems \<Rightarrow> Inr SingleTpb
      | SpbStart \<Rightarrow> spb_start_type st tag
      | EndOfList \<Rightarrow> Inl invalid_structure)"

definition getClumpletType :: "'a pb_scheme \<Rightarrow> UCHAR \<Rightarrow> clumplet_error + ClumpletType" where
  "getClumpletType s tag = clumplet_type (kind s) (spbState s) tag"

section \<open>The sizes of a clumplet\<close>

text \<open>\<open>lengthSize\<close> and \<open>dataSize\<close> of a clumplet that starts with the bytes \<open>c\<close>.\<close>

definition length_component :: "ClumpletType \<Rightarrow> bytes \<Rightarrow> clumplet_error + nat \<times> nat" where
  "length_component t c =
     (case t of
        Wide \<Rightarrow> if length c < 5 then Inl invalid_structure
                else Inr (4, ((unat (c ! 4) * 256 + unat (c ! 3)) * 256 + unat (c ! 2)) * 256 + unat (c ! 1))
      | TraditionalDpb \<Rightarrow> if length c < 2 then Inl invalid_structure else Inr (1, unat (c ! 1))
      | SingleTpb \<Rightarrow> Inr (0, 0)
      | StringSpb \<Rightarrow> if length c < 3 then Inl invalid_structure else Inr (2, unat (c ! 2) * 256 + unat (c ! 1))
      | IntSpb \<Rightarrow> Inr (0, 4)
      | BigIntSpb \<Rightarrow> Inr (0, 8)
      | ByteSpb \<Rightarrow> Inr (0, 1))"

definition getClumpletSize :: "bool \<Rightarrow> bool \<Rightarrow> bool \<Rightarrow> 'a pb_scheme \<Rightarrow> clumplet_error + nat" where
  "getClumpletSize wTag wLength wData s =
     (let clumplet = drop (cur_offset s) (buffer s)
      in if clumplet = [] then Inl usage_mistake
         else case getClumpletType s (hd clumplet) of
                Inl e \<Rightarrow> Inl e
              | Inr t \<Rightarrow>
                  (case length_component t clumplet of
                     Inl e \<Rightarrow> Inl e
                   | Inr (lengthSize, dataSize) \<Rightarrow>
                       (let total = FB_SIZE (1 + lengthSize + dataSize)
                        in if total > length clumplet then Inl invalid_structure
                           else Inr (FB_SIZE ((if wTag then 1 else 0) + (if wLength then lengthSize else 0) +
                                  (if wData then dataSize else 0))))))"

definition getClumpTag :: "'a pb_scheme \<Rightarrow> clumplet_error + UCHAR" where
  "getClumpTag s =
     (if cur_offset s \<ge> length (buffer s) then Inl usage_mistake else Inr (buffer s ! cur_offset s))"

definition getClumpLength :: "'a pb_scheme \<Rightarrow> clumplet_error + nat" where
  "getClumpLength s = getClumpletSize False False True s"

section \<open>Navigation\<close>

definition adjustSpbState :: "'a pb_scheme \<Rightarrow> clumplet_error + 'a pb_scheme" where
  "adjustSpbState s =
     (if kind s = SpbStart \<and> spbState s = 0
      then (case getClumpletSize True True True s of
              Inl e \<Rightarrow> Inl e
            | Inr n \<Rightarrow>
                if n = 1 then (case getClumpTag s of Inl e \<Rightarrow> Inl e | Inr t \<Rightarrow> Inr (s\<lparr>spbState := t\<rparr>))
                else Inr s)
      else Inr s)"

definition moveNext :: "'a pb_scheme \<Rightarrow> clumplet_error + 'a pb_scheme" where
  "moveNext s =
     (if isEof s then Inr s
      else case getClumpletSize True True True s of
             Inl e \<Rightarrow> Inl e
           | Inr cs \<Rightarrow>
               (case adjustSpbState s of
                  Inl e \<Rightarrow> Inl e
                | Inr s \<Rightarrow> Inr (s\<lparr>cur_offset := FB_SIZE (cur_offset s + cs)\<rparr>)))"

text \<open>The loop of \<open>find\<close> and of \<open>next\<close>: whether it stands at a clumplet with the tag.\<close>

partial_function (option) pb_find_loop :: "UCHAR \<Rightarrow> 'a pb_scheme \<Rightarrow> (clumplet_error + bool \<times> 'a pb_scheme) option" where
  "pb_find_loop tag s =
     (if isEof s then Some (Inr (False, s))
      else case getClumpTag s of
             Inl e \<Rightarrow> Some (Inl e)
           | Inr t \<Rightarrow>
               if tag = t then Some (Inr (True, s))
               else (case moveNext s of Inl e \<Rightarrow> Some (Inl e) | Inr s \<Rightarrow> pb_find_loop tag s))"

definition pb_find :: "UCHAR \<Rightarrow> 'a pb_scheme \<Rightarrow> (clumplet_error + bool \<times> 'a pb_scheme) option" where
  "pb_find tag s =
     (let co = cur_offset s
      in case pb_find_loop tag (rewind s) of
           Some (Inr (False, s)) \<Rightarrow> Some (Inr (False, s\<lparr>cur_offset := co\<rparr>))
         | res \<Rightarrow> res)"

definition pb_next :: "UCHAR \<Rightarrow> 'a pb_scheme \<Rightarrow> (clumplet_error + bool \<times> 'a pb_scheme) option" where
  "pb_next tag s =
     (if isEof s then Some (Inr (False, s))
      else let co = cur_offset s
           in case (case getClumpTag s of Inl e \<Rightarrow> Inl e | Inr t \<Rightarrow> if tag = t then moveNext s else Inr s) of
                Inl e \<Rightarrow> Some (Inl e)
              | Inr s \<Rightarrow>
                  (case pb_find_loop tag s of
                     Some (Inr (False, s)) \<Rightarrow> Some (Inr (False, s\<lparr>cur_offset := co\<rparr>))
                   | res \<Rightarrow> res))"

section \<open>The selected clumplet\<close>

text \<open>\<open>getBytes\<close> answers a position in the buffer.\<close>

definition getBytes :: "'a pb_scheme \<Rightarrow> clumplet_error + nat" where
  "getBytes s = (case getClumpletSize True True False s of Inl e \<Rightarrow> Inl e | Inr n \<Rightarrow> Inr (cur_offset s + n))"

definition getData :: "'a pb_scheme \<Rightarrow> clumplet_error + bytes" where
  "getData s =
     (case getBytes s of
        Inl e \<Rightarrow> Inl e
      | Inr ptr \<Rightarrow>
          (case getClumpLength s of
             Inl e \<Rightarrow> Inl e
           | Inr n \<Rightarrow> if ptr + n \<le> length (buffer s) then Inr (take n (drop ptr (buffer s))) else Inl overread))"

definition from_vax :: "bytes \<Rightarrow> clumplet_error + SINT64" where
  "from_vax data = (case fromVaxInteger data (length data) of None \<Rightarrow> Inl overread | Some v \<Rightarrow> Inr v)"

definition getInt :: "'a pb_scheme \<Rightarrow> clumplet_error + SLONG" where
  "getInt s =
     (case getClumpLength s of
        Inl e \<Rightarrow> Inl e
      | Inr n \<Rightarrow>
          if n > 4 then Inl invalid_structure
          else (case getData s of
                  Inl e \<Rightarrow> Inl e
                | Inr data \<Rightarrow> (case from_vax data of Inl e \<Rightarrow> Inl e | Inr v \<Rightarrow> Inr (ucast v))))"

definition getBigInt :: "'a pb_scheme \<Rightarrow> clumplet_error + SINT64" where
  "getBigInt s =
     (case getClumpLength s of
        Inl e \<Rightarrow> Inl e
      | Inr n \<Rightarrow> if n > 8 then Inl invalid_structure else (case getData s of Inl e \<Rightarrow> Inl e | Inr data \<Rightarrow> from_vax data))"

definition getTimeStamp :: "'a pb_scheme \<Rightarrow> clumplet_error + SLONG \<times> ULONG" where
  "getTimeStamp s =
     (case getClumpLength s of
        Inl e \<Rightarrow> Inl e
      | Inr n \<Rightarrow>
          if n \<noteq> 8 then Inl invalid_structure
          else (case getData s of
                  Inl e \<Rightarrow> Inl e
                | Inr data \<Rightarrow>
                    (case from_vax (take 4 data) of
                       Inl e \<Rightarrow> Inl e
                     | Inr d \<Rightarrow> (case from_vax (drop 4 data) of Inl e \<Rightarrow> Inl e | Inr t \<Rightarrow> Inr (ucast d, ucast t)))))"

text \<open>A double is its 64-bit image; the block has its high longword first.\<close>

definition getDouble :: "'a pb_scheme \<Rightarrow> clumplet_error + SINT64" where
  "getDouble s =
     (case getClumpLength s of
        Inl e \<Rightarrow> Inl e
      | Inr n \<Rightarrow>
          if n \<noteq> 8 then Inl invalid_structure
          else (case getData s of
                  Inl e \<Rightarrow> Inl e
                | Inr data \<Rightarrow>
                    (case from_vax (take 4 data) of
                       Inl e \<Rightarrow> Inl e
                     | Inr hi \<Rightarrow>
                         (case from_vax (drop 4 data) of
                            Inl e \<Rightarrow> Inl e
                          | Inr lo \<Rightarrow> Inr (push_bit 32 (take_bit 32 hi) + take_bit 32 lo)))))"

text \<open>Strings and paths end at the first zero byte, which may only be the last one.\<close>

definition getString :: "'a pb_scheme \<Rightarrow> clumplet_error + bytes" where
  "getString s =
     (case getData s of
        Inl e \<Rightarrow> Inl e
      | Inr data \<Rightarrow>
          (let str = takeWhile (\<lambda>c. c \<noteq> 0) data
           in if length str + 1 < length data then Inl invalid_structure else Inr str))"

definition MAX_SQL_IDENTIFIER_LEN :: nat where
  "MAX_SQL_IDENTIFIER_LEN = 31"

text \<open>A name is cut to its maximal length and loses its trailing blanks.\<close>

definition getMetaName :: "'a pb_scheme \<Rightarrow> clumplet_error + bytes" where
  "getMetaName s =
     (case getData s of
        Inl e \<Rightarrow> Inl e
      | Inr data \<Rightarrow> Inr (rev (dropWhile (\<lambda>c. c = 32) (rev (take MAX_SQL_IDENTIFIER_LEN data)))))"

definition getBoolean :: "'a pb_scheme \<Rightarrow> clumplet_error + bool" where
  "getBoolean s =
     (case getClumpLength s of
        Inl e \<Rightarrow> Inl e
      | Inr n \<Rightarrow>
          if n > 1 then Inl invalid_structure
          else (case getData s of Inl e \<Rightarrow> Inl e | Inr data \<Rightarrow> Inr (data \<noteq> [] \<and> hd data \<noteq> 0)))"

definition getClumplet :: "'a pb_scheme \<Rightarrow> clumplet_error + UCHAR \<times> bytes" where
  "getClumplet s =
     (case getClumpTag s of
        Inl e \<Rightarrow> Inl e
      | Inr tag \<Rightarrow> (case getData s of Inl e \<Rightarrow> Inl e | Inr data \<Rightarrow> Inr (tag, data)))"

definition simpleCompare :: "'a pb_scheme \<Rightarrow> 'b pb_scheme \<Rightarrow> bool" where
  "simpleCompare s s' \<longleftrightarrow>
     (let len = getBufferLength s
      in len = getBufferLength s' \<and> take len (buffer s) = take len (buffer s'))"

section \<open>Construction\<close>

definition reader :: "Kind \<Rightarrow> bytes \<Rightarrow> pb" where
  "reader k b = rewind \<lparr>kind = k, null_buffer = False, buffer = b, cur_offset = 0, spbState = 0\<rparr>"

text \<open>The kinds a block may have are told apart by its tag; the list ends with \<open>EndOfList\<close>.\<close>

type_synonym kind_list = "(Kind \<times> UCHAR) list"

definition dpbList :: kind_list where
  "dpbList = [(Tagged, isc_dpb_version1), (WideTagged, isc_dpb_version2)]"

definition spbList :: kind_list where
  "spbList = [(SpbAttach, isc_spb_current_version), (SpbAttach, isc_spb_version1), (WideTagged, isc_spb_version3)]"

fun create_loop :: "kind_list \<Rightarrow> 'a pb_scheme \<Rightarrow> clumplet_error + 'a pb_scheme" where
  "create_loop [] s = Inl invalid_structure"
| "create_loop ((k, tag) # kl) s =
     (let s = s\<lparr>kind := k\<rparr>
      in case getBufferTag s of
           Inl e \<Rightarrow> Inl e
         | Inr t \<Rightarrow> if t = tag then Inr s else create_loop kl s)"

definition reader_of_list :: "kind_list \<Rightarrow> bytes \<Rightarrow> clumplet_error + pb" where
  "reader_of_list kl b =
     (let s = \<lparr>kind = fst (hd kl), null_buffer = False, buffer = b, cur_offset = 0, spbState = 0\<rparr>
      in case (if b \<noteq> [] then create_loop kl s else Inr s) of Inl e \<Rightarrow> Inl e | Inr s \<Rightarrow> Inr (rewind s))"

section \<open>Authentication blocks\<close>

definition AUTH_NAME :: UCHAR where "AUTH_NAME = 1"
definition AUTH_PLUGIN :: UCHAR where "AUTH_PLUGIN = 2"
definition AUTH_TYPE :: UCHAR where "AUTH_TYPE = 3"
definition AUTH_SECURE_DB :: UCHAR where "AUTH_SECURE_DB = 4"
definition AUTH_ORIG_PLUG :: UCHAR where "AUTH_ORIG_PLUG = 5"

record auth_info =
  auth_type :: bytes
  auth_name :: bytes
  auth_plugin :: bytes
  auth_secDb :: bytes
  auth_origPlug :: bytes

definition set_info :: "UCHAR \<Rightarrow> bytes \<Rightarrow> auth_info \<Rightarrow> auth_info" where
  "set_info tag data info =
     (if tag = AUTH_TYPE then info\<lparr>auth_type := data\<rparr>
      else if tag = AUTH_NAME then info\<lparr>auth_name := data\<rparr>
      else if tag = AUTH_PLUGIN then info\<lparr>auth_plugin := data\<rparr>
      else if tag = AUTH_SECURE_DB then info\<lparr>auth_secDb := data\<rparr>
      else if tag = AUTH_ORIG_PLUG then info\<lparr>auth_origPlug := data\<rparr>
      else info)"

partial_function (option) info_loop :: "auth_info \<Rightarrow> pb \<Rightarrow> (clumplet_error + auth_info) option" where
  "info_loop info s =
     (if isEof s then Some (Inr info)
      else case getClumpTag s of
             Inl e \<Rightarrow> Some (Inl e)
           | Inr tag \<Rightarrow>
               (case (if tag \<in> {AUTH_TYPE, AUTH_NAME, AUTH_PLUGIN, AUTH_SECURE_DB, AUTH_ORIG_PLUG} then getData s else Inr []) of
                  Inl e \<Rightarrow> Some (Inl e)
                | Inr data \<Rightarrow>
                    (case moveNext s of Inl e \<Rightarrow> Some (Inl e) | Inr s \<Rightarrow> info_loop (set_info tag data info) s)))"

definition getInfo :: "pb \<Rightarrow> auth_info \<Rightarrow> (clumplet_error + bool \<times> auth_info) option" where
  "getInfo s info =
     (if isEof s then Some (Inr (False, info))
      else case getData s of
             Inl e \<Rightarrow> Some (Inl e)
           | Inr data \<Rightarrow>
               (case info_loop \<lparr>auth_type = [], auth_name = [], auth_plugin = [], auth_secDb = [], auth_origPlug = []\<rparr>
                       (reader WideUnTagged data) of
                  None \<Rightarrow> None
                | Some (Inl e) \<Rightarrow> Some (Inl e)
                | Some (Inr info) \<Rightarrow> Some (Inr (True, info))))"

end
