(* ===== verification/ClumpletWriter.thy ===== *)
theory ClumpletWriter
  imports ClumpletReader
begin

text \<open>
  Writing parameter blocks: the class \<open>ClumpletWriter\<close> of
  \<^verbatim>\<open>src/src/common/classes/ClumpletWriter.cpp\<close>.  A writer is a reader with a buffer of its own, a
  limit for its size and, when it may change its version, the list of the kinds it can have.
\<close>

record pbw = pb +
  sizeLimit :: nat
  kindList :: "kind_list option"

section \<open>Construction\<close>

definition initNewBuffer :: "UCHAR \<Rightarrow> 'a pb_scheme \<Rightarrow> 'a pb_scheme" where
  "initNewBuffer tag s =
     s\<lparr>buffer := buffer s @
        (if kind s = SpbAttach then (if tag \<noteq> isc_spb_version1 then [isc_spb_version] else []) @ [tag]
         else if kind s = Tagged \<or> kind s = Tpb \<or> kind s = WideTagged then [tag]
         else [])\<rparr>"

definition empty_writer :: "Kind \<Rightarrow> nat \<Rightarrow> kind_list option \<Rightarrow> pbw" where
  "empty_writer k limit kl =
     \<lparr>kind = k, null_buffer = False, buffer = [], cur_offset = 0, spbState = 0, sizeLimit = limit, kindList = kl\<rparr>"

definition writer :: "Kind \<Rightarrow> nat \<Rightarrow> UCHAR \<Rightarrow> pbw" where
  "writer k limit tag = rewind (initNewBuffer tag (empty_writer k limit None))"

definition pbw_create :: "bytes \<Rightarrow> UCHAR \<Rightarrow> pbw \<Rightarrow> pbw" where
  "pbw_create b tag s = rewind (if b \<noteq> [] then s\<lparr>buffer := buffer s @ b\<rparr> else initNewBuffer tag s)"

definition writer_of_buffer :: "Kind \<Rightarrow> nat \<Rightarrow> bytes \<Rightarrow> UCHAR \<Rightarrow> pbw" where
  "writer_of_buffer k limit b tag = pbw_create b tag (empty_writer k limit None)"

definition writer_of_list :: "kind_list \<Rightarrow> nat \<Rightarrow> bytes \<Rightarrow> clumplet_error + pbw" where
  "writer_of_list kl limit b =
     (case reader_of_list kl b of
        Inl e \<Rightarrow> Inl e
      | Inr r \<Rightarrow> Inr (pbw_create b (snd (hd kl)) (empty_writer (kind r) limit (Some kl))))"

definition writer_copy :: "pbw \<Rightarrow> clumplet_error + pbw" where
  "writer_copy from =
     (case (if isTagged from then getBufferTag from else Inr 0) of
        Inl e \<Rightarrow> Inl e
      | Inr tag \<Rightarrow> Inr (pbw_create (buffer from) tag (empty_writer (kind from) (sizeLimit from) None)))"

fun kind_of_tag :: "UCHAR \<Rightarrow> kind_list \<Rightarrow> Kind option" where
  "kind_of_tag tag [] = None"
| "kind_of_tag tag ((k, t) # kl) = (if tag = t then Some k else kind_of_tag tag kl)"

definition reset :: "UCHAR \<Rightarrow> pbw \<Rightarrow> clumplet_error + pbw" where
  "reset tag s =
     (case kindList s of
        Some kl \<Rightarrow>
          (case kind_of_tag tag kl of
             None \<Rightarrow> Inl invalid_structure
           | Some k \<Rightarrow> Inr (rewind (initNewBuffer tag (s\<lparr>kind := k, buffer := []\<rparr>))))
      | None \<Rightarrow> Inr (rewind (initNewBuffer tag (s\<lparr>buffer := []\<rparr>))))"

definition reset_buffer :: "bytes \<Rightarrow> pbw \<Rightarrow> clumplet_error + pbw" where
  "reset_buffer b s =
     (let s = s\<lparr>buffer := []\<rparr>
      in if b \<noteq> [] then Inr (rewind (s\<lparr>buffer := b\<rparr>))
         else case (if kind s = SpbStart \<or> kind s = UnTagged \<or> kind s = WideUnTagged then Inr 0 else getBufferTag s) of
                Inl e \<Rightarrow> Inl e
              | Inr tag \<Rightarrow> Inr (rewind (initNewBuffer tag s)))"

definition pbw_clear :: "pbw \<Rightarrow> clumplet_error + pbw" where
  "pbw_clear s = (case (if isTagged s then getBufferTag s else Inr 0) of Inl e \<Rightarrow> Inl e | Inr tag \<Rightarrow> reset tag s)"

section \<open>Insertion\<close>

text \<open>The size of the length component, or \<open>None\<close> if the data do not fit the type.\<close>

definition lenSize :: "ClumpletType \<Rightarrow> nat \<Rightarrow> nat option" where
  "lenSize t n =
     (case t of
        Wide \<Rightarrow> if n > 4294967295 then None else Some 4
      | TraditionalDpb \<Rightarrow> if n > 255 then None else Some 1
      | SingleTpb \<Rightarrow> if n > 0 then None else Some 0
      | StringSpb \<Rightarrow> if n > 65535 then None else Some 2
      | IntSpb \<Rightarrow> if n \<noteq> 4 then None else Some 0
      | BigIntSpb \<Rightarrow> if n \<noteq> 8 then None else Some 0
      | ByteSpb \<Rightarrow> if n \<noteq> 1 then None else Some 0)"

definition put_clumplet :: "UCHAR \<Rightarrow> bytes \<Rightarrow> nat \<Rightarrow> pbw \<Rightarrow> clumplet_error + pbw" where
  "put_clumplet tag data len_size s =
     (if FB_SIZE (length (buffer s) + length data + len_size + 1) > sizeLimit s then Inl size_overflow
      else
        (let saved_offset = cur_offset s;
             s = s\<lparr>buffer := take saved_offset (buffer s) @ tag # toVaxInteger len_size (of_nat (length data)) @ data @
                      drop saved_offset (buffer s)\<rparr>
         in case adjustSpbState s of
              Inl e \<Rightarrow> Inl e
            | Inr s \<Rightarrow> Inr (s\<lparr>cur_offset := FB_SIZE (saved_offset + 1 + len_size + length data)\<rparr>)))"

text \<open>\<open>insertBytesLengthCheck\<close> of a writer that has no list of kinds, as that inside \<open>upgradeVersion\<close>.\<close>

definition insert_once :: "UCHAR \<Rightarrow> bytes \<Rightarrow> pbw \<Rightarrow> clumplet_error + pbw" where
  "insert_once tag data s =
     (if cur_offset s > length (buffer s) then Inl usage_mistake
      else case getClumpletType s tag of
             Inl e \<Rightarrow> Inl e
           | Inr t \<Rightarrow>
               (case lenSize t (length data) of
                  None \<Rightarrow> Inl usage_mistake
                | Some n \<Rightarrow> put_clumplet tag data n s))"

definition newest :: "kind_list \<Rightarrow> Kind \<times> UCHAR" where
  "newest kl = fold (\<lambda>itr newest. if snd itr > snd newest then itr else newest) kl (hd kl)"

partial_function (option) upgrade_loop ::
  "nat \<Rightarrow> pbw \<Rightarrow> pbw \<Rightarrow> nat \<Rightarrow> (clumplet_error + pbw \<times> pbw \<times> nat) option" where
  "upgrade_loop currentPosition s newPb newPos =
     (if isEof s then Some (Inr (s, newPb, newPos))
      else let newPos = (if currentPosition = cur_offset s then cur_offset newPb else newPos)
           in case getClumplet s of
                Inl e \<Rightarrow> Some (Inl e)
              | Inr (tag, data) \<Rightarrow>
                  (case insert_once tag data newPb of
                     Inl e \<Rightarrow> Some (Inl e)
                   | Inr newPb \<Rightarrow>
                       (case moveNext newPb of
                          Inl e \<Rightarrow> Some (Inl e)
                        | Inr newPb \<Rightarrow>
                            (case moveNext s of
                               Inl e \<Rightarrow> Some (Inl e)
                             | Inr s \<Rightarrow> upgrade_loop currentPosition s newPb newPos))))"

definition upgradeVersion :: "pbw \<Rightarrow> (clumplet_error + bool \<times> pbw) option" where
  "upgradeVersion s =
     (case kindList s of
        None \<Rightarrow> Some (Inr (False, s))
      | Some kl \<Rightarrow>
          (case (if getBufferLength s \<noteq> 0
                 then (case getBufferTag s of Inl e \<Rightarrow> Inl e | Inr t \<Rightarrow> Inr (snd (newest kl) \<le> t)) else Inr False) of
             Inl e \<Rightarrow> Some (Inl e)
           | Inr True \<Rightarrow> Some (Inr (False, s))
           | Inr False \<Rightarrow>
               (let currentPosition = cur_offset s
                in case upgrade_loop currentPosition (rewind s) (writer (fst (newest kl)) (sizeLimit s) (snd (newest kl))) 0 of
                     None \<Rightarrow> None
                   | Some (Inl e) \<Rightarrow> Some (Inl e)
                   | Some (Inr (s, newPb, newPos)) \<Rightarrow>
                       (let s = s\<lparr>kind := fst (newest kl), buffer := buffer newPb\<rparr>
                        in Some (Inr (True, if newPos \<noteq> 0 then s\<lparr>cur_offset := newPos\<rparr> else rewind s))))))"

partial_function (option) length_loop :: "UCHAR \<Rightarrow> nat \<Rightarrow> pbw \<Rightarrow> (clumplet_error + nat \<times> pbw) option" where
  "length_loop tag len s =
     (case getClumpletType s tag of
        Inl e \<Rightarrow> Some (Inl e)
      | Inr t \<Rightarrow>
          (case lenSize t len of
             Some n \<Rightarrow> Some (Inr (n, s))
           | None \<Rightarrow>
               (case upgradeVersion s of
                  None \<Rightarrow> None
                | Some (Inl e) \<Rightarrow> Some (Inl e)
                | Some (Inr (upgraded, s)) \<Rightarrow>
                    if upgraded then length_loop tag len s else Some (Inl usage_mistake))))"

definition insertBytes :: "UCHAR \<Rightarrow> bytes \<Rightarrow> pbw \<Rightarrow> (clumplet_error + pbw) option" where
  "insertBytes tag data s =
     (if cur_offset s > length (buffer s) then Some (Inl usage_mistake)
      else case length_loop tag (length data) s of
             None \<Rightarrow> None
           | Some (Inl e) \<Rightarrow> Some (Inl e)
           | Some (Inr (n, s)) \<Rightarrow> Some (put_clumplet tag data n s))"

definition insertInt :: "UCHAR \<Rightarrow> SLONG \<Rightarrow> pbw \<Rightarrow> (clumplet_error + pbw) option" where
  "insertInt tag value = insertBytes tag (toVaxInteger 4 (scast value))"

definition insertBigInt :: "UCHAR \<Rightarrow> SINT64 \<Rightarrow> pbw \<Rightarrow> (clumplet_error + pbw) option" where
  "insertBigInt tag value = insertBytes tag (toVaxInteger 8 value)"

definition insertDouble :: "UCHAR \<Rightarrow> SINT64 \<Rightarrow> pbw \<Rightarrow> (clumplet_error + pbw) option" where
  "insertDouble tag value =
     insertBytes tag (toVaxInteger 4 (scast (ucast (drop_bit 32 value) :: SLONG)) @ toVaxInteger 4 (scast (ucast value :: SLONG)))"

definition insertString :: "UCHAR \<Rightarrow> bytes \<Rightarrow> pbw \<Rightarrow> (clumplet_error + pbw) option" where
  "insertString tag str = insertBytes tag str"

definition insertClumplet :: "UCHAR \<times> bytes \<Rightarrow> pbw \<Rightarrow> (clumplet_error + pbw) option" where
  "insertClumplet clumplet = insertBytes (fst clumplet) (snd clumplet)"

definition insertTimeStamp :: "UCHAR \<Rightarrow> SLONG \<Rightarrow> ULONG \<Rightarrow> pbw \<Rightarrow> (clumplet_error + pbw) option" where
  "insertTimeStamp tag date time = insertBytes tag (toVaxInteger 4 (scast date) @ toVaxInteger 4 (ucast time))"

definition insertByte :: "UCHAR \<Rightarrow> UCHAR \<Rightarrow> pbw \<Rightarrow> (clumplet_error + pbw) option" where
  "insertByte tag byte = insertBytes tag [byte]"

definition insertTag :: "UCHAR \<Rightarrow> pbw \<Rightarrow> (clumplet_error + pbw) option" where
  "insertTag tag = insertBytes tag []"

definition insertEndMarker :: "UCHAR \<Rightarrow> pbw \<Rightarrow> clumplet_error + pbw" where
  "insertEndMarker tag s =
     (if cur_offset s > length (buffer s) then Inl usage_mistake
      else if FB_SIZE (cur_offset s + 1) > sizeLimit s then Inl size_overflow
      else Inr (s\<lparr>buffer := take (cur_offset s) (buffer s) @ [tag], cur_offset := FB_SIZE (cur_offset s + 2)\<rparr>))"

section \<open>Deletion\<close>

definition deleteClumplet :: "pbw \<Rightarrow> clumplet_error + pbw" where
  "deleteClumplet s =
     (if cur_offset s \<ge> length (buffer s) then Inl usage_mistake
      else if length (buffer s) - cur_offset s < 2 then Inr (s\<lparr>buffer := take (cur_offset s) (buffer s)\<rparr>)
      else case getClumpletSize True True True s of
             Inl e \<Rightarrow> Inl e
           | Inr n \<Rightarrow> Inr (s\<lparr>buffer := take (cur_offset s) (buffer s) @ drop (cur_offset s + n) (buffer s)\<rparr>))"

partial_function (option) delete_loop :: "bool \<Rightarrow> UCHAR \<Rightarrow> pbw \<Rightarrow> (clumplet_error + bool \<times> pbw) option" where
  "delete_loop rc tag s =
     (case pb_find tag s of
        None \<Rightarrow> None
      | Some (Inl e) \<Rightarrow> Some (Inl e)
      | Some (Inr (found, s)) \<Rightarrow>
          if found then (case deleteClumplet s of Inl e \<Rightarrow> Some (Inl e) | Inr s \<Rightarrow> delete_loop True tag s)
          else Some (Inr (rc, s)))"

definition deleteWithTag :: "UCHAR \<Rightarrow> pbw \<Rightarrow> (clumplet_error + bool \<times> pbw) option" where
  "deleteWithTag tag s = delete_loop False tag s"

end
