(* ===== verification/ClumpletFormat.thy ===== *)
theory ClumpletFormat
  imports ClumpletWriter
begin

text \<open>
  The bytes of a parameter block as a list of clumplets, and what the operations of the reader
  do with a block of that form.
\<close>

section \<open>The bytes of a clumplet\<close>

type_synonym clumplet = "UCHAR \<times> bytes"

text \<open>A clumplet that can be stored in a block of kind \<open>k\<close> whose service state is \<open>st\<close>.\<close>

definition storable :: "Kind \<Rightarrow> UCHAR \<Rightarrow> clumplet \<Rightarrow> bool" where
  "storable k st c \<longleftrightarrow> (case clumplet_type k st (fst c) of Inl e \<Rightarrow> False | Inr t \<Rightarrow> lenSize t (length (snd c)) \<noteq> None)"

definition len_size :: "Kind \<Rightarrow> UCHAR \<Rightarrow> clumplet \<Rightarrow> nat" where
  "len_size k st c = (case clumplet_type k st (fst c) of Inl e \<Rightarrow> 0 | Inr t \<Rightarrow> the (lenSize t (length (snd c))))"

definition encode :: "Kind \<Rightarrow> UCHAR \<Rightarrow> clumplet \<Rightarrow> bytes" where
  "encode k st c = fst c # toVaxInteger (len_size k st c) (of_nat (length (snd c))) @ snd c"

definition next_state :: "Kind \<Rightarrow> UCHAR \<Rightarrow> clumplet \<Rightarrow> UCHAR" where
  "next_state k st c = (if k = SpbStart \<and> st = 0 \<and> length (encode k st c) = 1 then fst c else st)"

fun storables :: "Kind \<Rightarrow> UCHAR \<Rightarrow> clumplet list \<Rightarrow> bool" where
  "storables k st [] \<longleftrightarrow> True"
| "storables k st (c # cs) \<longleftrightarrow> storable k st c \<and> storables k (next_state k st c) cs"

fun encode_all :: "Kind \<Rightarrow> UCHAR \<Rightarrow> clumplet list \<Rightarrow> bytes" where
  "encode_all k st [] = []"
| "encode_all k st (c # cs) = encode k st c @ encode_all k (next_state k st c) cs"

fun state_after :: "Kind \<Rightarrow> UCHAR \<Rightarrow> clumplet list \<Rightarrow> UCHAR" where
  "state_after k st [] = st"
| "state_after k st (c # cs) = state_after k (next_state k st c) cs"

lemma encode_all_append [simp]: "encode_all k st (xs @ ys) = encode_all k st xs @ encode_all k (state_after k st xs) ys"
  by (induction k st xs rule: encode_all.induct) simp_all

lemma storables_append [simp]: "storables k st (xs @ ys) \<longleftrightarrow> storables k st xs \<and> storables k (state_after k st xs) ys"
  by (induction k st xs rule: storables.induct) simp_all

lemma state_after_append [simp]: "state_after k st (xs @ ys) = state_after k (state_after k st xs) ys"
  by (induction k st xs rule: state_after.induct) simp_all

lemma storableE:
  assumes "storable k st c"
  obtains t where "clumplet_type k st (fst c) = Inr t" "lenSize t (length (snd c)) = Some (len_size k st c)"
  using assms by (auto simp: storable_def len_size_def split: sum.splits)

lemma lenSize_cases: "lenSize t n = Some m \<Longrightarrow> n < 4294967296 \<and> m \<le> 4"
  by (cases t) (auto simp: lenSize_def split: if_splits)

lemma len_size_le: "storable k st c \<Longrightarrow> len_size k st c \<le> 4"
  using lenSize_cases by (metis storableE)

lemma length_encode: "storable k st c \<Longrightarrow> length (encode k st c) = 1 + len_size k st c + length (snd c)"
  using len_size_le [of k st c] by (simp add: encode_def)

lemma encode_not_empty [simp]: "encode k st c \<noteq> []" by (simp add: encode_def)

section \<open>The length component\<close>

lemma vax_byte:
  assumes "n < 4294967296" "i < m" "m \<le> 4"
  shows "unat (toVaxInteger m (of_nat n) ! i) = n div 256 ^ i mod 256"
proof -
  have i: "i < 4" using assms by simp
  have 64: "unat (of_nat n :: SINT64) = n" using assms(1) by (intro unat_of_nat_eq) simp
  have "toVaxInteger m (of_nat n) ! i = ucast (drop_bit (8 * i) (of_nat n :: SINT64))"
    using assms(2,3) by (simp add: toVaxInteger_def to_vax_loop_map)
  moreover have "unat (drop_bit (8 * i) (of_nat n :: SINT64)) = n div 256 ^ i"
    by (subst unat_drop_bit_eq) (simp only: 64 drop_bit_eq_div power_mult, simp)
  ultimately show ?thesis by (simp add: unsigned_ucast_eq take_bit_eq_mod)
qed

lemma four_bytes:
  assumes "(n :: nat) < 4294967296"
  shows "((n div 16777216 mod 256 * 256 + n div 65536 mod 256) * 256 + n div 256 mod 256) * 256 + n mod 256 = n"
proof -
  have "n div 16777216 mod 256 = n div 16777216" using assms by simp
  moreover have "n div 65536 = n div 16777216 * 256 + n div 65536 mod 256"
    using div_mult2_eq [of n 65536 256] by simp
  moreover have "n div 256 = n div 65536 * 256 + n div 256 mod 256"
    using div_mult2_eq [of n 256 256] by simp
  moreover have "n = n div 256 * 256 + n mod 256" by simp
  ultimately show ?thesis by simp
qed

lemma length_component_encode:
  assumes "clumplet_type k st (fst c) = Inr t" "storable k st c"
  shows "length_component t (encode k st c @ rest) = Inr (len_size k st c, length (snd c))"
proof -
  let ?n = "length (snd c)" and ?m = "len_size k st c"
  have l: "lenSize t ?n = Some ?m" using assms by (metis storableE sum.inject(2))
  note b = lenSize_cases [OF l]
  have byte: "unat ((encode k st c @ rest) ! Suc i) = ?n div 256 ^ i mod 256" if "i < ?m" for i
    using vax_byte [of ?n i ?m] b that by (simp add: encode_def nth_append)
  have len: "length (encode k st c @ rest) = 1 + ?m + ?n + length rest" using length_encode [OF assms(2)] by simp
  show ?thesis
  proof (cases t)
    case TraditionalDpb
    then have m: "?m = 1" "?n < 256" using l by (simp_all add: lenSize_def split: if_splits)
    then show ?thesis using TraditionalDpb len byte [of 0] by (simp add: length_component_def)
  next
    case StringSpb
    then have m: "?m = 2" "?n < 65536" using l by (simp_all add: lenSize_def split: if_splits)
    have "?n div 256 mod 256 * 256 + ?n mod 256 = ?n" using m(2) by simp
    then show ?thesis using StringSpb m len byte [of 0] byte [of 1] by (simp add: length_component_def numeral_2_eq_2)
  next
    case Wide
    then have m: "?m = 4" using l by (simp add: lenSize_def split: if_splits)
    have nums: "(encode k st c @ rest) ! 4 = (encode k st c @ rest) ! Suc 3" "(encode k st c @ rest) ! 3 = (encode k st c @ rest) ! Suc 2"
      "(encode k st c @ rest) ! 2 = (encode k st c @ rest) ! Suc 1" "(encode k st c @ rest) ! 1 = (encode k st c @ rest) ! Suc 0"
      by (simp_all add: eval_nat_numeral)
    show ?thesis using Wide m len four_bytes [of ?n] b byte [of 0] byte [of 1] byte [of 2] byte [of 3]
      unfolding length_component_def nums by simp
  qed (use l in \<open>simp_all add: length_component_def lenSize_def split: if_splits\<close>)
qed

section \<open>A block that is a list of clumplets\<close>

definition header :: "Kind \<Rightarrow> bytes \<Rightarrow> bool" where
  "header k pre \<longleftrightarrow>
     (case k of
        EndOfList \<Rightarrow> False
      | Tpb \<Rightarrow> length pre = 1 | Tagged \<Rightarrow> length pre = 1 | WideTagged \<Rightarrow> length pre = 1
      | SpbAttach \<Rightarrow> pre = [isc_spb_version1] \<or> (length pre = 2 \<and> hd pre \<noteq> isc_spb_version1)
      | _ \<Rightarrow> pre = [])"

text \<open>The block holds the clumplets \<open>ds @ cs\<close> and stands at the first of \<open>cs\<close>.\<close>

definition stands :: "'a pb_scheme \<Rightarrow> bytes \<Rightarrow> clumplet list \<Rightarrow> clumplet list \<Rightarrow> bool" where
  "stands s pre ds cs \<longleftrightarrow>
     buffer s = pre @ encode_all (kind s) 0 (ds @ cs) \<and> cur_offset s = length pre + length (encode_all (kind s) 0 ds) \<and>
     spbState s = state_after (kind s) 0 ds \<and> storables (kind s) 0 (ds @ cs) \<and> header (kind s) pre \<and> \<not> null_buffer s \<and>
     length pre + length (encode_all (kind s) 0 (ds @ cs)) < 4294967296"

lemma FB_SIZE_id [simp]: "n < 4294967296 \<Longrightarrow> FB_SIZE n = n" by (simp add: FB_SIZE_def)

lemma encode_all_empty [simp]: "encode_all k st cs = [] \<longleftrightarrow> cs = []"
  by (cases cs) simp_all

lemma stands_rewind: "stands s pre ds cs \<Longrightarrow> stands (rewind s) pre [] (ds @ cs)"
  by (cases "kind s") (auto simp: stands_def rewind_def header_def getBufferLength_def neq_Nil_conv hd_append split: if_splits)

lemma stands_eof:
  assumes "stands s pre ds cs"
  shows "isEof s \<longleftrightarrow> cs = []"
proof -
  let ?e = "encode_all (kind s) (state_after (kind s) 0 ds) cs"
  have len: "length (buffer s) = cur_offset s + length ?e" "length (buffer s) < 4294967296" using assms by (simp_all add: stands_def)
  have pre: "kind s \<noteq> UnTagged \<Longrightarrow> kind s \<noteq> SpbStart \<Longrightarrow> kind s \<noteq> WideUnTagged \<Longrightarrow> kind s \<noteq> SpbSendItems \<Longrightarrow>
      kind s \<noteq> SpbReceiveItems \<Longrightarrow> 1 \<le> cur_offset s"
    using assms by (cases "kind s") (auto simp: stands_def header_def)
  show ?thesis
  proof (cases "getBufferLength s = length (buffer s)")
    case True
    then show ?thesis using len(1) by (simp add: isEof_def)
  next
    case False
    then have "length (buffer s) = 1" "getBufferLength s = 0" "1 \<le> cur_offset s"
      using len(2) pre by (auto simp: getBufferLength_def Let_def split: if_splits)
    then show ?thesis using len(1) by (cases "?e") (simp_all add: isEof_def)
  qed
qed

lemma stands_at:
  assumes "stands s pre ds (c # cs)"
  obtains bef rest where "buffer s = bef @ encode (kind s) (spbState s) c @ rest" "cur_offset s = length bef"
    "storable (kind s) (spbState s) c" "length (buffer s) < 4294967296"
  using assms by (intro that [of "pre @ encode_all (kind s) 0 ds"]) (auto simp: stands_def)

lemma stands_size:
  assumes "stands s pre ds (c # cs)"
  shows "getClumpletSize a b d s = Inr ((if a then 1 else 0) + (if b then len_size (kind s) (spbState s) c else 0) +
    (if d then length (snd c) else 0))"
proof -
  obtain bef rest where e: "buffer s = bef @ encode (kind s) (spbState s) c @ rest" "cur_offset s = length bef"
    "storable (kind s) (spbState s) c" "length (buffer s) < 4294967296" by (rule stands_at [OF assms])
  obtain t where t: "clumplet_type (kind s) (spbState s) (fst c) = Inr t" using e(3) by (metis storableE)
  let ?m = "len_size (kind s) (spbState s) c"
  have drop: "drop (cur_offset s) (buffer s) = encode (kind s) (spbState s) c @ rest" using e by simp
  have hd: "hd (encode (kind s) (spbState s) c @ rest) = fst c" by (simp add: encode_def)
  have len: "1 + ?m + length (snd c) \<le> length (encode (kind s) (spbState s) c @ rest)" "1 + ?m + length (snd c) < 4294967296"
    using length_encode [OF e(3)] e(1,4) by simp_all
  have small: "(if a then 1 else 0) + (if b then ?m else 0) + (if d then length (snd c) else 0) < 4294967296" using len(2) by simp
  have "\<not> FB_SIZE (1 + ?m + length (snd c)) > length (encode (kind s) (spbState s) c @ rest)" using len by simp
  then show ?thesis
    unfolding getClumpletSize_def drop Let_def hd getClumpletType_def t sum.case length_component_encode [OF t e(3)] prod.case
    using small by simp
qed

lemma stands_tag:
  assumes "stands s pre ds (c # cs)"
  shows "getClumpTag s = Inr (fst c)"
  by (rule stands_at [OF assms]) (simp add: getClumpTag_def encode_def nth_append)

lemma stands_data:
  assumes "stands s pre ds (c # cs)"
  shows "getData s = Inr (snd c)"
proof -
  obtain bef rest where e: "buffer s = bef @ encode (kind s) (spbState s) c @ rest" "cur_offset s = length bef"
    "storable (kind s) (spbState s) c" by (rule stands_at [OF assms])
  let ?m = "len_size (kind s) (spbState s) c"
  have "drop (cur_offset s + (1 + ?m)) (buffer s) = snd c @ rest"
    using e len_size_le [OF e(3)] by (simp add: encode_def add.commute [of "length bef"] flip: drop_drop)
  moreover have "cur_offset s + (1 + ?m) + length (snd c) \<le> length (buffer s)" using e(1,2) length_encode [OF e(3)] by simp
  ultimately show ?thesis by (simp add: getData_def getBytes_def getClumpLength_def stands_size [OF assms])
qed

lemma stands_clumplet: "stands s pre ds (c # cs) \<Longrightarrow> getClumplet s = Inr c"
  by (simp add: getClumplet_def stands_tag stands_data)

lemma stands_next:
  assumes "stands s pre ds (c # cs)"
  obtains s' where "moveNext s = Inr s'" "stands s' pre (ds @ [c]) cs" "kind s' = kind s" "buffer s' = buffer s" "pb.more s' = pb.more s"
proof -
  note size = stands_size [OF assms]
  obtain bef rest where e: "buffer s = bef @ encode (kind s) (spbState s) c @ rest" "cur_offset s = length bef"
    "storable (kind s) (spbState s) c" "length (buffer s) < 4294967296" by (rule stands_at [OF assms])
  let ?n = "length (encode (kind s) (spbState s) c)"
  have full: "getClumpletSize True True True s = Inr ?n" using size [of True True True] length_encode [OF e(3)] by simp
  have adj: "adjustSpbState s = Inr (s\<lparr>spbState := next_state (kind s) (spbState s) c\<rparr>)"
    by (simp add: adjustSpbState_def full stands_tag [OF assms] next_state_def)
  let ?s = "s\<lparr>spbState := next_state (kind s) (spbState s) c, cur_offset := cur_offset s + ?n\<rparr>"
  have "cur_offset s + ?n < 4294967296" using e by simp
  then have "moveNext s = Inr ?s" using stands_eof [OF assms] by (simp add: moveNext_def full adj)
  then show thesis by (rule that) (use assms in \<open>simp_all add: stands_def\<close>)
qed

text \<open>What navigation does not touch.\<close>

definition kept :: "'a pb_scheme \<Rightarrow> 'a pb_scheme \<Rightarrow> bool" where
  "kept s s' \<longleftrightarrow> kind s' = kind s \<and> buffer s' = buffer s \<and> null_buffer s' = null_buffer s \<and> pb.more s' = pb.more s"

lemma kept_refl [simp]: "kept s s" by (simp add: kept_def)

lemma kept_trans: "kept s t \<Longrightarrow> kept t u \<Longrightarrow> kept s u" by (simp add: kept_def)

lemma kept_rewind [simp]: "kept s (rewind s)" by (simp add: kept_def rewind_def)

section \<open>Searching\<close>

lemma find_loop_finds:
  assumes "stands s pre ds (us @ (tag, d) # vs)" "tag \<notin> fst ` set us"
  shows "\<exists>s'. pb_find_loop tag s = Some (Inr (True, s')) \<and> stands s' pre (ds @ us) ((tag, d) # vs) \<and> kept s s'"
  using assms
proof (induction us arbitrary: s ds)
  case Nil
  then have "\<not> isEof s" "getClumpTag s = Inr tag" using stands_eof [of s pre ds] stands_tag [of s pre ds] by auto
  then show ?case using Nil by (subst pb_find_loop.simps) simp
next
  case (Cons u us)
  have s: "\<not> isEof s" "getClumpTag s = Inr (fst u)" "fst u \<noteq> tag"
    using stands_eof [of s pre ds] stands_tag [of s pre ds u] Cons.prems by auto
  obtain s1 where s1: "moveNext s = Inr s1" "stands s1 pre (ds @ [u]) (us @ (tag, d) # vs)" "kind s1 = kind s" "buffer s1 = buffer s"
      "pb.more s1 = pb.more s"
    using stands_next [of s pre ds u] Cons.prems(1) by auto
  have k: "kept s s1" using s1 Cons.prems(1) by (simp add: kept_def stands_def)
  have "tag \<notin> fst ` set us" using Cons.prems(2) by simp
  from Cons.IH [OF s1(2) this] obtain s' where "pb_find_loop tag s1 = Some (Inr (True, s'))"
    "stands s' pre ((ds @ [u]) @ us) ((tag, d) # vs)" "kept s1 s'" by blast
  moreover from this have "pb_find_loop tag s = Some (Inr (True, s'))"
    using s s1(1) by (subst pb_find_loop.simps) simp
  ultimately show ?case using kept_trans [OF k] by auto
qed

lemma find_loop_misses:
  assumes "stands s pre ds cs" "tag \<notin> fst ` set cs"
  shows "\<exists>s'. pb_find_loop tag s = Some (Inr (False, s')) \<and> stands s' pre (ds @ cs) [] \<and> kept s s'"
  using assms
proof (induction cs arbitrary: s ds)
  case Nil
  then have "isEof s" using stands_eof [of s pre ds] by simp
  then show ?case using Nil by (subst pb_find_loop.simps) simp
next
  case (Cons u us)
  have s: "\<not> isEof s" "getClumpTag s = Inr (fst u)" "fst u \<noteq> tag"
    using stands_eof [of s pre ds] stands_tag [of s pre ds u] Cons.prems by auto
  obtain s1 where s1: "moveNext s = Inr s1" "stands s1 pre (ds @ [u]) us" "kind s1 = kind s" "buffer s1 = buffer s"
      "pb.more s1 = pb.more s"
    using stands_next [of s pre ds u] Cons.prems(1) by auto
  have k: "kept s s1" using s1 Cons.prems(1) by (simp add: kept_def stands_def)
  have "tag \<notin> fst ` set us" using Cons.prems(2) by simp
  from Cons.IH [OF s1(2) this] obtain s' where "pb_find_loop tag s1 = Some (Inr (False, s'))"
    "stands s' pre ((ds @ [u]) @ us) []" "kept s1 s'" by blast
  moreover from this have "pb_find_loop tag s = Some (Inr (False, s'))"
    using s s1(1) by (subst pb_find_loop.simps) simp
  ultimately show ?case using kept_trans [OF k] by auto
qed

lemma stateless [simp]: "k \<noteq> SpbStart \<Longrightarrow> next_state k st c = st" by (simp add: next_state_def)

lemma stateless_all [simp]: "k \<noteq> SpbStart \<Longrightarrow> state_after k st cs = st"
  by (induction k st cs rule: state_after.induct) simp_all

lemma find_finds:
  assumes "stands s pre ds cs" "ds @ cs = us @ (tag, d) # vs" "tag \<notin> fst ` set us"
  shows "\<exists>s'. pb_find tag s = Some (Inr (True, s')) \<and> stands s' pre us ((tag, d) # vs) \<and> kept s s'"
proof -
  have "stands (rewind s) pre [] (us @ (tag, d) # vs)" using stands_rewind [OF assms(1)] assms(2) by simp
  from find_loop_finds [OF this assms(3)] obtain s' where "pb_find_loop tag (rewind s) = Some (Inr (True, s'))"
    "stands s' pre us ((tag, d) # vs)" "kept (rewind s) s'" by auto
  then show ?thesis using kept_trans [OF kept_rewind] by (auto simp: pb_find_def Let_def)
qed

lemma find_misses:
  assumes "stands s pre ds cs" "tag \<notin> fst ` set (ds @ cs)"
  shows "pb_find tag s = Some (Inr (False, s\<lparr>spbState := state_after (kind s) 0 (ds @ cs)\<rparr>))"
proof -
  from find_loop_misses [OF stands_rewind [OF assms(1)] assms(2)] obtain s' where
    s': "pb_find_loop tag (rewind s) = Some (Inr (False, s'))" "stands s' pre (ds @ cs) []" "kept (rewind s) s'" by auto
  have "kept s s'" by (rule kept_trans [OF kept_rewind s'(3)])
  then have "s'\<lparr>cur_offset := cur_offset s\<rparr> = s\<lparr>spbState := state_after (kind s) 0 (ds @ cs)\<rparr>"
    using s'(2) by (cases s; cases s') (simp add: kept_def stands_def)
  then show ?thesis by (simp add: pb_find_def Let_def s'(1))
qed

lemma find_misses_stateless:
  assumes "stands s pre ds cs" "tag \<notin> fst ` set (ds @ cs)" "kind s \<noteq> SpbStart"
  shows "pb_find tag s = Some (Inr (False, s))"
proof -
  have "spbState s = 0" using assms(1,3) by (simp add: stands_def)
  then have "s\<lparr>spbState := state_after (kind s) 0 (ds @ cs)\<rparr> = s" using assms(3) by (cases s) simp
  then show ?thesis using find_misses [OF assms(1,2)] by simp
qed

section \<open>Changing a block\<close>

lemma stands_adjust:
  assumes "stands s pre ds (c # cs)"
  shows "adjustSpbState s = Inr (s\<lparr>spbState := next_state (kind s) (spbState s) c\<rparr>)"
proof -
  obtain bef rest where e: "storable (kind s) (spbState s) c" by (rule stands_at [OF assms])
  have full: "getClumpletSize True True True s = Inr (length (encode (kind s) (spbState s) c))"
    using stands_size [OF assms, of True True True] length_encode [OF e] by simp
  show ?thesis by (simp add: adjustSpbState_def full stands_tag [OF assms] next_state_def)
qed

lemma put_clumplet_stands:
  assumes s: "stands s pre ds cs" and c: "storable (kind s) (spbState s) (tag, data)" "kind s = SpbStart \<Longrightarrow> cs = []"
    and room: "length (buffer s) + length (encode (kind s) (spbState s) (tag, data)) \<le> sizeLimit s" "sizeLimit s < 4294967296"
  shows "\<exists>s'. put_clumplet tag data (len_size (kind s) (spbState s) (tag, data)) s = Inr s' \<and> stands s' pre (ds @ [(tag, data)]) cs \<and>
    kind s' = kind s \<and> sizeLimit s' = sizeLimit s \<and> kindList s' = kindList s"
proof -
  let ?c = "(tag, data)"
  let ?m = "len_size (kind s) (spbState s) ?c" and ?enc = "encode (kind s) (spbState s) ?c"
  let ?b = "pre @ encode_all (kind s) 0 ds @ ?enc @ encode_all (kind s) (spbState s) cs"
  let ?s1 = "s\<lparr>buffer := ?b\<rparr>"
  have len: "length ?enc = 1 + ?m + length data" using length_encode [OF c(1)] by simp
  have split: "buffer s = (pre @ encode_all (kind s) 0 ds) @ encode_all (kind s) (spbState s) cs"
    "cur_offset s = length (pre @ encode_all (kind s) 0 ds)" using s by (simp_all add: stands_def)
  have b: "take (cur_offset s) (buffer s) @ tag # toVaxInteger ?m (of_nat (length data)) @ data @ drop (cur_offset s) (buffer s) = ?b"
    using split by (simp add: encode_def)
  have cs: "encode_all (kind s) (next_state (kind s) (spbState s) ?c) cs = encode_all (kind s) (spbState s) cs \<and>
      storables (kind s) (next_state (kind s) (spbState s) ?c) cs"
    using s c(2) by (cases "kind s = SpbStart") (auto simp: stands_def)
  have "length ?b < 4294967296" using room split(1) by simp
  then have s1: "stands ?s1 pre ds (?c # cs)" using s c(1) cs by (simp add: stands_def)
  have fits: "\<not> FB_SIZE (length (buffer s) + length data + ?m + 1) > sizeLimit s" using room len by simp
  let ?s' = "?s1\<lparr>spbState := next_state (kind s) (spbState s) ?c, cur_offset := cur_offset s + length ?enc\<rparr>"
  have "cur_offset s + 1 + ?m + length data < 4294967296" using room len split by simp
  then have off: "FB_SIZE (cur_offset s + 1 + ?m + length data) = cur_offset s + length ?enc" using len by simp
  have "put_clumplet tag data ?m s = Inr ?s'"
    unfolding put_clumplet_def Let_def b if_not_P [OF fits] stands_adjust [OF s1] sum.case off by simp
  moreover have "stands ?s' pre (ds @ [?c]) cs" using s1 split(2) cs by (simp add: stands_def)
  ultimately show ?thesis by (intro exI [of _ ?s']) simp
qed

lemma stands_offset: "stands s pre ds cs \<Longrightarrow> cur_offset s \<le> length (buffer s)"
  by (simp add: stands_def)

text \<open>A new clumplet comes before the one the writer stands at.\<close>

lemma insert_stands:
  assumes s: "stands s pre ds cs" and c: "storable (kind s) (spbState s) (tag, data)" "kind s = SpbStart \<Longrightarrow> cs = []"
    and room: "length (buffer s) + length (encode (kind s) (spbState s) (tag, data)) \<le> sizeLimit s" "sizeLimit s < 4294967296"
  shows "\<exists>s'. insertBytes tag data s = Some (Inr s') \<and> insert_once tag data s = Inr s' \<and> stands s' pre (ds @ [(tag, data)]) cs \<and>
    kind s' = kind s \<and> sizeLimit s' = sizeLimit s \<and> kindList s' = kindList s"
proof -
  obtain t where t: "clumplet_type (kind s) (spbState s) tag = Inr t"
    "lenSize t (length data) = Some (len_size (kind s) (spbState s) (tag, data))" using c(1) by (metis storableE fst_conv snd_conv)
  have "length_loop tag (length data) s = Some (Inr (len_size (kind s) (spbState s) (tag, data), s))"
    using t by (subst length_loop.simps) (simp add: getClumpletType_def)
  then show ?thesis using put_clumplet_stands [OF assms] stands_offset [OF s] t
    by (simp add: insertBytes_def insert_once_def getClumpletType_def)
qed

lemma delete_stands:
  assumes s: "stands s pre ds (c # cs)" and k: "kind s = SpbStart \<Longrightarrow> cs = []"
  shows "\<exists>s'. deleteClumplet s = Inr s' \<and> stands s' pre ds cs \<and> kind s' = kind s \<and> sizeLimit s' = sizeLimit s \<and> kindList s' = kindList s"
proof -
  let ?enc = "encode (kind s) (spbState s) c"
  have st: "storable (kind s) (spbState s) c" using s by (simp add: stands_def)
  have split: "buffer s = (pre @ encode_all (kind s) 0 ds) @ ?enc @ encode_all (kind s) (next_state (kind s) (spbState s) c) cs"
    "cur_offset s = length (pre @ encode_all (kind s) 0 ds)" using s by (simp_all add: stands_def)
  have cs: "encode_all (kind s) (next_state (kind s) (spbState s) c) cs = encode_all (kind s) (spbState s) cs \<and>
      storables (kind s) (spbState s) cs"
    using s k by (cases "kind s = SpbStart") (auto simp: stands_def)
  let ?s' = "s\<lparr>buffer := (pre @ encode_all (kind s) 0 ds) @ encode_all (kind s) (spbState s) cs\<rparr>"
  have stands: "stands ?s' pre ds cs" using s cs by (simp add: stands_def)
  have full: "getClumpletSize True True True s = Inr (length ?enc)"
    using stands_size [OF s, of True True True] length_encode [OF st] by simp
  have len: "cur_offset s < length (buffer s)" using split by (simp add: encode_def)
  have "deleteClumplet s = Inr ?s'"
  proof (cases "length (buffer s) - cur_offset s < 2")
    case True
    then have "length ?enc + length (encode_all (kind s) (spbState s) cs) < 2" using split cs by simp
    moreover have "1 \<le> length ?enc" using length_encode [OF st] by simp
    ultimately have "encode_all (kind s) (spbState s) cs = []" by (cases "encode_all (kind s) (spbState s) cs") auto
    then show ?thesis using True len split(1) cs by (simp add: deleteClumplet_def split(2))
  next
    case False
    then show ?thesis using len split(1) cs full by (simp add: deleteClumplet_def split(2))
  qed
  then show ?thesis using stands by (intro exI [of _ ?s']) simp
qed

end
