(* ===== verification/ClumpletProperties.thy ===== *)
theory ClumpletProperties
  imports ClumpletFormat
begin

text \<open>
  What the clumplet classes promise: blocks are read back as they were written, changing a
  block is changing a list, reading any bytes stays within them, and where it does not.
\<close>

section \<open>Writing and reading\<close>

fun insert_all :: "clumplet list \<Rightarrow> pbw \<Rightarrow> (clumplet_error + pbw) option" where
  "insert_all [] s = Some (Inr s)"
| "insert_all (c # cs) s =
     (case insertBytes (fst c) (snd c) s of
        None \<Rightarrow> None
      | Some (Inl e) \<Rightarrow> Some (Inl e)
      | Some (Inr s) \<Rightarrow> insert_all cs s)"

text \<open>The loop of every client: \<open>for (pb.rewind(); !pb.isEof(); pb.moveNext())\<close>.\<close>

partial_function (option) read_loop :: "clumplet list \<Rightarrow> 'a pb_scheme \<Rightarrow> (clumplet_error + clumplet list) option" where
  "read_loop cs s =
     (if isEof s then Some (Inr cs)
      else case getClumplet s of
             Inl e \<Rightarrow> Some (Inl e)
           | Inr c \<Rightarrow> (case moveNext s of Inl e \<Rightarrow> Some (Inl e) | Inr s \<Rightarrow> read_loop (cs @ [c]) s))"

definition read_all :: "'a pb_scheme \<Rightarrow> (clumplet_error + clumplet list) option" where
  "read_all s = read_loop [] (rewind s)"

lemma read_loop_stands: "stands s pre ds cs \<Longrightarrow> read_loop acc s = Some (Inr (acc @ cs))"
proof (induction cs arbitrary: s ds acc)
  case Nil
  then show ?case using stands_eof [of s pre ds] by (subst read_loop.simps) simp
next
  case (Cons c cs)
  obtain s1 where s1: "moveNext s = Inr s1" "stands s1 pre (ds @ [c]) cs" using stands_next [OF Cons.prems] by auto
  have "\<not> isEof s" using stands_eof [OF Cons.prems] by simp
  then show ?case using s1(1) stands_clumplet [OF Cons.prems] Cons.IH [OF s1(2), of "acc @ [c]"]
    by (subst read_loop.simps) simp
qed

lemma read_all_stands: "stands s pre ds cs \<Longrightarrow> read_all s = Some (Inr (ds @ cs))"
  unfolding read_all_def using read_loop_stands [OF stands_rewind] by fastforce

lemma insert_all_stands:
  assumes "stands s pre ds []" "storables (kind s) (spbState s) cs"
    "length (buffer s) + length (encode_all (kind s) (spbState s) cs) \<le> sizeLimit s" "sizeLimit s < 4294967296"
  shows "\<exists>s'. insert_all cs s = Some (Inr s') \<and> stands s' pre (ds @ cs) [] \<and> kind s' = kind s \<and> sizeLimit s' = sizeLimit s"
  using assms
proof (induction cs arbitrary: s ds)
  case Nil
  then show ?case by simp
next
  case (Cons c cs)
  obtain tag data where c: "c = (tag, data)" by (cases c)
  obtain s1 where s1: "insertBytes tag data s = Some (Inr s1)" "stands s1 pre (ds @ [c]) []" "kind s1 = kind s" "sizeLimit s1 = sizeLimit s"
    using insert_stands [of s pre ds "[]" tag data] Cons.prems unfolding c by auto
  have st: "spbState s1 = next_state (kind s) (spbState s) c"
    using s1(2,3) Cons.prems(1) by (simp add: stands_def)
  have "length (buffer s1) = length (buffer s) + length (encode (kind s) (spbState s) c)"
    using s1(2,3) Cons.prems(1) by (simp add: stands_def)
  then show ?case using Cons.IH [OF s1(2)] Cons.prems(2-4) s1 st by (simp add: c)
qed

lemma writer_stands:
  assumes "k \<noteq> EndOfList"
  shows "\<exists>pre. stands (writer k limit tag) pre [] [] \<and> kind (writer k limit tag) = k \<and>
    sizeLimit (writer k limit tag) = limit \<and> spbState (writer k limit tag) = 0 \<and> buffer (writer k limit tag) = pre \<and>
    header k pre \<and> length pre \<le> 2"
proof -
  let ?pre = "buffer (initNewBuffer tag (empty_writer k limit None))"
  have h: "header k ?pre" "length ?pre \<le> 2"
    using assms by (cases k; simp add: header_def initNewBuffer_def empty_writer_def isc_spb_version_def isc_spb_version1_def)+
  have w: "writer k limit tag = rewind (initNewBuffer tag (empty_writer k limit None))" by (simp add: writer_def)
  have "\<not> null_buffer (initNewBuffer tag (empty_writer k limit None))" "kind (initNewBuffer tag (empty_writer k limit None)) = k"
    by (simp_all add: initNewBuffer_def empty_writer_def)
  then have "cur_offset (writer k limit tag) = length ?pre"
    using h assms unfolding w
    by (cases k) (auto simp: rewind_def header_def getBufferLength_def initNewBuffer_def empty_writer_def FB_SIZE_def
        isc_spb_version_def isc_spb_version1_def Let_def)
  then show ?thesis using h
    by (intro exI [of _ ?pre]) (simp add: stands_def w rewind_def initNewBuffer_def empty_writer_def)
qed

lemma reader_stands:
  assumes "header k pre" "storables k 0 cs" "length pre + length (encode_all k 0 cs) < 4294967296"
  shows "stands (reader k (pre @ encode_all k 0 cs)) pre [] cs"
proof -
  let ?s = "\<lparr>kind = k, null_buffer = False, buffer = pre @ encode_all k 0 cs, cur_offset = length pre, spbState = 0\<rparr>"
  have "stands ?s pre [] cs" using assms by (simp add: stands_def)
  moreover have "reader k (pre @ encode_all k 0 cs) = rewind ?s" by (simp add: reader_def rewind_def getBufferLength_def)
  ultimately show ?thesis using stands_rewind [of ?s pre "[]" cs] by simp
qed

text \<open>
  C10. A parameter block of any kind is read back as it was written: clumplets that fit the kind,
  inserted one after the other into a new block whose limit they do not exceed, all go in, and
  a reader over the bytes sees exactly them.
\<close>

theorem clumplets_roundtrip:
  assumes "k \<noteq> EndOfList" "storables k 0 cs" "2 + length (encode_all k 0 cs) \<le> limit" "limit < 4294967296"
  shows "\<exists>s. insert_all cs (writer k limit tag) = Some (Inr s) \<and> read_all (reader k (buffer s)) = Some (Inr cs)"
proof -
  obtain pre where w: "stands (writer k limit tag) pre [] []" "kind (writer k limit tag) = k"
    "sizeLimit (writer k limit tag) = limit" "spbState (writer k limit tag) = 0" "buffer (writer k limit tag) = pre"
    "header k pre" "length pre \<le> 2"
    using writer_stands [OF assms(1)] by blast
  have room: "length pre + length (encode_all k 0 cs) \<le> limit" using w(7) assms(3) by simp
  obtain s where s: "insert_all cs (writer k limit tag) = Some (Inr s)" "stands s pre cs []" "kind s = k"
    using insert_all_stands [OF w(1), of cs, unfolded w(2-5), OF assms(2) room assms(4)] by auto
  have "buffer s = pre @ encode_all k 0 cs" using s(2,3) by (simp add: stands_def)
  moreover have "stands (reader k (pre @ encode_all k 0 cs)) pre [] cs"
    using reader_stands [OF w(6) assms(2)] w(7) assms(3,4) by simp
  ultimately show ?thesis using s(1) read_all_stands by fastforce
qed

theorem clumplets_roundtrip_witness:
  "\<exists>s. insert_all [(1, []), (106, [97, 98]), (6, [0, 1, 0, 0])] (writer SpbStart 100 0) = Some (Inr s) \<and>
     read_all (reader SpbStart (buffer s)) = Some (Inr [(1, []), (106, [97, 98]), (6, [0, 1, 0, 0])])"
  by (rule clumplets_roundtrip)
     (simp_all add: storable_def next_state_def encode_def len_size_def clumplet_type_def spb_start_type_def lenSize_def
        pb_tags)

section \<open>A block is a list\<close>


lemma delete_loop_stands:
  assumes "stands s pre ds cs" "kind s \<noteq> SpbStart"
  shows "\<exists>s' xs ys. delete_loop rc tag s = Some (Inr (rc \<or> tag \<in> fst ` set (ds @ cs), s')) \<and> stands s' pre xs ys \<and>
    xs @ ys = filter (\<lambda>c. fst c \<noteq> tag) (ds @ cs)"
  using assms
proof (induction "length (ds @ cs)" arbitrary: rc s ds cs rule: less_induct)
  case less
  show ?case
  proof (cases "tag \<in> fst ` set (ds @ cs)")
    case False
    have "pb_find tag s = Some (Inr (False, s))" by (rule find_misses_stateless [OF less.prems(1) False less.prems(2)])
    then have "delete_loop rc tag s = Some (Inr (rc, s))" by (subst delete_loop.simps) simp
    moreover have "filter (\<lambda>c. fst c \<noteq> tag) (ds @ cs) = ds @ cs" by (rule filter_True) (use False in force)
    ultimately show ?thesis using less.prems(1) False by auto
  next
    case True
    then have "\<exists>x \<in> set (ds @ cs). fst x = tag" by force
    from split_list_first_prop [OF this] obtain us x vs where x: "ds @ cs = us @ x # vs" "fst x = tag" "\<forall>y \<in> set us. fst y \<noteq> tag" by blast
    obtain d where d: "x = (tag, d)" using x(2) by (cases x) simp
    have us: "tag \<notin> fst ` set us" using x(3) by auto
    obtain s1 where s1: "pb_find tag s = Some (Inr (True, s1))" "stands s1 pre us ((tag, d) # vs)" "kept s s1"
      using find_finds [OF less.prems(1) x(1) [unfolded d] us] by blast
    have k1: "kind s1 \<noteq> SpbStart" using s1(3) less.prems(2) by (simp add: kept_def)
    obtain s2 where s2: "deleteClumplet s1 = Inr s2" "stands s2 pre us vs" "kind s2 \<noteq> SpbStart"
      using delete_stands [OF s1(2)] k1 by auto
    have run: "delete_loop rc tag s = delete_loop True tag s2" using s1(1) s2(1) by (subst delete_loop.simps) simp
    have "length (us @ vs) < length (ds @ cs)" by (simp only: x(1)) simp
    from less.hyps [OF this s2(2,3)] obtain s' xs ys where
      r: "delete_loop True tag s2 = Some (Inr (True \<or> tag \<in> fst ` set (us @ vs), s'))" "stands s' pre xs ys"
        "xs @ ys = filter (\<lambda>c. fst c \<noteq> tag) (us @ vs)" by blast
    have "filter (\<lambda>c. fst c \<noteq> tag) (us @ vs) = filter (\<lambda>c. fst c \<noteq> tag) (ds @ cs)" by (simp only: x(1) d) simp
    moreover have "delete_loop rc tag s = Some (Inr (rc \<or> tag \<in> fst ` set (ds @ cs), s'))" using r(1) True by (simp add: run)
    ultimately show ?thesis using r(2,3) by (intro exI [of _ s'] exI [of _ xs] exI [of _ ys]) simp
  qed
qed


section \<open>Integers in blocks\<close>

lemma from_vax_bytes: "n \<le> 8 \<Longrightarrow> from_vax (toVaxInteger n v) = Inr (take_bit (8 * n) v)"
  by (simp add: from_vax_def fromVaxInteger_def vax_loop_value toVaxInteger_bytes)

lemma ucast_scast_32: "ucast (take_bit 32 (scast (v :: SLONG) :: SINT64)) = v"
  by (intro bit_word_eqI) (auto simp: bit_simps)

lemma stands_length: "stands s pre ds (c # cs) \<Longrightarrow> getClumpLength s = Inr (length (snd c))"
  by (simp add: getClumpLength_def stands_size)

lemma ucast_ucast_32: "ucast (take_bit 32 (ucast (v :: ULONG) :: SINT64)) = v"
  by (intro bit_word_eqI) (auto simp: bit_simps)

lemma double_halves:
  "push_bit 32 (take_bit 32 (scast (ucast (drop_bit 32 (v :: SINT64)) :: SLONG))) + take_bit 32 (scast (ucast v :: SLONG)) = v"
proof -
  have "take_bit 32 (scast (ucast w :: SLONG)) = take_bit 32 w" for w :: SINT64
    by (intro bit_word_eqI) (auto simp: bit_simps)
  moreover have "take_bit 32 (drop_bit 32 v) = drop_bit 32 v"
    by (intro bit_word_eqI) (auto simp: bit_simps dest: bit_imp_le_length)
  ultimately show ?thesis by (simp add: bits_ident)
qed


section \<open>Any bytes\<close>

lemma length_component_bounds:
  assumes "length_component t c = Inr (ls, n)" "c \<noteq> []"
  shows "1 + ls \<le> length c" "ls \<le> 4" "n < 4294967296" "t \<noteq> Wide \<Longrightarrow> n < 65536"
proof -
  have u: "unat (x :: UCHAR) < 256" for x by (rule unat_less_8)
  have "1 + ls \<le> length c \<and> ls \<le> 4 \<and> n < 4294967296 \<and> (t \<noteq> Wide \<longrightarrow> n < 65536)"
  proof (cases t)
    case Wide
    then have "5 \<le> length c" "ls = 4" "n = ((unat (c ! 4) * 256 + unat (c ! 3)) * 256 + unat (c ! 2)) * 256 + unat (c ! 1)"
      using assms by (simp_all add: length_component_def split: if_splits)
    then show ?thesis using Wide u [of "c ! 1"] u [of "c ! 2"] u [of "c ! 3"] u [of "c ! 4"] by simp
  next
    case StringSpb
    then have "3 \<le> length c" "ls = 2" "n = unat (c ! 2) * 256 + unat (c ! 1)"
      using assms by (simp_all add: length_component_def split: if_splits)
    then show ?thesis using StringSpb u [of "c ! 1"] u [of "c ! 2"] by simp
  next
    case TraditionalDpb
    then have "2 \<le> length c" "ls = 1 \<and> n = unat (c ! 1)"
      using assms by (auto simp: length_component_def split: if_splits)
    then show ?thesis using TraditionalDpb u [of "c ! 1"] by simp
  qed (use assms in \<open>auto simp: length_component_def Suc_le_eq\<close>)
  then show "1 + ls \<le> length c" "ls \<le> 4" "n < 4294967296" "t \<noteq> Wide \<Longrightarrow> n < 65536" by blast+
qed

lemma spb_start_type_error: "spb_start_type st tag \<noteq> Inl overread"
proof -
  have "(if b then x else y) \<noteq> Inl overread" if "x \<noteq> Inl overread" "y \<noteq> Inl overread"
    for b and x y :: "clumplet_error + ClumpletType" using that by simp
  note if_neq = this
  show ?thesis unfolding spb_start_type_def by (intro if_neq; simp only: Inl_Inr_False sum.distinct sum.inject clumplet_error.distinct not_False_eq_True)
qed

lemma clumplet_type_error: "clumplet_type k st tag \<noteq> Inl overread"
  by (cases k) (simp_all add: clumplet_type_def spb_start_type_error)

lemma length_component_error: "length_component t c \<noteq> Inl overread"
  by (cases t) (simp_all add: length_component_def)

lemma getClumpletSize_error: "getClumpletSize a b d s \<noteq> Inl overread"
  using clumplet_type_error [of "kind s" "spbState s"] length_component_error
  by (auto simp: getClumpletSize_def getClumpletType_def Let_def split: sum.splits)

lemma size_parts:
  assumes "getClumpletSize a b d s = Inr n"
  obtains tag t ls m where "cur_offset s < length (buffer s)" "getClumpTag s = Inr tag" "getClumpletType s tag = Inr t"
    "length_component t (drop (cur_offset s) (buffer s)) = Inr (ls, m)"
    "FB_SIZE (1 + ls + m) \<le> length (buffer s) - cur_offset s"
    "\<And>a b d. getClumpletSize a b d s = Inr (FB_SIZE ((if a then 1 else 0) + (if b then ls else 0) + (if d then m else 0)))"
proof -
  let ?c = "drop (cur_offset s) (buffer s)"
  have c: "?c \<noteq> []" using assms by (auto simp: getClumpletSize_def Let_def split: if_splits)
  obtain t where t: "getClumpletType s (hd ?c) = Inr t"
    using assms c by (auto simp: getClumpletSize_def Let_def split: sum.splits)
  obtain ls m where l: "length_component t ?c = Inr (ls, m)"
    using assms c t by (auto simp: getClumpletSize_def Let_def split: sum.splits)
  have f: "\<not> FB_SIZE (1 + ls + m) > length ?c"
    using assms c t l by (auto simp: getClumpletSize_def Let_def split: if_splits)
  have "getClumpTag s = Inr (hd ?c)" using c by (simp add: getClumpTag_def hd_drop_conv_nth)
  moreover have "getClumpletSize a b d s = Inr (FB_SIZE ((if a then 1 else 0) + (if b then ls else 0) + (if d then m else 0)))" for a b d
    using c t l f by (simp add: getClumpletSize_def Let_def)
  ultimately show thesis using c t l f by (intro that) simp_all
qed

text \<open>
  C13. Reading never leaves the buffer, whatever bytes are in it, but for one case: a wide clumplet
  whose length is so near to \<open>2 ^ 32\<close> that the sum of its sizes wraps around.
\<close>

theorem overread_only_wide:
  assumes "length (buffer s) < 4294967296" "getData s = Inl overread"
  shows "\<exists>tag n. getClumpTag s = Inr tag \<and> getClumpletType s tag = Inr Wide \<and> getClumpLength s = Inr n \<and> 4294967291 \<le> n"
proof -
  obtain p where p: "getBytes s = Inr p"
    using assms(2) getClumpletSize_error by (cases "getBytes s") (auto simp: getData_def getBytes_def split: sum.splits)
  obtain n where n: "getClumpLength s = Inr n"
    using assms(2) p getClumpletSize_error by (cases "getClumpLength s") (auto simp: getData_def getClumpLength_def)
  have "length (buffer s) < p + n"
    using assms(2) p n by (simp add: getData_def split: if_splits)
  note g = p n this
  obtain tag t ls m where P: "cur_offset s < length (buffer s)" "getClumpTag s = Inr tag" "getClumpletType s tag = Inr t"
    "length_component t (drop (cur_offset s) (buffer s)) = Inr (ls, m)"
    "FB_SIZE (1 + ls + m) \<le> length (buffer s) - cur_offset s"
    "\<And>a b d. getClumpletSize a b d s = Inr (FB_SIZE ((if a then 1 else 0) + (if b then ls else 0) + (if d then m else 0)))"
    by (rule size_parts [OF n [unfolded getClumpLength_def]], rule that)
  note B = length_component_bounds [OF P(4)]
  have c: "drop (cur_offset s) (buffer s) \<noteq> []" using P(1) by simp
  have n: "n = m" "p = cur_offset s + (1 + ls)"
    using g(1,2) B(2,3) [OF c] by (simp_all add: getClumpLength_def getBytes_def P(6) FB_SIZE_def)
  have big: "4294967296 \<le> 1 + ls + m"
  proof (rule ccontr)
    assume "\<not> 4294967296 \<le> 1 + ls + m"
    then have "1 + ls + m \<le> length (buffer s) - cur_offset s" using P(5) by (simp add: FB_SIZE_def)
    then show False using g(3) n P(1) by simp
  qed
  then have "t = Wide" using B [OF c] by (cases "t = Wide") simp_all
  moreover have "4294967291 \<le> n" using big B(2) [OF c] n(1) by simp
  ultimately show ?thesis using P(2,3) g(2) by blast
qed

text \<open>Kinds that have no wide clumplets.\<close>

definition narrow :: "Kind \<Rightarrow> bool" where
  "narrow k \<longleftrightarrow> k \<in> {Tagged, UnTagged, SpbAttach, Tpb, SpbReceiveItems}"

lemma narrow_type: "narrow (kind s) \<Longrightarrow> getClumpletType s tag \<noteq> Inr Wide"
  by (auto simp: narrow_def getClumpletType_def clumplet_type_def)

lemma narrow_step:
  assumes k: "narrow (kind s)" and len: "length (buffer s) < 4294967296" and run: "moveNext s = Inr s'" "\<not> isEof s"
  shows "cur_offset s < cur_offset s'" "cur_offset s' \<le> length (buffer s)" "kind s' = kind s" "buffer s' = buffer s"
proof -
  obtain n where n: "getClumpletSize True True True s = Inr n" using run by (auto simp: moveNext_def split: sum.splits)
  then obtain tag t ls m where P: "cur_offset s < length (buffer s)" "getClumpTag s = Inr tag" "getClumpletType s tag = Inr t"
    "length_component t (drop (cur_offset s) (buffer s)) = Inr (ls, m)"
    "FB_SIZE (1 + ls + m) \<le> length (buffer s) - cur_offset s"
    "\<And>a b d. getClumpletSize a b d s = Inr (FB_SIZE ((if a then 1 else 0) + (if b then ls else 0) + (if d then m else 0)))"
    by (metis size_parts)
  have c: "drop (cur_offset s) (buffer s) \<noteq> []" using P(1) by simp
  have "t \<noteq> Wide" using narrow_type [OF k] P(3) by blast
  then have m: "ls \<le> 4" "m < 65536" using length_component_bounds [OF P(4) c] by blast+
  have n': "n = 1 + ls + m" using n P(6) m by simp
  have st: "kind s \<noteq> SpbStart" using k by (auto simp: narrow_def)
  have "s' = s\<lparr>cur_offset := FB_SIZE (cur_offset s + n)\<rparr>"
    using run n st by (simp add: moveNext_def adjustSpbState_def)
  moreover have "cur_offset s + n \<le> length (buffer s)" using P(1,5) n' m by simp
  ultimately show "cur_offset s < cur_offset s'" "cur_offset s' \<le> length (buffer s)" "kind s' = kind s" "buffer s' = buffer s"
    using len n' by simp_all
qed

lemma narrow_find_loop:
  assumes "narrow (kind s)" "length (buffer s) < 4294967296"
  shows "\<exists>res. pb_find_loop tag s = Some res"
  using assms
proof (induction "length (buffer s) - cur_offset s" arbitrary: s rule: less_induct)
  case less
  show ?case
  proof (cases "isEof s \<or> (\<exists>e. getClumpTag s = Inl e) \<or> getClumpTag s = Inr tag \<or> (\<exists>e. moveNext s = Inl e)")
    case True
    then show ?thesis by (subst pb_find_loop.simps) (auto split: sum.splits)
  next
    case False
    then obtain t s' where s': "getClumpTag s = Inr t" "t \<noteq> tag" "moveNext s = Inr s'" "\<not> isEof s"
      by (metis sum.exhaust)
    note N = narrow_step [OF less.prems s'(3,4)]
    have "pb_find_loop tag s = pb_find_loop tag s'" using s' by (subst pb_find_loop.simps) simp
    moreover have "length (buffer s') - cur_offset s' < length (buffer s) - cur_offset s" using N by simp
    ultimately show ?thesis using less.hyps [of s'] less.prems N(3,4) by simp
  qed
qed

lemma narrow_read_loop:
  assumes "narrow (kind s)" "length (buffer s) < 4294967296"
  shows "\<exists>res. read_loop acc s = Some res"
  using assms
proof (induction "length (buffer s) - cur_offset s" arbitrary: acc s rule: less_induct)
  case less
  show ?case
  proof (cases "isEof s \<or> (\<exists>e. getClumplet s = Inl e) \<or> (\<exists>e. moveNext s = Inl e)")
    case True
    then show ?thesis by (subst read_loop.simps) (auto split: sum.splits)
  next
    case False
    then obtain c s' where s': "getClumplet s = Inr c" "moveNext s = Inr s'" "\<not> isEof s"
      by (metis sum.exhaust)
    note N = narrow_step [OF less.prems s'(2,3)]
    have "read_loop acc s = read_loop (acc @ [c]) s'" using s' by (subst read_loop.simps) simp
    moreover have "length (buffer s') - cur_offset s' < length (buffer s) - cur_offset s" using N by simp
    ultimately show ?thesis using less.hyps [of s'] less.prems N(3,4) by simp
  qed
qed

text \<open>
  C12. The loops over a block return, whatever bytes are in it, if its kind has no wide clumplets:
  \<open>find\<close>, \<open>next\<close> and the loop of the clients.
\<close>

theorem narrow_loops_return:
  assumes "narrow (kind s)" "length (buffer s) < 4294967296"
  shows "(\<exists>res. pb_find tag s = Some res) \<and> (\<exists>res. pb_next tag s = Some res) \<and> (\<exists>res. read_all s = Some res)"
proof -
  have r: "narrow (kind (rewind s))" "length (buffer (rewind s)) < 4294967296" using assms by (simp_all add: rewind_def)
  have "\<exists>res. pb_find tag s = Some res"
    using narrow_find_loop [OF r, of tag] by (auto simp: pb_find_def Let_def split: sum.splits prod.splits bool.splits)
  moreover have "\<exists>res. pb_next tag s = Some res"
  proof (cases "isEof s")
    case True
    then show ?thesis by (simp add: pb_next_def)
  next
    case False
    let ?x = "case getClumpTag s of Inl e \<Rightarrow> Inl e | Inr t \<Rightarrow> if tag = t then moveNext s else Inr s"
    show ?thesis
    proof (cases ?x)
      case (Inl e)
      then show ?thesis using False by (simp add: pb_next_def Let_def)
    next
      case (Inr s1)
      then obtain t where t: "getClumpTag s = Inr t" by (cases "getClumpTag s") auto
      have "narrow (kind s1) \<and> length (buffer s1) < 4294967296"
      proof (cases "tag = t")
        case True
        then have "moveNext s = Inr s1" using Inr t by simp
        then show ?thesis using narrow_step [OF assms, of s1] False assms by simp
      next
        case False
        then show ?thesis using Inr t assms by simp
      qed
      then obtain res where res: "pb_find_loop tag s1 = Some res" using narrow_find_loop [of s1 tag] by blast
      show ?thesis
      proof (cases res)
        case (Inl e)
        then show ?thesis using Inr False res by (simp add: pb_next_def Let_def)
      next
        case r: (Inr p)
        obtain b s2 where "p = (b, s2)" by (cases p)
        then show ?thesis using Inr r False res by (cases b) (simp_all add: pb_next_def Let_def)
      qed
    qed
  qed
  moreover have "\<exists>res. read_all s = Some res" unfolding read_all_def by (rule narrow_read_loop [OF r])
  ultimately show ?thesis by blast
qed

section \<open>Wide clumplets\<close>

lemma find_loop_stuck:
  assumes "\<not> isEof s" "getClumpTag s = Inr t" "t \<noteq> tag" "moveNext s = Inr s"
  shows "pb_find_loop tag s = None"
proof -
  have "u = tag \<longrightarrow> x = s \<longrightarrow> False" if "pb_find_loop u x = Some y" for u x y
  proof (rule pb_find_loop.raw_induct [of "\<lambda>u x y. u = tag \<longrightarrow> x = s \<longrightarrow> False", OF _ that])
    fix f :: "UCHAR \<Rightarrow> 'a pb_scheme \<Rightarrow> (clumplet_error + bool \<times> 'a pb_scheme) option" and u x y
    assume IH: "\<And>u x y. f u x = Some y \<Longrightarrow> u = tag \<longrightarrow> x = s \<longrightarrow> False"
      and run: "(if isEof x then Some (Inr (False, x))
        else case getClumpTag x of Inl e \<Rightarrow> Some (Inl e)
          | Inr t \<Rightarrow> if u = t then Some (Inr (True, x))
              else (case moveNext x of Inl e \<Rightarrow> Some (Inl e) | Inr s \<Rightarrow> f u s)) = Some y"
    have "f tag s = Some y" if "u = tag" "x = s" using run assms that by simp
    then show "u = tag \<longrightarrow> x = s \<longrightarrow> False" using IH by blast
  qed
  then show ?thesis by (cases "pb_find_loop tag s") auto
qed

text \<open>
  C17. Near \<open>2 ^ 32\<close> the length of a wide clumplet is not checked: the sum of its sizes wraps around.
  With the length \<open>4294967295\<close> reading its data leaves the buffer, with \<open>4294967291\<close> its size is
  0 and a search does not return.
\<close>

theorem wide_length_wraps:
  "getData (reader WideUnTagged [1, 255, 255, 255, 255]) = Inl overread \<and>
   (tag \<noteq> 1 \<longrightarrow> pb_find tag (reader WideUnTagged [1, 251, 255, 255, 255]) = None)"
proof (intro conjI impI)
  show "getData (reader WideUnTagged [1, 255, 255, 255, 255]) = Inl overread"
    by (simp add: getData_def getBytes_def getClumpLength_def getClumpletSize_def getClumpletType_def clumplet_type_def
        length_component_def reader_def rewind_def FB_SIZE_def Let_def)
next
  assume tag: "tag \<noteq> 1"
  let ?s = "reader WideUnTagged [1, 251, 255, 255, 255]"
  have "moveNext ?s = Inr ?s"
    by (simp add: moveNext_def getClumpletSize_def getClumpletType_def clumplet_type_def adjustSpbState_def isEof_def
        getBufferLength_def length_component_def reader_def rewind_def FB_SIZE_def Let_def)
  moreover have "\<not> isEof ?s" "getClumpTag ?s = Inr 1"
    by (simp_all add: isEof_def getBufferLength_def getClumpTag_def reader_def rewind_def FB_SIZE_def)
  ultimately have "pb_find_loop tag ?s = None" using find_loop_stuck [of ?s 1 tag] tag by auto
  moreover have "rewind ?s = ?s" by (simp add: reader_def rewind_def)
  ultimately show "pb_find tag ?s = None" by (simp add: pb_find_def Let_def)
qed

theorem wide_length_wraps_witness: "pb_find 2 (reader WideUnTagged [1, 251, 255, 255, 255]) = None"
  using wide_length_wraps [of 2] by simp

section \<open>The upgrade of a database parameter block\<close>

lemma storable_dpb: "storable Tagged st c \<longleftrightarrow> length (snd c) \<le> 255"
  by (simp add: storable_def clumplet_type_def lenSize_def)

lemma storable_wide: "storable WideTagged st c \<longleftrightarrow> length (snd c) \<le> 4294967295"
  by (simp add: storable_def clumplet_type_def lenSize_def)

lemma storables_wide: "storables Tagged 0 cs \<Longrightarrow> storables WideTagged 0 cs"
  by (induction cs) (auto simp: storable_dpb storable_wide)

lemma stands_state: "stands s pre ds cs \<Longrightarrow> kind s \<noteq> SpbStart \<Longrightarrow> spbState s = 0"
  by (simp add: stands_def)

text \<open>The position of the new block that corresponds to the position \<open>cur\<close> of the old one.\<close>

fun new_pos :: "nat \<Rightarrow> clumplet list \<Rightarrow> clumplet list \<Rightarrow> nat \<Rightarrow> nat" where
  "new_pos cur ds [] np = np"
| "new_pos cur ds (c # cs) np =
     new_pos cur (ds @ [c]) cs
       (if cur = 1 + length (encode_all Tagged 0 ds) then 1 + length (encode_all WideTagged 0 ds) else np)"

lemma more_limit:
  fixes s s' :: pbw
  shows "pb.more s = pb.more s' \<Longrightarrow> sizeLimit s = sizeLimit s' \<and> kindList s = kindList s'"
  by (cases s; cases s') simp

lemma upgrade_loop_stands:
  assumes "stands s [v1] ds cs" "kind s = Tagged" "stands t [v2] ds []" "kind t = WideTagged"
    "1 + length (encode_all WideTagged 0 (ds @ cs)) \<le> sizeLimit t" "sizeLimit t < 4294967296"
  shows "\<exists>s' t'. upgrade_loop cur s t np = Some (Inr (s', t', new_pos cur ds cs np)) \<and> kept s s' \<and>
    stands s' [v1] (ds @ cs) [] \<and> stands t' [v2] (ds @ cs) [] \<and> kind t' = WideTagged"
  using assms
proof (induction cs arbitrary: s t ds np)
  case Nil
  then have "isEof s" using stands_eof by blast
  then show ?case using Nil by (subst upgrade_loop.simps) simp
next
  case (Cons c cs)
  obtain tag data where c: "c = (tag, data)" by (cases c)
  have sd: "storables Tagged 0 (ds @ c # cs)" using Cons.prems(1,2) by (simp add: stands_def)
  then have st: "storable Tagged 0 c" by (simp)
  have s: "\<not> isEof s" "getClumplet s = Inr (tag, data)" "cur_offset s = 1 + length (encode_all Tagged 0 ds)"
    using stands_eof [OF Cons.prems(1)] stands_clumplet [OF Cons.prems(1)] Cons.prems(1,2)
    by (simp_all add: c stands_def)
  obtain s1 where s1: "moveNext s = Inr s1" "stands s1 [v1] (ds @ [c]) cs" "kind s1 = kind s" "buffer s1 = buffer s"
      "pb.more s1 = pb.more s"
    using stands_next [OF Cons.prems(1)] by blast
  have t: "spbState t = 0" "cur_offset t = 1 + length (encode_all WideTagged 0 ds)" "buffer t = [v2] @ encode_all WideTagged 0 ds"
    using Cons.prems(3,4) stands_state [of t] by (simp_all add: stands_def)
  have wide: "storable (kind t) (spbState t) (tag, data)" using st by (simp add: c storable_dpb storable_wide Cons.prems(4))
  have room: "length (buffer t) + length (encode (kind t) (spbState t) (tag, data)) \<le> sizeLimit t"
    using Cons.prems(4,5) by (simp add: t c)
  obtain t1 where t1: "insert_once tag data t = Inr t1" "stands t1 [v2] (ds @ [c]) []" "kind t1 = WideTagged" "sizeLimit t1 = sizeLimit t"
    using insert_stands [OF Cons.prems(3) wide _ room Cons.prems(6)] Cons.prems(4) unfolding c by auto
  have stay: "moveNext t1 = Inr t1" using stands_eof [OF t1(2)] by (simp add: moveNext_def)
  have k: "kept s s1" using s1 Cons.prems(1) by (simp add: kept_def stands_def)
  let ?np = "if cur = 1 + length (encode_all Tagged 0 ds) then 1 + length (encode_all WideTagged 0 ds) else np"
  obtain s' t' where r: "upgrade_loop cur s1 t1 ?np = Some (Inr (s', t', new_pos cur (ds @ [c]) cs ?np))" "kept s1 s'"
    "stands s' [v1] ((ds @ [c]) @ cs) []" "stands t' [v2] ((ds @ [c]) @ cs) []" "kind t' = WideTagged"
    using Cons.IH [OF s1(2) _ t1(2,3), of ?np] s1(3) Cons.prems(2,5,6) t1(4) by auto
  have "upgrade_loop cur s t np = upgrade_loop cur s1 t1 ?np"
    using s s1(1) t(2) t1(1) stay by (subst upgrade_loop.simps) (simp add: Let_def)
  then show ?case using r kept_trans [OF k] by (intro exI [of _ s'] exI [of _ t']) simp
qed

lemma new_pos_past: "cur < 1 + length (encode_all Tagged 0 ds) \<Longrightarrow> new_pos cur ds cs np = np"
proof (induction cs arbitrary: ds np)
  case (Cons c cs)
  have "cur < 1 + length (encode_all Tagged 0 (ds @ [c]))" using Cons.prems by simp
  then show ?case using Cons by simp
qed simp

lemma new_pos_at:
  "new_pos (1 + length (encode_all Tagged 0 (ds @ us))) ds (us @ v # vs) np = 1 + length (encode_all WideTagged 0 (ds @ us))"
proof (induction us arbitrary: ds np)
  case Nil
  have "new_pos (1 + length (encode_all Tagged 0 ds)) (ds @ [v]) vs m = m" for m
    by (rule new_pos_past) simp
  then show ?case by simp
next
  case (Cons u us)
  from Cons.IH [of "ds @ [u]"] show ?case by simp
qed

lemma new_pos_end: "new_pos (1 + length (encode_all Tagged 0 (ds @ us))) ds us np = np"
proof (induction us arbitrary: ds np)
  case (Cons u us)
  have "1 + length (encode_all Tagged 0 ds) < 1 + length (encode_all Tagged 0 (ds @ u # us))"
    by simp
  then have "new_pos (1 + length (encode_all Tagged 0 (ds @ u # us))) ds (u # us) np =
      new_pos (1 + length (encode_all Tagged 0 ((ds @ [u]) @ us))) (ds @ [u]) us np" by simp
  then show ?case using Cons.IH [of "ds @ [u]"] by simp
qed simp

lemma length_loop_upgrades:
  assumes "getClumpletType s tag = Inr t" "lenSize t n = None" "upgradeVersion s = Some (Inr (True, s'))"
    "getClumpletType s' tag = Inr t'" "lenSize t' n = Some m"
  shows "length_loop tag n s = Some (Inr (m, s'))"
proof -
  have "length_loop tag n s' = Some (Inr (m, s'))" using assms(4,5) by (subst length_loop.simps) simp
  then show ?thesis using assms(1-3) by (subst length_loop.simps) simp
qed

text \<open>
  C14. A database parameter block of version 1 in which a clumplet of more than 255 bytes is to be
  inserted becomes a block of version 2 with the same clumplets, in which the new one stands
  where it was inserted; but where the writer stood at the end, it becomes the first.
\<close>

theorem dpb_upgrade:
  assumes "stands s [isc_dpb_version1] ds cs" "kind s = Tagged" "kindList s = Some dpbList" "255 < length data"
    "1 + length (encode_all WideTagged 0 (ds @ (tag, data) # cs)) \<le> sizeLimit s" "sizeLimit s < 4294967296"
  shows "\<exists>s'. insertBytes tag data s = Some (Inr s') \<and> kind s' = WideTagged \<and>
    (if cs = [] then stands s' [isc_dpb_version2] [(tag, data)] ds else stands s' [isc_dpb_version2] (ds @ [(tag, data)]) cs)"
proof -
  have s: "buffer s = isc_dpb_version1 # encode_all Tagged 0 (ds @ cs)" "cur_offset s = 1 + length (encode_all Tagged 0 ds)"
    "storables Tagged 0 (ds @ cs)" "spbState s = 0" "\<not> null_buffer s"
    using assms(1,2) stands_state [OF assms(1)] by (simp_all add: stands_def)
  have st: "storables WideTagged 0 (ds @ cs)" by (rule storables_wide [OF s(3)])
  have len: "1 + length (encode_all WideTagged 0 (ds @ cs)) + length (encode WideTagged 0 (tag, data)) \<le> sizeLimit s"
    using assms(5) by (simp)
  have fit: "storable WideTagged 0 (tag, data)"
    using assms(5,6) by (simp add: storable_wide encode_def)
  let ?t = "writer WideTagged (sizeLimit s) isc_dpb_version2"
  obtain pre where t: "stands ?t pre [] []" "kind ?t = WideTagged" "sizeLimit ?t = sizeLimit s" "buffer ?t = pre"
    using writer_stands [of WideTagged "sizeLimit s" isc_dpb_version2] by auto
  have pre: "pre = [isc_dpb_version2]"
    using t(4) by (simp add: writer_def rewind_def initNewBuffer_def empty_writer_def)
  have rw: "stands (rewind s) [isc_dpb_version1] [] (ds @ cs)" "kind (rewind s) = Tagged"
    using stands_rewind [OF assms(1)] assms(2) by (simp_all add: rewind_def)
  obtain s1 t1 where up: "upgrade_loop (cur_offset s) (rewind s) ?t 0 = Some (Inr (s1, t1, new_pos (cur_offset s) [] (ds @ cs) 0))"
      "kept (rewind s) s1" "stands s1 [isc_dpb_version1] (ds @ cs) []" "stands t1 [isc_dpb_version2] (ds @ cs) []" "kind t1 = WideTagged"
    using upgrade_loop_stands [OF rw t(1) [unfolded pre] t(2), of "cur_offset s" 0] len assms(6) t(3) by auto
  let ?np = "new_pos (cur_offset s) [] (ds @ cs) 0"
  let ?s2 = "s1\<lparr>kind := WideTagged, buffer := buffer t1\<rparr>"
  let ?s3 = "if ?np \<noteq> 0 then ?s2\<lparr>cur_offset := ?np\<rparr> else rewind ?s2"
  have new: "newest dpbList = (WideTagged, isc_dpb_version2)" by (simp add: newest_def dpbList_def pb_tags)
  have old: "(if getBufferLength s \<noteq> 0 then (case getBufferTag s of Inl e \<Rightarrow> Inl e | Inr t \<Rightarrow> Inr (isc_dpb_version2 \<le> t))
      else Inr False) = Inr False"
    using s(1) assms(2) by (simp add: getBufferTag_def pb_tags word_le_nat_alt)
  have up1: "upgradeVersion s = Some (Inr (True, ?s3))"
    unfolding upgradeVersion_def assms(3) option.case new snd_conv fst_conv old using up(1) by (simp add: Let_def)
  have g1: "getClumpletType s tag = Inr TraditionalDpb" "lenSize TraditionalDpb (length data) = None"
    using assms(2,4) by (simp_all add: getClumpletType_def clumplet_type_def lenSize_def)
  have k3: "kind ?s3 = WideTagged" by (simp add: rewind_def)
  then have g2: "getClumpletType ?s3 tag = Inr Wide" by (simp only: getClumpletType_def clumplet_type_def Kind.case)
  have g3: "lenSize Wide (length data) = Some 4" using fit by (simp add: storable_wide lenSize_def)
  have loop: "length_loop tag (length data) s = Some (Inr (4, ?s3))" by (rule length_loop_upgrades [OF g1 up1 g2 g3])
  have m: "pb.more s1 = pb.more s" "null_buffer s1 = null_buffer s" using up(2) by (simp_all add: kept_def rewind_def)
  have b1: "buffer t1 = isc_dpb_version2 # encode_all WideTagged 0 (ds @ cs)" using up(4,5) by (simp add: stands_def)
  have k1: "spbState s1 = 0" "\<not> null_buffer s1" "sizeLimit s1 = sizeLimit s" "kindList s1 = kindList s"
    using stands_state [OF up(3)] up(2) rw(2) s(5) m(2) more_limit [OF m(1)] by (auto simp: kept_def)
  have s3: "stands ?s3 [isc_dpb_version2] (if cs = [] then [] else ds) (if cs = [] then ds else cs)"
  proof (cases cs)
    case Nil
    then have "?np = 0" using new_pos_end [of "[]" ds 0] s(2) by simp
    then show ?thesis using Nil k1 b1 st len assms(6)
      by (simp add: stands_def rewind_def header_def)
  next
    case (Cons c cs')
    then have "?np = 1 + length (encode_all WideTagged 0 ds)" using new_pos_at [of "[]" ds c cs' 0] s(2) by simp
    then show ?thesis using Cons k1 b1 st len assms(6) by (simp add: stands_def header_def)
  qed
  have b3: "buffer ?s3 = isc_dpb_version2 # encode_all WideTagged 0 (ds @ cs)" "sizeLimit ?s3 = sizeLimit s" "spbState ?s3 = 0"
    using b1 k1 by (simp_all add: rewind_def)
  have n: "len_size WideTagged 0 (tag, data) = 4" using fit by (simp add: len_size_def storable_wide clumplet_type_def lenSize_def)
  obtain s' where "put_clumplet tag data 4 ?s3 = Inr s'" "kind s' = WideTagged"
      "stands s' [isc_dpb_version2] ((if cs = [] then [] else ds) @ [(tag, data)]) (if cs = [] then ds else cs)"
    using put_clumplet_stands [OF s3, of tag data] k3 b3 n fit len assms(6) by auto
  then have "insertBytes tag data s = Some (Inr s') \<and> kind s' = WideTagged \<and>
      stands s' [isc_dpb_version2] ((if cs = [] then [] else ds) @ [(tag, data)]) (if cs = [] then ds else cs)"
    using stands_offset [OF assms(1)] loop by (simp add: insertBytes_def)
  then show ?thesis by (cases "cs = []") auto
qed

text \<open>A block of version 1 with two clumplets, for the witnesses.\<close>

definition small_dpb :: pbw where
  "small_dpb = \<lparr>kind = Tagged, null_buffer = False, buffer = [1, 4, 2, 7, 8, 5, 0], cur_offset = 5, spbState = 0,
     sizeLimit = 1000, kindList = Some dpbList\<rparr>"

lemma small_dpb_stands: "stands small_dpb [isc_dpb_version1] [(4, [7, 8])] [(5, [])]"
  by (simp add: stands_def small_dpb_def header_def storable_dpb encode_def len_size_def clumplet_type_def lenSize_def
      toVaxInteger_def pb_tags)

lemma small_dpb_fields [simp]:
  "kind small_dpb = Tagged" "sizeLimit small_dpb = 1000" "kindList small_dpb = Some dpbList" "length (buffer small_dpb) = 7"
  by (simp_all add: small_dpb_def)

lemma small_dpb_fits: "n \<le> 255 \<Longrightarrow> storable (kind small_dpb) 0 (tag, replicate n 0)"
  by (simp add: storable_dpb)




theorem overread_only_wide_witness:
  "\<exists>tag n. getClumpTag (reader WideUnTagged [1, 255, 255, 255, 255]) = Inr tag \<and>
     getClumpletType (reader WideUnTagged [1, 255, 255, 255, 255]) tag = Inr Wide \<and>
     getClumpLength (reader WideUnTagged [1, 255, 255, 255, 255]) = Inr n \<and> 4294967291 \<le> n"
  by (rule overread_only_wide)
     (simp_all add: getData_def getBytes_def getClumpLength_def getClumpletSize_def getClumpletType_def clumplet_type_def
        length_component_def reader_def rewind_def FB_SIZE_def Let_def)

theorem narrow_loops_return_witness:
  "(\<exists>res. pb_find 7 small_dpb = Some res) \<and> (\<exists>res. pb_next 7 small_dpb = Some res) \<and> (\<exists>res. read_all small_dpb = Some res)"
  by (rule narrow_loops_return) (simp_all add: narrow_def)

theorem dpb_upgrade_witness:
  "\<exists>s'. insertBytes 6 (replicate 300 1) small_dpb = Some (Inr s') \<and> kind s' = WideTagged \<and>
     stands s' [isc_dpb_version2] [(4, [7, 8]), (6, replicate 300 1)] [(5, [])]"
  using dpb_upgrade [OF small_dpb_stands, of "replicate 300 1" 6]
  by (simp add: encode_def len_size_def clumplet_type_def lenSize_def)

section \<open>Service blocks\<close>


end
