(* ===== verification/SortedArray.thy ===== *)
theory SortedArray
  imports Prelude "HOL-Library.Multiset"
begin

text \<open>
  Arrays that grow and sorted arrays: \<^verbatim>\<open>src/src/common/classes/array.h\<close>, with the default
  comparator of \<^verbatim>\<open>vector.h\<close>.

  An array is the list of its elements with the capacity of its memory.  The asserted
  conditions on indices are premises of the lemmas; counts stay below half of \<open>FB_MAX_SIZEOF\<close>, so that
  the sum of two indices fits into \<open>FB_SIZE_T\<close>.
  A sorted array is parametrised, as the template is, by the key of an element and by a
  comparator, whose laws are the locale \<open>comparator\<close>.
\<close>

section \<open>Arrays\<close>

definition FB_MAX_SIZEOF :: nat where
  "FB_MAX_SIZEOF = 4294967295"

record 'a fb_array =
  items :: "'a list"
  capacity :: nat

definition getCount :: "('a, 'b) fb_array_scheme \<Rightarrow> nat" where
  "getCount a = length (items a)"

definition ensureCapacity :: "nat \<Rightarrow> ('a, 'b) fb_array_scheme \<Rightarrow> ('a, 'b) fb_array_scheme" where
  "ensureCapacity newcapacity a =
     (if newcapacity > capacity a
      then a\<lparr>capacity := (if capacity a \<le> FB_MAX_SIZEOF div 2
                          then (if newcapacity < capacity a * 2 then capacity a * 2 else newcapacity)
                          else FB_MAX_SIZEOF)\<rparr>
      else a)"

definition array_insert :: "nat \<Rightarrow> 'a \<Rightarrow> ('a, 'b) fb_array_scheme \<Rightarrow> ('a, 'b) fb_array_scheme" where
  "array_insert index item a =
     (let a = ensureCapacity (getCount a + 1) a
      in a\<lparr>items := take index (items a) @ item # drop index (items a)\<rparr>)"

definition array_insert_items :: "nat \<Rightarrow> 'a list \<Rightarrow> ('a, 'b) fb_array_scheme \<Rightarrow> ('a, 'b) fb_array_scheme" where
  "array_insert_items index xs a =
     (let a = ensureCapacity (getCount a + length xs) a
      in a\<lparr>items := take index (items a) @ xs @ drop index (items a)\<rparr>)"

definition array_add :: "'a \<Rightarrow> ('a, 'b) fb_array_scheme \<Rightarrow> nat \<times> ('a, 'b) fb_array_scheme" where
  "array_add item a = (let a = ensureCapacity (getCount a + 1) a in (getCount a, a\<lparr>items := items a @ [item]\<rparr>))"

definition array_push :: "'a list \<Rightarrow> ('a, 'b) fb_array_scheme \<Rightarrow> ('a, 'b) fb_array_scheme" where
  "array_push xs a = (let a = ensureCapacity (getCount a + length xs) a in a\<lparr>items := items a @ xs\<rparr>)"

definition array_pop :: "('a, 'b) fb_array_scheme \<Rightarrow> 'a \<times> ('a, 'b) fb_array_scheme" where
  "array_pop a = (last (items a), a\<lparr>items := butlast (items a)\<rparr>)"

definition array_remove :: "nat \<Rightarrow> ('a, 'b) fb_array_scheme \<Rightarrow> ('a, 'b) fb_array_scheme" where
  "array_remove index a = a\<lparr>items := take index (items a) @ drop (index + 1) (items a)\<rparr>"

definition array_removeRange :: "nat \<Rightarrow> nat \<Rightarrow> ('a, 'b) fb_array_scheme \<Rightarrow> ('a, 'b) fb_array_scheme" where
  "array_removeRange from until a = a\<lparr>items := take from (items a) @ drop until (items a)\<rparr>"

definition array_removeCount :: "nat \<Rightarrow> nat \<Rightarrow> ('a, 'b) fb_array_scheme \<Rightarrow> ('a, 'b) fb_array_scheme" where
  "array_removeCount index n a = a\<lparr>items := take index (items a) @ drop (index + n) (items a)\<rparr>"

definition array_shrink :: "nat \<Rightarrow> ('a, 'b) fb_array_scheme \<Rightarrow> ('a, 'b) fb_array_scheme" where
  "array_shrink newCount a = a\<lparr>items := take newCount (items a)\<rparr>"

text \<open>\<open>grow\<close> fills with zeros; \<open>zero\<close> is the element whose bytes are all 0.\<close>

definition array_grow :: "'a \<Rightarrow> nat \<Rightarrow> ('a, 'b) fb_array_scheme \<Rightarrow> ('a, 'b) fb_array_scheme" where
  "array_grow zero newCount a =
     (let a = ensureCapacity newCount a in a\<lparr>items := items a @ replicate (newCount - getCount a) zero\<rparr>)"

fun resize_loop :: "nat \<Rightarrow> 'a \<Rightarrow> 'a list \<Rightarrow> 'a list" where
  "resize_loop 0 val xs = xs"
| "resize_loop (Suc n) val xs = resize_loop n val (xs @ [val])"

definition array_resize :: "nat \<Rightarrow> 'a \<Rightarrow> ('a, 'b) fb_array_scheme \<Rightarrow> ('a, 'b) fb_array_scheme" where
  "array_resize newCount val a =
     (if newCount > getCount a
      then (let a = ensureCapacity newCount a in a\<lparr>items := resize_loop (newCount - getCount a) val (items a)\<rparr>)
      else a\<lparr>items := take newCount (items a)\<rparr>)"

fun find_from :: "'a \<Rightarrow> nat \<Rightarrow> 'a list \<Rightarrow> nat option" where
  "find_from item i [] = None"
| "find_from item i (x # xs) = (if x = item then Some i else find_from item (Suc i) xs)"

definition array_find :: "'a \<Rightarrow> ('a, 'b) fb_array_scheme \<Rightarrow> nat option" where
  "array_find item a = find_from item 0 (items a)"

text \<open>The loop of \<open>swapElems\<close> from the index \<open>i\<close> on.\<close>

function swap_loop :: "nat \<Rightarrow> 'a list \<Rightarrow> 'a list" where
  "swap_loop i xs =
     (if i < length xs div 2
      then swap_loop (i + 1) (xs[i := xs ! (length xs - 1 - i), length xs - 1 - i := xs ! i])
      else xs)"
  by pat_completeness auto
termination by (relation "measure (\<lambda>(i, xs). length xs - i)") auto

declare swap_loop.simps [simp del]

definition swapElems :: "('a, 'b) fb_array_scheme \<Rightarrow> ('a, 'b) fb_array_scheme" where
  "swapElems a = a\<lparr>items := swap_loop 0 (items a)\<rparr>"

section \<open>Sorted arrays\<close>

definition greaterThan :: "'k::linorder \<Rightarrow> 'k \<Rightarrow> bool" where
  "greaterThan i1 i2 \<longleftrightarrow> i1 > i2"

function bound_loop :: "('k \<Rightarrow> 'k \<Rightarrow> bool) \<Rightarrow> ('a \<Rightarrow> 'k) \<Rightarrow> 'k \<Rightarrow> 'a list \<Rightarrow> nat \<Rightarrow> nat \<Rightarrow> nat" where
  "bound_loop gt key item data lowBound highBound =
     (if highBound > lowBound
      then (let temp = (highBound + lowBound) div 2
            in if gt item (key (data ! temp)) then bound_loop gt key item data (temp + 1) highBound
               else bound_loop gt key item data lowBound temp)
      else lowBound)"
  by pat_completeness auto
termination
  by (relation "measure (\<lambda>(gt, key, item, data, lowBound, highBound). highBound - lowBound)") (auto simp: Let_def)

declare bound_loop.simps [simp del]

text \<open>\<open>find\<close>: whether there is an element with the key, and the position where it is or belongs.\<close>

definition sorted_find :: "('k \<Rightarrow> 'k \<Rightarrow> bool) \<Rightarrow> ('a \<Rightarrow> 'k) \<Rightarrow> 'k \<Rightarrow> 'a list \<Rightarrow> bool \<times> nat" where
  "sorted_find gt key item data =
     (let pos = bound_loop gt key item data 0 (length data)
      in (pos \<noteq> length data \<and> \<not> gt (key (data ! pos)) item, pos))"

record 'a sorted_array = "'a fb_array" +
  sortMode :: nat
  is_sorted :: bool

definition FB_ARRAY_SORT_MANUAL :: nat where "FB_ARRAY_SORT_MANUAL = 0"
definition FB_ARRAY_SORT_WHEN_ADD :: nat where "FB_ARRAY_SORT_WHEN_ADD = 1"

definition sorted_add :: "('k \<Rightarrow> 'k \<Rightarrow> bool) \<Rightarrow> ('a \<Rightarrow> 'k) \<Rightarrow> 'a \<Rightarrow> 'a sorted_array \<Rightarrow> nat \<times> 'a sorted_array" where
  "sorted_add gt key item a =
     (if sortMode a = FB_ARRAY_SORT_WHEN_ADD
      then (let pos = snd (sorted_find gt key (key item) (items a)) in (pos, array_insert pos item a))
      else (let pos = getCount a in (pos, array_insert pos item (a\<lparr>is_sorted := False\<rparr>))))"

text \<open>\<open>sort\<close> calls \<open>qsort\<close> of the C library with the comparison \<open>compare\<close>; \<open>qsort\<close> is the argument.\<close>

definition compare :: "('k \<Rightarrow> 'k \<Rightarrow> bool) \<Rightarrow> ('a \<Rightarrow> 'k) \<Rightarrow> 'a \<Rightarrow> 'a \<Rightarrow> int" where
  "compare gt key a b = (if gt (key a) (key b) then 1 else if gt (key b) (key a) then -1 else 0)"

definition sa_sort :: "(('a \<Rightarrow> 'a \<Rightarrow> int) \<Rightarrow> 'a list \<Rightarrow> 'a list) \<Rightarrow> ('k \<Rightarrow> 'k \<Rightarrow> bool) \<Rightarrow> ('a \<Rightarrow> 'k) \<Rightarrow>
    'a sorted_array \<Rightarrow> 'a sorted_array" where
  "sa_sort qsort gt key a = (if is_sorted a then a else a\<lparr>items := qsort (compare gt key) (items a), is_sorted := True\<rparr>)"

definition setSortMode :: "(('a \<Rightarrow> 'a \<Rightarrow> int) \<Rightarrow> 'a list \<Rightarrow> 'a list) \<Rightarrow> ('k \<Rightarrow> 'k \<Rightarrow> bool) \<Rightarrow> ('a \<Rightarrow> 'k) \<Rightarrow>
    nat \<Rightarrow> 'a sorted_array \<Rightarrow> 'a sorted_array" where
  "setSortMode qsort gt key sm a =
     (let a = (if sortMode a \<noteq> FB_ARRAY_SORT_WHEN_ADD \<and> sm = FB_ARRAY_SORT_WHEN_ADD \<and> \<not> is_sorted a
               then sa_sort qsort gt key a else a)
      in a\<lparr>sortMode := sm\<rparr>)"

section \<open>Arrays as lists\<close>

lemma find_from_none: "find_from item i xs = None \<longleftrightarrow> item \<notin> set xs"
  by (induction item i xs rule: find_from.induct) auto

lemma find_from_some: "find_from item i xs = Some j \<Longrightarrow> i \<le> j \<and> j - i < length xs \<and> xs ! (j - i) = item \<and> item \<notin> set (take (j - i) xs)"
proof (induction item i xs arbitrary: j rule: find_from.induct)
  case (2 item i x xs)
  show ?case
  proof (cases "x = item")
    case False
    then have "Suc i \<le> j \<and> j - Suc i < length xs \<and> xs ! (j - Suc i) = item \<and> item \<notin> set (take (j - Suc i) xs)"
      using 2 by simp
    moreover from this have "j - i = Suc (j - Suc i)" by arith
    ultimately show ?thesis using False by simp
  qed (use 2 in simp)
qed simp

lemma resize_loop: "resize_loop n val xs = xs @ replicate n val"
  by (induction n val xs rule: resize_loop.induct) (simp_all add: replicate_append_same)

lemma length_swap_loop [simp]: "length (swap_loop i xs) = length xs"
  by (induction i xs rule: swap_loop.induct) (subst swap_loop.simps, simp)

text \<open>The loop has exchanged the elements up to \<open>i\<close> with those at the other end.\<close>

lemma swap_loop_nth:
  assumes "i \<le> length xs div 2" "k < length xs"
  shows "swap_loop i xs ! k = (if i \<le> k \<and> k < length xs - i then xs ! (length xs - 1 - k) else xs ! k)"
  using assms
proof (induction i xs rule: swap_loop.induct)
  case (1 i xs)
  show ?case
  proof (cases "i < length xs div 2")
    case False
    then have "i = length xs div 2" using 1 by simp
    then have "i \<le> k \<and> k < length xs - i \<Longrightarrow> length xs - 1 - k = k" by presburger
    then show ?thesis using False by (subst swap_loop.simps) auto
  next
    case True
    let ?ys = "xs[i := xs ! (length xs - 1 - i), length xs - 1 - i := xs ! i]"
    have ih: "swap_loop (i + 1) ?ys ! k =
        (if i + 1 \<le> k \<and> k < length xs - (i + 1) then ?ys ! (length xs - 1 - k) else ?ys ! k)"
      using 1(1) [OF True] 1(3) True by simp
    consider "i + 1 \<le> k" "k < length xs - (i + 1)" | "k = i" | "k = length xs - 1 - i" | "k < i" | "length xs - i \<le> k"
      using 1(3) True by linarith
    then have "(if i + 1 \<le> k \<and> k < length xs - (i + 1) then ?ys ! (length xs - 1 - k) else ?ys ! k) =
        (if i \<le> k \<and> k < length xs - i then xs ! (length xs - 1 - k) else xs ! k)"
      by cases (use 1(3) True in \<open>auto simp: nth_list_update\<close>)
    then show ?thesis using ih True by (subst swap_loop.simps) simp
  qed
qed

lemma swap_loop_rev: "swap_loop 0 xs = rev xs"
  by (rule nth_equalityI) (simp_all add: swap_loop_nth rev_nth)

section \<open>The comparator\<close>

locale comparator =
  fixes gt :: "'k \<Rightarrow> 'k \<Rightarrow> bool"
  assumes irrefl: "\<not> gt a a"
    and trans: "gt a b \<Longrightarrow> gt b c \<Longrightarrow> gt a c"
    and total: "\<not> gt a b \<Longrightarrow> \<not> gt b a \<Longrightarrow> a = b"
begin

definition ascending :: "('a \<Rightarrow> 'k) \<Rightarrow> 'a list \<Rightarrow> bool" where
  "ascending key data \<longleftrightarrow> sorted_wrt (\<lambda>x y. \<not> gt (key x) (key y)) data"

lemma ascending_nth: "ascending key data \<Longrightarrow> i \<le> j \<Longrightarrow> j < length data \<Longrightarrow> \<not> gt (key (data ! i)) (key (data ! j))"
  by (cases "i = j") (auto simp: ascending_def sorted_wrt_iff_nth_less irrefl)

lemma not_gt_trans: "\<not> gt a b \<Longrightarrow> \<not> gt b c \<Longrightarrow> \<not> gt a c"
  using trans total by blast

lemma bound_loop:
  assumes "ascending key data" "lo \<le> hi" "hi \<le> length data" "\<forall>i < lo. gt item (key (data ! i))"
    "\<forall>i. hi \<le> i \<longrightarrow> i < length data \<longrightarrow> \<not> gt item (key (data ! i))"
  shows "bound_loop gt key item data lo hi \<le> length data \<and>
    (\<forall>i < bound_loop gt key item data lo hi. gt item (key (data ! i))) \<and>
    (\<forall>i. bound_loop gt key item data lo hi \<le> i \<longrightarrow> i < length data \<longrightarrow> \<not> gt item (key (data ! i)))"
  using assms(2-5)
proof (induction "hi - lo" arbitrary: lo hi rule: less_induct)
  case less
  let ?t = "(hi + lo) div 2"
  show ?case
  proof (cases "hi > lo")
    case True
    then have t: "lo \<le> ?t" "?t < hi" by auto
    show ?thesis
    proof (cases "gt item (key (data ! ?t))")
      case above: True
      have below_t: "\<forall>i < ?t + 1. gt item (key (data ! i))"
      proof (intro allI impI)
        fix i assume "i < ?t + 1"
        then have "\<not> gt (key (data ! i)) (key (data ! ?t))"
          using ascending_nth [OF assms(1), of i ?t] t less.prems(2) by simp
        then show "gt item (key (data ! i))" using above not_gt_trans by blast
      qed
      have run: "bound_loop gt key item data lo hi = bound_loop gt key item data (?t + 1) hi"
        using True above by (subst bound_loop.simps) (simp add: Let_def)
      have "hi - (?t + 1) < hi - lo" "?t + 1 \<le> hi" using t by simp_all
      from less.hyps [OF this less.prems(2) below_t less.prems(4)] show ?thesis unfolding run .
    next
      case below: False
      have above_t: "\<forall>i. ?t \<le> i \<longrightarrow> i < length data \<longrightarrow> \<not> gt item (key (data ! i))"
      proof (intro allI impI)
        fix i assume "?t \<le> i" "i < length data"
        from below ascending_nth [OF assms(1) this] show "\<not> gt item (key (data ! i))" by (rule not_gt_trans)
      qed
      have run: "bound_loop gt key item data lo hi = bound_loop gt key item data lo ?t"
        using True below by (subst bound_loop.simps) (simp add: Let_def)
      have "?t - lo < hi - lo" "lo \<le> ?t" "?t \<le> length data" using t less.prems(2) by simp_all
      from less.hyps [OF this less.prems(3) above_t] show ?thesis unfolding run .
    qed
  next
    case False
    then have "bound_loop gt key item data lo hi = lo" by (subst bound_loop.simps) simp
    then show ?thesis using False less.prems by auto
  qed
qed

lemma takeWhile_bound:
  assumes "r \<le> length data" "\<forall>i < r. P (data ! i)" "\<forall>i. r \<le> i \<longrightarrow> i < length data \<longrightarrow> \<not> P (data ! i)"
  shows "length (takeWhile P data) = r"
proof (cases "r = length data")
  case True
  then show ?thesis using assms(2) by (simp add: takeWhile_eq_all_conv in_set_conv_nth) (metis in_set_conv_nth takeWhile_eq_all_conv)
next
  case False
  then show ?thesis using assms length_takeWhile_less_P_nth takeWhile_eq_take_P_nth [of r data P] by simp
qed

lemma sorted_find:
  assumes "ascending key data"
  shows "sorted_find gt key item data = (item \<in> key ` set data, length (takeWhile (\<lambda>x. gt item (key x)) data))"
proof -
  let ?r = "bound_loop gt key item data 0 (length data)"
  have r: "?r \<le> length data" "\<forall>i < ?r. gt item (key (data ! i))" "\<forall>i. ?r \<le> i \<longrightarrow> i < length data \<longrightarrow> \<not> gt item (key (data ! i))"
    using bound_loop [OF assms, of 0 "length data" item] by simp_all
  have "length (takeWhile (\<lambda>x. gt item (key x)) data) = ?r" by (rule takeWhile_bound [OF r])
  moreover have "(?r \<noteq> length data \<and> \<not> gt (key (data ! ?r)) item) \<longleftrightarrow> item \<in> key ` set data"
  proof
    assume a: "?r \<noteq> length data \<and> \<not> gt (key (data ! ?r)) item"
    then have l: "?r < length data" using r(1) by simp
    then have "key (data ! ?r) = item" using a r(3) total by blast
    then show "item \<in> key ` set data" using l by (metis image_eqI nth_mem)
  next
    assume "item \<in> key ` set data"
    then obtain j where j: "j < length data" "item = key (data ! j)" by (auto simp: in_set_conv_nth)
    have "?r \<le> j" using r(2) j(2) irrefl by (metis not_le)
    then show "?r \<noteq> length data \<and> \<not> gt (key (data ! ?r)) item" using j ascending_nth [OF assms] by auto
  qed
  ultimately show ?thesis by (simp add: sorted_find_def Let_def)
qed

lemma sorted_find_nth:
  assumes "ascending key data" "fst (sorted_find gt key item data)"
  shows "snd (sorted_find gt key item data) < length data \<and> key (data ! snd (sorted_find gt key item data)) = item"
proof -
  let ?r = "bound_loop gt key item data 0 (length data)"
  have r: "?r \<le> length data" "\<forall>i. ?r \<le> i \<longrightarrow> i < length data \<longrightarrow> \<not> gt item (key (data ! i))"
    using bound_loop [OF assms(1), of 0 "length data" item] by simp_all
  have "?r \<noteq> length data" "\<not> gt (key (data ! ?r)) item" using assms(2) by (simp_all add: sorted_find_def Let_def)
  moreover from this have "key (data ! ?r) = item" using r total by (metis le_neq_implies_less order_refl)
  ultimately show ?thesis using r(1) by (simp add: sorted_find_def Let_def)
qed

lemma ascending_insert:
  assumes "ascending key data"
  shows "ascending key (take (snd (sorted_find gt key (key x) data)) data @ x # drop (snd (sorted_find gt key (key x) data)) data)"
proof -
  let ?P = "\<lambda>y. gt (key x) (key y)"
  have pos: "snd (sorted_find gt key (key x) data) = length (takeWhile ?P data)" by (simp add: sorted_find [OF assms])
  have low: "\<not> gt (key y) (key x)" if "y \<in> set (takeWhile ?P data)" for y
    using that trans irrefl by (metis set_takeWhileD)
  have parts: "ascending key (takeWhile ?P data)" "ascending key (dropWhile ?P data)"
    "\<And>y z. y \<in> set (takeWhile ?P data) \<Longrightarrow> z \<in> set (dropWhile ?P data) \<Longrightarrow> \<not> gt (key y) (key z)"
    using assms takeWhile_dropWhile_id [of ?P data] unfolding ascending_def by (metis sorted_wrt_append)+
  have high: "\<not> gt (key x) (key z)" if "z \<in> set (dropWhile ?P data)" for z
  proof -
    have "dropWhile ?P data \<noteq> []" using that by (metis empty_iff list.set(1))
    then obtain h t where d: "dropWhile ?P data = h # t" by (meson neq_Nil_conv)
    then have "\<not> gt (key x) (key h)" using hd_dropWhile [of ?P data] by (metis list.distinct(1) list.sel(1))
    moreover have "\<not> gt (key h) (key z)" using parts(2) that irrefl unfolding d ascending_def by auto
    ultimately show ?thesis by (rule not_gt_trans)
  qed
  have t: "take (length (takeWhile ?P data)) data = takeWhile ?P data" by (rule takeWhile_eq_take [symmetric])
  have d: "drop (length (takeWhile ?P data)) data = dropWhile ?P data" by (rule dropWhile_eq_drop [symmetric])
  have "sorted_wrt (\<lambda>x y. \<not> gt (key x) (key y)) (takeWhile ?P data @ x # dropWhile ?P data)"
    unfolding sorted_wrt_append list.set sorted_wrt.simps
    using parts(1,2) [unfolded ascending_def] parts(3) low high by blast
  then show ?thesis unfolding pos t d ascending_def .
qed

end

interpretation default_comparator: comparator "greaterThan :: 'k::linorder \<Rightarrow> 'k \<Rightarrow> bool"
  by unfold_locales (auto simp: greaterThan_def)

lemma ascending_sorted: "default_comparator.ascending key data \<longleftrightarrow> sorted (map key data)"
  by (simp add: default_comparator.ascending_def greaterThan_def sorted_map not_less)

lemma takeWhile_less_filter:
  "sorted (map key data) \<Longrightarrow> takeWhile (\<lambda>x. key x < (item :: 'k::linorder)) data = filter (\<lambda>x. key x < item) data"
proof (induction data)
  case (Cons x data)
  have "filter (\<lambda>x. key x < item) data = []" if "\<not> key x < item"
    using Cons.prems that by (auto simp: filter_empty_conv)
  then show ?case using Cons by simp
qed simp

lemma sorted_find_all_lemma:
  assumes "sorted (map key data)"
  shows "sorted_find greaterThan key item data = (item \<in> key ` set data, length (filter (\<lambda>x. key x < item) data))"
  using default_comparator.sorted_find [of key data item] assms
  by (simp add: ascending_sorted greaterThan_def takeWhile_less_filter)

section \<open>What the arrays promise\<close>



text \<open>The count of an array never exceeds its capacity.\<close>

definition array_ok :: "('a, 'b) fb_array_scheme \<Rightarrow> bool" where
  "array_ok a \<longleftrightarrow> length (items a) \<le> capacity a \<and> capacity a \<le> FB_MAX_SIZEOF"

lemma ensureCapacity_ok:
  assumes "array_ok a" "n \<le> FB_MAX_SIZEOF"
  shows "array_ok (ensureCapacity n a)" "n \<le> capacity (ensureCapacity n a)" "items (ensureCapacity n a) = items a"
  using assms by (auto simp: array_ok_def ensureCapacity_def FB_MAX_SIZEOF_def)



text \<open>
  \<open>swapElems\<close> reverses the array, \<open>find\<close> of an unsorted array is the first position of the element, and
  \<open>resize\<close> pads with the value or cuts.
\<close>

theorem array_operations:
  "items (swapElems a) = rev (items a) \<and>
   (case array_find x a of None \<Rightarrow> x \<notin> set (items a)
      | Some i \<Rightarrow> i < getCount a \<and> items a ! i = x \<and> x \<notin> set (take i (items a))) \<and>
   items (array_resize n v a) = take n (items a) @ replicate (n - getCount a) v"
proof (intro conjI)
  show "items (swapElems a) = rev (items a)" by (simp add: swapElems_def swap_loop_rev)
  show "case array_find x a of None \<Rightarrow> x \<notin> set (items a)
      | Some i \<Rightarrow> i < getCount a \<and> items a ! i = x \<and> x \<notin> set (take i (items a))"
    using find_from_none [of x 0 "items a"] find_from_some [of x 0 "items a"]
    by (cases "array_find x a") (auto simp: array_find_def getCount_def)
  show "items (array_resize n v a) = take n (items a) @ replicate (n - getCount a) v"
    by (simp add: array_resize_def resize_loop getCount_def ensureCapacity_def Let_def)
qed

end
