(* ===== verification/TipCache.thy ===== *)
theory TipCache
  imports SortedArray
begin

text \<open>
  Transaction states: the inventory pages and their cache
  (\<^verbatim>\<open>src/src/jrd/tpc.cpp\<close>, \<^verbatim>\<open>tpc_proto.h\<close> and the inventory routines of \<^verbatim>\<open>tra.cpp\<close>).

  A transaction number is a natural number; the engine refuses numbers beyond \<open>2 ^ 48\<close>.
  The record \<open>dbb\<close> holds what one process knows of the database, and the pages on the disk,
  which other processes share: the inventory pages by their sequence, each the bytes of its
  \<open>tip_transactions\<close>, and the four numbers of the header page.  A call runs without
  interruption.  Errors that the engine raises are values; \<open>overrun\<close> is a read beyond the
  bytes of a page or vector.
\<close>

type_synonym TraNumber = nat

definition tra_active :: nat where "tra_active = 0"
definition tra_limbo :: nat where "tra_limbo = 1"
definition tra_dead :: nat where "tra_dead = 2"
definition tra_committed :: nat where "tra_committed = 3"
definition tra_us :: nat where "tra_us = 4"
definition tra_precommitted :: nat where "tra_precommitted = 5"

lemmas tra_states = tra_active_def tra_limbo_def tra_dead_def tra_committed_def tra_us_def tra_precommitted_def

definition MAX_TRA_NUMBER :: TraNumber where "MAX_TRA_NUMBER = 281474976710655"

datatype tra_error = bugcheck nat | overrun | tra_num_exc | lock_conflict

section \<open>Two bits for a transaction\<close>

definition TRANS_SHIFT :: "TraNumber \<Rightarrow> nat" where
  "TRANS_SHIFT number = 2 * (number mod 4)"

definition TRANS_OFFSET :: "TraNumber \<Rightarrow> nat" where
  "TRANS_OFFSET number = number div 4"

definition byte_state :: "UCHAR \<Rightarrow> nat \<Rightarrow> nat" where
  "byte_state b shift = unat (drop_bit shift b AND 3)"

definition byte_put :: "UCHAR \<Rightarrow> nat \<Rightarrow> nat \<Rightarrow> UCHAR" where
  "byte_put b shift st = (b AND NOT (push_bit shift 3)) OR push_bit shift (of_nat st)"

definition TRA_state :: "bytes \<Rightarrow> TraNumber \<Rightarrow> TraNumber \<Rightarrow> tra_error + nat" where
  "TRA_state bit_vector oldest number =
     (let base = oldest - oldest mod 4;
          byte = TRANS_OFFSET (number - base)
      in if number < base \<or> byte \<ge> length bit_vector then Inl overrun
         else Inr (byte_state (bit_vector ! byte) (TRANS_SHIFT number)))"

section \<open>The state\<close>

record tx_page =
  tpc_base :: TraNumber
  tpc_transactions :: bytes

record dbb =
  transPerTIP :: nat
  m_cache :: "tx_page list"
  dbb_pc_transactions :: "TraNumber list option"
  dbb_next_transaction :: TraNumber
  dbb_oldest_transaction :: TraNumber
  dbb_oldest_active :: TraNumber
  dbb_oldest_snapshot :: TraNumber
  dbb_readOnly :: bool
  tip_pages :: "bytes list"
  hdr_next :: TraNumber
  hdr_oldest :: TraNumber
  hdr_oldest_active :: TraNumber
  hdr_oldest_snapshot :: TraNumber

section \<open>Precommitted transactions\<close>

text \<open>\<open>TRA_precommited\<close> on the vector, then on the database, where the vector may not be there yet.\<close>

definition precommit_vector :: "TraNumber \<Rightarrow> TraNumber \<Rightarrow> TraNumber list \<Rightarrow> bool \<times> TraNumber list" where
  "precommit_vector old_number new_number v =
     (case find_from old_number 0 v of
        Some p \<Rightarrow> (new_number \<noteq> 0, v[p := new_number])
      | None \<Rightarrow>
          if old_number = new_number \<or> new_number = 0 then (False, v)
          else (True, case find_from 0 0 v of Some zp \<Rightarrow> v[zp := new_number] | None \<Rightarrow> v @ [new_number]))"

definition TRA_precommited :: "TraNumber \<Rightarrow> TraNumber \<Rightarrow> dbb \<Rightarrow> bool \<times> dbb" where
  "TRA_precommited old_number new_number d =
     (case dbb_pc_transactions d of
        None \<Rightarrow>
          if old_number = new_number then (False, d)
          else (let (b, v) = precommit_vector old_number new_number [0] in (b, d\<lparr>dbb_pc_transactions := Some v\<rparr>))
      | Some v \<Rightarrow>
          (let (b, v) = precommit_vector old_number new_number v in (b, d\<lparr>dbb_pc_transactions := Some v\<rparr>)))"

definition precommitted :: "dbb \<Rightarrow> TraNumber \<Rightarrow> bool" where
  "precommitted d number \<longleftrightarrow> number \<noteq> 0 \<and> fst (TRA_precommited number number d)"

section \<open>The cache\<close>

abbreviation find_page :: "TraNumber \<Rightarrow> tx_page list \<Rightarrow> bool \<times> nat" where
  "find_page base cache \<equiv> sorted_find greaterThan tpc_base base cache"

definition allocTxPage :: "nat \<Rightarrow> TraNumber \<Rightarrow> tx_page" where
  "allocTxPage trans_per_tip base = \<lparr>tpc_base = base, tpc_transactions = replicate (trans_per_tip div 4) 0\<rparr>"

text \<open>\<open>memcpy\<close> of \<open>n\<close> bytes to the start of a block.\<close>

definition copy_to :: "bytes \<Rightarrow> nat \<Rightarrow> bytes \<Rightarrow> bytes" where
  "copy_to dst n src = take n src @ drop n dst"

text \<open>The page of the transactions from \<open>base\<close> on is found or made and takes over the bits.\<close>

definition assign_page :: "nat \<Rightarrow> TraNumber \<Rightarrow> bytes \<Rightarrow> tx_page list \<Rightarrow> tx_page list" where
  "assign_page trans_per_tip base tip_page cache =
     (let (found, pos) = find_page base cache;
          cache = (if found then cache else take pos cache @ allocTxPage trans_per_tip base # drop pos cache);
          len = TRANS_OFFSET trans_per_tip;
          tip_cache = cache ! pos
      in cache[pos := tip_cache\<lparr>tpc_transactions := copy_to (tpc_transactions tip_cache) len tip_page\<rparr>])"

definition updateCache :: "bytes \<Rightarrow> nat \<Rightarrow> dbb \<Rightarrow> dbb" where
  "updateCache tip_page sequence d =
     (let trans_per_tip = transPerTIP d;
          first_trans = sequence * trans_per_tip;
          cache = dropWhile (\<lambda>p. dbb_oldest_transaction d \<ge> tpc_base p + trans_per_tip) (m_cache d)
      in d\<lparr>m_cache := assign_page trans_per_tip first_trans tip_page cache\<rparr>)"

definition setState :: "TraNumber \<Rightarrow> nat \<Rightarrow> dbb \<Rightarrow> tra_error + dbb" where
  "setState number st d =
     (let trans_per_tip = transPerTIP d;
          base = number - number mod trans_per_tip;
          byte = TRANS_OFFSET (number mod trans_per_tip);
          shift = TRANS_SHIFT number;
          (found, pos) = find_page base (m_cache d)
      in if \<not> found then Inr d
         else let tip_cache = m_cache d ! pos; bits = tpc_transactions tip_cache
              in if byte \<ge> length bits then Inl overrun
                 else Inr (d\<lparr>m_cache := (m_cache d)[pos := tip_cache\<lparr>tpc_transactions :=
                        bits[byte := byte_put (bits ! byte) shift st]\<rparr>]\<rparr>))"

definition clearCache :: "dbb \<Rightarrow> dbb" where
  "clearCache d = d\<lparr>m_cache := []\<rparr>"

section \<open>The inventory pages\<close>

text \<open>\<open>inventory_page\<close> finds the page of the sequence or raises error 165; its fetch updates the cache.\<close>

definition fetch_inventory_page :: "nat \<Rightarrow> dbb \<Rightarrow> tra_error + bytes \<times> dbb" where
  "fetch_inventory_page sequence d =
     (if sequence < length (tip_pages d)
      then Inr (tip_pages d ! sequence, updateCache (tip_pages d ! sequence) sequence d)
      else Inl (bugcheck 165))"

definition TRA_fetch_state :: "TraNumber \<Rightarrow> dbb \<Rightarrow> tra_error + nat \<times> dbb" where
  "TRA_fetch_state number d =
     (let trans_per_tip = transPerTIP d
      in case fetch_inventory_page (number div trans_per_tip) d of
           Inl e \<Rightarrow> Inl e
         | Inr (tip, d) \<Rightarrow>
             (let byte = TRANS_OFFSET (number mod trans_per_tip)
              in if byte \<ge> length tip then Inl overrun else Inr (byte_state (tip ! byte) (TRANS_SHIFT number), d)))"

text \<open>
  \<open>TRA_get_inventory\<close> writes its vector from the start; \<open>p\<close> is what it has written so far, or
  \<open>None\<close> when there is no vector.
\<close>

function inventory_loop :: "TraNumber \<Rightarrow> nat \<Rightarrow> nat \<Rightarrow> bytes option \<Rightarrow> dbb \<Rightarrow> tra_error + bytes option \<times> dbb" where
  "inventory_loop last_no last_seq sequence p d =
     (if sequence \<le> last_seq
      then case fetch_inventory_page sequence d of
             Inl e \<Rightarrow> Inl e
           | Inr (tip, d) \<Rightarrow>
               (let base = sequence * transPerTIP d;
                    l = TRANS_OFFSET (min (last_no + 4 - base) (transPerTIP d))
                in inventory_loop last_no last_seq (sequence + 1) (map_option (\<lambda>v. v @ take l tip) p) d)
      else Inr (p, d))"
  by pat_completeness auto
termination by (relation "measure (\<lambda>(last_no, last_seq, sequence, p, d). Suc last_seq - sequence)") auto

declare inventory_loop.simps [simp del]

definition TRA_get_inventory :: "bool \<Rightarrow> TraNumber \<Rightarrow> TraNumber \<Rightarrow> dbb \<Rightarrow> tra_error + bytes option \<times> dbb" where
  "TRA_get_inventory vector base last_no d =
     (let trans_per_tip = transPerTIP d;
          sequence = base div trans_per_tip
      in case fetch_inventory_page sequence d of
           Inl e \<Rightarrow> Inl e
         | Inr (tip, d) \<Rightarrow>
             (let l = base mod trans_per_tip;
                  n = TRANS_OFFSET (min (last_no + 4 - base) (trans_per_tip - l))
              in inventory_loop last_no (last_no div trans_per_tip) (sequence + 1)
                   (if vector then Some (take n (drop (TRANS_OFFSET l) tip)) else None) d))"

definition cacheTransactions :: "TraNumber \<Rightarrow> dbb \<Rightarrow> tra_error + TraNumber \<times> dbb" where
  "cacheTransactions oldest d =
     (let last_no = hdr_next d; hdr_old = hdr_oldest d; oldest = max oldest hdr_old
      in case TRA_get_inventory False oldest last_no d of
           Inl e \<Rightarrow> Inl e
         | Inr (_, d) \<Rightarrow>
             Inr (hdr_old, d\<lparr>m_cache := dropWhile (\<lambda>p. tpc_base p + transPerTIP d < hdr_old) (m_cache d)\<rparr>))"

definition initializeTpc :: "TraNumber \<Rightarrow> dbb \<Rightarrow> tra_error + dbb" where
  "initializeTpc number d =
     (if m_cache d = [] then map_sum id snd (cacheTransactions 0 d)
      else let last_known = tpc_base (last (m_cache d))
           in if number < last_known + transPerTIP d then Inr d
              else if last_known < MAX_TRA_NUMBER - transPerTIP d
                   then map_sum id snd (cacheTransactions (last_known + transPerTIP d) d)
              else Inr d)"

text \<open>The state of a number in the cached page that holds it, if it is cached.\<close>

definition cached_state :: "TraNumber \<Rightarrow> dbb \<Rightarrow> (tra_error + nat) option" where
  "cached_state number d =
     (let (found, pos) = find_page (number - number mod transPerTIP d) (m_cache d)
      in if found then Some (TRA_state (tpc_transactions (m_cache d ! pos)) (tpc_base (m_cache d ! pos)) number)
         else None)"

definition cacheState :: "TraNumber \<Rightarrow> dbb \<Rightarrow> tra_error + nat \<times> dbb" where
  "cacheState number d =
     (if precommitted d number then Inr (tra_precommitted, d)
      else case (if m_cache d = [] then initializeTpc number d else Inr d) of
             Inl e \<Rightarrow> Inl e
           | Inr d \<Rightarrow>
               if m_cache d = [] then Inl overrun
               else if number < tpc_base (hd (m_cache d)) \<or> number = 0 then Inr (tra_committed, d)
               else (case cached_state number d of
                       Some (Inl e) \<Rightarrow> Inl e
                     | Some (Inr st) \<Rightarrow> Inr (st, d)
                     | None \<Rightarrow> Inr (tra_active, d)))"

definition extendCache :: "TraNumber \<Rightarrow> dbb \<Rightarrow> tra_error + nat \<times> dbb" where
  "extendCache number d =
     (if m_cache d = [] then Inl overrun
      else let last_known = tpc_base (last (m_cache d))
           in case (if last_known < MAX_TRA_NUMBER - transPerTIP d
                    then cacheTransactions (last_known + transPerTIP d) d else Inr (0, d)) of
                Inl e \<Rightarrow> Inl e
              | Inr (oldest, d) \<Rightarrow>
                  if number < oldest then Inr (tra_committed, d)
                  else (case cached_state number d of
                          Some (Inl e) \<Rightarrow> Inl e
                        | Some (Inr st) \<Rightarrow> Inr (st, d)
                        | None \<Rightarrow> Inr (tra_active, d)))"

text \<open>\<open>may_lock\<close> tells whether the lock of a transaction can be had: nobody has it for writing.\<close>

definition snapshotState :: "(TraNumber \<Rightarrow> bool) \<Rightarrow> TraNumber \<Rightarrow> dbb \<Rightarrow> tra_error + nat \<times> dbb" where
  "snapshotState may_lock number d =
     (if precommitted d number then Inr (tra_precommitted, d)
      else case (if m_cache d = [] then map_sum id snd (cacheTransactions 0 d) else Inr d) of
             Inl e \<Rightarrow> Inl e
           | Inr d \<Rightarrow>
               if m_cache d = [] then Inl overrun
               else if number < tpc_base (hd (m_cache d)) \<or> number = 0 then Inr (tra_committed, d)
               else (case cached_state number d of
                       Some (Inl e) \<Rightarrow> Inl e
                     | Some (Inr st) \<Rightarrow>
                         if st = tra_committed \<or> st = tra_dead then Inr (st, d)
                         else if \<not> may_lock number then Inr (tra_active, d)
                         else TRA_fetch_state number d
                     | None \<Rightarrow> extendCache number d))"

section \<open>Searching for states\<close>

definition check_state :: "nat \<Rightarrow> ULONG \<Rightarrow> bool" where
  "check_state st states \<longleftrightarrow> bit states st"

text \<open>
  The inner loop of \<open>findStates\<close> over one cached page, from \<open>number\<close> on: the number and state it
  has found, or the number where the loop has ended.
\<close>

function scan_page :: "ULONG \<Rightarrow> bool \<Rightarrow> dbb \<Rightarrow> tx_page \<Rightarrow> TraNumber \<Rightarrow> TraNumber \<Rightarrow> tra_error + (TraNumber \<times> nat) option \<times> TraNumber" where
  "scan_page states check_pc d p maxNumber number =
     (if number < tpc_base p + transPerTIP d \<and> number < maxNumber
      then if check_pc \<and> precommitted d number then Inr (Some (number, tra_precommitted), number)
           else case TRA_state (tpc_transactions p) (tpc_base p) number of
                  Inl e \<Rightarrow> Inl e
                | Inr st \<Rightarrow>
                    if check_state st states then Inr (Some (number, st), number)
                    else scan_page states check_pc d p maxNumber (number + 1)
      else Inr (None, number))"
  by pat_completeness auto
termination by (relation "measure (\<lambda>(states, check_pc, d, p, maxNumber, number). maxNumber - number)") auto

declare scan_page.simps [simp del]

fun scan_cache :: "ULONG \<Rightarrow> bool \<Rightarrow> dbb \<Rightarrow> TraNumber \<Rightarrow> tx_page list \<Rightarrow> TraNumber \<Rightarrow> tra_error + (TraNumber \<times> nat) option" where
  "scan_cache states check_pc d maxNumber [] number = Inr None"
| "scan_cache states check_pc d maxNumber (p # ps) number =
     (if number < maxNumber
      then case scan_page states check_pc d p maxNumber number of
             Inl e \<Rightarrow> Inl e
           | Inr (Some res, _) \<Rightarrow> Inr (Some res)
           | Inr (None, number) \<Rightarrow> scan_cache states check_pc d maxNumber ps number
      else Inr None)"

text \<open>The answer is the number and, where the code sets it, the state.\<close>

definition findStates :: "TraNumber \<Rightarrow> TraNumber \<Rightarrow> ULONG \<Rightarrow> dbb \<Rightarrow> tra_error + (TraNumber \<times> nat option) \<times> dbb" where
  "findStates minNumber maxNumber states d =
     (case initializeTpc maxNumber d of
        Inl e \<Rightarrow> Inl e
      | Inr d \<Rightarrow>
          if m_cache d = [] then Inl overrun
          else let front = tpc_base (hd (m_cache d)); old = (minNumber < front \<or> minNumber = 0)
               in if maxNumber < front then Inr ((0, None), d)
                  else if old \<and> check_state tra_committed states then Inr ((minNumber, Some tra_committed), d)
                  else let minNumber = (if old then front else minNumber);
                           pc = check_state tra_precommitted states
                       in if pc \<and> dbb_pc_transactions d = None \<and> states = push_bit tra_precommitted 1 then Inr ((0, None), d)
                          else let (found, pos) = find_page (minNumber - minNumber mod transPerTIP d) (m_cache d)
                               in if \<not> found then Inr ((0, None), d)
                                  else (case scan_cache states (pc \<and> dbb_pc_transactions d \<noteq> None) d maxNumber
                                               (drop pos (m_cache d)) minNumber of
                                          Inl e \<Rightarrow> Inl e
                                        | Inr None \<Rightarrow> Inr ((0, None), d)
                                        | Inr (Some (number, st)) \<Rightarrow> Inr ((number, Some st), d)))"

end
