(* ===== verification/Transactions.thy ===== *)
theory Transactions
  imports TipCache
begin

text \<open>
  Transactions: their numbers, states and snapshots (\<^verbatim>\<open>src/src/jrd/tra.cpp\<close>).

  The record \<open>jrd_tra\<close> has the fields that decide what a transaction sees.  What the lock manager
  answers is given: \<open>may_lock\<close> tells whether the lock of a transaction is had at once, \<open>lock_env\<close> the
  rest of what the start of a transaction asks it.  The database has its cache of states.  Savepoints, sweeping,
  tracing and when pages are written have no part in the states.
\<close>

record jrd_tra =
  tra_number :: TraNumber
  tra_top :: TraNumber
  tra_oldest :: TraNumber
  tra_oldest_active :: TraNumber
  tra_transactions :: bytes
  TRA_read_committed :: bool
  TRA_system :: bool
  TRA_readonly :: bool
  TRA_flag_precommitted :: bool
  tra_commit_sub_trans :: "TraNumber list option"

datatype wait_t = tra_no_wait | tra_probe | tra_wait

section \<open>States on the pages\<close>

definition TRA_get_state :: "(TraNumber \<Rightarrow> bool) \<Rightarrow> TraNumber \<Rightarrow> dbb \<Rightarrow> tra_error + nat \<times> dbb" where
  "TRA_get_state may_lock number d = snapshotState may_lock number d"

definition TRA_set_state :: "jrd_tra option \<Rightarrow> TraNumber \<Rightarrow> nat \<Rightarrow> dbb \<Rightarrow> tra_error + dbb" where
  "TRA_set_state transaction number st d =
     (if (case transaction of None \<Rightarrow> False | Some t \<Rightarrow> tra_number t = number \<and> TRA_flag_precommitted t) then Inr d
      else if dbb_readOnly d then setState number st d
      else let sequence = number div transPerTIP d
           in case fetch_inventory_page sequence d of
                Inl e \<Rightarrow> Inl e
              | Inr (tip, d) \<Rightarrow>
                  (let byte = TRANS_OFFSET (number mod transPerTIP d)
                   in if byte \<ge> length tip then Inl overrun
                      else setState number st
                        (d\<lparr>tip_pages := (tip_pages d)[sequence := tip[byte := byte_put (tip ! byte) (TRANS_SHIFT number) st]]\<rparr>)))"

definition limbo_transaction :: "TraNumber \<Rightarrow> dbb \<Rightarrow> tra_error + nat \<times> dbb" where
  "limbo_transaction tid d =
     (let page = tid div transPerTIP d; number = tid mod transPerTIP d
      in case fetch_inventory_page page d of
           Inl e \<Rightarrow> Inl e
         | Inr (tip, d) \<Rightarrow>
             if TRANS_OFFSET number \<ge> length tip then Inl overrun
             else Inr (byte_state (tip ! TRANS_OFFSET number) (TRANS_SHIFT number), d))"

section \<open>What a transaction sees\<close>

definition TRA_snapshot_state :: "(TraNumber \<Rightarrow> bool) \<Rightarrow> jrd_tra \<Rightarrow> TraNumber \<Rightarrow> dbb \<Rightarrow> tra_error + nat \<times> dbb" where
  "TRA_snapshot_state may_lock tra number d =
     (if precommitted d number then Inr (tra_precommitted, d)
      else if number = tra_number tra then Inr (tra_us, d)
      else if number < tra_oldest tra then Inr (tra_committed, d)
      else if number = 0 then Inr (tra_committed, d)
      else if dbb_readOnly d \<and> number > tra_top tra then Inr (tra_committed, d)
      else if TRA_read_committed tra then snapshotState may_lock number d
      else if TRA_system tra then
        (case snapshotState may_lock number d of
           Inl e \<Rightarrow> Inl e
         | Inr (st, d) \<Rightarrow> Inr (if st = tra_active then tra_committed else st, d))
      else if (case tra_commit_sub_trans tra of None \<Rightarrow> False | Some s \<Rightarrow> number \<in> set s) then Inr (tra_committed, d)
      else if number > tra_top tra then Inr (tra_active, d)
      else map_sum id (\<lambda>st. (st, d)) (TRA_state (tra_transactions tra) (tra_oldest tra) number))"

section \<open>Waiting for a transaction\<close>

text \<open>\<open>lock_wait\<close> tells whether the lock of the transaction is had in the end, after waiting as asked.\<close>

definition TRA_wait :: "(wait_t \<Rightarrow> TraNumber \<Rightarrow> bool) \<Rightarrow> (TraNumber \<Rightarrow> bool) \<Rightarrow> jrd_tra \<Rightarrow> TraNumber \<Rightarrow> wait_t \<Rightarrow>
    dbb \<Rightarrow> tra_error + nat \<times> jrd_tra \<times> dbb" where
  "TRA_wait lock_wait may_lock tra number wait d =
     (if wait \<noteq> tra_no_wait \<and> \<not> lock_wait wait number then Inr (tra_active, tra, d)
      else case TRA_get_state may_lock number d of
             Inl e \<Rightarrow> Inl e
           | Inr (st, d) \<Rightarrow>
               if wait \<noteq> tra_no_wait \<and> st = tra_committed then Inr (st, tra, d)
               else if st = tra_precommitted then Inr (st, tra, d)
               else (case (if st = tra_active then TRA_set_state None number tra_dead d else Inr d) of
                       Inl e \<Rightarrow> Inl e
                     | Inr d \<Rightarrow>
                         (let st = (if st = tra_active then tra_dead else st);
                              base = tra_oldest tra - tra_oldest tra mod 4;
                              byte = TRANS_OFFSET (number - base);
                              bits = tra_transactions tra
                          in if number > tra_top tra then Inr (st, tra, d)
                             else if TRA_read_committed tra then map_sum id (\<lambda>d. (st, tra, d)) (setState number st d)
                             else if number < base \<or> byte \<ge> length bits then Inl overrun
                             else Inr (st, tra\<lparr>tra_transactions :=
                                    bits[byte := byte_put (bits ! byte) (TRANS_SHIFT number) st]\<rparr>, d))))"

section \<open>New numbers\<close>

definition TRA_extend_tip :: "nat \<Rightarrow> dbb \<Rightarrow> tra_error + dbb" where
  "TRA_extend_tip sequence d =
     (case (if sequence = 0 then Inr d else map_sum id snd (fetch_inventory_page (sequence - 1) d)) of
        Inl e \<Rightarrow> Inl e
      | Inr d \<Rightarrow>
          (let tip = replicate (transPerTIP d div 4) 0
           in Inr (d\<lparr>tip_pages := (if sequence < length (tip_pages d) then (tip_pages d)[sequence := tip]
                                 else tip_pages d @ [tip])\<rparr>)))"

definition bump_transaction_id :: "dbb \<Rightarrow> tra_error + dbb" where
  "bump_transaction_id d =
     (let next_transaction = hdr_next d; oldest_active = hdr_oldest_active d; oldest_transaction = hdr_oldest d;
          oldest_snapshot = hdr_oldest_snapshot d
      in if next_transaction \<noteq> 0 \<and> oldest_active > next_transaction then Inl (bugcheck 266)
         else if next_transaction \<noteq> 0 \<and> oldest_transaction > next_transaction then Inl (bugcheck 267)
         else if next_transaction \<ge> MAX_TRA_NUMBER - 1 then Inl tra_num_exc
         else let number = next_transaction + 1; new_tip = (number mod transPerTIP d = 0)
              in case (if new_tip then TRA_extend_tip (number div transPerTIP d) d else Inr d) of
                   Inl e \<Rightarrow> Inl e
                 | Inr d \<Rightarrow>
                     Inr (d\<lparr>dbb_next_transaction := number, hdr_next := number,
                        hdr_oldest_active := max (dbb_oldest_active d) oldest_active,
                        hdr_oldest := max (dbb_oldest_transaction d) oldest_transaction,
                        hdr_oldest_snapshot := max (dbb_oldest_snapshot d) oldest_snapshot\<rparr>))"

section \<open>The start of a transaction\<close>

text \<open>
  What the start learns from the lock manager and from the process: whether its locks are granted,
  the data of the lock of another transaction (0 when nobody has it), the least data of all
  transaction locks, and the next local number of a read-only database.
\<close>

record lock_env =
  le_may_lock :: "TraNumber \<Rightarrow> bool"
  le_wait :: "wait_t \<Rightarrow> TraNumber \<Rightarrow> bool"
  le_granted :: bool
  le_data :: "TraNumber \<Rightarrow> TraNumber"
  le_min :: TraNumber
  le_local_id :: TraNumber

definition TRA_ACTIVE_CLEANUP :: nat where "TRA_ACTIVE_CLEANUP = 100"

text \<open>A transaction number in a variable of type \<open>ULONG\<close>, and the decrement of one of 64 bits.\<close>

definition to_ULONG :: "TraNumber \<Rightarrow> TraNumber" where "to_ULONG n = n mod 4294967296"
definition decrement :: "TraNumber \<Rightarrow> TraNumber" where "decrement n = (if n = 0 then 18446744073709551615 else n - 1)"

text \<open>The state of the oldest number from \<open>active\<close> on, as the transaction's snapshot or the cache has it.\<close>

definition next_state_of :: "jrd_tra \<Rightarrow> TraNumber \<Rightarrow> TraNumber \<Rightarrow> ULONG \<Rightarrow> dbb \<Rightarrow> tra_error + (TraNumber \<times> nat) option \<times> dbb" where
  "next_state_of tra number last_no states d =
     (if TRA_read_committed tra
      then (case findStates number last_no states d of
              Inl e \<Rightarrow> Inl e
            | Inr ((n, st), d) \<Rightarrow> Inr ((if n = 0 then None else Some (n, case st of None \<Rightarrow> tra_committed | Some st \<Rightarrow> st)), d))
      else map_sum id (\<lambda>st. (Some (number, st), d)) (TRA_state (tra_transactions tra) (tra_oldest tra) number))"

text \<open>
  The loop over the active transactions; the answer has the oldest active number, the transaction
  with its \<open>tra_oldest_active\<close>, and the database.
\<close>

partial_function (option) active_loop ::
  "lock_env \<Rightarrow> TraNumber \<Rightarrow> TraNumber \<Rightarrow> TraNumber \<Rightarrow> TraNumber \<Rightarrow> TraNumber \<Rightarrow> bool \<Rightarrow> jrd_tra \<Rightarrow> dbb \<Rightarrow>
   (tra_error + TraNumber \<times> jrd_tra \<times> dbb) option" where
  "active_loop env number last_no oldest_snapshot active oldest_active cleanup tra d =
     (if \<not> active < last_no then Some (Inr (oldest_active, tra, d))
      else case next_state_of tra active last_no 1 d of
             Inl e \<Rightarrow> Some (Inl e)
           | Inr (None, d) \<Rightarrow> Some (Inr (oldest_active, tra, d))
           | Inr (Some (active, st), d) \<Rightarrow>
               if st \<noteq> tra_active then active_loop env number last_no oldest_snapshot (active + 1) oldest_active cleanup tra d
               else let data = le_data env active
                    in if data = 0 \<and> cleanup
                       then (case TRA_wait (le_wait env) (le_may_lock env) tra active tra_no_wait d of
                               Inl e \<Rightarrow> Some (Inl e)
                             | Inr (st, tra, d) \<Rightarrow>
                                 active_loop env number last_no oldest_snapshot (active + 1) oldest_active
                                   (cleanup \<and> st \<noteq> tra_committed) tra d)
                       else let data = (if data = 0 then active else data);
                                tra = (if data < tra_oldest_active tra then tra\<lparr>tra_oldest_active := data\<rparr> else tra);
                                tra = (if tra_oldest_active tra = oldest_snapshot then tra
                                       else if le_min env \<noteq> 0 \<and> le_min env < tra_oldest_active tra
                                       then tra\<lparr>tra_oldest_active := le_min env\<rparr> else tra)
                            in Some (Inr (min oldest_active active, tra, d)))"

text \<open>The scan of the snapshot for the oldest number that is not committed.\<close>

function interesting_loop :: "jrd_tra \<Rightarrow> TraNumber \<Rightarrow> TraNumber \<Rightarrow> tra_error + TraNumber \<times> nat" where
  "interesting_loop tra last_no oldest =
     (if oldest < last_no
      then case TRA_state (tra_transactions tra) (tra_oldest tra) oldest of
             Inl e \<Rightarrow> Inl e
           | Inr st \<Rightarrow>
               if st \<noteq> tra_committed \<and> st \<noteq> tra_precommitted then Inr (oldest, st)
               else if oldest + 1 < last_no then interesting_loop tra last_no (oldest + 1)
               else Inr (oldest + 1, st)
      else Inr (oldest, tra_committed))"
  by pat_completeness auto
termination by (relation "measure (\<lambda>(tra, last_no, oldest). last_no - oldest)") auto

declare interesting_loop.simps [simp del]

definition oldest_interesting :: "jrd_tra \<Rightarrow> TraNumber \<Rightarrow> dbb \<Rightarrow> tra_error + (TraNumber \<times> nat) \<times> dbb" where
  "oldest_interesting tra last_no d =
     (if tra_oldest tra < last_no \<and> TRA_read_committed tra
      then (case findStates (tra_oldest tra) last_no (NOT (push_bit tra_committed 1 OR push_bit tra_precommitted 1)) d of
              Inl e \<Rightarrow> Inl e
            | Inr ((n, st), d) \<Rightarrow>
                Inr ((if n = 0 then (last_no, tra_committed) else (n, case st of None \<Rightarrow> tra_committed | Some st \<Rightarrow> st)), d))
      else map_sum id (\<lambda>res. (res, d)) (interesting_loop tra last_no (tra_oldest tra)))"

text \<open>The snapshot: the vector is made, filled with zeros, and then written by \<open>TRA_get_inventory\<close>.\<close>

definition take_snapshot :: "jrd_tra \<Rightarrow> TraNumber \<Rightarrow> TraNumber \<Rightarrow> dbb \<Rightarrow> tra_error + jrd_tra \<times> dbb" where
  "take_snapshot tra oldest last_no d =
     (let base = oldest - oldest mod 4;
          bits = (if \<not> TRA_read_committed tra \<and> last_no \<ge> oldest then replicate ((last_no + 1 - base + 3) div 4) 0
                  else tra_transactions tra);
          tra = tra\<lparr>tra_transactions := bits\<rparr>
      in if TRA_read_committed tra then map_sum id (\<lambda>d. (tra, d)) (initializeTpc last_no d)
         else if last_no > base
         then (case TRA_get_inventory True base last_no d of
                 Inl e \<Rightarrow> Inl e
               | Inr (None, d) \<Rightarrow> Inr (tra, d)
               | Inr (Some v, d) \<Rightarrow>
                   if length v > length bits then Inl overrun
                   else Inr (tra\<lparr>tra_transactions := v @ drop (length v) bits\<rparr>, d))
         else Inr (tra, d))"

definition begin_numbers :: "lock_env \<Rightarrow> dbb \<Rightarrow> tra_error + TraNumber \<times> TraNumber \<times> TraNumber \<times> TraNumber \<times> dbb" where
  "begin_numbers env d =
     (if dbb_readOnly d
      then Inr (dbb_next_transaction d + le_local_id env, dbb_oldest_transaction d, dbb_oldest_active d, dbb_oldest_snapshot d, d)
      else case bump_transaction_id d of
             Inl e \<Rightarrow> Inl e
           | Inr d \<Rightarrow> Inr (hdr_next d, hdr_oldest d, hdr_oldest_active d, hdr_oldest_snapshot d, d))"

text \<open>What the process keeps of the numbers in the end.\<close>

definition note_numbers :: "TraNumber \<Rightarrow> TraNumber \<Rightarrow> TraNumber \<Rightarrow> dbb \<Rightarrow> dbb" where
  "note_numbers oldest oldest_active snapshot d =
     d\<lparr>dbb_oldest_transaction := (if oldest > dbb_oldest_transaction d then oldest else dbb_oldest_transaction d),
       dbb_oldest_active := (if oldest_active > dbb_oldest_active d then oldest_active else dbb_oldest_active d),
       dbb_oldest_snapshot := (if snapshot > dbb_oldest_snapshot d then snapshot else dbb_oldest_snapshot d)\<rparr>"

definition transaction_start :: "lock_env \<Rightarrow> jrd_tra \<Rightarrow> dbb \<Rightarrow> (tra_error + jrd_tra \<times> dbb) option" where
  "transaction_start env tra d =
     (case begin_numbers env d of
        Inl e \<Rightarrow> Some (Inl e)
      | Inr (number, oldest, oldest_active, oldest_snapshot, d) \<Rightarrow>
          (let active = max oldest_active oldest;
               last_no = to_ULONG (if dbb_readOnly d then dbb_next_transaction d else number);
               tra = tra\<lparr>tra_number := number, tra_top := last_no, tra_oldest := oldest, tra_oldest_active := active\<rparr>
           in if \<not> le_granted env then Some (Inl lock_conflict)
              else let tra = (if dbb_readOnly d then tra\<lparr>TRA_readonly := True, TRA_flag_precommitted := True\<rparr> else tra)
                   in case take_snapshot tra oldest last_no d of
                        Inl e \<Rightarrow> Some (Inl e)
                      | Inr (tra, d) \<Rightarrow>
                          (case active_loop env number last_no oldest_snapshot active number
                                  (number mod TRA_ACTIVE_CLEANUP = 0) (tra\<lparr>tra_oldest_active := number\<rparr>) d of
                             None \<Rightarrow> None
                           | Some (Inl e) \<Rightarrow> Some (Inl e)
                           | Some (Inr (oldest_active, tra, d)) \<Rightarrow>
                               (case oldest_interesting tra last_no d of
                                  Inl e \<Rightarrow> Some (Inl e)
                                | Inr ((oldest, oldest_state), d) \<Rightarrow>
                                    (let oldest = (if oldest \<ge> last_no \<and> dbb_readOnly d then number else oldest);
                                         d = note_numbers (decrement oldest) oldest_active (tra_oldest_active tra) d
                                     in case (if TRA_readonly tra \<and> TRA_read_committed tra
                                              then map_sum id (\<lambda>d. (tra\<lparr>TRA_flag_precommitted := True\<rparr>, d))
                                                     (TRA_set_state (Some tra) number tra_committed d)
                                              else Inr (tra, d)) of
                                          Inl e \<Rightarrow> Some (Inl e)
                                        | Inr (tra, d) \<Rightarrow>
                                            Some (Inr (tra, if TRA_flag_precommitted tra then snd (TRA_precommited 0 number d) else d)))))))"

end
