(* ===== verification/TipInventory.thy ===== *)
theory TipInventory
  imports Transactions
begin

text \<open>
  The states of transactions on their pages and in the cache: what reading and writing them does,
  and that the cache is never wrong about a transaction that has come to its end.
\<close>

section \<open>States in bytes\<close>

lemma byte_state_bits: "byte_state b s = unat (take_bit 2 (drop_bit s b))"
  by (simp add: byte_state_def take_bit_eq_mask mask_eq_exp_minus_1)

lemma byte_state_less [bounds]: "byte_state b s < 4"
proof -
  have "unat (take_bit 2 (drop_bit s b)) = take_bit 2 (unat (drop_bit s b))" by (simp add: unsigned_take_bit_eq)
  also have "\<dots> < 4" using take_bit_nat_less_exp [of 2 "unat (drop_bit s b)"] by simp
  finally show ?thesis by (simp add: byte_state_bits)
qed

lemma bit_three: "bit (3 :: UCHAR) n \<longleftrightarrow> n < 2"
proof -
  have "bit (mask 2 :: UCHAR) n \<longleftrightarrow> n < 2" by (subst bit_mask_iff) auto
  then show ?thesis by (simp add: mask_eq_exp_minus_1)
qed

lemma small_state: "st < 4 \<Longrightarrow> bit (of_nat st :: UCHAR) n \<Longrightarrow> n < 2"
proof -
  assume st: "st < 4" and n: "bit (of_nat st :: UCHAR) n"
  have "unat (of_nat st :: UCHAR) < 2 ^ 2" using st by (simp add: unat_of_nat_eq)
  from not_bit_ge [OF this, of n] n show "n < 2" by (meson not_le)
qed

lemma bit_byte_put:
  "bit (byte_put b s st) m \<longleftrightarrow> m < 8 \<and> (bit b m \<and> \<not> (s \<le> m \<and> m - s < 2) \<or> s \<le> m \<and> bit (of_nat st :: UCHAR) (m - s))"
proof -
  have b: "bit b m \<Longrightarrow> m < 8" using bit_imp_le_length [of b m] by simp
  have push: "bit (push_bit s w) m \<longleftrightarrow> s \<le> m \<and> m < 8 \<and> bit w (m - s)" for w :: UCHAR
    by (subst bit_push_bit_iff) auto
  have neg: "bit (NOT w) m \<longleftrightarrow> m < 8 \<and> \<not> bit w m" for w :: UCHAR
    by (subst bit_not_iff) auto
  show ?thesis unfolding byte_put_def bit_or_iff bit_and_iff neg push bit_three using b by blast
qed

lemma byte_put_other:
  assumes "st < 4" "s = 2 * i" "t = 2 * j" "i < 4" "j < 4" "i \<noteq> j"
  shows "byte_state (byte_put b s st) t = byte_state b t"
proof -
  have "take_bit 2 (drop_bit t (byte_put b s st)) = take_bit 2 (drop_bit t b)"
  proof (rule bit_word_eqI)
    fix n
    assume "n < LENGTH(8)"
    have "\<not> (s \<le> t + n \<and> t + n - s < 2)" "t + n < 8" if "n < 2" using assms that by presburger+
    then have "bit (byte_put b s st) (t + n) \<longleftrightarrow> bit b (t + n)" if "n < 2"
      using small_state [OF assms(1), of "t + n - s"] that unfolding bit_byte_put by blast
    then show "bit (take_bit 2 (drop_bit t (byte_put b s st))) n = bit (take_bit 2 (drop_bit t b)) n"
      unfolding bit_take_bit_iff bit_drop_bit_eq comp_def by blast
  qed
  then show ?thesis by (simp add: byte_state_bits)
qed

lemma byte_put_same:
  assumes "st < 4" "s = 2 * i" "i < 4"
  shows "byte_state (byte_put b s st) s = st"
proof -
  have "take_bit 2 (drop_bit s (byte_put b s st)) = (of_nat st :: UCHAR)"
  proof (rule bit_word_eqI)
    fix n
    assume "n < LENGTH(8)"
    have "s + n < 8 \<and> s \<le> s + n \<and> s + n - s = n" if "n < 2" using assms that by simp
    then have "bit (byte_put b s st) (s + n) \<longleftrightarrow> bit (of_nat st :: UCHAR) n" if "n < 2"
      using that unfolding bit_byte_put by force
    then show "bit (take_bit 2 (drop_bit s (byte_put b s st))) n = bit (of_nat st :: UCHAR) n"
      using small_state [OF assms(1), of n] unfolding bit_take_bit_iff bit_drop_bit_eq comp_def by blast
  qed
  then show ?thesis using assms(1) by (simp add: byte_state_bits unat_of_nat_eq)
qed

lemma byte_put_state:
  "st < 4 \<Longrightarrow> byte_state (byte_put b (TRANS_SHIFT n) st) (TRANS_SHIFT m) = (if n mod 4 = m mod 4 then st else byte_state b (TRANS_SHIFT m))"
  using byte_put_same [of st "TRANS_SHIFT n" "n mod 4" b] byte_put_other [of st "TRANS_SHIFT n" "n mod 4" "TRANS_SHIFT m" "m mod 4" b]
  by (auto simp: TRANS_SHIFT_def)

section \<open>Pages and the cache\<close>

text \<open>The state of a transaction as its inventory page has it.\<close>

definition page_state :: "dbb \<Rightarrow> TraNumber \<Rightarrow> nat" where
  "page_state d n = byte_state (tip_pages d ! (n div transPerTIP d) ! TRANS_OFFSET (n mod transPerTIP d)) (TRANS_SHIFT n)"

definition pages_ok :: "dbb \<Rightarrow> bool" where
  "pages_ok d \<longleftrightarrow> 0 < transPerTIP d \<and> transPerTIP d mod 4 = 0 \<and> (\<forall>p \<in> set (tip_pages d). length p = transPerTIP d div 4)"

definition page_ok :: "dbb \<Rightarrow> tx_page \<Rightarrow> bool" where
  "page_ok d p \<longleftrightarrow> (\<exists>k < length (tip_pages d). tpc_base p = k * transPerTIP d) \<and> length (tpc_transactions p) = transPerTIP d div 4"

definition cache_ok :: "dbb \<Rightarrow> bool" where
  "cache_ok d \<longleftrightarrow> sorted_wrt (<) (map tpc_base (m_cache d)) \<and> (\<forall>p \<in> set (m_cache d). page_ok d p)"

text \<open>A number whose page is there.\<close>

definition on_pages :: "dbb \<Rightarrow> TraNumber \<Rightarrow> bool" where
  "on_pages d n \<longleftrightarrow> n div transPerTIP d < length (tip_pages d)"

lemma strict_sorted: "sorted_wrt (<) (map f xs) \<Longrightarrow> sorted (map f (xs :: 'a list) :: nat list)"
  by (simp add: strict_sorted_iff)

lemma find_page:
  assumes "sorted_wrt (<) (map tpc_base cache)"
  shows "find_page base cache = (base \<in> tpc_base ` set cache, length (filter (\<lambda>p. tpc_base p < base) cache))"
  using sorted_find_all_lemma [of tpc_base cache base] strict_sorted [OF assms] by simp

lemma find_page_nth:
  assumes "sorted_wrt (<) (map tpc_base cache)" "find_page base cache = (True, pos)"
  shows "pos < length cache" "tpc_base (cache ! pos) = base"
  using default_comparator.sorted_find_nth [of tpc_base cache base] strict_sorted [OF assms(1)] assms(2)
  by (simp_all add: ascending_sorted)

lemma byte_at:
  assumes "pages_ok d" "k * transPerTIP d \<le> n" "n < k * transPerTIP d + transPerTIP d"
  shows "n div transPerTIP d = k" "n mod transPerTIP d = n - k * transPerTIP d" "(n - k * transPerTIP d) div 4 < transPerTIP d div 4"
proof -
  have t: "0 < transPerTIP d" "transPerTIP d mod 4 = 0" using assms(1) by (simp_all add: pages_ok_def)
  show k: "n div transPerTIP d = k" using assms(2,3) by (intro div_nat_eqI) (simp_all add: mult.commute)
  show "n mod transPerTIP d = n - k * transPerTIP d" using k by (simp add: modulo_nat_def)
  have "transPerTIP d = 4 * (transPerTIP d div 4)" using t(2) by presburger
  moreover have "n - k * transPerTIP d < transPerTIP d" using assms(2,3) by simp
  ultimately show "(n - k * transPerTIP d) div 4 < transPerTIP d div 4" by linarith
qed

lemma base_mod_4: "pages_ok d \<Longrightarrow> k * transPerTIP d mod 4 = 0"
  by (simp add: pages_ok_def mod_mult_right_eq [symmetric] del: mod_mult_right_eq)

lemma cached_bits:
  assumes "pages_ok d" "page_ok d p" "tpc_base p \<le> n" "n < tpc_base p + transPerTIP d"
  shows "TRA_state (tpc_transactions p) (tpc_base p) n =
    Inr (byte_state (tpc_transactions p ! TRANS_OFFSET (n mod transPerTIP d)) (TRANS_SHIFT n))"
proof -
  obtain k where k: "tpc_base p = k * transPerTIP d" "length (tpc_transactions p) = transPerTIP d div 4"
    using assms(2) by (auto simp: page_ok_def)
  note b = byte_at [OF assms(1) assms(3,4) [unfolded k(1)]]
  show ?thesis using b(2,3) k base_mod_4 [OF assms(1), of k] assms(3)
    by (simp add: TRA_state_def Let_def TRANS_OFFSET_def)
qed

section \<open>A page comes into the cache\<close>

lemma dropWhile_below:
  "sorted_wrt (<) (map tpc_base cache) \<Longrightarrow> dropWhile (\<lambda>p. n \<ge> tpc_base p + t) cache = filter (\<lambda>p. n < tpc_base p + t) cache"
proof (induction cache)
  case (Cons p cache)
  have "filter (\<lambda>p. n < tpc_base p + t) cache = cache" if "\<not> n \<ge> tpc_base p + t"
    using Cons.prems that by (auto intro!: filter_True)
  then show ?case using Cons by auto
qed simp

lemma sorted_filter: "sorted_wrt (<) (map tpc_base cache) \<Longrightarrow> sorted_wrt (<) (map tpc_base (filter P cache))"
  by (induction cache) auto

lemma copy_to_all: "length dst = n \<Longrightarrow> length src = n \<Longrightarrow> copy_to dst n src = src"
  by (simp add: copy_to_def)

lemma sorted_split:
  assumes "sorted_wrt (<) (map tpc_base cache)"
  shows "set (take (length (filter (\<lambda>p. tpc_base p < base) cache)) cache) = {p \<in> set cache. tpc_base p < base} \<and>
    set (drop (length (filter (\<lambda>p. tpc_base p < base) cache)) cache) = {p \<in> set cache. base \<le> tpc_base p}"
  using assms
proof (induction cache)
  case (Cons p cache)
  show ?case
  proof (cases "tpc_base p < base")
    case False
    then have "filter (\<lambda>p. tpc_base p < base) cache = []" using Cons.prems by (auto simp: filter_empty_conv)
    then show ?thesis using False Cons.prems by auto
  qed (use Cons in auto)
qed simp

lemma base_inj:
  assumes "sorted_wrt (<) (map tpc_base cache)" "p \<in> set cache" "q \<in> set cache" "tpc_base p = tpc_base q"
  shows "p = q"
proof -
  have "inj_on tpc_base (set cache)" using assms(1) by (simp add: strict_sorted_iff distinct_map)
  then show ?thesis using assms(2-4) by (auto dest: inj_onD)
qed

text \<open>The pages that stay when the page of \<open>base\<close> comes into the cache.\<close>

definition staying :: "dbb \<Rightarrow> TraNumber \<Rightarrow> tx_page set" where
  "staying d base = {p \<in> set (m_cache d). dbb_oldest_transaction d < tpc_base p + transPerTIP d \<and> tpc_base p \<noteq> base}"

lemma assign_page:
  assumes sorted: "sorted_wrt (<) (map tpc_base cache)" and len: "\<forall>p \<in> set cache. length (tpc_transactions p) = t div 4"
    "length tip = t div 4"
  shows "sorted_wrt (<) (map tpc_base (assign_page t base tip cache)) \<and>
    set (assign_page t base tip cache) = insert \<lparr>tpc_base = base, tpc_transactions = tip\<rparr> {p \<in> set cache. tpc_base p \<noteq> base}"
proof -
  let ?pos = "length (filter (\<lambda>p. tpc_base p < base) cache)"
  let ?new = "\<lparr>tpc_base = base, tpc_transactions = tip\<rparr>"
  show ?thesis
  proof (cases "base \<in> tpc_base ` set cache")
    case True
    then have f: "find_page base cache = (True, ?pos)" using find_page [OF sorted] by simp
    note at = find_page_nth [OF sorted f]
    have old: "length (tpc_transactions (cache ! ?pos)) = t div 4" using len(1) nth_mem [OF at(1)] by blast
    have new: "(cache ! ?pos)\<lparr>tpc_transactions := copy_to (tpc_transactions (cache ! ?pos)) (TRANS_OFFSET t) tip\<rparr> = ?new"
      using copy_to_all [OF old len(2)] at(2) by (cases "cache ! ?pos") (simp add: TRANS_OFFSET_def)
    have m: "map tpc_base (cache[?pos := ?new]) = map tpc_base cache"
      using at by (simp add: map_update list_update_same_conv)
    have st: "set (cache[?pos := ?new]) = insert ?new (set cache - {cache ! ?pos})"
      using at(1) sorted by (intro set_update_distinct) (auto simp: strict_sorted_iff distinct_map)
    have uniq: "p = cache ! ?pos" if "p \<in> set cache" "tpc_base p = base" for p
      by (rule base_inj [OF sorted that(1) nth_mem [OF at(1)]]) (simp only: that(2) at(2))
    have eq: "set cache - {cache ! ?pos} = {p \<in> set cache. tpc_base p \<noteq> base}"
    proof (intro set_eqI iffI)
      fix p
      assume p: "p \<in> set cache - {cache ! ?pos}"
      then show "p \<in> {p \<in> set cache. tpc_base p \<noteq> base}" using uniq [of p] by auto
    next
      fix p
      assume p: "p \<in> {p \<in> set cache. tpc_base p \<noteq> base}"
      then have "p \<noteq> cache ! ?pos" using at(2) by (metis (lifting) mem_Collect_eq)
      then show "p \<in> set cache - {cache ! ?pos}" using p by simp
    qed
    have val: "assign_page t base tip cache = cache[?pos := ?new]"
      unfolding assign_page_def f Let_def prod.case if_True new ..
    show ?thesis unfolding val m st eq using sorted by blast
  next
    case False
    then have f: "find_page base cache = (False, ?pos)" using find_page [OF sorted] by simp
    let ?c = "take ?pos cache @ allocTxPage t base # drop ?pos cache"
    have pos: "?pos \<le> length cache" by simp
    have at: "?c ! ?pos = allocTxPage t base" by (simp add: nth_append min_absorb2)
    have new: "(?c ! ?pos)\<lparr>tpc_transactions := copy_to (tpc_transactions (?c ! ?pos)) (TRANS_OFFSET t) tip\<rparr> = ?new"
      unfolding at using copy_to_all [OF _ len(2), of "replicate (t div 4) 0"] by (simp add: allocTxPage_def TRANS_OFFSET_def)
    have upd: "?c[?pos := ?new] = take ?pos cache @ ?new # drop ?pos cache"
      by (simp add: list_update_append min_absorb2)
    note parts = sorted_split [OF sorted, of base]
    have "sorted_wrt (<) (map tpc_base (take ?pos cache))" "sorted_wrt (<) (map tpc_base (drop ?pos cache))"
      using sorted by (simp_all add: take_map [symmetric] drop_map [symmetric] sorted_wrt_take sorted_wrt_drop)
    then have "sorted_wrt (<) (map tpc_base (take ?pos cache @ ?new # drop ?pos cache))"
      using parts False by (auto simp: sorted_wrt_append le_neq_implies_less)
    moreover have "set (take ?pos cache @ ?new # drop ?pos cache) = insert ?new {p \<in> set cache. tpc_base p \<noteq> base}"
      using parts False by auto
    moreover have "assign_page t base tip cache = take ?pos cache @ ?new # drop ?pos cache"
      unfolding assign_page_def f Let_def prod.case if_False new upd ..
    ultimately show ?thesis by simp
  qed
qed

lemma updateCache:
  assumes "pages_ok d" "cache_ok d" "seq < length (tip_pages d)"
  obtains cache where "updateCache (tip_pages d ! seq) seq d = d\<lparr>m_cache := cache\<rparr>" "sorted_wrt (<) (map tpc_base cache)"
    "set cache = insert \<lparr>tpc_base = seq * transPerTIP d, tpc_transactions = tip_pages d ! seq\<rparr> (staying d (seq * transPerTIP d))"
proof -
  let ?c = "filter (\<lambda>p. dbb_oldest_transaction d < tpc_base p + transPerTIP d) (m_cache d)"
  have s: "sorted_wrt (<) (map tpc_base (m_cache d))" using assms(2) by (simp add: cache_ok_def)
  have l: "\<forall>p \<in> set ?c. length (tpc_transactions p) = transPerTIP d div 4" using assms(2) by (auto simp: cache_ok_def page_ok_def)
  have t: "length (tip_pages d ! seq) = transPerTIP d div 4" using assms(1,3) by (simp add: pages_ok_def)
  note p = assign_page [OF sorted_filter [OF s] l t, of "seq * transPerTIP d"]
  let ?cache = "assign_page (transPerTIP d) (seq * transPerTIP d) (tip_pages d ! seq) ?c"
  have u: "updateCache (tip_pages d ! seq) seq d = d\<lparr>m_cache := ?cache\<rparr>"
    unfolding updateCache_def Let_def dropWhile_below [OF s] ..
  moreover have "{p \<in> set ?c. tpc_base p \<noteq> seq * transPerTIP d} = staying d (seq * transPerTIP d)" by (auto simp: staying_def)
  ultimately show thesis using p that [OF u] by simp
qed

section \<open>Refreshing the cache\<close>

definition page_of :: "dbb \<Rightarrow> nat \<Rightarrow> tx_page" where
  "page_of d seq = \<lparr>tpc_base = seq * transPerTIP d, tpc_transactions = tip_pages d ! seq\<rparr>"

text \<open>Only the cache differs, and pages that are new in it are as on the disk.\<close>

definition refreshed :: "dbb \<Rightarrow> dbb \<Rightarrow> bool" where
  "refreshed d d' \<longleftrightarrow>
     (\<exists>cache. d' = d\<lparr>m_cache := cache\<rparr> \<and> sorted_wrt (<) (map tpc_base cache) \<and>
        set cache \<subseteq> set (m_cache d) \<union> page_of d ` {..< length (tip_pages d)})"

lemma refreshed_fields:
  assumes "refreshed d d'"
  shows "transPerTIP d' = transPerTIP d" "tip_pages d' = tip_pages d" "dbb_pc_transactions d' = dbb_pc_transactions d"
    "hdr_next d' = hdr_next d" "hdr_oldest d' = hdr_oldest d" "dbb_oldest_transaction d' = dbb_oldest_transaction d"
    "dbb_readOnly d' = dbb_readOnly d" "page_state d' = page_state d" "page_of d' = page_of d" "on_pages d' = on_pages d"
    "precommitted d' = precommitted d" "pages_ok d' = pages_ok d"
  using assms by (auto simp: refreshed_def page_state_def page_of_def on_pages_def precommitted_def TRA_precommited_def pages_ok_def
      fun_eq_iff Let_def split: option.splits prod.splits)

lemma refreshed_refl: "cache_ok d \<Longrightarrow> refreshed d d"
  by (auto simp: refreshed_def cache_ok_def intro: exI [of _ "m_cache d"])

lemma refreshed_trans:
  assumes "refreshed d d'" "refreshed d' d''"
  shows "refreshed d d''"
proof -
  obtain c c' where c: "d' = d\<lparr>m_cache := c\<rparr>" "set c \<subseteq> set (m_cache d) \<union> page_of d ` {..< length (tip_pages d)}"
    "d'' = d'\<lparr>m_cache := c'\<rparr>" "sorted_wrt (<) (map tpc_base c')" "set c' \<subseteq> set (m_cache d') \<union> page_of d' ` {..< length (tip_pages d')}"
    using assms unfolding refreshed_def by blast
  have "set c' \<subseteq> set (m_cache d) \<union> page_of d ` {..< length (tip_pages d)}"
    using c(2,5) refreshed_fields(2,9) [OF assms(1)] c(1) by auto
  then show ?thesis using c unfolding refreshed_def by (intro exI [of _ c']) simp
qed

lemma page_of_ok: "pages_ok d \<Longrightarrow> seq < length (tip_pages d) \<Longrightarrow> page_ok d (page_of d seq)"
  by (auto simp: page_ok_def page_of_def pages_ok_def)

lemma refreshed_ok:
  assumes "refreshed d d'" "pages_ok d" "cache_ok d"
  shows "cache_ok d'"
proof -
  obtain c where c: "d' = d\<lparr>m_cache := c\<rparr>" "sorted_wrt (<) (map tpc_base c)"
    "set c \<subseteq> set (m_cache d) \<union> page_of d ` {..< length (tip_pages d)}" using assms(1) by (auto simp: refreshed_def)
  have "page_ok d p" if "p \<in> set c" for p using that c(3) assms(2,3) page_of_ok by (auto simp: cache_ok_def)
  then show ?thesis using c(1,2) by (simp add: cache_ok_def page_ok_def)
qed

text \<open>A state in the cache from which there is no way on is the state on the page.\<close>

definition coherent :: "dbb \<Rightarrow> bool" where
  "coherent d \<longleftrightarrow>
     (\<forall>p \<in> set (m_cache d). \<forall>n. tpc_base p \<le> n \<longrightarrow> n < tpc_base p + transPerTIP d \<longrightarrow>
        (let st = byte_state (tpc_transactions p ! TRANS_OFFSET (n mod transPerTIP d)) (TRANS_SHIFT n)
         in st \<in> {tra_committed, tra_dead} \<longrightarrow> page_state d n = st))"

lemma page_of_state:
  assumes "pages_ok d" "tpc_base (page_of d seq) \<le> n" "n < tpc_base (page_of d seq) + transPerTIP d"
  shows "byte_state (tpc_transactions (page_of d seq) ! TRANS_OFFSET (n mod transPerTIP d)) (TRANS_SHIFT n) = page_state d n"
  using byte_at(1) [OF assms(1), of seq n] assms(2,3) by (simp add: page_of_def page_state_def)

lemma refreshed_coherent:
  assumes "refreshed d d'" "pages_ok d" "coherent d"
  shows "coherent d'"
proof -
  obtain c where c: "d' = d\<lparr>m_cache := c\<rparr>" "set c \<subseteq> set (m_cache d) \<union> page_of d ` {..< length (tip_pages d)}"
    using assms(1) by (auto simp: refreshed_def)
  have "(let st = byte_state (tpc_transactions p ! TRANS_OFFSET (n mod transPerTIP d)) (TRANS_SHIFT n)
      in st \<in> {tra_committed, tra_dead} \<longrightarrow> page_state d n = st)"
    if p: "p \<in> set c" "tpc_base p \<le> n" "n < tpc_base p + transPerTIP d" for p n
  proof (cases "p \<in> set (m_cache d)")
    case True
    then show ?thesis using assms(3) p(2,3) by (simp add: coherent_def)
  next
    case False
    then obtain k where "p = page_of d k" using c(2) p(1) by auto
    then show ?thesis using page_of_state [OF assms(2), of k n] p(2,3) by (simp add: Let_def)
  qed
  then show ?thesis using c(1) refreshed_fields(8) [OF assms(1)] by (simp add: coherent_def)
qed

lemma fetch_page:
  assumes "pages_ok d" "cache_ok d" "seq < length (tip_pages d)"
  obtains d' where "fetch_inventory_page seq d = Inr (tip_pages d ! seq, d')" "refreshed d d'"
    "set (m_cache d') = insert (page_of d seq) (staying d (seq * transPerTIP d))"
proof -
  obtain cache where c: "updateCache (tip_pages d ! seq) seq d = d\<lparr>m_cache := cache\<rparr>" "sorted_wrt (<) (map tpc_base cache)"
    "set cache = insert (page_of d seq) (staying d (seq * transPerTIP d))"
    unfolding page_of_def by (rule updateCache [OF assms])
  show thesis
  proof (rule that)
    show "fetch_inventory_page seq d = Inr (tip_pages d ! seq, d\<lparr>m_cache := cache\<rparr>)"
      using assms(3) c(1) by (simp add: fetch_inventory_page_def)
    show "refreshed d (d\<lparr>m_cache := cache\<rparr>)"
      unfolding refreshed_def using c(2,3) assms(3) by (intro exI [of _ cache]) (auto simp: staying_def)
    show "set (m_cache (d\<lparr>m_cache := cache\<rparr>)) = insert (page_of d seq) (staying d (seq * transPerTIP d))" by (simp add: c(3))
  qed
qed

section \<open>The inventory\<close>

lemma length_concat_equal: "(\<forall>p \<in> set ps. length p = b) \<Longrightarrow> length (concat ps) = length ps * b"
  by (induction ps) simp_all

lemma drop_concat_page:
  assumes "\<forall>p \<in> set ps. length p = b" "k < length ps"
  shows "drop (k * b) (concat ps) = ps ! k @ drop ((k + 1) * b) (concat ps)"
proof -
  have "ps = take k ps @ ps ! k # drop (Suc k) ps" using assms(2) by (simp add: id_take_nth_drop)
  then have c: "concat ps = concat (take k ps) @ ps ! k @ concat (drop (Suc k) ps)" by (metis concat.simps(2) concat_append)
  have "length (concat (take k ps)) = k * b" "length (ps ! k) = b"
    using assms length_concat_equal [of "take k ps" b] by (auto dest: in_set_takeD)
  then show ?thesis by (subst (1 2) c) (simp add: algebra_simps)
qed

lemma take_page:
  assumes "\<forall>p \<in> set ps. length p = b" "k < length ps" "i + l \<le> b"
  shows "take l (drop i (ps ! k)) = take l (drop (k * b + i) (concat ps))"
proof -
  have "length (ps ! k) = b" using assms by simp
  moreover have "drop (k * b + i) (concat ps) = drop i (drop (k * b) (concat ps))" by (simp add: add.commute)
  ultimately show ?thesis using assms(3) by (simp add: drop_concat_page [OF assms(1,2)])
qed

text \<open>The bits of the transactions from \<open>4 * from\<close> up to \<open>4 * until\<close>.\<close>

definition slice :: "dbb \<Rightarrow> nat \<Rightarrow> nat \<Rightarrow> bytes" where
  "slice d from until = take (until - from) (drop from (concat (tip_pages d)))"

lemma slice_append:
  assumes "from \<le> e"
  shows "slice d from e @ take l (drop e (concat (tip_pages d))) = slice d from (e + l)"
proof -
  have e: "e + l - from = (e - from) + l" using assms by simp
  have "drop e (concat (tip_pages d)) = drop (e - from) (drop from (concat (tip_pages d)))" using assms by simp
  then show ?thesis unfolding slice_def e take_add by (simp only:)
qed

lemma tip_size:
  assumes "pages_ok d"
  shows "transPerTIP d = 4 * (transPerTIP d div 4)" "0 < transPerTIP d div 4"
proof -
  have "0 < transPerTIP d" "transPerTIP d mod 4 = 0" using assms by (simp_all add: pages_ok_def)
  then show "transPerTIP d = 4 * (transPerTIP d div 4)" "0 < transPerTIP d div 4" by presburger+
qed

lemma page_range:
  assumes "t = 4 * b" "0 < b" "s * t \<le> n" "n < Suc m * t"
  shows "s * b \<le> n div 4" "n div 4 < Suc m * b" "(n + 4 - s * t) div 4 = Suc (n div 4) - s * b"
proof -
  have e: "s * t = s * b * 4" "Suc m * t = Suc m * b * 4" using assms(1) by simp_all
  show "s * b \<le> n div 4" using assms(3) e(1) by (simp add: less_eq_div_iff_mult_less_eq)
  show "n div 4 < Suc m * b" using assms(4) e(2) by (simp only: div_less_iff_less_mult [of 4])
  show "(n + 4 - s * t) div 4 = Suc (n div 4) - s * b" unfolding e by presburger
qed

text \<open>
  The pages that are in the cache after the pages from \<open>seq\<close> to \<open>last_seq\<close> have been read: those and
  the ones that were there, but for pages that lie wholly before the oldest transaction the
  process knows of; the last page read is there in any case.
\<close>

definition loaded :: "dbb \<Rightarrow> nat \<Rightarrow> nat \<Rightarrow> nat \<Rightarrow> bool" where
  "loaded d seq last_seq k \<longleftrightarrow>
     seq \<le> last_seq \<and> k = last_seq \<or>
     (seq \<le> k \<and> k \<le> last_seq \<or> page_of d k \<in> set (m_cache d)) \<and>
       (dbb_oldest_transaction d < k * transPerTIP d + transPerTIP d \<or> last_seq < seq)"

lemma loaded_step:
  assumes "loaded d seq last_seq k" "refreshed d d1" "set (m_cache d1) = insert (page_of d seq) (staying d (seq * transPerTIP d))"
    "\<not> (k = last_seq \<and> seq = last_seq)" "seq \<le> last_seq"
  shows "loaded d1 (Suc seq) last_seq k"
proof -
  note f = refreshed_fields [OF assms(2)]
  have stays: "page_of d k \<in> set (m_cache d1)" if "page_of d k \<in> set (m_cache d)" "dbb_oldest_transaction d < k * transPerTIP d + transPerTIP d"
    using that assms(3) by (cases "k * transPerTIP d = seq * transPerTIP d") (auto simp: staying_def page_of_def)
  have new: "page_of d seq \<in> set (m_cache d1)" by (simp add: assms(3))
  show ?thesis
  proof (cases "k = last_seq")
    case True
    then show ?thesis using assms(4,5) by (simp add: loaded_def)
  next
    case False
    then have k: "seq \<le> k \<and> k \<le> last_seq \<or> page_of d k \<in> set (m_cache d)" "dbb_oldest_transaction d < k * transPerTIP d + transPerTIP d"
      using assms(1,5) by (auto simp: loaded_def)
    then have "Suc seq \<le> k \<and> k \<le> last_seq \<or> page_of d k \<in> set (m_cache d1)"
      using stays new by (cases "k = seq") auto
    then show ?thesis using k(2) f(1,6,9) by (simp add: loaded_def)
  qed
qed

lemma inventory_loop:
  assumes "pages_ok d" "cache_ok d" "last_seq < length (tip_pages d)" "transPerTIP d = 4 * b" "0 < b"
    "last_seq * transPerTIP d \<le> last_no" "last_no < Suc last_seq * transPerTIP d" "from \<le> seq * b" "seq \<le> Suc last_seq"
  shows "\<exists>d'. inventory_loop last_no last_seq seq
      (if vector then Some (slice d from (min (Suc (last_no div 4)) (seq * b))) else None) d =
      Inr (if vector then Some (slice d from (Suc (last_no div 4))) else None, d') \<and> refreshed d d' \<and>
    (\<forall>k. loaded d seq last_seq k \<longrightarrow> page_of d k \<in> set (m_cache d'))"
  using assms
proof (induction "Suc last_seq - seq" arbitrary: seq d)
  case 0
  have "seq = Suc last_seq" using 0 by simp
  moreover have "last_no div 4 < Suc last_seq * b" using page_range(2) [OF 0(5,6) _ 0(8), of 0] by simp
  then have "min (Suc (last_no div 4)) (seq * b) = Suc (last_no div 4)" using calculation by (simp add: min_def)
  moreover have "loaded d seq last_seq k \<longrightarrow> page_of d k \<in> set (m_cache d)" for k
    using calculation(1) by (auto simp: loaded_def)
  ultimately show ?case using refreshed_refl [OF 0(3)] by (subst inventory_loop.simps) simp
next
  case (Suc m)
  let ?E = "Suc (last_no div 4)"
  have le: "seq \<le> last_seq" using Suc(2) by simp
  have seq: "seq < length (tip_pages d)" using le Suc.prems(3) by simp
  have start: "seq * transPerTIP d \<le> last_no" using le Suc.prems(6) by (meson mult_le_mono1 order_trans)
  note r = page_range [OF Suc.prems(4,5) start Suc.prems(7)]
  obtain d1 where d1: "fetch_inventory_page seq d = Inr (tip_pages d ! seq, d1)" "refreshed d d1"
      "set (m_cache d1) = insert (page_of d seq) (staying d (seq * transPerTIP d))"
    by (rule fetch_page [OF Suc.prems(1,2) seq])
  note f = refreshed_fields [OF d1(2)]
  have ok: "pages_ok d1" "cache_ok d1" using f(12) Suc.prems(1) refreshed_ok [OF d1(2) Suc.prems(1,2)] by simp_all
  let ?l = "TRANS_OFFSET (min (last_no + 4 - seq * transPerTIP d) (transPerTIP d))"
  have l: "?l = min (?E - seq * b) b"
    using r(3) Suc.prems(4) by (simp add: TRANS_OFFSET_def min_def div_le_mono) linarith
  have next_p: "slice d from (min ?E (seq * b)) @ take ?l (tip_pages d ! seq) = slice d1 from (min ?E (Suc seq * b))"
  proof -
    have "\<forall>p \<in> set (tip_pages d). length p = b" using Suc.prems(1,4) by (simp add: pages_ok_def)
    from take_page [OF this seq, of 0 ?l]
    have "take ?l (tip_pages d ! seq) = take ?l (drop (seq * b) (concat (tip_pages d)))" using l by simp
    moreover have "x + min (e - x) b = min e (b + x)" if "x \<le> e" for x e :: nat using that by (auto simp: min_def)
    from this [of "seq * b" ?E] have "min ?E (seq * b) = seq * b" "seq * b + ?l = min ?E (Suc seq * b)"
      using r(1) unfolding l by simp_all
    ultimately show ?thesis using slice_append [of "from" "seq * b" d ?l] Suc.prems(8) f(2) by (simp add: slice_def)
  qed
  have "\<exists>d'. inventory_loop last_no last_seq (Suc seq)
      (if vector then Some (slice d1 from (min ?E (Suc seq * b))) else None) d1 =
      Inr (if vector then Some (slice d1 from ?E) else None, d') \<and> refreshed d1 d' \<and>
    (\<forall>k. loaded d1 (Suc seq) last_seq k \<longrightarrow> page_of d1 k \<in> set (m_cache d'))"
  proof (rule Suc.hyps(1))
    show "m = Suc last_seq - Suc seq" using Suc.hyps(2) by simp
  qed (use ok Suc.prems f(1,2) le in simp_all)
  then obtain d' where d': "inventory_loop last_no last_seq (Suc seq)
      (if vector then Some (slice d1 from (min ?E (Suc seq * b))) else None) d1 =
      Inr (if vector then Some (slice d1 from ?E) else None, d')" "refreshed d1 d'"
    "\<And>k. loaded d1 (Suc seq) last_seq k \<Longrightarrow> page_of d1 k \<in> set (m_cache d')" by blast
  have "inventory_loop last_no last_seq seq (if vector then Some (slice d from (min ?E (seq * b))) else None) d =
      inventory_loop last_no last_seq (Suc seq) (if vector then Some (slice d1 from (min ?E (Suc seq * b))) else None) d1"
  proof (cases vector)
    case True
    then show ?thesis using le d1(1) f(1) next_p by (subst inventory_loop.simps) (simp add: Let_def)
  next
    case False
    then show ?thesis using le d1(1) by (subst inventory_loop.simps) (simp add: Let_def)
  qed
  moreover have "slice d1 from ?E = slice d from ?E" using f(2) by (simp add: slice_def)
  moreover have "page_of d k \<in> set (m_cache d')" if k: "loaded d seq last_seq k" for k
  proof (cases "k = last_seq \<and> seq = last_seq")
    case True
    then have "d' = d1" using d'(1) by (subst (asm) inventory_loop.simps) simp
    then show ?thesis using d1(3) True by simp
  next
    case False
    then have "loaded d1 (Suc seq) last_seq k" by (rule loaded_step [OF k d1(2,3) _ le])
    then show ?thesis using d'(3) f(9) by simp
  qed
  ultimately show ?case using d'(1) refreshed_trans [OF d1(2) d'(2)] by (intro exI [of _ d']) simp
qed

lemma tip_pages_length: "pages_ok d \<Longrightarrow> transPerTIP d = 4 * b \<Longrightarrow> \<forall>p \<in> set (tip_pages d). length p = b"
  by (simp add: pages_ok_def)

lemma min_div_4: "min a c div 4 = min (a div 4) (c div 4)" for a c :: nat
proof (cases "a \<le> c")
  case True
  then show ?thesis using div_le_mono [OF True, of 4] by (simp add: min_def)
next
  case False
  then have "c div 4 \<le> a div 4" by (intro div_le_mono) simp
  then show ?thesis using False by (simp add: min_def)
qed

lemma part_div_4: "(4 * x + n mod 4) div 4 = (x :: nat)" by presburger

lemma rest_div_4: "m mod 4 = 0 \<Longrightarrow> (n + 4 - m) div 4 = Suc (n div 4) - m div (4 :: nat)"
proof -
  assume "m mod 4 = 0"
  then obtain q where q: "m = q * 4" by (metis mod_0_imp_dvd dvd_div_mult_self)
  have "(n + 4 - q * 4) div 4 = Suc (n div 4) - q" by presburger
  then show ?thesis by (simp add: q)
qed

lemma sub_div_4: "m mod 4 = 0 \<Longrightarrow> (4 * b - m) div 4 = b - m div (4 :: nat)"
proof -
  assume "m mod 4 = 0"
  then obtain q where q: "m = q * 4" by (metis mod_0_imp_dvd dvd_div_mult_self)
  have "(4 * b - q * 4) div 4 = b - q" by presburger
  then show ?thesis by (simp add: q)
qed

lemma between_div_4: "m mod 4 = 0 \<Longrightarrow> m \<le> n \<Longrightarrow> (n - m) div 4 = n div 4 - m div (4 :: nat)"
proof -
  assume "m mod 4 = 0" "m \<le> n"
  then obtain q where q: "m = q * 4" by (metis mod_0_imp_dvd dvd_div_mult_self)
  have "(n - q * 4) div 4 = n div 4 - q" by presburger
  then show ?thesis by (simp add: q)
qed

lemma window: "i < b \<Longrightarrow> min e (b + s) - (s + i) = min (e - (s + i)) (b - i)" for i b e s :: nat
  by (simp add: min_def)

lemma window_fits: "i < b \<Longrightarrow> i + min e (b - i) \<le> b" for i b e :: nat
  by (auto simp: min_def)

lemma take_drop_nth: "m \<le> j \<Longrightarrow> j < e \<Longrightarrow> e \<le> length xs \<Longrightarrow> take (e - m) (drop m xs) ! (j - m) = xs ! j"
  by simp

lemma byte_parts:
  fixes n b :: nat
  assumes "0 < b"
  shows "n div (4 * b) = n div 4 div b" "n mod (4 * b) div 4 < b" "n div 4 = n div (4 * b) * b + n mod (4 * b) div 4"
    "n mod 4 = 0 \<Longrightarrow> n mod (4 * b) mod 4 = 0"
proof -
  have m: "n mod (4 * b) = 4 * (n div 4 mod b) + n mod 4" by (rule mod_mult2_eq)
  have j: "n mod (4 * b) div 4 = n div 4 mod b" unfolding m by (rule part_div_4)
  show d: "n div (4 * b) = n div 4 div b" by (rule div_mult2_eq)
  show "n mod (4 * b) div 4 < b" unfolding j using assms by (rule mod_less_divisor)
  show "n div 4 = n div (4 * b) * b + n mod (4 * b) div 4" unfolding j d by simp
  show "n mod (4 * b) mod 4 = 0" if "n mod 4 = 0" unfolding m using that by simp
qed

lemma div_range: "0 < t \<Longrightarrow> n div t * t \<le> (n :: nat)" "0 < t \<Longrightarrow> n < Suc (n div t) * t"
  using dividend_less_div_times [of t n] by simp_all

lemma get_inventory:
  assumes "pages_ok d" "cache_ok d" "base \<le> last_no" "on_pages d last_no" "vector \<Longrightarrow> base mod 4 = 0"
  shows "\<exists>d'. TRA_get_inventory vector base last_no d =
      Inr (if vector then Some (slice d (base div 4) (Suc (last_no div 4))) else None, d') \<and> refreshed d d' \<and>
    (\<forall>k. loaded d (base div transPerTIP d) (last_no div transPerTIP d) k \<longrightarrow> page_of d k \<in> set (m_cache d'))"
proof -
  obtain b where t: "transPerTIP d = 4 * b" "0 < b" using tip_size [OF assms(1)] by blast
  let ?t = "transPerTIP d" and ?E = "Suc (last_no div 4)"
  let ?seq = "base div ?t" and ?last = "last_no div ?t" and ?i = "base mod ?t div 4"
  have le: "?seq \<le> ?last" using assms(3) by (rule div_le_mono)
  have last: "?last < length (tip_pages d)" using assms(4) by (simp add: on_pages_def)
  have seq: "?seq < length (tip_pages d)" using le last by simp
  have range: "?last * ?t \<le> last_no" "last_no < Suc ?last * ?t"
    using div_range [of ?t last_no] t by simp_all
  obtain d1 where d1: "fetch_inventory_page ?seq d = Inr (tip_pages d ! ?seq, d1)" "refreshed d d1"
      "set (m_cache d1) = insert (page_of d ?seq) (staying d (?seq * ?t))"
    by (rule fetch_page [OF assms(1,2) seq])
  note f = refreshed_fields [OF d1(2)]
  have ok: "pages_ok d1" "cache_ok d1" using f(12) assms(1) refreshed_ok [OF d1(2) assms(1,2)] by simp_all
  let ?n = "TRANS_OFFSET (min (last_no + 4 - base) (?t - base mod ?t))"
  have first: "take ?n (drop (TRANS_OFFSET (base mod ?t)) (tip_pages d ! ?seq)) = slice d1 (base div 4) (min ?E (Suc ?seq * b))"
    if vector
  proof -
    have m: "base mod 4 = 0" using assms(5) that by simp
    have m': "base mod ?t mod 4 = 0" unfolding t(1) using byte_parts(4) [OF t(2)] m by simp
    have "from": "base div 4 = ?seq * b + ?i" unfolding t(1) by (rule byte_parts(3) [OF t(2)])
    have i: "?i < b" unfolding t(1) by (rule byte_parts(2) [OF t(2)])
    have "(last_no + 4 - base) div 4 = ?E - base div 4" by (rule rest_div_4 [OF m])
    moreover have "(?t - base mod ?t) div 4 = b - ?i" using sub_div_4 [OF m', of b] t(1) by simp
    ultimately have n: "?n = min (?E - base div 4) (b - ?i)" by (simp only: TRANS_OFFSET_def min_div_4)
    have w: "min ?E (Suc ?seq * b) - base div 4 = ?n" unfolding n "from" mult_Suc by (rule window [OF i])
    have fits: "?i + ?n \<le> b" unfolding n by (rule window_fits [OF i])
    have o: "TRANS_OFFSET (base mod ?t) = ?i" by (simp only: TRANS_OFFSET_def)
    have "take ?n (drop (TRANS_OFFSET (base mod ?t)) (tip_pages d ! ?seq)) = take ?n (drop (base div 4) (concat (tip_pages d)))"
      unfolding o "from" by (rule take_page [OF tip_pages_length [OF assms(1) t(1)] seq fits])
    then show ?thesis unfolding slice_def f(2) w .
  qed
  have "base div 4 \<le> Suc ?seq * b"
  proof -
    have "base < Suc ?seq * ?t" using div_range(2) [of ?t base] t by simp
    then have "base < Suc ?seq * b * 4" using t(1) by simp
    then show ?thesis by (simp only: less_mult_imp_div_less less_imp_le)
  qed
  from inventory_loop [OF ok _ _ t(2) _ _ this, of ?last last_no vector] f(1,2) last t(1) range le
  obtain d' where d': "inventory_loop last_no ?last (Suc ?seq)
      (if vector then Some (slice d1 (base div 4) (min ?E (Suc ?seq * b))) else None) d1 =
      Inr (if vector then Some (slice d1 (base div 4) ?E) else None, d')" "refreshed d1 d'"
    "\<And>k. loaded d1 (Suc ?seq) ?last k \<Longrightarrow> page_of d1 k \<in> set (m_cache d')" by auto
  have "TRA_get_inventory vector base last_no d = inventory_loop last_no ?last (Suc ?seq)
      (if vector then Some (slice d1 (base div 4) (min ?E (Suc ?seq * b))) else None) d1"
    using first by (simp add: TRA_get_inventory_def d1(1) Let_def)
  moreover have "page_of d k \<in> set (m_cache d')" if k: "loaded d ?seq ?last k" for k
  proof (cases "k = ?last \<and> ?seq = ?last")
    case True
    then have "d' = d1" using d'(1) by (subst (asm) inventory_loop.simps) simp
    then show ?thesis using d1(3) True by simp
  next
    case False
    then have "loaded d1 (Suc ?seq) ?last k" by (rule loaded_step [OF k d1(2,3) _ le])
    then show ?thesis using d'(3) f(9) by simp
  qed
  moreover have "slice d1 (base div 4) ?E = slice d (base div 4) ?E" using f(2) by (simp add: slice_def)
  ultimately show ?thesis using d'(1) refreshed_trans [OF d1(2) d'(2)] by (intro exI [of _ d']) simp
qed

lemma concat_nth_page:
  assumes "\<forall>p \<in> set ps. length p = b" "k < length ps" "j < b"
  shows "concat ps ! (k * b + j) = ps ! k ! j"
proof -
  have "length (ps ! k) = b" using assms by simp
  moreover have "k * b \<le> length (concat ps)" using length_concat_equal [OF assms(1)] assms(2) by simp
  then have "concat ps ! (k * b + j) = drop (k * b) (concat ps) ! j" by simp
  ultimately show ?thesis using assms(3) by (simp add: drop_concat_page [OF assms(1,2)] nth_append)
qed

lemma slice_state:
  assumes "pages_ok d" "on_pages d last_no" "base mod 4 = 0" "base \<le> n" "n div 4 \<le> last_no div 4"
  shows "(n - base) div 4 < length (slice d (base div 4) (Suc (last_no div 4)))"
    "slice d (base div 4) (Suc (last_no div 4)) ! ((n - base) div 4) = tip_pages d ! (n div transPerTIP d) ! TRANS_OFFSET (n mod transPerTIP d)"
proof -
  obtain b where t: "transPerTIP d = 4 * b" "0 < b" using tip_size [OF assms(1)] by blast
  note len = tip_pages_length [OF assms(1) t(1)]
  note n = byte_parts(3) [OF t(2), of n] and j = byte_parts(2) [OF t(2), of n]
  have "last_no div (4 * b) < length (tip_pages d)" using assms(2) t(1) by (simp add: on_pages_def)
  moreover have "n div (4 * b) \<le> last_no div (4 * b)"
    unfolding byte_parts(1) [OF t(2)] using assms(5) by (rule div_le_mono)
  ultimately have k: "n div (4 * b) < length (tip_pages d)" by simp
  have e: "(n - base) div 4 = n div 4 - base div 4" by (rule between_div_4 [OF assms(3,4)])
  have le: "base div 4 \<le> n div 4" using assms(4) by (rule div_le_mono)
  have "last_no div 4 div b < length (tip_pages d)" using assms(2) byte_parts(1) [OF t(2), of last_no] t(1) by (simp add: on_pages_def)
  then have "last_no div 4 < length (tip_pages d) * b" using t(2) by (simp add: div_less_iff_less_mult)
  then have total: "Suc (last_no div 4) \<le> length (concat (tip_pages d))" using length_concat_equal [OF len] by simp
  show "(n - base) div 4 < length (slice d (base div 4) (Suc (last_no div 4)))"
    unfolding e slice_def using assms(5) le total by (simp, linarith)
  have "slice d (base div 4) (Suc (last_no div 4)) ! ((n - base) div 4) = concat (tip_pages d) ! (n div 4)"
    unfolding e slice_def by (rule take_drop_nth [OF le _ total]) (use assms(5) in simp)
  also have "\<dots> = tip_pages d ! (n div (4 * b)) ! (n mod (4 * b) div 4)"
    by (subst (1) n) (rule concat_nth_page [OF len k j])
  finally show "slice d (base div 4) (Suc (last_no div 4)) ! ((n - base) div 4) =
      tip_pages d ! (n div transPerTIP d) ! TRANS_OFFSET (n mod transPerTIP d)" by (simp add: t(1) TRANS_OFFSET_def)
qed

end
