(* ===== verification/TipStates.thy ===== *)
theory TipStates
  imports TipInventory
begin

text \<open>
  Changing the state of a transaction on its page and in the cache, the answers of the cache, and
  the searches over it.
\<close>

section \<open>Changing a state\<close>

definition bits_state :: "nat \<Rightarrow> bytes \<Rightarrow> TraNumber \<Rightarrow> nat" where
  "bits_state t bits n = byte_state (bits ! TRANS_OFFSET (n mod t)) (TRANS_SHIFT n)"

definition put_bits :: "nat \<Rightarrow> bytes \<Rightarrow> TraNumber \<Rightarrow> nat \<Rightarrow> bytes" where
  "put_bits t bits number st =
     bits[TRANS_OFFSET (number mod t) := byte_put (bits ! TRANS_OFFSET (number mod t)) (TRANS_SHIFT number) st]"

lemma length_put_bits [simp]: "length (put_bits t bits number st) = length bits" by (simp add: put_bits_def)

lemma offset_less:
  assumes "t = 4 * b" "0 < b"
  shows "TRANS_OFFSET (n mod t) < b"
  using byte_parts(2) [OF assms(2), of n] by (simp add: TRANS_OFFSET_def assms(1))

lemma same_bits:
  assumes "t = 4 * b" "0 < b" "n div t = m div t" "TRANS_OFFSET (n mod t) = TRANS_OFFSET (m mod t)" "n mod 4 = m mod 4"
  shows "n = m"
proof -
  have "n div 4 = m div 4"
    using byte_parts(3) [OF assms(2), of n] byte_parts(3) [OF assms(2), of m] assms(3,4) by (simp only: assms(1) TRANS_OFFSET_def)
  then show ?thesis using assms(5) by (metis div_mult_mod_eq)
qed

lemma put_bits_state:
  assumes t: "t = 4 * b" "0 < b" and n: "n div t = number div t" "st < 4" "length bits = b"
  shows "bits_state t (put_bits t bits number st) n = (if n = number then st else bits_state t bits n)"
proof (cases "TRANS_OFFSET (n mod t) = TRANS_OFFSET (number mod t)")
  case True
  have l: "TRANS_OFFSET (number mod t) < length bits" using offset_less [OF t] n(3) by simp
  have "bits_state t (put_bits t bits number st) n =
      byte_state (byte_put (bits ! TRANS_OFFSET (number mod t)) (TRANS_SHIFT number) st) (TRANS_SHIFT n)"
    unfolding bits_state_def put_bits_def True using l by simp
  also have "\<dots> = (if number mod 4 = n mod 4 then st else byte_state (bits ! TRANS_OFFSET (number mod t)) (TRANS_SHIFT n))"
    by (rule byte_put_state [OF n(2)])
  also have "\<dots> = (if n = number then st else bits_state t bits n)"
    using same_bits [OF t n(1) True] unfolding bits_state_def True by auto
  finally show ?thesis .
next
  case False
  then show ?thesis by (auto simp: bits_state_def put_bits_def)
qed

lemma page_state_bits: "page_state d n = bits_state (transPerTIP d) (tip_pages d ! (n div transPerTIP d)) n"
  by (simp add: page_state_def bits_state_def)

lemma coherent_bits:
  "coherent d \<longleftrightarrow> (\<forall>p \<in> set (m_cache d). \<forall>n. tpc_base p \<le> n \<longrightarrow> n < tpc_base p + transPerTIP d \<longrightarrow>
     bits_state (transPerTIP d) (tpc_transactions p) n \<in> {tra_committed, tra_dead} \<longrightarrow>
     page_state d n = bits_state (transPerTIP d) (tpc_transactions p) n)"
  by (simp add: coherent_def bits_state_def Let_def)

lemma coherentD:
  "coherent d \<Longrightarrow> p \<in> set (m_cache d) \<Longrightarrow> tpc_base p \<le> n \<Longrightarrow> n < tpc_base p + transPerTIP d \<Longrightarrow>
   bits_state (transPerTIP d) (tpc_transactions p) n \<in> {tra_committed, tra_dead} \<Longrightarrow>
   page_state d n = bits_state (transPerTIP d) (tpc_transactions p) n"
  unfolding coherent_bits by blast

lemma setState:
  assumes "pages_ok d" "cache_ok d" "on_pages d number"
  obtains cache where "setState number st d = Inr (d\<lparr>m_cache := cache\<rparr>)" "map tpc_base cache = map tpc_base (m_cache d)"
    "\<And>p. p \<in> set cache \<Longrightarrow> p \<in> set (m_cache d) \<and> tpc_base p \<noteq> number div transPerTIP d * transPerTIP d \<or>
       (\<exists>q \<in> set (m_cache d). tpc_base q = number div transPerTIP d * transPerTIP d \<and>
          p = q\<lparr>tpc_transactions := put_bits (transPerTIP d) (tpc_transactions q) number st\<rparr>)"
proof -
  let ?t = "transPerTIP d"
  let ?base = "number div ?t * ?t"
  have base: "number - number mod ?t = ?base" by (simp add: minus_mod_eq_div_mult)
  have s: "sorted_wrt (<) (map tpc_base (m_cache d))" using assms(2) by (simp add: cache_ok_def)
  obtain found pos where f: "find_page ?base (m_cache d) = (found, pos)" by (metis surj_pair)
  show thesis
  proof (cases found)
    case False
    have "setState number st d = Inr d" using f False by (simp add: setState_def base)
    moreover have "?base \<notin> tpc_base ` set (m_cache d)" using find_page [OF s, of ?base] f False by simp
    then have "tpc_base p \<noteq> ?base" if "p \<in> set (m_cache d)" for p using that by (metis image_eqI)
    ultimately show thesis by (intro that [of "m_cache d"]) simp_all
  next
    case True
    have f1: "find_page ?base (m_cache d) = (True, pos)" using f True by simp
    note at = find_page_nth [OF s f1]
    let ?q = "m_cache d ! pos"
    let ?p = "?q\<lparr>tpc_transactions := put_bits ?t (tpc_transactions ?q) number st\<rparr>"
    have q: "?q \<in> set (m_cache d)" using at(1) by simp
    then have len: "length (tpc_transactions ?q) = ?t div 4" using assms(2) by (simp add: cache_ok_def page_ok_def)
    have "TRANS_OFFSET (number mod ?t) < ?t div 4" using offset_less [OF tip_size [OF assms(1)]] .
    then have "setState number st d = Inr (d\<lparr>m_cache := (m_cache d)[pos := ?p]\<rparr>)"
      using f True len by (simp add: setState_def base put_bits_def Let_def)
    moreover have "map tpc_base ((m_cache d)[pos := ?p]) = map tpc_base (m_cache d)"
      using at by (simp add: map_update list_update_same_conv)
    moreover have "p \<in> set (m_cache d) \<and> tpc_base p \<noteq> ?base \<or> (\<exists>q \<in> set (m_cache d). tpc_base q = ?base \<and>
        p = q\<lparr>tpc_transactions := put_bits ?t (tpc_transactions q) number st\<rparr>)" if "p \<in> set ((m_cache d)[pos := ?p])" for p
    proof -
      have "set ((m_cache d)[pos := ?p]) = insert ?p (set (m_cache d) - {?q})"
        using at(1) s by (intro set_update_distinct) (auto simp: strict_sorted_iff distinct_map)
      then have "p = ?p \<or> p \<in> set (m_cache d) \<and> p \<noteq> ?q" using that by (simp only: insert_iff Diff_iff empty_iff) blast
      then consider "p = ?p" | "p \<in> set (m_cache d)" "p \<noteq> ?q" by blast
      then show ?thesis
      proof cases
        case 1
        then show ?thesis using q at(2) by blast
      next
        case 2
        then have "tpc_base p \<noteq> ?base" using base_inj [OF s 2(1) q] at(2) by auto
        then show ?thesis using 2(1) by blast
      qed
    qed
    ultimately show thesis by (rule that)
  qed
qed

lemma page_ok_put: "page_ok d q \<Longrightarrow> page_ok d (q\<lparr>tpc_transactions := put_bits t (tpc_transactions q) number st\<rparr>)"
  by (auto simp: page_ok_def)

lemma fetch_state:
  assumes "pages_ok d" "cache_ok d" "on_pages d number"
  shows "\<exists>d'. TRA_fetch_state number d = Inr (page_state d number, d') \<and> refreshed d d'"
proof -
  obtain d' where d': "fetch_inventory_page (number div transPerTIP d) d = Inr (tip_pages d ! (number div transPerTIP d), d')" "refreshed d d'"
    using fetch_page [OF assms(1,2)] assms(3) unfolding on_pages_def by metis
  have "length (tip_pages d ! (number div transPerTIP d)) = transPerTIP d div 4"
    using assms(1,3) by (simp add: pages_ok_def on_pages_def)
  then show ?thesis using d' offset_less [OF tip_size [OF assms(1)], of number] by (simp add: TRA_fetch_state_def page_state_def Let_def)
qed

text \<open>Setting the state of a transaction of a database that can be written.\<close>

lemma set_state:
  assumes "pages_ok d" "cache_ok d" "on_pages d number" "\<not> dbb_readOnly d" "st < 4"
    "case tra of None \<Rightarrow> True | Some t \<Rightarrow> \<not> (tra_number t = number \<and> TRA_flag_precommitted t)"
  obtains d' where "TRA_set_state tra number st d = Inr d'" "pages_ok d'" "cache_ok d'" "on_pages d' = on_pages d"
    "transPerTIP d' = transPerTIP d" "length (tip_pages d') = length (tip_pages d)"
    "dbb_pc_transactions d' = dbb_pc_transactions d" "dbb_readOnly d' = dbb_readOnly d"
    "hdr_next d' = hdr_next d" "hdr_oldest d' = hdr_oldest d" "dbb_oldest_transaction d' = dbb_oldest_transaction d"
    "\<And>n. on_pages d n \<Longrightarrow> page_state d' n = (if n = number then st else page_state d n)"
    "coherent d \<Longrightarrow> page_state d number \<notin> {tra_committed, tra_dead} \<or> page_state d number = st \<Longrightarrow> coherent d'"
proof -
  let ?t = "transPerTIP d"
  obtain b where t: "?t = 4 * b" "0 < b" using tip_size [OF assms(1)] by blast
  let ?seq = "number div ?t"
  have seq: "?seq < length (tip_pages d)" using assms(3) by (simp add: on_pages_def)
  obtain d1 where d1: "fetch_inventory_page ?seq d = Inr (tip_pages d ! ?seq, d1)" "refreshed d d1"
      "set (m_cache d1) = insert (page_of d ?seq) (staying d (?seq * ?t))"
    by (rule fetch_page [OF assms(1,2) seq])
  note f = refreshed_fields [OF d1(2)]
  have ok1: "cache_ok d1" by (rule refreshed_ok [OF d1(2) assms(1,2)])
  have len: "length (tip_pages d ! ?seq) = b" using tip_pages_length [OF assms(1) t(1)] seq by simp
  let ?tip = "put_bits ?t (tip_pages d ! ?seq) number st"
  let ?d2 = "d1\<lparr>tip_pages := (tip_pages d1)[?seq := ?tip]\<rparr>"
  have ok2: "pages_ok ?d2" using assms(1) f(1,2) len t seq
    by (auto simp: pages_ok_def dest!: set_update_subset_insert [THEN subsetD])
  have cache2: "cache_ok ?d2" using ok1 by (auto simp: cache_ok_def page_ok_def)
  have on2: "on_pages ?d2 number" using assms(3) f(1,2) by (simp add: on_pages_def)
  obtain cache where c: "setState number st ?d2 = Inr (?d2\<lparr>m_cache := cache\<rparr>)" "map tpc_base cache = map tpc_base (m_cache ?d2)"
    "\<And>p. p \<in> set cache \<Longrightarrow> p \<in> set (m_cache ?d2) \<and> tpc_base p \<noteq> number div transPerTIP ?d2 * transPerTIP ?d2 \<or>
       (\<exists>q \<in> set (m_cache ?d2). tpc_base q = number div transPerTIP ?d2 * transPerTIP ?d2 \<and>
          p = q\<lparr>tpc_transactions := put_bits (transPerTIP ?d2) (tpc_transactions q) number st\<rparr>)"
    using setState [OF ok2 cache2 on2, of st] by blast
  let ?d3 = "?d2\<lparr>m_cache := cache\<rparr>"
  have run: "TRA_set_state tra number st d = Inr ?d3"
  proof -
    have "(case tra of None \<Rightarrow> False | Some t \<Rightarrow> tra_number t = number \<and> TRA_flag_precommitted t) = False"
      using assms(6) by (cases tra) simp_all
    moreover have "\<not> TRANS_OFFSET (number mod ?t) \<ge> length (tip_pages d ! ?seq)" using offset_less [OF t, of number] len by simp
    ultimately show ?thesis using assms(4) d1(1) c(1) f(1) by (simp add: TRA_set_state_def Let_def put_bits_def)
  qed
  have states: "page_state ?d3 n = (if n = number then st else page_state d n)" if n: "on_pages d n" for n
  proof (cases "n div ?t = ?seq")
    case True
    have "page_state ?d3 n = bits_state ?t ?tip n" using True seq f(1,2) by (simp add: page_state_bits)
    also have "\<dots> = (if n = number then st else bits_state ?t (tip_pages d ! ?seq) n)"
      by (rule put_bits_state [OF t True assms(5) len])
    finally show ?thesis using True by (simp add: page_state_bits)
  next
    case False
    then have "n \<noteq> number" by blast
    then show ?thesis using False f(1,2) by (simp add: page_state_bits)
  qed
  have ok3: "cache_ok ?d3"
  proof -
    have "page_ok ?d2 p" if "p \<in> set cache" for p using c(3) [OF that] cache2 page_ok_put by (auto simp: cache_ok_def)
    then show ?thesis using cache2 c(2) by (simp add: cache_ok_def page_ok_def)
  qed
  have coh: "coherent ?d3" if coh: "coherent d" and final: "page_state d number \<notin> {tra_committed, tra_dead} \<or> page_state d number = st"
    unfolding coherent_bits
  proof (intro ballI allI impI)
    fix p n
    assume p: "p \<in> set (m_cache ?d3)" "tpc_base p \<le> n" "n < tpc_base p + transPerTIP ?d3"
      and st: "bits_state (transPerTIP ?d3) (tpc_transactions p) n \<in> {tra_committed, tra_dead}"
    have coh1: "coherent d1" by (rule refreshed_coherent [OF d1(2) assms(1) coh])
    have tt: "transPerTIP ?d3 = ?t" "transPerTIP ?d2 = ?t" using f(1) by simp_all
    have "page_ok ?d3 p" using ok3 p(1) by (simp add: cache_ok_def)
    then obtain k where k: "tpc_base p = k * ?t" "k < length (tip_pages d)" using f(1,2) by (auto simp: page_ok_def)
    have nk: "n div ?t = k" using byte_at(1) [OF assms(1), of k n] p(2,3) k(1) tt by simp
    have on: "on_pages d n" using nk k(2) by (simp add: on_pages_def)
    have "p \<in> set cache" using p(1) by simp
    from c(3) [OF this] show "page_state ?d3 n = bits_state (transPerTIP ?d3) (tpc_transactions p) n"
    proof
      assume a: "p \<in> set (m_cache ?d2) \<and> tpc_base p \<noteq> number div transPerTIP ?d2 * transPerTIP ?d2"
      then have "n \<noteq> number" using k(1) nk tt by auto
      moreover have "page_state d n = bits_state ?t (tpc_transactions p) n"
        using coherentD [OF coh1, of p n] a p(2,3) st tt f(1,8) by simp
      ultimately show ?thesis using states [OF on] tt by simp
    next
      assume "\<exists>q \<in> set (m_cache ?d2). tpc_base q = number div transPerTIP ?d2 * transPerTIP ?d2 \<and>
          p = q\<lparr>tpc_transactions := put_bits (transPerTIP ?d2) (tpc_transactions q) number st\<rparr>"
      then obtain q where q: "q \<in> set (m_cache d1)" "tpc_base q = ?seq * ?t"
        "p = q\<lparr>tpc_transactions := put_bits ?t (tpc_transactions q) number st\<rparr>" using tt by auto
      have same: "n div ?t = number div ?t" using q(2,3) k(1) nk t by simp
      have "length (tpc_transactions q) = b" using ok1 q(1) f(1) t by (simp add: cache_ok_def page_ok_def)
      note pb = put_bits_state [OF t same assms(5) this]
      show ?thesis
      proof (cases "n = number")
        case True
        then show ?thesis using pb q(3) states [OF on] tt by simp
      next
        case False
        then have "bits_state ?t (tpc_transactions q) n \<in> {tra_committed, tra_dead}" using st pb q(3) tt by simp
        then have "page_state d n = bits_state ?t (tpc_transactions q) n"
          using coherentD [OF coh1 q(1), of n] q(3) p(2,3) tt f(1,8) by simp
        then show ?thesis using False pb q(3) states [OF on] tt by simp
      qed
    qed
  qed
  show thesis
    by (rule that [OF run _ ok3 _ _ _ _ _ _ _ _ states coh]) (use ok2 f in \<open>simp_all add: pages_ok_def on_pages_def fun_eq_iff\<close>)
qed

section \<open>The answers of the cache\<close>

lemma div_base: "0 < (t :: nat) \<Longrightarrow> n div t * t \<le> n \<and> n < n div t * t + t"
  using div_range [of t n] by (simp add: add.commute)

lemma cached_state:
  assumes "pages_ok d" "cache_ok d"
  shows "cached_state number d = None \<and> (\<forall>p \<in> set (m_cache d). tpc_base p \<noteq> number div transPerTIP d * transPerTIP d) \<or>
    (\<exists>p \<in> set (m_cache d). tpc_base p = number div transPerTIP d * transPerTIP d \<and>
       cached_state number d = Some (Inr (bits_state (transPerTIP d) (tpc_transactions p) number)))"
proof -
  let ?t = "transPerTIP d"
  let ?base = "number div ?t * ?t"
  have t: "0 < ?t" using assms(1) by (simp add: pages_ok_def)
  have base: "number - number mod ?t = ?base" by (simp add: minus_mod_eq_div_mult)
  have s: "sorted_wrt (<) (map tpc_base (m_cache d))" using assms(2) by (simp add: cache_ok_def)
  obtain found pos where f: "find_page ?base (m_cache d) = (found, pos)" by (metis surj_pair)
  show ?thesis
  proof (cases found)
    case False
    then have "?base \<notin> tpc_base ` set (m_cache d)" using find_page [OF s, of ?base] f by simp
    then have "\<forall>p \<in> set (m_cache d). tpc_base p \<noteq> ?base" by (metis image_eqI)
    moreover have "cached_state number d = None" using f False by (simp add: cached_state_def base)
    ultimately show ?thesis by blast
  next
    case True
    then have f1: "find_page ?base (m_cache d) = (True, pos)" using f by simp
    note at = find_page_nth [OF s f1]
    let ?p = "m_cache d ! pos"
    have p: "?p \<in> set (m_cache d)" using at(1) by simp
    then have "page_ok d ?p" using assms(2) by (simp add: cache_ok_def)
    moreover have "tpc_base ?p \<le> number" "number < tpc_base ?p + ?t" using div_base [OF t, of number] at(2) by simp_all
    ultimately have "TRA_state (tpc_transactions ?p) (tpc_base ?p) number = Inr (bits_state ?t (tpc_transactions ?p) number)"
      unfolding bits_state_def by (rule cached_bits [OF assms(1)])
    then have "cached_state number d = Some (Inr (bits_state ?t (tpc_transactions ?p) number))"
      using f1 at(2) by (simp add: cached_state_def base)
    then show ?thesis using p at(2) by blast
  qed
qed

lemma cacheTransactions:
  assumes "pages_ok d" "cache_ok d" "max oldest (hdr_oldest d) \<le> hdr_next d" "on_pages d (hdr_next d)"
  obtains d' where "cacheTransactions oldest d = Inr (hdr_oldest d, d')" "refreshed d d'"
    "\<And>k. loaded d (max oldest (hdr_oldest d) div transPerTIP d) (hdr_next d div transPerTIP d) k \<Longrightarrow>
       hdr_oldest d \<le> k * transPerTIP d + transPerTIP d \<Longrightarrow> page_of d k \<in> set (m_cache d')"
proof -
  let ?t = "transPerTIP d" and ?old = "max oldest (hdr_oldest d)"
  obtain d1 where d1: "TRA_get_inventory False ?old (hdr_next d) d = Inr (None, d1)" "refreshed d d1"
    "\<And>k. loaded d (?old div ?t) (hdr_next d div ?t) k \<Longrightarrow> page_of d k \<in> set (m_cache d1)"
    using get_inventory [OF assms(1,2,3,4), of False] by auto
  note f = refreshed_fields [OF d1(2)]
  have ok: "cache_ok d1" by (rule refreshed_ok [OF d1(2) assms(1,2)])
  then have s: "sorted_wrt (<) (map tpc_base (m_cache d1))" by (simp add: cache_ok_def)
  let ?keep = "filter (\<lambda>p. hdr_oldest d < tpc_base p + (?t + 1)) (m_cache d1)"
  have drop: "dropWhile (\<lambda>p. tpc_base p + ?t < hdr_oldest d) (m_cache d1) = ?keep"
    using dropWhile_below [OF s, of "?t + 1" "hdr_oldest d"] by (simp add: Suc_le_eq)
  let ?d' = "d1\<lparr>m_cache := ?keep\<rparr>"
  have "refreshed d1 ?d'"
    unfolding refreshed_def using sorted_filter [OF s] by (intro exI [of _ ?keep]) auto
  then have r: "refreshed d ?d'" by (rule refreshed_trans [OF d1(2)])
  have run: "cacheTransactions oldest d = Inr (hdr_oldest d, ?d')"
    using d1(1) f(1) drop by (simp add: cacheTransactions_def Let_def)
  show thesis
  proof (rule that [OF run r])
    fix k
    assume "loaded d (?old div ?t) (hdr_next d div ?t) k" "hdr_oldest d \<le> k * ?t + ?t"
    then show "page_of d k \<in> set (m_cache ?d')" using d1(3) [of k] by (simp add: page_of_def)
  qed
qed

text \<open>
  The cached pages follow one another, and the last one reaches beyond the oldest transaction
  that the process knows of.
\<close>

definition covers :: "dbb \<Rightarrow> bool" where
  "covers d \<longleftrightarrow> m_cache d \<noteq> [] \<and>
     (\<forall>k. tpc_base (hd (m_cache d)) \<le> k * transPerTIP d \<longrightarrow> k * transPerTIP d \<le> tpc_base (last (m_cache d)) \<longrightarrow>
        (\<exists>p \<in> set (m_cache d). tpc_base p = k * transPerTIP d)) \<and>
     dbb_oldest_transaction d < tpc_base (last (m_cache d)) + transPerTIP d"

definition old_number :: "dbb \<Rightarrow> TraNumber \<Rightarrow> bool" where
  "old_number d number \<longleftrightarrow> number = 0 \<or> number < tpc_base (hd (m_cache d)) \<or> number < hdr_oldest d"

lemma covers_beyond:
  assumes "pages_ok d" "cache_ok d" "covers d" "cached_state number d = None" "tpc_base (hd (m_cache d)) \<le> number"
  shows "tpc_base (last (m_cache d)) + transPerTIP d \<le> number div transPerTIP d * transPerTIP d"
proof -
  let ?t = "transPerTIP d"
  have t: "0 < ?t" using assms(1) by (simp add: pages_ok_def)
  have none: "\<forall>p \<in> set (m_cache d). tpc_base p \<noteq> number div ?t * ?t"
    using cached_state [OF assms(1,2), of number] assms(4) by auto
  have ne: "m_cache d \<noteq> []" using assms(3) by (simp add: covers_def)
  then obtain k l where k: "tpc_base (hd (m_cache d)) = k * ?t" "tpc_base (last (m_cache d)) = l * ?t"
    using assms(2) by (metis cache_ok_def page_ok_def hd_in_set last_in_set)
  have "k \<le> number div ?t" using assms(5) k(1) t by (simp add: less_eq_div_iff_mult_less_eq)
  then have "tpc_base (hd (m_cache d)) \<le> number div ?t * ?t" using k(1) by simp
  then have "\<not> number div ?t * ?t \<le> tpc_base (last (m_cache d))" using assms(3) none by (auto simp: covers_def)
  then have "l * ?t < number div ?t * ?t" using k(2) by simp
  then have "l < number div ?t" by (metis mult_less_cancel2)
  then have "Suc l * ?t \<le> number div ?t * ?t" by (intro mult_le_mono1) simp
  then show ?thesis using k(2) by simp
qed

lemma extendCache_answers:
  assumes ok: "pages_ok d" "cache_ok d" "covers d"
    and far: "tpc_base (last (m_cache d)) + transPerTIP d \<le> number div transPerTIP d * transPerTIP d"
    and numbers: "number \<le> hdr_next d" "hdr_oldest d \<le> hdr_next d" "hdr_next d < MAX_TRA_NUMBER" "on_pages d (hdr_next d)"
  obtains d' where "extendCache number d = Inr (if number < hdr_oldest d then tra_committed else page_state d number, d')"
    "refreshed d d'"
proof -
  let ?t = "transPerTIP d" and ?last = "tpc_base (last (m_cache d))"
  have t: "0 < ?t" using ok(1) by (simp add: pages_ok_def)
  note div = div_base [OF t, of number]
  have start: "?last + ?t \<le> number" by (rule order_trans [OF far conjunct1 [OF div]])
  then have le: "max (?last + ?t) (hdr_oldest d) \<le> hdr_next d" using numbers(1,2) by simp
  have ne: "m_cache d \<noteq> []" using ok(3) by (simp add: covers_def)
  have room: "?last < MAX_TRA_NUMBER - ?t" using start numbers(1,3) by linarith
  obtain d' where d': "cacheTransactions (?last + ?t) d = Inr (hdr_oldest d, d')" "refreshed d d'"
    "\<And>k. loaded d (max (?last + ?t) (hdr_oldest d) div ?t) (hdr_next d div ?t) k \<Longrightarrow>
       hdr_oldest d \<le> k * ?t + ?t \<Longrightarrow> page_of d k \<in> set (m_cache d')"
    using cacheTransactions [OF ok(1,2) le numbers(4)] by blast
  note f = refreshed_fields [OF d'(2)]
  have ok': "pages_ok d'" "cache_ok d'" using f(12) ok(1) refreshed_ok [OF d'(2) ok(1,2)] by simp_all
  show thesis
  proof (cases "number < hdr_oldest d")
    case True
    then show thesis using d' ne room by (intro that [of d']) (simp_all add: extendCache_def)
  next
    case False
    let ?k = "number div ?t"
    have "max (?last + ?t) (hdr_oldest d) \<le> number" using start False by simp
    then have "max (?last + ?t) (hdr_oldest d) div ?t \<le> ?k" by (rule div_le_mono)
    moreover have "?k \<le> hdr_next d div ?t" using numbers(1) by (rule div_le_mono)
    moreover have "dbb_oldest_transaction d < ?k * ?t + ?t" using ok(3) far by (simp add: covers_def)
    ultimately have "loaded d (max (?last + ?t) (hdr_oldest d) div ?t) (hdr_next d div ?t) ?k" by (simp add: loaded_def)
    moreover have "hdr_oldest d \<le> ?k * ?t + ?t" using False div by simp
    ultimately have in_cache: "page_of d ?k \<in> set (m_cache d')" by (rule d'(3))
    have at: "tpc_base (page_of d ?k) = ?k * ?t" by (simp add: page_of_def)
    obtain p where p: "p \<in> set (m_cache d')" "tpc_base p = ?k * ?t"
      "cached_state number d' = Some (Inr (bits_state ?t (tpc_transactions p) number))"
      using cached_state [OF ok', of number] in_cache at f(1) by auto
    have "sorted_wrt (<) (map tpc_base (m_cache d'))" using ok'(2) by (simp add: cache_ok_def)
    then have "p = page_of d ?k" using base_inj p(1,2) in_cache at by metis
    then have "cached_state number d' = Some (Inr (page_state d number))"
      using p(3) by (simp add: page_of_def page_state_bits)
    then show thesis using d' ne room False by (intro that [of d']) (simp_all add: extendCache_def)
  qed
qed

text \<open>What the process answers about another transaction is true.\<close>

lemma snapshotState_true:
  assumes ok: "pages_ok d" "cache_ok d" "coherent d" "covers d"
    and numbers: "number \<le> hdr_next d" "hdr_oldest d \<le> hdr_next d" "hdr_next d < MAX_TRA_NUMBER" "on_pages d (hdr_next d)"
  shows "\<exists>st d'. snapshotState may_lock number d = Inr (st, d') \<and>
    (if precommitted d number then st = tra_precommitted
     else st = page_state d number \<or> st = tra_active \<and> \<not> may_lock number \<or> st = tra_committed \<and> old_number d number)"
proof -
  let ?t = "transPerTIP d"
  have t: "0 < ?t" using ok(1) by (simp add: pages_ok_def)
  have ne: "m_cache d \<noteq> []" using ok(4) by (simp add: covers_def)
  consider "precommitted d number" | "\<not> precommitted d number" "number < tpc_base (hd (m_cache d)) \<or> number = 0"
    | "\<not> precommitted d number" "\<not> number < tpc_base (hd (m_cache d))" "number \<noteq> 0" by blast
  then show ?thesis
  proof cases
    case 3
    from cached_state [OF ok(1,2), of number] consider "cached_state number d = None"
      | p where "p \<in> set (m_cache d)" "tpc_base p = number div ?t * ?t"
        "cached_state number d = Some (Inr (bits_state ?t (tpc_transactions p) number))" by auto
    then show ?thesis
    proof cases
      case 1
      have far: "tpc_base (last (m_cache d)) + ?t \<le> number div ?t * ?t"
        using covers_beyond [OF ok(1,2,4) 1] 3(2) by simp
      obtain d' where "extendCache number d = Inr (if number < hdr_oldest d then tra_committed else page_state d number, d')"
        using extendCache_answers [OF ok(1,2,4) far numbers] .
      then show ?thesis using 3 1 ne by (auto simp: snapshotState_def old_number_def)
    next
      case 2
      let ?st = "bits_state ?t (tpc_transactions p) number"
      have final: "page_state d number = ?st" if "?st \<in> {tra_committed, tra_dead}"
        using coherentD [OF ok(3) 2(1), of number] div_base [OF t, of number] 2(2) that by simp
      obtain k where "tpc_base p = k * ?t" "k < length (tip_pages d)" using ok(2) 2(1) by (auto simp: cache_ok_def page_ok_def)
      then have "on_pages d number" using 2(2) t by (simp add: on_pages_def)
      then obtain d' where "TRA_fetch_state number d = Inr (page_state d number, d')" using fetch_state [OF ok(1,2)] by blast
      then show ?thesis using final 3 2(3) ne by (auto simp: snapshotState_def)
    qed
  qed (use ne in \<open>auto simp: snapshotState_def old_number_def\<close>)
qed

text \<open>A database with two inventory pages of eight transactions, the first of which is cached.\<close>

definition small_dbb :: dbb where
  "small_dbb = \<lparr>transPerTIP = 8, m_cache = [\<lparr>tpc_base = 0, tpc_transactions = [204, 8]\<rparr>], dbb_pc_transactions = None,
     dbb_next_transaction = 5, dbb_oldest_transaction = 1, dbb_oldest_active = 2, dbb_oldest_snapshot = 2, dbb_readOnly = False,
     tip_pages = [[204, 11], [14, 0]], hdr_next = 10, hdr_oldest = 2, hdr_oldest_active = 2, hdr_oldest_snapshot = 2\<rparr>"

lemma small_dbb_ok: "pages_ok small_dbb" "cache_ok small_dbb" "covers small_dbb"
  "on_pages small_dbb 10" "\<not> precommitted small_dbb n"
  by (auto simp: small_dbb_def pages_ok_def cache_ok_def page_ok_def covers_def on_pages_def precommitted_def TRA_precommited_def)

lemma small_dbb_coherent: "coherent small_dbb"
proof -
  have "bits_state 8 [204, 8] n \<in> {tra_committed, tra_dead} \<longrightarrow> page_state small_dbb n = bits_state 8 [204, 8] n" if n: "n < 8" for n
  proof -
    have "n = 0 \<or> n = 1 \<or> n = 2 \<or> n = 3 \<or> n = 4 \<or> n = 5 \<or> n = 6 \<or> n = 7" using n by linarith
    then show ?thesis
      by (elim disjE) (simp_all add: small_dbb_def page_state_def bits_state_def TRANS_OFFSET_def TRANS_SHIFT_def byte_state_def tra_states)
  qed
  then show ?thesis unfolding coherent_bits by (simp add: small_dbb_def)
qed

end
