(* ===== verification/TipSteps.thy ===== *)
theory TipSteps
  imports TipStates
begin

text \<open>
  The processes that share the inventory pages: every operation of one process keeps the caches
  of all of them true.
\<close>

section \<open>Reading operations only refresh the cache\<close>

definition dbb_ok :: "dbb \<Rightarrow> bool" where
  "dbb_ok d \<longleftrightarrow> pages_ok d \<and> cache_ok d"

lemma refreshed_dbb_ok: "refreshed d d' \<Longrightarrow> dbb_ok d \<Longrightarrow> dbb_ok d'"
  using refreshed_ok [of d d'] refreshed_fields(12) [of d d'] by (simp add: dbb_ok_def)

lemma refreshed_same: "dbb_ok d \<Longrightarrow> refreshed d d"
  by (simp add: dbb_ok_def refreshed_refl)

lemma refreshed_fewer:
  assumes "dbb_ok d" "sorted_wrt (<) (map tpc_base cache)" "set cache \<subseteq> set (m_cache d)"
  shows "refreshed d (d\<lparr>m_cache := cache\<rparr>)"
  using assms unfolding refreshed_def by blast

lemma fetch_refreshed:
  assumes "dbb_ok d" "fetch_inventory_page s d = Inr (tip, d')"
  shows "refreshed d d' \<and> tip = tip_pages d ! s \<and> s < length (tip_pages d)"
proof -
  have s: "s < length (tip_pages d)" using assms(2) by (simp add: fetch_inventory_page_def split: if_splits)
  show ?thesis using fetch_page [OF _ _ s] assms s unfolding dbb_ok_def by (metis Inr_inject prod.inject)
qed

lemma inventory_loop_refreshed:
  "dbb_ok d \<Longrightarrow> inventory_loop last_no last_seq s p d = Inr (v, d') \<Longrightarrow> refreshed d d'"
proof (induction last_no last_seq s p d arbitrary: v d' rule: inventory_loop.induct)
  case (1 last_no last_seq s p d)
  show ?case
  proof (cases "s \<le> last_seq")
    case False
    then show ?thesis using "1.prems" refreshed_same by (subst (asm) inventory_loop.simps) simp
  next
    case True
    from "1.prems"(2) True obtain tip d1 where f: "fetch_inventory_page s d = Inr (tip, d1)"
      by (subst (asm) inventory_loop.simps) (auto split: sum.splits)
    have r: "refreshed d d1" using fetch_refreshed [OF "1.prems"(1) f] by blast
    let ?p = "map_option (\<lambda>v. v @ take (TRANS_OFFSET (min (last_no + 4 - s * transPerTIP d1) (transPerTIP d1))) tip) p"
    have "inventory_loop last_no last_seq (s + 1) ?p d1 = Inr (v, d')"
      using "1.prems"(2) True f by (subst (asm) inventory_loop.simps) (simp add: Let_def)
    then have "refreshed d1 d'"
      using "1.IH" [OF True f refl refl refl] refreshed_dbb_ok [OF r "1.prems"(1)] by blast
    then show ?thesis by (rule refreshed_trans [OF r])
  qed
qed

lemma get_inventory_refreshed:
  assumes "dbb_ok d" "TRA_get_inventory vector base last_no d = Inr (v, d')"
  shows "refreshed d d'"
proof -
  obtain tip d1 where f: "fetch_inventory_page (base div transPerTIP d) d = Inr (tip, d1)"
    using assms(2) by (auto simp: TRA_get_inventory_def Let_def split: sum.splits)
  have r: "refreshed d d1" using fetch_refreshed [OF assms(1) f] by blast
  have "refreshed d1 d'" using assms(2) f
    by (auto simp: TRA_get_inventory_def Let_def intro: inventory_loop_refreshed [OF refreshed_dbb_ok [OF r assms(1)]])
  then show ?thesis by (rule refreshed_trans [OF r])
qed

lemma sorted_dropWhile: "sorted_wrt (<) (map tpc_base c) \<Longrightarrow> sorted_wrt (<) (map tpc_base (dropWhile P c))"
  by (induction c) auto

lemma cacheTransactions_refreshed:
  assumes "dbb_ok d" "cacheTransactions oldest d = Inr (n, d')"
  shows "refreshed d d' \<and> n = hdr_oldest d"
proof -
  obtain v d1 where f: "TRA_get_inventory False (max oldest (hdr_oldest d)) (hdr_next d) d = Inr (v, d1)"
    using assms(2) by (auto simp: cacheTransactions_def Let_def split: sum.splits)
  have r: "refreshed d d1" by (rule get_inventory_refreshed [OF assms(1) f])
  have d': "d' = d1\<lparr>m_cache := dropWhile (\<lambda>p. tpc_base p + transPerTIP d1 < hdr_oldest d) (m_cache d1)\<rparr>" "n = hdr_oldest d"
    using assms(2) f by (auto simp: cacheTransactions_def Let_def)
  have ok: "dbb_ok d1" by (rule refreshed_dbb_ok [OF r assms(1)])
  then have "refreshed d1 d'" unfolding d'(1)
    by (intro refreshed_fewer) (auto simp: dbb_ok_def cache_ok_def intro: sorted_dropWhile dest: set_dropWhileD)
  then show ?thesis using refreshed_trans [OF r] d'(2) by blast
qed

lemma initializeTpc_refreshed:
  assumes "dbb_ok d" "initializeTpc number d = Inr d'"
  shows "refreshed d d'"
  using assms cacheTransactions_refreshed [OF assms(1)] refreshed_same [OF assms(1)]
  by (auto simp: initializeTpc_def Let_def map_sum_def split: if_splits sum.splits)


lemma initialized_refreshed:
  assumes "dbb_ok d" "(if m_cache d = [] then map_sum id snd (cacheTransactions 0 d) else Inr d) = Inr d'"
  shows "refreshed d d'"
  using assms(2) cacheTransactions_refreshed [OF assms(1), of 0] refreshed_same [OF assms(1)]
  by (auto simp: map_sum_def split: if_splits sum.splits)

lemma extendCache_refreshed:
  assumes "dbb_ok d" "extendCache number d = Inr (st, d')"
  shows "refreshed d d'"
  using assms(2) cacheTransactions_refreshed [OF assms(1), of "tpc_base (last (m_cache d)) + transPerTIP d"] refreshed_same [OF assms(1)]
  by (auto simp: extendCache_def Let_def split: if_splits sum.splits option.splits)

lemma fetch_state_refreshed:
  assumes "dbb_ok d" "TRA_fetch_state number d = Inr (st, d')"
  shows "refreshed d d'"
  using assms(2) fetch_refreshed [OF assms(1)] by (auto simp: TRA_fetch_state_def Let_def split: if_splits sum.splits)

lemma snapshotState_refreshed:
  assumes "dbb_ok d" "snapshotState may_lock number d = Inr (st, d')"
  shows "refreshed d d'"
proof (cases "precommitted d number")
  case True
  then show ?thesis using assms refreshed_same by (simp add: snapshotState_def)
next
  case False
  then obtain d1 where d1: "(if m_cache d = [] then map_sum id snd (cacheTransactions 0 d) else Inr d) = Inr d1"
    using assms(2) by (auto simp: snapshotState_def split: sum.splits)
  have r: "refreshed d d1" by (rule initialized_refreshed [OF assms(1) d1])
  have ok: "dbb_ok d1" by (rule refreshed_dbb_ok [OF r assms(1)])
  have "refreshed d1 d'" using assms(2) False extendCache_refreshed [OF ok] fetch_state_refreshed [OF ok] refreshed_same [OF ok]
    unfolding snapshotState_def d1 by (auto split: if_splits option.splits sum.splits)
  then show ?thesis by (rule refreshed_trans [OF r])
qed

lemma cacheState_refreshed:
  assumes "dbb_ok d" "cacheState number d = Inr (st, d')"
  shows "refreshed d d'"
  using assms(2) initializeTpc_refreshed [OF assms(1), of number] refreshed_same [OF assms(1)]
  by (auto simp: cacheState_def split: if_splits sum.splits option.splits)

lemma findStates_refreshed:
  assumes "dbb_ok d" "findStates minNumber maxNumber states d = Inr (res, d')"
  shows "refreshed d d'"
proof -
  obtain d1 where d1: "initializeTpc maxNumber d = Inr d1" using assms(2) by (auto simp: findStates_def split: sum.splits)
  have "d' = d1" using assms(2) d1
    by (auto simp: findStates_def Let_def split: if_splits sum.splits option.splits prod.splits)
  then show ?thesis using initializeTpc_refreshed [OF assms(1) d1] by simp
qed

lemma snapshot_state_refreshed:
  assumes "dbb_ok d" "TRA_snapshot_state may_lock tra number d = Inr (st, d')"
  shows "refreshed d d'"
  using assms(2) snapshotState_refreshed [OF assms(1)] refreshed_same [OF assms(1)]
  by (auto simp: TRA_snapshot_state_def map_sum_def split: if_splits sum.splits)

lemma limbo_refreshed:
  assumes "dbb_ok d" "limbo_transaction number d = Inr (st, d')"
  shows "refreshed d d'"
  using assms(2) fetch_refreshed [OF assms(1)] by (auto simp: limbo_transaction_def Let_def split: if_splits sum.splits)

lemma take_snapshot_refreshed:
  assumes "dbb_ok d" "take_snapshot tra oldest last_no d = Inr (tra', d')"
  shows "refreshed d d'"
  using assms(2) initializeTpc_refreshed [OF assms(1)] get_inventory_refreshed [OF assms(1)] refreshed_same [OF assms(1)]
  by (auto simp: take_snapshot_def Let_def map_sum_def split: if_splits sum.splits option.splits)


section \<open>The invariant of a process\<close>

abbreviation final :: "nat \<Rightarrow> bool" where
  "final st \<equiv> st \<in> {tra_committed, tra_dead}"

text \<open>There are pages for all numbers that have been given, and the numbers beyond are active on them.\<close>

definition fresh_pages :: "dbb \<Rightarrow> bool" where
  "fresh_pages d \<longleftrightarrow> length (tip_pages d) = Suc (hdr_next d div transPerTIP d) \<and>
     (\<forall>n. hdr_next d < n \<longrightarrow> on_pages d n \<longrightarrow> page_state d n = tra_active)"

definition tip_inv :: "dbb \<Rightarrow> bool" where
  "tip_inv d \<longleftrightarrow> dbb_ok d \<and> coherent d \<and> fresh_pages d"

text \<open>What no step takes back.\<close>

definition later :: "dbb \<Rightarrow> dbb \<Rightarrow> bool" where
  "later d d' \<longleftrightarrow> transPerTIP d' = transPerTIP d \<and> length (tip_pages d) \<le> length (tip_pages d') \<and> hdr_next d \<le> hdr_next d' \<and>
     (\<forall>n. on_pages d n \<longrightarrow> final (page_state d n) \<longrightarrow> page_state d' n = page_state d n)"

lemma later_refl: "later d d" by (simp add: later_def)

lemma later_on: "later d d' \<Longrightarrow> on_pages d n \<Longrightarrow> on_pages d' n"
  by (simp add: later_def on_pages_def)

lemma laterD: "later d d' \<Longrightarrow> on_pages d n \<Longrightarrow> final (page_state d n) \<Longrightarrow> page_state d' n = page_state d n"
  unfolding later_def by blast

lemma later_trans: "later d d' \<Longrightarrow> later d' d'' \<Longrightarrow> later d d''"
  using later_on [of d d'] by (auto simp: later_def)

lemma cached_on_pages:
  assumes "dbb_ok d" "p \<in> set (m_cache d)" "tpc_base p \<le> n" "n < tpc_base p + transPerTIP d"
  shows "on_pages d n"
proof -
  obtain k where "k < length (tip_pages d)" "tpc_base p = k * transPerTIP d"
    using assms(1,2) by (auto simp: dbb_ok_def cache_ok_def page_ok_def)
  then show ?thesis using byte_at(1) [of d k n] assms(1,3,4) by (simp add: dbb_ok_def on_pages_def)
qed

text \<open>The cache of a process stays true when the pages change as they may.\<close>

lemma later_cache:
  assumes "dbb_ok d" "coherent d" "later d d'" "pages_ok d'" "m_cache d' = m_cache d"
  shows "dbb_ok d' \<and> coherent d'"
proof
  have t: "transPerTIP d' = transPerTIP d" "length (tip_pages d) \<le> length (tip_pages d')" using assms(3) by (simp_all add: later_def)
  have "page_ok d' p" if "page_ok d p" for p using that t by (auto simp: page_ok_def intro: less_le_trans)
  then show "dbb_ok d'" using assms(1,4,5) by (simp add: dbb_ok_def cache_ok_def)
  show "coherent d'" unfolding coherent_bits t(1) assms(5)
  proof (intro ballI allI impI)
    fix p n
    assume p: "p \<in> set (m_cache d)" "tpc_base p \<le> n" "n < tpc_base p + transPerTIP d"
      and st: "final (bits_state (transPerTIP d) (tpc_transactions p) n)"
    have "page_state d n = bits_state (transPerTIP d) (tpc_transactions p) n" by (rule coherentD [OF assms(2) p st])
    then show "page_state d' n = bits_state (transPerTIP d) (tpc_transactions p) n"
      using laterD [OF assms(3) cached_on_pages [OF assms(1) p]] st by metis
  qed
qed

lemma refreshed_kept:
  assumes "tip_inv d" "refreshed d d'"
  shows "tip_inv d' \<and> later d d'"
proof -
  note f = refreshed_fields [OF assms(2)]
  have "coherent d'" "dbb_ok d'" using assms refreshed_coherent [OF assms(2)] refreshed_dbb_ok [OF assms(2)]
    by (simp_all add: tip_inv_def dbb_ok_def)
  then show ?thesis using assms(1) f by (simp add: tip_inv_def fresh_pages_def later_def)
qed

lemma given_on_pages:
  assumes "tip_inv d" "n \<le> hdr_next d"
  shows "on_pages d n"
  using assms div_le_mono [OF assms(2), of "transPerTIP d"] by (simp add: tip_inv_def fresh_pages_def on_pages_def)

lemma set_state_kept:
  assumes "tip_inv d" "TRA_set_state tra number st d = Inr d'" "number \<le> hdr_next d" "\<not> dbb_readOnly d" "st < 4"
    "\<not> final (page_state d number) \<or> page_state d number = st"
  shows "tip_inv d' \<and> later d d'"
proof (cases "case tra of None \<Rightarrow> True | Some t \<Rightarrow> \<not> (tra_number t = number \<and> TRA_flag_precommitted t)")
  case False
  then have "d' = d" using assms(2) by (cases tra) (simp_all add: TRA_set_state_def)
  then show ?thesis using assms(1) later_refl by simp
next
  case True
  have ok: "pages_ok d" "cache_ok d" "coherent d" using assms(1) by (simp_all add: tip_inv_def dbb_ok_def)
  obtain d1 where d1: "TRA_set_state tra number st d = Inr d1" "pages_ok d1" "cache_ok d1" "on_pages d1 = on_pages d"
    "transPerTIP d1 = transPerTIP d" "length (tip_pages d1) = length (tip_pages d)" "hdr_next d1 = hdr_next d"
    "\<And>n. on_pages d n \<Longrightarrow> page_state d1 n = (if n = number then st else page_state d n)"
    "coherent d \<Longrightarrow> page_state d number \<notin> {tra_committed, tra_dead} \<or> page_state d number = st \<Longrightarrow> coherent d1"
    by (rule set_state [OF ok(1,2) given_on_pages [OF assms(1,3)] assms(4,5) True]) (use that in blast)
  have "d' = d1" using assms(2) d1(1) by simp
  moreover have "fresh_pages d1" using assms(1,3) d1(4-8) by (auto simp: tip_inv_def fresh_pages_def)
  ultimately show ?thesis using d1 ok(3) assms(6) by (auto simp: tip_inv_def dbb_ok_def later_def)
qed


section \<open>A new number\<close>

lemma page_state_append: "on_pages d n \<Longrightarrow> page_state (d\<lparr>tip_pages := tip_pages d @ ps\<rparr>) n = page_state d n"
  by (simp add: page_state_def on_pages_def nth_append)

lemma page_state_zero:
  assumes "pages_ok d" "n div transPerTIP d < length (tip_pages d)" "tip_pages d ! (n div transPerTIP d) = replicate (transPerTIP d div 4) 0"
  shows "page_state d n = tra_active"
  using offset_less [OF tip_size [OF assms(1)], of n] assms(3)
  by (simp add: page_state_def byte_state_def tra_active_def)

lemma extend_tip:
  assumes "tip_inv d" "Suc (hdr_next d) mod transPerTIP d = 0"
  obtains d1 where "TRA_extend_tip (Suc (hdr_next d) div transPerTIP d) d =
      Inr (d1\<lparr>tip_pages := tip_pages d1 @ [replicate (transPerTIP d div 4) 0]\<rparr>)" "refreshed d d1"
    "length (tip_pages d) = Suc (hdr_next d) div transPerTIP d"
proof -
  let ?t = "transPerTIP d" and ?seq = "Suc (hdr_next d) div transPerTIP d"
  have ok: "pages_ok d" "cache_ok d" using assms(1) by (simp_all add: tip_inv_def dbb_ok_def)
  have len: "length (tip_pages d) = Suc (hdr_next d div ?t)" using assms(1) by (simp add: tip_inv_def fresh_pages_def)
  have seq: "?seq = Suc (hdr_next d div ?t)" using assms(2) by (simp add: div_Suc)
  obtain d1 where d1: "fetch_inventory_page (?seq - 1) d = Inr (tip_pages d ! (?seq - 1), d1)" "refreshed d d1"
    using fetch_page [OF ok, of "?seq - 1"] seq len by auto
  note f = refreshed_fields [OF d1(2)]
  show thesis
    by (rule that [OF _ d1(2)]) (use d1(1) seq len f(1,2) in \<open>simp_all add: TRA_extend_tip_def\<close>)
qed

text \<open>What \<open>bump_transaction_id\<close> does to the pages and the cache, before it writes the header.\<close>

lemma bump:
  assumes "tip_inv d" "bump_transaction_id d = Inr d'"
  shows "tip_inv d' \<and> later d d' \<and> hdr_next d' = Suc (hdr_next d) \<and> page_state d' (hdr_next d') = tra_active \<and>
    (\<forall>n. on_pages d n \<longrightarrow> page_state d' n = page_state d n)"
proof -
  let ?t = "transPerTIP d" and ?number = "Suc (hdr_next d)"
  have ok: "pages_ok d" "cache_ok d" "coherent d" "fresh_pages d" using assms(1) by (simp_all add: tip_inv_def dbb_ok_def)
  have len: "length (tip_pages d) = Suc (hdr_next d div ?t)" using ok(4) by (simp add: fresh_pages_def)
  obtain d2 where d2: "(if ?number mod ?t = 0 then TRA_extend_tip (?number div ?t) d else Inr d) = Inr d2"
    "hdr_next d' = ?number" "transPerTIP d' = transPerTIP d2" "tip_pages d' = tip_pages d2" "m_cache d' = m_cache d2"
    using assms(2) by (auto simp: bump_transaction_id_def Let_def split: if_splits sum.splits)
  have same: "page_state d' n = page_state d2 n" "on_pages d' n = on_pages d2 n" for n
    using d2(3,4) by (simp_all add: page_state_def on_pages_def)
  show ?thesis
  proof (cases "?number mod ?t = 0")
    case False
    then have d: "d2 = d" using d2(1) by simp
    have div: "?number div ?t = hdr_next d div ?t" using False by (simp add: div_Suc)
    have "on_pages d ?number" using len div by (simp add: on_pages_def)
    then have act: "page_state d ?number = tra_active" using ok(4) by (simp add: fresh_pages_def)
    have lt: "later d d'" using d2 same by (simp add: d later_def)
    have "pages_ok d'" using ok(1) d2(3,4) by (simp add: d pages_ok_def)
    from later_cache [OF _ ok(3) lt this] have "dbb_ok d' \<and> coherent d'" using ok(1,2) d2(5) by (simp add: d dbb_ok_def)
    moreover have "fresh_pages d'" using ok(4) d2(2-4) same div by (auto simp: d fresh_pages_def)
    ultimately show ?thesis using lt act d2(2) same by (simp add: d tip_inv_def)
  next
    case True
    obtain d1 where d1: "TRA_extend_tip (?number div ?t) d = Inr (d1\<lparr>tip_pages := tip_pages d1 @ [replicate (?t div 4) 0]\<rparr>)"
      "refreshed d d1" "length (tip_pages d) = ?number div ?t"
      using extend_tip [OF assms(1) True] by blast
    note f = refreshed_fields [OF d1(2)]
    have k1: "tip_inv d1" "later d d1" using refreshed_kept [OF assms(1) d1(2)] by simp_all
    have d2e: "d2 = d1\<lparr>tip_pages := tip_pages d1 @ [replicate (?t div 4) 0]\<rparr>" using d2(1) True d1(1) by simp
    have states: "page_state d' n = page_state d n" if "on_pages d n" for n
      using page_state_append [of d1 n] that f(8,10) same by (simp add: d2e)
    have ok': "pages_ok d'" using ok(1) f(1,2) d2(3,4) d2e by (auto simp: pages_ok_def)
    have lt: "later d1 d'" using states f(1,2,4,8,10) d2(2-4) d2e by (simp add: later_def)
    have c: "dbb_ok d' \<and> coherent d'"
      using later_cache [OF _ _ lt ok'] k1(1) d2(5) d2e by (simp add: tip_inv_def)
    have len': "length (tip_pages d') = Suc (?number div ?t)" using d2(4) d2e f(2) d1(3) by simp
    have "page_state d' n = tra_active" if n: "?number \<le> n" "on_pages d' n" for n
    proof (rule page_state_zero [OF ok'])
      have "?number div ?t \<le> n div ?t" using n(1) by (rule div_le_mono)
      then have "n div transPerTIP d' = length (tip_pages d)" using n(2) len' d2(3) d2e f(1) d1(3) by (simp add: on_pages_def)
      then show "n div transPerTIP d' < length (tip_pages d')"
        "tip_pages d' ! (n div transPerTIP d') = replicate (transPerTIP d' div 4) 0"
        using d2(3,4) d2e f(1,2) by (simp_all add: nth_append)
    qed
    moreover have "on_pages d' ?number" using len' d2(3) d2e f(1) by (simp add: on_pages_def)
    ultimately show ?thesis using c lt k1(2) later_trans [OF k1(2) lt] states d2(2,3) d2e f(1) len'
      by (simp add: tip_inv_def fresh_pages_def)
  qed
qed


section \<open>The steps of a process\<close>

text \<open>
  What a process does to the states.  A state is changed by those who own the number: the
  transaction itself, recovery of a limbo transaction, or who has found it abandoned; none of
  them changes a state that is final.
\<close>

inductive tra_step :: "dbb \<Rightarrow> dbb \<Rightarrow> bool" where
  start: "bump_transaction_id d = Inr d' \<Longrightarrow> tra_step d d'"
| finish: "TRA_set_state tra number st d = Inr d' \<Longrightarrow> number \<le> hdr_next d \<Longrightarrow> \<not> dbb_readOnly d \<Longrightarrow> st < 4 \<Longrightarrow>
    \<not> final (page_state d number) \<or> page_state d number = st \<Longrightarrow> tra_step d d'"
| fetch: "TRA_fetch_state number d = Inr (st, d') \<Longrightarrow> tra_step d d'"
| limbo: "limbo_transaction number d = Inr (st, d') \<Longrightarrow> tra_step d d'"
| cached: "cacheState number d = Inr (st, d') \<Longrightarrow> tra_step d d'"
| asked: "snapshotState may_lock number d = Inr (st, d') \<Longrightarrow> tra_step d d'"
| seen: "TRA_snapshot_state may_lock tra number d = Inr (st, d') \<Longrightarrow> tra_step d d'"
| searched: "findStates minNumber maxNumber states d = Inr (res, d') \<Longrightarrow> tra_step d d'"
| initialize: "initializeTpc number d = Inr d' \<Longrightarrow> tra_step d d'"
| inventory: "TRA_get_inventory vector base last_no d = Inr (v, d') \<Longrightarrow> tra_step d d'"
| snapshot: "take_snapshot tra oldest last_no d = Inr (tra', d') \<Longrightarrow> tra_step d d'"
| clear: "tra_step d (clearCache d)"
| precommit: "tra_step d (snd (TRA_precommited old_tra new_tra d))"
| numbers: "tra_step d (note_numbers oldest oldest_active oldest_snapshot d)"

lemma fields_kept:
  assumes "tip_inv d" "transPerTIP d' = transPerTIP d" "tip_pages d' = tip_pages d" "m_cache d' = m_cache d" "hdr_next d' = hdr_next d"
  shows "tip_inv d' \<and> later d d'"
proof -
  have same: "page_state d' = page_state d" "on_pages d' = on_pages d" using assms(2,3) by (auto simp: page_state_def on_pages_def fun_eq_iff)
  have l: "later d d'" using assms same by (simp add: later_def)
  have p: "pages_ok d'" using assms(1-3) by (simp add: tip_inv_def dbb_ok_def pages_ok_def)
  show ?thesis using later_cache [OF _ _ l p assms(4)] assms(1,2,3,5) l same by (simp add: tip_inv_def fresh_pages_def)
qed

lemma tra_step_kept:
  assumes "tra_step d d'" "tip_inv d"
  shows "tip_inv d' \<and> later d d'"
proof -
  have ok: "dbb_ok d" using assms(2) by (simp add: tip_inv_def)
  note kept = refreshed_kept [OF assms(2)]
  from assms(1) show ?thesis
  proof cases
    case start
    then show ?thesis using bump [OF assms(2)] by blast
  next
    case (finish tra number st)
    then show ?thesis using set_state_kept [OF assms(2)] by blast
  next
    case fetch
    then show ?thesis by (intro kept fetch_state_refreshed [OF ok])
  next
    case limbo
    then show ?thesis by (intro kept limbo_refreshed [OF ok])
  next
    case cached
    then show ?thesis by (intro kept cacheState_refreshed [OF ok])
  next
    case asked
    then show ?thesis by (intro kept snapshotState_refreshed [OF ok])
  next
    case seen
    then show ?thesis by (intro kept snapshot_state_refreshed [OF ok])
  next
    case searched
    then show ?thesis by (intro kept findStates_refreshed [OF ok])
  next
    case initialize
    then show ?thesis by (intro kept initializeTpc_refreshed [OF ok])
  next
    case inventory
    then show ?thesis by (intro kept get_inventory_refreshed [OF ok])
  next
    case snapshot
    then show ?thesis by (intro kept take_snapshot_refreshed [OF ok])
  next
    case clear
    then show ?thesis unfolding clearCache_def by (intro kept) (simp add: refreshed_fewer [OF ok])
  next
    case precommit
    then show ?thesis
      by (intro fields_kept [OF assms(2)]) (simp_all add: TRA_precommited_def Let_def split: option.splits prod.splits)
  next
    case numbers
    then show ?thesis by (intro fields_kept [OF assms(2)]) (simp_all add: note_numbers_def)
  qed
qed

section \<open>The processes of a database\<close>

text \<open>The disk of one process's view, under what another process keeps in memory.\<close>

definition with_disk :: "dbb \<Rightarrow> dbb \<Rightarrow> dbb" where
  "with_disk d e = d\<lparr>tip_pages := tip_pages e, hdr_next := hdr_next e, hdr_oldest := hdr_oldest e,
     hdr_oldest_active := hdr_oldest_active e, hdr_oldest_snapshot := hdr_oldest_snapshot e\<rparr>"

definition fresh_db :: "(nat \<Rightarrow> dbb) \<Rightarrow> bool" where
  "fresh_db s \<longleftrightarrow> (\<forall>i. pages_ok (s i) \<and> m_cache (s i) = [] \<and> fresh_pages (s i) \<and>
     (\<forall>j. transPerTIP (s j) = transPerTIP (s i) \<and> with_disk (s j) (s i) = s j))"

inductive sys_step :: "(nat \<Rightarrow> dbb) \<Rightarrow> (nat \<Rightarrow> dbb) \<Rightarrow> bool" where
  process: "tra_step (s i) d' \<Longrightarrow> sys_step s (\<lambda>j. if j = i then d' else with_disk (s j) d')"

inductive_cases sys_stepE: "sys_step s s'"

definition sys_inv :: "(nat \<Rightarrow> dbb) \<Rightarrow> bool" where
  "sys_inv s \<longleftrightarrow> (\<forall>i. tip_inv (s i)) \<and> (\<forall>i j. transPerTIP (s j) = transPerTIP (s i) \<and> with_disk (s j) (s i) = s j)"

lemma with_disk_fields [simp]:
  "transPerTIP (with_disk d e) = transPerTIP d" "tip_pages (with_disk d e) = tip_pages e" "hdr_next (with_disk d e) = hdr_next e"
  "m_cache (with_disk d e) = m_cache d" "with_disk (with_disk d e) f = with_disk d f" "with_disk d (with_disk e f) = with_disk d f"
  "with_disk d d = d"
  by (simp_all add: with_disk_def)

lemma same_disk:
  assumes "with_disk d e = d" "transPerTIP d = transPerTIP e"
  shows "page_state d = page_state e" "on_pages d = on_pages e" "hdr_next d = hdr_next e" "tip_pages d = tip_pages e"
proof -
  show "tip_pages d = tip_pages e" "hdr_next d = hdr_next e" by (subst assms(1) [symmetric], simp)+
  then show "page_state d = page_state e" "on_pages d = on_pages e"
    using assms(2) by (simp_all add: page_state_def on_pages_def fun_eq_iff)
qed

lemma later_disk:
  assumes "tip_inv d" "with_disk d e = d" "transPerTIP d = transPerTIP e" "later e e'" "tip_inv e'"
  shows "tip_inv (with_disk d e')"
proof -
  have t: "transPerTIP e' = transPerTIP e" using assms(4) by (simp add: later_def)
  have s: "page_state (with_disk d e') = page_state e'" "on_pages (with_disk d e') = on_pages e'"
    using assms(3) t by (simp_all add: page_state_def on_pages_def fun_eq_iff)
  have l: "later d (with_disk d e')" using assms(4) same_disk [OF assms(2,3)] s by (simp add: later_def)
  have p: "pages_ok (with_disk d e')" using assms(3,5) t by (simp add: tip_inv_def dbb_ok_def pages_ok_def)
  have "dbb_ok (with_disk d e') \<and> coherent (with_disk d e')"
    using later_cache [OF _ _ l p] assms(1) by (simp add: tip_inv_def)
  then show ?thesis using assms(3,5) t s by (simp add: tip_inv_def fresh_pages_def)
qed

lemma fresh_db_inv: "fresh_db s \<Longrightarrow> sys_inv s"
  by (simp add: fresh_db_def sys_inv_def tip_inv_def dbb_ok_def cache_ok_def coherent_def)

lemma sys_step_inv:
  assumes "sys_step s s'" "sys_inv s"
  shows "sys_inv s' \<and> (\<forall>i. later (s i) (s' i))"
proof -
  obtain i d' where 1: "s' = (\<lambda>j. if j = i then d' else with_disk (s j) d')" "tra_step (s i) d'"
    using assms(1) by (rule sys_stepE)
  have inv: "\<And>j. tip_inv (s j)" "\<And>j. transPerTIP (s j) = transPerTIP (s i)" "\<And>j k. with_disk (s j) (s k) = s j"
    using assms(2) by (simp_all add: sys_inv_def)
  have k: "tip_inv d'" "later (s i) d'" using tra_step_kept [OF 1(2) inv(1)] by simp_all
  have t: "transPerTIP d' = transPerTIP (s i)" using k(2) by (simp add: later_def)
  have all: "tip_inv (with_disk (s j) d')" for j by (rule later_disk [OF inv(1) inv(3) inv(2) k(2,1)])
  have l: "later (s j) (with_disk (s j) d')" for j
    using k(2) same_disk [OF inv(3) inv(2), of j] t inv(2) [of j]
    by (simp add: later_def page_state_def on_pages_def)
  show ?thesis unfolding 1(1) using k all l t inv(2) by (simp add: sys_inv_def) metis
qed

lemma sys_steps_inv:
  assumes "sys_step\<^sup>*\<^sup>* s s'" "sys_inv s"
  shows "sys_inv s' \<and> (\<forall>i. later (s i) (s' i))"
  using assms
proof (induction rule: rtranclp_induct)
  case base
  then show ?case by (simp add: later_refl)
next
  case (step s' s'')
  then show ?case using sys_step_inv [OF step(2)] later_trans by blast
qed

end
