(* ===== verification/TipProperties.thy ===== *)
theory TipProperties
  imports TipSteps
begin

text \<open>
  What the inventory, its caches and the snapshots promise to the transactions of all processes.
\<close>

section \<open>The cache of every process\<close>

lemma cached_final:
  assumes "dbb_ok d" "coherent d" "cached_state n d = Some (Inr st)" "final st"
  shows "on_pages d n \<and> page_state d n = st"
proof -
  let ?t = "transPerTIP d"
  have ok: "pages_ok d" "cache_ok d" using assms(1) by (simp_all add: dbb_ok_def)
  then have t: "0 < ?t" by (simp add: pages_ok_def)
  obtain p where p: "p \<in> set (m_cache d)" "tpc_base p = n div ?t * ?t" "st = bits_state ?t (tpc_transactions p) n"
    using cached_state [OF ok, of n] assms(3) by auto
  have range: "tpc_base p \<le> n" "n < tpc_base p + ?t" using div_base [OF t, of n] unfolding p(2) by blast+
  have "page_state d n = st" using coherentD [OF assms(2) p(1) range] assms(4) p(3) by metis
  then show ?thesis using cached_on_pages [OF assms(1) p(1) range] by simp
qed


text \<open>A new database with one inventory page, as two transactions have left it.\<close>

definition start_dbb :: dbb where
  "start_dbb = \<lparr>transPerTIP = 8, m_cache = [], dbb_pc_transactions = None, dbb_next_transaction = 0, dbb_oldest_transaction = 0,
     dbb_oldest_active = 0, dbb_oldest_snapshot = 0, dbb_readOnly = False, tip_pages = [[0, 0]],
     hdr_next = 2, hdr_oldest = 0, hdr_oldest_active = 0, hdr_oldest_snapshot = 0\<rparr>"

definition ended_dbb :: dbb where
  "ended_dbb = start_dbb\<lparr>m_cache := [\<lparr>tpc_base = 0, tpc_transactions = [12, 0]\<rparr>], tip_pages := [[12, 0]]\<rparr>"

lemma start_fresh: "fresh_db (\<lambda>i. start_dbb)"
proof -
  have "page_state start_dbb n = tra_active" if "on_pages start_dbb n" for n
    by (rule page_state_zero) (use that in \<open>auto simp: pages_ok_def on_pages_def start_dbb_def numeral_2_eq_2\<close>)
  moreover have "pages_ok start_dbb" by (simp add: pages_ok_def start_dbb_def)
  ultimately show ?thesis by (simp add: fresh_db_def fresh_pages_def) (simp add: start_dbb_def)
qed

lemma ended: "TRA_set_state None 1 tra_committed start_dbb = Inr ended_dbb"
  by code_simp

lemma ended_step: "sys_step (\<lambda>i. start_dbb) (\<lambda>j. if j = 0 then ended_dbb else with_disk start_dbb ended_dbb)"
proof (rule process)
  have "page_state start_dbb 1 = tra_active" by code_simp
  then show "tra_step start_dbb ended_dbb"
    by (intro finish [OF ended]) (simp_all add: start_dbb_def tra_states)
qed


text \<open>
  C22. A process that starts a transaction gets a number that no process has had before; it is
  active on its page, and no other transaction has changed.
\<close>

theorem numbers_unique:
  assumes "fresh_db s0" "sys_step\<^sup>*\<^sup>* s0 s" "bump_transaction_id (s i) = Inr d'"
  shows "hdr_next d' = hdr_next (s j) + 1 \<and> page_state d' (hdr_next d') = tra_active \<and>
    (\<forall>n \<le> hdr_next (s j). page_state d' n = page_state (s j) n)"
proof -
  have inv: "sys_inv s" using sys_steps_inv [OF assms(2) fresh_db_inv [OF assms(1)]] by blast
  then have ti: "tip_inv (s i)" and same: "page_state (s j) = page_state (s i)" "hdr_next (s j) = hdr_next (s i)"
    using same_disk [of "s j" "s i"] by (simp_all add: sys_inv_def)
  show ?thesis using bump [OF ti assms(3)] given_on_pages [OF ti] same by (auto simp del: One_nat_def)
qed

theorem numbers_unique_witness:
  "\<exists>d'. bump_transaction_id (with_disk start_dbb ended_dbb) = Inr d' \<and> hdr_next d' = 3 \<and> page_state d' 3 = tra_active \<and>
    page_state d' 1 = tra_committed"
proof -
  let ?s = "\<lambda>j. if j = 0 then ended_dbb else with_disk start_dbb ended_dbb"
  have s: "sys_step\<^sup>*\<^sup>* (\<lambda>i. start_dbb) ?s" by (rule r_into_rtranclp [where r = sys_step, OF ended_step])
  have "\<exists>d'. bump_transaction_id (?s (1 :: nat)) = Inr d'"
    by (simp add: bump_transaction_id_def with_disk_def start_dbb_def ended_dbb_def MAX_TRA_NUMBER_def)
  then obtain d' where d': "bump_transaction_id (?s (1 :: nat)) = Inr d'" by blast
  have e: "hdr_next ended_dbb = 2" "page_state ended_dbb 1 = tra_committed" by code_simp+
  show ?thesis using numbers_unique [OF start_fresh s d', of 0] d' e by (intro exI [of _ d']) auto
qed

section \<open>The states of a snapshot\<close>

lemma inventory_bits:
  assumes "pages_ok d" "cache_ok d" "on_pages d last_no" "base mod 4 = 0" "base \<le> last_no"
  obtains v d' where "TRA_get_inventory True base last_no d = Inr (Some v, d')" "refreshed d d'"
    "length v = (last_no + 4 - base) div 4"
    "\<And>n oldest. base \<le> n \<Longrightarrow> n \<le> last_no \<Longrightarrow> oldest - oldest mod 4 = base \<Longrightarrow> TRA_state v oldest n = Inr (page_state d n)"
proof -
  let ?v = "slice d (base div 4) (Suc (last_no div 4))"
  have "\<exists>d'. TRA_get_inventory True base last_no d = Inr (Some ?v, d') \<and> refreshed d d'"
    using get_inventory [OF assms(1,2,5) assms(3), of True] assms(4) by auto
  then obtain d' where d': "TRA_get_inventory True base last_no d = Inr (Some ?v, d')" "refreshed d d'" by blast
  have len: "length ?v = (last_no + 4 - base) div 4"
  proof (rule antisym)
    have e: "(last_no + 4 - base) div 4 = Suc (last_no div 4) - base div 4" by (rule rest_div_4 [OF assms(4)])
    show "length ?v \<le> (last_no + 4 - base) div 4" unfolding e by (simp add: slice_def)
    have "last_no div 4 - base div 4 < length ?v"
      using slice_state(1) [OF assms(1,3,4,5)] between_div_4 [OF assms(4,5)] by simp
    then show "(last_no + 4 - base) div 4 \<le> length ?v" unfolding e by linarith
  qed
  show thesis
  proof (rule that [OF d' len])
    fix n oldest
    assume n: "base \<le> n" "n \<le> last_no" "oldest - oldest mod 4 = base"
    have "n div 4 \<le> last_no div 4" using n(2) by (rule div_le_mono)
    from slice_state [OF assms(1,3,4) n(1) this]
    show "TRA_state ?v oldest n = Inr (page_state d n)"
      using n by (simp add: TRA_state_def Let_def page_state_def TRANS_OFFSET_def)
  qed
qed

lemma round_to_4: "oldest - oldest mod 4 = 4 * (oldest div (4 :: nat))" by (simp add: minus_mod_eq_mult_div)

text \<open>The vector is made large enough, and all of it is written.\<close>

lemma snapshot_taken:
  assumes "pages_ok d" "cache_ok d" "on_pages d last_no" "oldest < last_no" "\<not> TRA_read_committed tra"
  obtains v d' where "take_snapshot tra oldest last_no d = Inr (tra\<lparr>tra_transactions := v\<rparr>, d')" "refreshed d d'"
    "\<And>n. oldest \<le> n \<Longrightarrow> n \<le> last_no \<Longrightarrow> TRA_state v oldest n = Inr (page_state d n)"
proof -
  let ?base = "oldest - oldest mod 4"
  have b: "?base mod 4 = 0" by (simp add: round_to_4)
  have le: "?base \<le> last_no" "?base < last_no" "?base \<le> oldest" using assms(4) by simp_all
  obtain v d' where v: "TRA_get_inventory True ?base last_no d = Inr (Some v, d')" "refreshed d d'"
    "length v = (last_no + 4 - ?base) div 4"
    "\<And>n o'. ?base \<le> n \<Longrightarrow> n \<le> last_no \<Longrightarrow> o' - o' mod 4 = ?base \<Longrightarrow> TRA_state v o' n = Inr (page_state d n)"
    using inventory_bits [OF assms(1-3) b le(1)] by blast
  have "last_no + 1 - ?base + 3 = last_no + 4 - ?base" using le(1) by linarith
  then have len: "(last_no + 1 - ?base + 3) div 4 = length v" using v(3) by (simp only:)
  have "take_snapshot tra oldest last_no d = Inr (tra\<lparr>tra_transactions := v\<rparr>, d')"
    unfolding take_snapshot_def Let_def len using v(1) le(2) assms(4,5) by simp
  moreover have "TRA_state v oldest n = Inr (page_state d n)" if "oldest \<le> n" "n \<le> last_no" for n
    by (rule v(4)) (use that le(3) in \<open>auto intro: order_trans\<close>)
  ultimately show thesis using that v(2) by blast
qed

text \<open>
  C20. A snapshot is a fixed view: whatever the database has become, a transaction with its own
  snapshot sees the others in the states they had when it was taken, those before the oldest as
  committed, and those that started after it as active.
\<close>

theorem snapshot_view:
  assumes "pages_ok d" "cache_ok d" "on_pages d last_no" "oldest < last_no"
    and tra: "tra_oldest tra = oldest" "tra_top tra = last_no" "\<not> TRA_read_committed tra" "\<not> TRA_system tra" "tra_commit_sub_trans tra = None"
  shows "\<exists>tra' d'. take_snapshot tra oldest last_no d = Inr (tra', d') \<and>
    (\<forall>may_lock n later_d. \<not> precommitted later_d n \<longrightarrow> n \<noteq> tra_number tra \<longrightarrow>
       TRA_snapshot_state may_lock tra' n later_d =
         Inr (if n < oldest \<or> n = 0 then tra_committed
              else if last_no < n then (if dbb_readOnly later_d then tra_committed else tra_active)
              else page_state d n, later_d))"
proof -
  obtain v d' where v: "take_snapshot tra oldest last_no d = Inr (tra\<lparr>tra_transactions := v\<rparr>, d')"
    "\<And>n. oldest \<le> n \<Longrightarrow> n \<le> last_no \<Longrightarrow> TRA_state v oldest n = Inr (page_state d n)"
    using snapshot_taken [OF assms(1-4) tra(3)] by blast
  show ?thesis
    by (intro exI conjI, rule v(1)) (use tra v(2) in \<open>auto simp: TRA_snapshot_state_def not_less\<close>)
qed

section \<open>Precommitted transactions\<close>

definition precommit_set :: "dbb \<Rightarrow> TraNumber set" where
  "precommit_set d = (case dbb_pc_transactions d of None \<Rightarrow> {} | Some v \<Rightarrow> set v - {0})"

definition one_each :: "dbb \<Rightarrow> bool" where
  "one_each d \<longleftrightarrow> (case dbb_pc_transactions d of None \<Rightarrow> True | Some v \<Rightarrow> distinct (filter (\<lambda>n. n \<noteq> 0) v))"

lemma put_middle:
  assumes "distinct (filter (\<lambda>n. n \<noteq> 0) (a @ old_tra # b))"
  shows "set (a @ new_tra # b) - {0} = (set (a @ old_tra # b) - {0} - {old_tra}) \<union> ({new_tra} - {0}) \<and>
    (new_tra \<notin> set (a @ old_tra # b) - {0} - {old_tra} \<longrightarrow> distinct (filter (\<lambda>n. n \<noteq> 0) (a @ new_tra # b :: nat list)))"
proof (cases "old_tra = 0")
  case False
  then have "old_tra \<notin> set a" "old_tra \<notin> set b" using assms by auto
  then show ?thesis using assms False by auto
qed (use assms in auto)

lemma put_in_place:
  assumes "p < length v" "v ! p = old_tra" "distinct (filter (\<lambda>n. n \<noteq> 0) v)"
  shows "set (v[p := new_tra]) - {0} = (set v - {0} - {old_tra}) \<union> ({new_tra} - {0}) \<and>
    (new_tra \<notin> set v - {0} - {old_tra} \<longrightarrow> distinct (filter (\<lambda>n. n \<noteq> 0) (v[p := new_tra :: nat])))"
proof -
  have v: "take p v @ old_tra # drop (Suc p) v = v" using id_take_nth_drop [OF assms(1)] unfolding assms(2) by (rule sym)
  show ?thesis using put_middle [of "take p v" old_tra "drop (Suc p) v" new_tra] assms(3)
    unfolding v upd_conv_take_nth_drop [OF assms(1)] by blast
qed

lemma precommit_vector_set:
  assumes "distinct (filter (\<lambda>n. n \<noteq> 0) v)" "old_tra \<noteq> new_tra"
  shows "set (snd (precommit_vector old_tra new_tra v)) - {0} = (set v - {0} - {old_tra}) \<union> ({new_tra} - {0}) \<and>
    (new_tra \<notin> set v - {0} - {old_tra} \<longrightarrow> distinct (filter (\<lambda>n. n \<noteq> 0) (snd (precommit_vector old_tra new_tra v))))"
proof (cases "find_from old_tra 0 v")
  case (Some p)
  then have "p < length v" "v ! p = old_tra" using find_from_some [OF Some] by simp_all
  then show ?thesis using put_in_place [OF _ _ assms(1)] Some by (simp add: precommit_vector_def)
next
  case None
  have no: "old_tra \<notin> set v" using None find_from_none by metis
  show ?thesis
  proof (cases "new_tra = 0")
    case True
    then show ?thesis using None assms no by (auto simp: precommit_vector_def)
  next
    case new: False
    show ?thesis
    proof (cases "find_from 0 0 v")
      case (Some p)
      then have "p < length v" "v ! p = 0" using find_from_some [OF Some] by simp_all
      then have "set (v[p := new_tra]) - {0} = (set v - {0} - {0}) \<union> ({new_tra} - {0}) \<and>
        (new_tra \<notin> set v - {0} - {0} \<longrightarrow> distinct (filter (\<lambda>n. n \<noteq> 0) (v[p := new_tra])))" by (rule put_in_place [OF _ _ assms(1)])
      then show ?thesis using None Some assms new no by (auto simp: precommit_vector_def)
    next
      case None0: None
      then show ?thesis using None assms new no by (auto simp: precommit_vector_def)
    qed
  qed
qed


lemma precommitted_in_set: "precommitted d n \<longleftrightarrow> n \<in> precommit_set d"
proof (cases "dbb_pc_transactions d")
  case None
  then show ?thesis by (simp add: precommitted_def precommit_set_def TRA_precommited_def)
next
  case (Some v)
  have "fst (precommit_vector n n v) \<longleftrightarrow> n \<noteq> 0 \<and> n \<in> set v"
    using find_from_none [of n 0 v] by (auto simp: precommit_vector_def split: option.splits)
  then show ?thesis using Some by (auto simp: precommitted_def precommit_set_def TRA_precommited_def split: prod.splits)
qed

lemma precommit_ask: "snd (TRA_precommited n n d) = d"
proof (cases "dbb_pc_transactions d")
  case (Some v)
  have "snd (precommit_vector n n v) = v"
    using find_from_some [of n 0 v] by (auto simp: precommit_vector_def split: option.splits)
  then show ?thesis using Some by (cases d) (auto simp: TRA_precommited_def split: prod.splits)
qed (simp add: TRA_precommited_def)



section \<open>Abandoned transactions\<close>

text \<open>The answer for a transaction that is active on its page while nobody holds its lock.\<close>

lemma snapshotState_abandoned:
  assumes "dbb_ok d" "coherent d" "covers d" "number \<le> hdr_next d" "hdr_oldest d \<le> hdr_next d" "hdr_next d < MAX_TRA_NUMBER"
    "on_pages d (hdr_next d)" "\<not> precommitted d number" "\<not> old_number d number" "page_state d number = tra_active" "may_lock number"
  obtains d' where "snapshotState may_lock number d = Inr (tra_active, d')" "refreshed d d'"
proof -
  have ok: "pages_ok d" "cache_ok d" using assms(1) by (simp_all add: dbb_ok_def)
  obtain st d' where "snapshotState may_lock number d = Inr (st, d')"
    "st = page_state d number \<or> st = tra_active \<and> \<not> may_lock number \<or> st = tra_committed \<and> old_number d number"
    using snapshotState_true [OF ok assms(2-7), of may_lock] assms(8) by auto
  then show thesis using that [of d'] snapshotState_refreshed [OF assms(1)] assms(9-11) by auto
qed

lemma TRA_state_in:
  assumes "oldest - oldest mod 4 = base" "base \<le> n" "TRANS_OFFSET (n - base) < length bits"
  shows "TRA_state bits oldest n = Inr (byte_state (bits ! TRANS_OFFSET (n - base)) (TRANS_SHIFT n))"
  unfolding TRA_state_def Let_def assms(1) using assms(2,3) by simp

lemma vector_put:
  assumes "oldest - oldest mod 4 \<le> number" "TRANS_OFFSET (number - (oldest - oldest mod 4)) < length bits" "st < 4"
    "oldest - oldest mod 4 \<le> n" "TRANS_OFFSET (n - (oldest - oldest mod 4)) < length bits"
  shows "TRA_state (bits[TRANS_OFFSET (number - (oldest - oldest mod 4)) :=
      byte_put (bits ! TRANS_OFFSET (number - (oldest - oldest mod 4))) (TRANS_SHIFT number) st]) oldest n =
    (if n = number then Inr st else TRA_state bits oldest n)"
proof -
  let ?base = "oldest - oldest mod 4"
  have same: "n = number" if "TRANS_OFFSET (n - ?base) = TRANS_OFFSET (number - ?base)" "number mod 4 = n mod 4"
  proof -
    have b: "?base mod 4 = 0" by (simp add: round_to_4)
    have "n div 4 - ?base div 4 = number div 4 - ?base div 4"
      using that(1) between_div_4 [OF b assms(1)] between_div_4 [OF b assms(4)] by (simp add: TRANS_OFFSET_def)
    moreover have "?base div 4 \<le> n div 4" "?base div 4 \<le> number div 4" using assms(1,4) by (simp_all only: div_le_mono)
    ultimately have "n div 4 = number div 4" by linarith
    then show ?thesis using that(2) by (metis div_mult_mod_eq)
  qed
  let ?j = "TRANS_OFFSET (number - ?base)" and ?i = "TRANS_OFFSET (n - ?base)"
  have state: "TRA_state b oldest n = Inr (byte_state (b ! ?i) (TRANS_SHIFT n))" if "length b = length bits" for b
    by (rule TRA_state_in [OF refl assms(4)]) (simp only: that assms(5))
  have l: "length (bits[?j := x]) = length bits" for x by simp
  show ?thesis unfolding state [OF l] state [OF refl]
  proof (cases "?i = ?j")
    case True
    have "bits[?j := x] ! ?i = x" for x unfolding True by (rule nth_list_update_eq [OF assms(2)])
    then show "Inr (byte_state (bits[?j := byte_put (bits ! ?j) (TRANS_SHIFT number) st] ! ?i) (TRANS_SHIFT n)) =
        (if n = number then Inr st else Inr (byte_state (bits ! ?i) (TRANS_SHIFT n)))"
      using same [OF True] byte_put_state [OF assms(3), of "bits ! ?j" number n] True by (simp only: split: if_split) blast
  next
    case False
    then have "bits[?j := x] ! ?i = bits ! ?i" for x by (metis nth_list_update_neq)
    then show "Inr (byte_state (bits[?j := byte_put (bits ! ?j) (TRANS_SHIFT number) st] ! ?i) (TRANS_SHIFT n)) =
        (if n = number then Inr st else Inr (byte_state (bits ! ?i) (TRANS_SHIFT n)))"
      using False by (simp only: split: if_split) blast
  qed
qed


definition holds_vector :: "jrd_tra \<Rightarrow> TraNumber \<Rightarrow> bool" where
  "holds_vector tra number \<longleftrightarrow> tra_oldest tra - tra_oldest tra mod 4 \<le> number \<and>
     TRANS_OFFSET (number - (tra_oldest tra - tra_oldest tra mod 4)) < length (tra_transactions tra)"

text \<open>
  C23. A transaction that is active on its page while nobody holds its lock is declared dead by
  whoever has waited for it: the answer, its page and the waiter's own snapshot say so, and no
  other transaction changes.
\<close>

theorem TRA_wait_abandoned:
  assumes ok: "dbb_ok d" "coherent d" "covers d" "number \<le> hdr_next d" "hdr_oldest d \<le> hdr_next d" "hdr_next d < MAX_TRA_NUMBER"
      "on_pages d (hdr_next d)" "\<not> dbb_readOnly d"
    and left: "\<not> precommitted d number" "\<not> old_number d number" "page_state d number = tra_active" "may_lock number"
      "wait = tra_no_wait \<or> lock_wait wait number"
    and vector: "number \<le> tra_top tra \<Longrightarrow> \<not> TRA_read_committed tra \<Longrightarrow> holds_vector tra number"
  shows "\<exists>tra' d'. TRA_wait lock_wait may_lock tra number wait d = Inr (tra_dead, tra', d') \<and>
    (\<forall>n. on_pages d n \<longrightarrow> page_state d' n = (if n = number then tra_dead else page_state d n)) \<and>
    (number \<le> tra_top tra \<and> \<not> TRA_read_committed tra \<longrightarrow>
       TRA_state (tra_transactions tra') (tra_oldest tra') number = Inr tra_dead)"
proof -
  have states: "tra_dead \<noteq> tra_active" "tra_active \<noteq> tra_committed" "tra_active \<noteq> tra_precommitted" "tra_dead < 4"
    by (simp_all add: tra_states)
  obtain d1 where d1: "snapshotState may_lock number d = Inr (tra_active, d1)" "refreshed d d1"
    using snapshotState_abandoned [of d number may_lock, OF ok(1-7) left(1-4)] by blast
  note f = refreshed_fields [OF d1(2)]
  have ok1: "pages_ok d1" "cache_ok d1" using refreshed_dbb_ok [OF d1(2) ok(1)] by (simp_all add: dbb_ok_def)
  have on: "on_pages d1 number" using ok(4,7) div_le_mono [OF ok(4), of "transPerTIP d"] f(10) by (simp add: on_pages_def)
  obtain d2 where d2: "TRA_set_state None number tra_dead d1 = Inr d2" "pages_ok d2" "cache_ok d2" "on_pages d2 = on_pages d1"
    "\<And>n. on_pages d1 n \<Longrightarrow> page_state d2 n = (if n = number then tra_dead else page_state d1 n)"
    by (rule set_state [OF ok1 on _ states(4), of None]) (use ok(8) f(7) that in auto)
  have pages: "\<forall>n. on_pages d n \<longrightarrow> page_state d2 n = (if n = number then tra_dead else page_state d n)"
    using d2(5) f(8,10) by simp
  note run = TRA_wait_def TRA_get_state_def d1(1) d2(1) Let_def
  have wait: "(wait \<noteq> tra_no_wait \<and> \<not> lock_wait wait number) = False" using left(5) by blast
  consider "tra_top tra < number" | "number \<le> tra_top tra" "TRA_read_committed tra"
    | "number \<le> tra_top tra" "\<not> TRA_read_committed tra" by linarith
  then show ?thesis
  proof cases
    case 1
    then have "TRA_wait lock_wait may_lock tra number wait d = Inr (tra_dead, tra, d2)"
      unfolding run wait using d2(1) states by simp
    then show ?thesis using pages 1 by auto
  next
    case 2
    obtain cache where c: "setState number tra_dead d2 = Inr (d2\<lparr>m_cache := cache\<rparr>)"
      using setState [OF d2(2,3), of number tra_dead] on d2(4) by auto
    then have "TRA_wait lock_wait may_lock tra number wait d = Inr (tra_dead, tra, d2\<lparr>m_cache := cache\<rparr>)"
      unfolding run wait using d2(1) states 2 by simp
    then show ?thesis using pages 2 by (auto simp: page_state_def)
  next
    case 3
    let ?base = "tra_oldest tra - tra_oldest tra mod 4"
    let ?j = "TRANS_OFFSET (number - ?base)"
    let ?bits = "(tra_transactions tra)[?j := byte_put (tra_transactions tra ! ?j) (TRANS_SHIFT number) tra_dead]"
    have v: "?base \<le> number" "?j < length (tra_transactions tra)" using vector [OF 3] by (simp_all add: holds_vector_def)
    have "(number < ?base \<or> ?j \<ge> length (tra_transactions tra)) = False" using v by (simp only: not_less [symmetric] simp_thms)
    then have "TRA_wait lock_wait may_lock tra number wait d = Inr (tra_dead, tra\<lparr>tra_transactions := ?bits\<rparr>, d2)"
      unfolding run wait using d2(1) states 3 by simp
    moreover have "TRA_state ?bits (tra_oldest tra) number = Inr tra_dead"
      using vector_put [OF v states(4) v] by simp
    ultimately show ?thesis using pages by auto
  qed
qed


text \<open>The small database, and a waiter whose snapshot goes up to the number 8.\<close>

definition small_tra :: jrd_tra where
  "small_tra = \<lparr>tra_number = 8, tra_top = 8, tra_oldest = 2, tra_oldest_active = 2, tra_transactions = [204, 11, 0],
     TRA_read_committed = False, TRA_system = False, TRA_readonly = False, TRA_flag_precommitted = False, tra_commit_sub_trans = None\<rparr>"

lemma small_numbers:
  "hdr_oldest small_dbb \<le> hdr_next small_dbb" "hdr_next small_dbb < MAX_TRA_NUMBER" "on_pages small_dbb (hdr_next small_dbb)"
  using small_dbb_ok(4) by (simp_all add: small_dbb_def MAX_TRA_NUMBER_def)

theorem TRA_wait_abandoned_witness:
  "\<exists>tra' d'. TRA_wait (\<lambda>wait number. False) (\<lambda>number. True) small_tra 6 tra_no_wait small_dbb = Inr (tra_dead, tra', d') \<and>
    page_state d' 6 = tra_dead \<and> page_state d' 5 = tra_dead"
proof -
  have ok: "dbb_ok small_dbb" using small_dbb_ok by (simp add: dbb_ok_def)
  have n: "6 \<le> hdr_next small_dbb" "\<not> dbb_readOnly small_dbb" "\<not> old_number small_dbb 6"
    by (simp_all add: small_dbb_def old_number_def)
  have v: "holds_vector small_tra 6" by (simp add: holds_vector_def small_tra_def TRANS_OFFSET_def)
  have p: "page_state small_dbb 6 = tra_active" "page_state small_dbb 5 = tra_dead" by code_simp+
  have "on_pages small_dbb 6" "on_pages small_dbb 5" by (simp_all add: on_pages_def small_dbb_def)
  then show ?thesis
    using TRA_wait_abandoned [OF ok small_dbb_coherent small_dbb_ok(3) n(1) small_numbers n(2) small_dbb_ok(5) n(3) p(1), of "\<lambda>number. True" tra_no_wait "\<lambda>wait number. False" small_tra]
      v p(2) by auto
qed



section \<open>Numbers beyond 32 bits\<close>

lemma bump_readOnly: "bump_transaction_id d = Inr d' \<Longrightarrow> dbb_readOnly d' = dbb_readOnly d"
  by (auto simp: bump_transaction_id_def TRA_extend_tip_def fetch_inventory_page_def updateCache_def Let_def map_sum_def
      split: if_splits sum.splits)

text \<open>
  C38. The highest number of a snapshot is kept in a variable of 32 bits when a transaction starts.
  When its number is \<open>2 ^ 32\<close> or more, what is left of it may lie below all transactions that
  matter: then the transaction sees every other one as active, committed or not.
\<close>

theorem snapshot_blind:
  assumes "bump_transaction_id d = Inr d1" "\<not> dbb_readOnly d" "le_granted env"
    "to_ULONG (hdr_next d1) < hdr_oldest d1 - hdr_oldest d1 mod 4"
    and tra: "\<not> TRA_read_committed tra" "\<not> TRA_system tra" "\<not> TRA_flag_precommitted tra" "tra_commit_sub_trans tra = None"
  shows "\<exists>tra' d'. transaction_start env tra d = Some (Inr (tra', d')) \<and> tra_number tra' = hdr_next d1 \<and>
    (\<forall>n may_lock later_d. hdr_oldest d1 \<le> n \<longrightarrow> n \<noteq> hdr_next d1 \<longrightarrow> \<not> precommitted later_d n \<longrightarrow> \<not> dbb_readOnly later_d \<longrightarrow>
       TRA_snapshot_state may_lock tra' n later_d = Inr (tra_active, later_d))"
proof -
  let ?number = "hdr_next d1" and ?last = "to_ULONG (hdr_next d1)" and ?oldest = "hdr_oldest d1"
  have ro: "\<not> dbb_readOnly d1" using bump_readOnly [OF assms(1)] assms(2) by simp
  have lt: "?last < ?oldest" using assms(4) by linarith
  let ?tra = "tra\<lparr>tra_number := ?number, tra_top := ?last, tra_oldest := ?oldest, tra_oldest_active := max (hdr_oldest_active d1) ?oldest\<rparr>"
  have begins: "begin_numbers env d = Inr (?number, ?oldest, hdr_oldest_active d1, hdr_oldest_snapshot d1, d1)"
    using assms(1,2) by (simp add: begin_numbers_def)
  have snap: "take_snapshot ?tra ?oldest ?last d1 = Inr (?tra, d1)"
    using tra(1) lt assms(4) by (simp add: take_snapshot_def Let_def)
  let ?active = "max (hdr_oldest_active d1) ?oldest"
  have active: "active_loop env ?number ?last s ?active ?number c t d1 = Some (Inr (?number, t, d1))" for s c t
    using lt by (subst active_loop.simps) simp
  let ?done_tra = "?tra\<lparr>tra_oldest_active := ?number\<rparr>"
  have interesting: "oldest_interesting ?done_tra ?last d1 = Inr ((?oldest, tra_committed), d1)"
    using lt by (simp add: oldest_interesting_def interesting_loop.simps)
  have "transaction_start env tra d = Some (Inr (?done_tra, note_numbers (decrement ?oldest) ?number ?number d1))"
    unfolding transaction_start_def begins using ro assms(3) snap active interesting tra(1,3) by (simp add: Let_def)
  moreover have "TRA_snapshot_state may_lock ?done_tra n later_d = Inr (tra_active, later_d)"
    if "?oldest \<le> n" "n \<noteq> ?number" "\<not> precommitted later_d n" "\<not> dbb_readOnly later_d" for n may_lock later_d
    using that lt tra by (simp add: TRA_snapshot_state_def)
  ultimately show ?thesis by auto
qed

definition late_dbb :: dbb where
  "late_dbb = \<lparr>transPerTIP = 12, m_cache = [], dbb_pc_transactions = None, dbb_next_transaction = 0, dbb_oldest_transaction = 0,
     dbb_oldest_active = 0, dbb_oldest_snapshot = 0, dbb_readOnly = False, tip_pages = [],
     hdr_next = 4294967299, hdr_oldest = 4294967290, hdr_oldest_active = 4294967295, hdr_oldest_snapshot = 4294967295\<rparr>"

theorem snapshot_blind_witness:
  "\<exists>tra' d'. transaction_start \<lparr>le_may_lock = \<lambda>n. True, le_wait = \<lambda>w n. True, le_granted = True, le_data = \<lambda>n. 0, le_min = 0, le_local_id = 0\<rparr>
      small_tra late_dbb = Some (Inr (tra', d')) \<and>
    TRA_snapshot_state (\<lambda>n. True) tra' 4294967291 small_dbb = Inr (tra_active, small_dbb)"
proof -
  have "\<exists>d1. bump_transaction_id late_dbb = Inr d1 \<and> hdr_next d1 = 4294967300 \<and> hdr_oldest d1 = 4294967290"
    by (simp add: bump_transaction_id_def late_dbb_def MAX_TRA_NUMBER_def)
  then obtain d1 where d1: "bump_transaction_id late_dbb = Inr d1" "hdr_next d1 = 4294967300" "hdr_oldest d1 = 4294967290" by blast
  have "\<not> dbb_readOnly late_dbb" "\<not> dbb_readOnly small_dbb" by (simp_all add: late_dbb_def small_dbb_def)
  then show ?thesis
    using snapshot_blind [OF d1(1), of "\<lparr>le_may_lock = \<lambda>n. True, le_wait = \<lambda>w n. True, le_granted = True, le_data = \<lambda>n. 0, le_min = 0, le_local_id = 0\<rparr>" small_tra]
      small_dbb_ok(5) [of 4294967291] d1(2,3) by (auto simp: small_tra_def to_ULONG_def)
qed

theorem snapshot_view_witness:
  "\<exists>tra' d'. take_snapshot small_tra 2 8 small_dbb = Inr (tra', d') \<and>
    TRA_snapshot_state (\<lambda>n. True) tra' 5 start_dbb = Inr (tra_dead, start_dbb)"
proof -
  have t: "tra_oldest small_tra = 2" "tra_top small_tra = 8" "\<not> TRA_read_committed small_tra" "\<not> TRA_system small_tra"
    "tra_commit_sub_trans small_tra = None" "tra_number small_tra = 8" by (simp_all add: small_tra_def)
  have on: "on_pages small_dbb 8" by (simp add: on_pages_def small_dbb_def)
  have "page_state small_dbb 5 = tra_dead" by code_simp
  moreover have "\<not> precommitted start_dbb 5" "\<not> dbb_readOnly start_dbb" by (simp_all add: precommitted_in_set precommit_set_def start_dbb_def)
  ultimately show ?thesis using snapshot_view [OF small_dbb_ok(1,2) on _ t(1-5)] t(6) by fastforce
qed

end
