(* ===== verification/Spec2Isabelle.thy ===== *)
theory Spec2Isabelle
  imports Prelude Codec Compressor RecordNumber MemoryRoutines IndexNode IndexSearch TimeStamp
    KMP StringMatch LikeEvaluator LikeCorrect LikeMatch LikeCompile
    LockLevel LockTable LockOps LockInvariant LockOwners LockNames LockSystem LockWait LockDeadlock LockCalls
    LockAttach LockSafety LockScenario LockProperties LockChecks LockKept LockValidate
    ClumpletTags ClumpletReader ClumpletWriter ClumpletFormat ClumpletProperties
    SortedArray TipCache Transactions TipInventory TipStates TipSteps TipProperties
begin

text \<open>
  A model of core parts of the Firebird database engine (the server's C++ sources under
  \<^verbatim>\<open>src/src\<close>), and proofs that they do what the engine relies on.

  Parts.  The engine stores records, index nodes and record numbers as bytes of pages, compares
  strings and dates for its SQL predicates, decides which transactions see one another, and lets the processes that share a database lock
  its objects through a table in shared memory.  These are the parts modelled here; they meet
  in the page formats and integers of the first group, the cache of transaction states is a
  sorted array, and otherwise they are used side by side by the engine's upper layers, which are
  not modelled.

  \<^item> \<open>Prelude\<close>, \<open>Codec\<close>: machine types, signed bytes, facts on words and lists, and the locale of
    a byte codec, interpreted on the codecs of \<open>MemoryRoutines\<close> and \<open>IndexNode\<close>.
  \<^item> \<open>Compressor\<close>: record compression and difference records (\<^verbatim>\<open>jrd/sqz.cpp\<close>, \<^verbatim>\<open>jrd/sqz.h\<close>).  A
    buffer is a list of bytes with its capacity; the functions answer what they write.
    Packing and unpacking is the identity, the lengths are those foretold, no store leaves the
    buffers, a difference record turns the first record into the second.
  \<^item> \<open>RecordNumber\<close>: record numbers and blob ids (\<^verbatim>\<open>jrd/RecordNumber.h\<close>) as 64-bit words and
    records; round trips and that the order is the physical one.
  \<^item> \<open>MemoryRoutines\<close>: loads and stores of integers on both byte orders and the portable
    integers of parameter blocks (\<^verbatim>\<open>include/memory_routines.h\<close>, \<^verbatim>\<open>yvalve/gds.cpp\<close> and the
    clumplet classes).
  \<^item> \<open>IndexNode\<close>, \<open>IndexSearch\<close>: nodes of the B-tree and the jump table
    (\<^verbatim>\<open>jrd/btn.cpp\<close>, \<^verbatim>\<open>jrd/btn.h\<close>): reading back what was written, sizes, prefix compression,
    the page of a record in a run of duplicates.
  \<^item> \<open>TimeStamp\<close>: calendar dates and times (\<^verbatim>\<open>common/classes/NoThrowTimeStamp.cpp\<close>).
  \<^item> \<open>KMP\<close>, \<open>StringMatch\<close>: the string evaluators STARTING WITH and CONTAINING, and
    \<open>LikeEvaluator\<close>, \<open>LikeCorrect\<close>, \<open>LikeMatch\<close>, \<open>LikeCompile\<close>: LIKE (\<^verbatim>\<open>jrd/evl_string.h\<close>).  An
    evaluator is a record that is fed chunks of text; the locale \<open>chunk_matcher\<close> is what a
    client relies on.  Each answers what the predicate means, however the text is cut.
  \<^item> \<open>ClumpletTags\<close> to \<open>ClumpletProperties\<close>: the parameter blocks of attachments, transactions and
    services (\<^verbatim>\<open>common/classes/ClumpletReader.cpp\<close> and \<^verbatim>\<open>ClumpletWriter.cpp\<close>).  The records \<open>pb\<close> and
    \<open>pbw\<close> are the reader and the writer over a list of bytes; errors the classes raise are
    values, a read beyond the buffer is one of them, a loop that does not return is \<open>None\<close>.
    \<open>ClumpletFormat\<close> says which blocks hold a list of clumplets, \<open>ClumpletProperties\<close> that
    the classes work on that list, and what they do with any bytes.
  \<^item> \<open>SortedArray\<close>: growing and sorted arrays (\<^verbatim>\<open>common/classes/array.h\<close>): the list of the
    elements with a capacity; the locale \<open>comparator\<close> has what the search needs of the template's
    comparator.
  \<^item> \<open>TipCache\<close> to \<open>TipProperties\<close>: the states of transactions (\<^verbatim>\<open>jrd/tpc.cpp\<close>, \<^verbatim>\<open>jrd/tra.cpp\<close>).
    The record \<open>dbb\<close> is what one process knows of the database, together with the inventory pages
    and the numbers of the header page that all share.  \<open>TipCache\<close> has the pages, the cache of their
    bits (the class \<open>TipCache\<close>) and the precommitted transactions, \<open>Transactions\<close> the start of a
    transaction, its snapshot, what it sees and how it waits.  What the lock manager answers is an
    argument.  \<open>TipInventory\<close> and \<open>TipStates\<close> show what reading and changing states does to pages
    and cache, \<open>TipSteps\<close> that every operation of a process keeps the cache of each process true,
    with the relation \<open>sys_step\<close> of the operations of all processes, and \<open>TipProperties\<close> what
    transactions get from it: true caches, unique numbers, fixed snapshots.
  \<^item> \<open>LockLevel\<close> to \<open>LockValidate\<close>: the lock manager (\<^verbatim>\<open>lock/lock.cpp\<close>, \<^verbatim>\<open>lock/lock_proto.h\<close>).

  The lock manager.  The record \<open>lhb\<close> of \<open>LockTable\<close> is the whole table: the header's fields and,
  as functions of the offset, the request, lock, owner and process blocks.  A queue that runs
  through blocks is the list of its members, held where its header is.  \<open>LockOps\<close> has the
  operations of the calls; a call that sleeps is cut into the part before the sleep, one pass
  of the waiting loop and the part after it, and a call of a blocking AST is cut in the same
  way, so that other processes' steps can come between.  \<open>LockAttach\<close> has the making of the
  table, processes and owners.  What the operating system decides (whether a process lives, an
  event is delivered, memory is mapped) and the hash function are the environment \<open>lm_env\<close>.
  The invariant is built in layers, each with the lemmas that every operation keeps it:
  \<open>LockInvariant\<close> (queues and counters of a lock, free lists), \<open>LockOwners\<close> (the queues of an
  owner), \<open>LockNames\<close> (hash chains and data queues), \<open>LockSystem\<close> (owners and processes, and the
  four together as \<open>lm_inv\<close>), then \<open>LockWait\<close>, \<open>LockDeadlock\<close>, \<open>LockCalls\<close> for the calls.
  \<open>LockSafety\<close> is the system: the relation \<open>lm_step\<close>, whose premises are what the callers owe, and
  the tables that can be reached.  \<open>LockScenario\<close> runs it on an example, \<open>LockProperties\<close> states
  what holds in every table that can be reached.  \<open>LockChecks\<close> has the checks that a debugging
  build makes of the table and a stronger invariant \<open>valid\<close>, which includes that nobody waits
  without a reason; \<open>LockKept\<close> shows that every step keeps it, \<open>LockValidate\<close> that the checks
  follow from it.

  Bounds and fuel.  The recursion of the deadlock walk has a fuel of two more than the number
  of waiting requests; every level of the recursion marks another one, so it never runs out,
  which is proved.  Loops of the byte formats recur on their input.  \<open>kmp_back\<close> is a partial
  function, proved to return for the tables the constructors build.  Queues of a lock are
  bounded by what their 16-bit counters can count; a longer queue makes the counters wrap.
  Transaction numbers are natural numbers, which the code keeps below \<open>2 ^ 48\<close>; where it puts one
  into 32 bits, so does the model.

  Not modelled: in the lock manager the mutex of the shared memory, its remapping and the
  repair of a queue whose owner died while changing it, and the threads that deliver
  notices; of transactions commit and rollback with their deferred work, savepoints, sweeping and
  transaction parameter blocks; of the engine, whatever rests on page buffers,
  files, sockets, threads, plugins or memory pools (the list is in the manifest), generated
  tables of character sets, and the SQL front end.
\<close>

end
